(* ===== verification/Prelude.thy ===== *)
theory Prelude
  imports Main "HOL-Library.Word" "HOL-Library.Char_ord" "HOL-Library.List_Lexorder"
begin

text \<open>
  Shared vocabulary of the development: the machine types of the C++ sources, words read as
  lists of bits with the most significant bit first, big-endian byte images, and two codec
  interfaces (a decoder that consumes a prefix of its input, a decoder that consumes all of it)
  that the encoders of the components are shown to satisfy.
\<close>

unbundle bit_operations_syntax

section \<open>Machine types\<close>

type_synonym u8 = "8 word"
type_synonym u16 = "16 word"
type_synonym u32 = "32 word"
type_synonym u64 = "64 word"

text \<open>
  A signed 64-bit integer is the same word read by \<open>sint\<close>, a \<open>double\<close> is the word that
  \<open>std::bit_cast\<close> makes of it: the sources never compute with a sample value, they only
  move and compare its bits.
\<close>

type_synonym i64 = "64 word"
type_synonym double = "64 word"
type_synonym bytes = "u8 list"

named_theorems bitlist "words as lists of bits"
named_theorems codec "decoding what was just encoded"

section \<open>Words as numbers\<close>

lemma unat_bound: "unat (w :: 'a::len word) < 2 ^ LENGTH('a)"
  by (rule unsigned_less)

lemma unat_drop_bit: "unat (drop_bit n w) = unat w div 2 ^ n"
  using unat_drop_bit_eq [of n w] by (simp add: drop_bit_eq_div)

lemma unat_take_bit: "unat (take_bit n w) = unat w mod 2 ^ n"
  by (simp only: unsigned_take_bit_eq) (simp add: take_bit_eq_mod)

lemma unat_ucast: "unat (ucast w :: 'b::len word) = unat w mod 2 ^ LENGTH('b)"
  by (simp only: unsigned_ucast_eq take_bit_eq_mod)

lemma odd_unat: "odd (unat w) \<longleftrightarrow> bit w 0" for w :: "'a::len word"
  by (simp add: bit_unsigned_iff flip: bit_0)

lemma bit_iff_unat: "bit w n \<longleftrightarrow> odd (unat w div 2 ^ n)" for w :: "'a::len word"
  by (simp add: odd_unat bit_drop_bit_eq flip: unat_drop_bit)

lemma and_one_iff: "w AND 1 = 0 \<longleftrightarrow> \<not> bit w 0" for w :: "'a::len word"
  by (simp add: and_one_eq bit_0 even_iff_mod_2_eq_zero)

lemma xor_cancel_right [simp]: "a XOR c = b XOR c \<longleftrightarrow> a = (b :: 'a::len word)"
proof
  assume "a XOR c = b XOR c"
  then have "(a XOR c) XOR c = (b XOR c) XOR c" by simp
  then show "a = b" by (simp add: xor.assoc)
qed simp

lemma xor_eq_0_iff [simp]: "a XOR b = 0 \<longleftrightarrow> a = (b :: 'a::len word)"
  using xor_cancel_right [of a b b] by simp

lemma xor_twice [simp]: "a XOR (a XOR b) = (b :: 'a::len word)"
  by (simp add: xor.assoc [symmetric])

lemma take_drop_append [simp]: "take n xs @ drop n xs @ ys = xs @ ys"
  by (simp add: append.assoc [symmetric] del: append.assoc append_assoc)

section \<open>Words as bit lists\<close>

text \<open>\<open>word_bits n w\<close> lists the \<open>n\<close> low bits of \<open>w\<close>, most significant first.\<close>

definition word_bits :: "nat \<Rightarrow> 'a::len word \<Rightarrow> bool list" where
  "word_bits n w = map (bit w) (rev [0..<n])"

definition bits_word :: "bool list \<Rightarrow> 'a::len word" where
  "bits_word bs = horner_sum of_bool 2 (rev bs)"

definition bytes_bits :: "bytes \<Rightarrow> bool list" where
  "bytes_bits bs = concat (map (word_bits 8) bs)"

lemma length_word_bits [simp]: "length (word_bits n w) = n"
  by (simp add: word_bits_def)

lemma word_bits_0 [simp]: "word_bits 0 w = []"
  by (simp add: word_bits_def)

lemma word_bits_eq_Nil [simp]: "word_bits n w = [] \<longleftrightarrow> n = 0"
  by (simp add: word_bits_def)

lemma word_bits_Suc: "word_bits (Suc n) w = bit w n # word_bits n w"
  by (simp add: word_bits_def)

lemma nth_word_bits: "i < n \<Longrightarrow> word_bits n w ! i = bit w (n - 1 - i)"
  by (simp add: word_bits_def rev_nth)

lemma word_bits_append:
  "word_bits (m + n) w = word_bits m (drop_bit n w) @ word_bits n w"
  by (induction m) (simp_all add: word_bits_Suc bit_drop_bit_eq add.commute)

lemma word_bits_eqI:
  "(\<And>i. i < n \<Longrightarrow> bit v i = bit w i) \<Longrightarrow> word_bits n v = word_bits n w"
  by (induction n) (simp_all add: word_bits_Suc)

lemma word_bits_zero [simp]: "word_bits n 0 = replicate n False"
  by (induction n) (simp_all add: word_bits_Suc)

lemma word_bits_take_bit [simp]: "n \<le> m \<Longrightarrow> word_bits n (take_bit m w) = word_bits n w"
  by (rule word_bits_eqI) (simp add: bit_take_bit_iff)

lemma word_bits_ucast:
  "n \<le> LENGTH('a) \<Longrightarrow> word_bits n (ucast w :: 'a::len word) = word_bits n w"
  by (rule word_bits_eqI) (simp add: bit_simps)

lemma take_word_bits: "m \<le> n \<Longrightarrow> take m (word_bits n w) = word_bits m (drop_bit (n - m) w)"
  using word_bits_append [of m "n - m" w] by simp

lemma drop_word_bits: "m \<le> n \<Longrightarrow> drop m (word_bits n w) = word_bits (n - m) w"
  using word_bits_append [of m "n - m" w] by simp

lemma bits_word_Nil [simp]: "bits_word [] = 0"
  by (simp add: bits_word_def)

lemma bit_bits_word:
  "bit (bits_word bs :: 'a::len word) n \<longleftrightarrow> n < min LENGTH('a) (length bs) \<and> rev bs ! n"
  by (simp add: bits_word_def bit_horner_sum_bit_word_iff)

lemma bits_word_word_bits [simp]: "bits_word (word_bits n w) = take_bit n w"
  by (simp add: bits_word_def word_bits_def rev_map horner_sum_bit_eq_take_bit)

lemma word_bits_bits_word [simp]:
  "length bs = n \<Longrightarrow> n \<le> LENGTH('a) \<Longrightarrow> word_bits n (bits_word bs :: 'a::len word) = bs"
  by (rule nth_equalityI) (simp_all add: nth_word_bits bit_bits_word rev_nth)

lemma bits_word_append:
  "bits_word (xs @ ys) = push_bit (length ys) (bits_word xs) OR (bits_word ys :: 'a::len word)"
  by (rule bit_word_eqI) (auto simp: bit_simps bit_bits_word nth_append)

lemma word_bits_inject:
  "word_bits LENGTH('a) v = word_bits LENGTH('a) w \<longleftrightarrow> v = (w :: 'a::len word)"
proof
  assume "word_bits LENGTH('a) v = word_bits LENGTH('a) w"
  then have "bits_word (word_bits LENGTH('a) v) = (bits_word (word_bits LENGTH('a) w) :: 'a word)"
    by simp
  then show "v = w" by simp
qed simp

lemma bytes_bits_simps [simp]:
  "bytes_bits [] = []"
  "bytes_bits (b # bs) = word_bits 8 b @ bytes_bits bs"
  "bytes_bits (xs @ ys) = bytes_bits xs @ bytes_bits ys"
  by (simp_all add: bytes_bits_def)

lemma length_bytes_bits [simp]: "length (bytes_bits bs) = 8 * length bs"
  by (induction bs) simp_all

lemma bytes_bits_eq_Nil [simp]: "bytes_bits bs = [] \<longleftrightarrow> bs = []"
  using length_bytes_bits [of bs] by (metis length_0_conv mult_eq_0_iff zero_neq_numeral)

lemma drop_bytes_bits: "drop (8 * n) (bytes_bits bs) = bytes_bits (drop n bs)"
proof (induction bs arbitrary: n)
  case (Cons b bs)
  then show ?case by (cases n) simp_all
qed simp

lemma take_bytes_bits: "take (8 * n) (bytes_bits bs) = bytes_bits (take n bs)"
proof (induction bs arbitrary: n)
  case (Cons b bs)
  then show ?case by (cases n) simp_all
qed simp

lemma nth_bytes_bits:
  "n < 8 * length bs \<Longrightarrow> bytes_bits bs ! n = bit (bs ! (n div 8)) (7 - n mod 8)"
proof (induction bs arbitrary: n)
  case (Cons b bs)
  show ?case
  proof (cases "n < 8")
    case False
    then have "bytes_bits bs ! (n - 8) = bit (bs ! ((n - 8) div 8)) (7 - (n - 8) mod 8)"
      using Cons.prems by (intro Cons.IH) simp
    moreover have "n div 8 = Suc ((n - 8) div 8)" "(n - 8) mod 8 = n mod 8"
      using False by (simp_all add: le_div_geq le_mod_geq)
    ultimately show ?thesis
      using False by (simp add: nth_append)
  qed (simp add: nth_append nth_word_bits)
qed simp

lemmas [bitlist] = word_bits_Suc word_bits_append bits_word_append bit_bits_word

section \<open>Big-endian byte images\<close>

definition be16 :: "u16 \<Rightarrow> bytes" where
  "be16 w = [ucast (drop_bit 8 w), ucast w]"

definition be32 :: "u32 \<Rightarrow> bytes" where
  "be32 w = [ucast (drop_bit 24 w), ucast (drop_bit 16 w), ucast (drop_bit 8 w), ucast w]"

definition be64 :: "u64 \<Rightarrow> bytes" where
  "be64 w = [ucast (drop_bit 56 w), ucast (drop_bit 48 w), ucast (drop_bit 40 w),
             ucast (drop_bit 32 w), ucast (drop_bit 24 w), ucast (drop_bit 16 w),
             ucast (drop_bit 8 w), ucast w]"

definition read_be16 :: "bytes \<Rightarrow> u16" where
  "read_be16 b = push_bit 8 (ucast (b ! 0)) OR ucast (b ! 1)"

definition read_be32 :: "bytes \<Rightarrow> u32" where
  "read_be32 b = push_bit 24 (ucast (b ! 0)) OR push_bit 16 (ucast (b ! 1))
                 OR push_bit 8 (ucast (b ! 2)) OR ucast (b ! 3)"

definition read_be64 :: "bytes \<Rightarrow> u64" where
  "read_be64 b = push_bit 56 (ucast (b ! 0)) OR push_bit 48 (ucast (b ! 1))
                 OR push_bit 40 (ucast (b ! 2)) OR push_bit 32 (ucast (b ! 3))
                 OR push_bit 24 (ucast (b ! 4)) OR push_bit 16 (ucast (b ! 5))
                 OR push_bit 8 (ucast (b ! 6)) OR ucast (b ! 7)"

lemma length_be [simp]: "length (be16 w) = 2" "length (be32 v) = 4" "length (be64 u) = 8"
  by (simp_all add: be16_def be32_def be64_def)

text \<open>The images are the words' bits cut into bytes, so reading one back is \<open>bits_word\<close>.\<close>

lemma bits_word_byte [simp]:
  "bits_word (word_bits 8 (b :: u8)) = (ucast b :: 'a::len word)"
proof (rule bit_word_eqI)
  fix n assume "n < LENGTH('a)"
  then show "bit (bits_word (word_bits 8 b) :: 'a word) n = bit (ucast b :: 'a word) n"
    using bit_imp_le_length [of b n]
    by (auto simp: bit_bits_word word_bits_def rev_map bit_simps nth_map [of n "[0..<8]"])
qed

lemma bytes_bits_be16: "bytes_bits (be16 w) = word_bits 16 w"
  using word_bits_append [of 8 8 w] by (simp add: be16_def word_bits_ucast)

lemma bytes_bits_be32: "bytes_bits (be32 w) = word_bits 32 w"
  using word_bits_append [of 8 24 w] word_bits_append [of 8 16 w] word_bits_append [of 8 8 w]
  by (simp add: be32_def word_bits_ucast)

lemma bytes_bits_be64: "bytes_bits (be64 w) = word_bits 64 w"
  using word_bits_append [of 8 56 w] word_bits_append [of 8 48 w] word_bits_append [of 8 40 w]
    word_bits_append [of 8 32 w] word_bits_append [of 8 24 w] word_bits_append [of 8 16 w]
    word_bits_append [of 8 8 w]
  by (simp add: be64_def word_bits_ucast)

lemma list_by_length:
  "length b = 2 \<Longrightarrow> b = [b ! 0, b ! 1]"
  "length b = 4 \<Longrightarrow> b = [b ! 0, b ! 1, b ! 2, b ! 3]"
  "length b = 8 \<Longrightarrow> b = [b ! 0, b ! 1, b ! 2, b ! 3, b ! 4, b ! 5, b ! 6, b ! 7]"
  by (simp_all add: list_eq_iff_nth_eq less_Suc_eq numeral_eq_Suc)

lemma take_bit_full [simp]:
  "take_bit 8 (a :: u8) = a" "take_bit 16 (b :: u16) = b" "take_bit 32 (c :: u32) = c"
  "take_bit 64 (d :: u64) = d"
  by (simp_all add: take_bit_word_eq_self)

lemma read_be16_bits: "length b = 2 \<Longrightarrow> read_be16 (b @ rest) = bits_word (bytes_bits b)"
  by (drule list_by_length(1), erule ssubst) (simp add: read_be16_def bits_word_append)

lemma read_be32_bits: "length b = 4 \<Longrightarrow> read_be32 (b @ rest) = bits_word (bytes_bits b)"
  by (drule list_by_length(2), erule ssubst) (simp add: read_be32_def bits_word_append or.assoc)

lemma read_be64_bits: "length b = 8 \<Longrightarrow> read_be64 (b @ rest) = bits_word (bytes_bits b)"
  by (drule list_by_length(3), erule ssubst) (simp add: read_be64_def bits_word_append or.assoc)

lemma read_be_be [codec, simp]:
  "read_be16 (be16 w @ rest) = w" "read_be32 (be32 v @ rest) = v" "read_be64 (be64 u @ rest) = u"
  by (simp_all add: read_be16_bits read_be32_bits read_be64_bits
      bytes_bits_be16 bytes_bits_be32 bytes_bits_be64)

lemmas read_be_be_Nil [codec, simp] = read_be_be [where rest = "[]", simplified]

section \<open>Strings as bytes\<close>

text \<open>A \<open>std::string\<close> is a list of characters; on the wire each is one byte.\<close>

definition char_byte :: "char \<Rightarrow> u8" where
  "char_byte c = word_of_nat (of_char c)"

definition byte_char :: "u8 \<Rightarrow> char" where
  "byte_char b = char_of (unat b)"

definition string_bytes :: "string \<Rightarrow> bytes" where
  "string_bytes s = map char_byte s"

definition bytes_string :: "bytes \<Rightarrow> string" where
  "bytes_string bs = map byte_char bs"

lemma byte_char_char_byte [simp]: "byte_char (char_byte c) = c"
  by (simp add: byte_char_def char_byte_def unat_of_nat)

lemma bytes_string_bytes [codec, simp]: "bytes_string (string_bytes s) = s"
  by (simp add: bytes_string_def string_bytes_def comp_def)

lemma length_string_bytes [simp]: "length (string_bytes s) = length s"
  by (simp add: string_bytes_def)

section \<open>Codec interfaces\<close>

text \<open>
  A decoder over a span reports the value and how many bytes it took. The law every such
  encoder of the sources satisfies: decoding an encoding followed by anything gives the value
  back and stops exactly at its end.
\<close>

locale prefix_codec =
  fixes enc :: "'a \<Rightarrow> bytes"
    and dec :: "bytes \<Rightarrow> 'e + ('a \<times> nat)"
    and wf :: "'a \<Rightarrow> bool"
  assumes dec_enc: "wf x \<Longrightarrow> dec (enc x @ rest) = Inr (x, length (enc x))"
begin

lemma prefix_free:
  assumes "wf x" "wf y" "enc x @ r = enc y @ s"
  shows "x = y \<and> r = s"
proof -
  have "dec (enc x @ r) = Inr (x, length (enc x))" "dec (enc y @ s) = Inr (y, length (enc y))"
    using assms(1,2) by (simp_all add: dec_enc)
  then have "x = y" using assms(3) by simp
  then show ?thesis using assms(3) by simp
qed

lemma enc_inject: "wf x \<Longrightarrow> wf y \<Longrightarrow> enc x = enc y \<longleftrightarrow> x = y"
  using prefix_free [of x y "[]" "[]"] by auto

lemma dec_enc_exact: "wf x \<Longrightarrow> dec (enc x) = Inr (x, length (enc x))"
  using dec_enc [of x "[]"] by simp

text \<open>A list of values encoded back to back determines the list.\<close>

lemma concat_inject:
  assumes "list_all wf xs" "list_all wf ys" "length xs = length ys"
    "concat (map enc xs) = concat (map enc ys)"
  shows "xs = ys"
  using assms(3,1,2,4)
proof (induction xs ys rule: list_induct2)
  case (Cons x xs y ys)
  then show ?case using prefix_free [of x y] by auto
qed simp

end

text \<open>A decoder of a whole record either returns the value or an error.\<close>

locale record_codec =
  fixes enc :: "'a \<Rightarrow> bytes"
    and dec :: "bytes \<Rightarrow> 'e + 'a"
    and wf :: "'a \<Rightarrow> bool"
  assumes dec_enc: "wf x \<Longrightarrow> dec (enc x) = Inr x"
begin

lemma enc_inject: "wf x \<Longrightarrow> wf y \<Longrightarrow> enc x = enc y \<longleftrightarrow> x = y"
  by (metis dec_enc sum.inject(2))

lemma dec_all: "list_all wf xs \<Longrightarrow> map dec (map enc xs) = map Inr xs"
  by (induction xs) (simp_all add: dec_enc)

end

end
