(* ===== verification/Varint.thy ===== *)
theory Varint
  imports Prelude
begin

text \<open>
  Variable-length integers (src/encoding/varint.cpp): LEB128 for unsigned 64-bit words, zigzag
  followed by LEB128 for signed ones, and the error categories of the decoding layer
  (encoding/error.hpp). Shown: both directions are inverse to each other on every 64-bit
  value, whatever follows the encoding; an encoding takes one to ten bytes; a decoder never
  takes more bytes than it was given and never more than ten.
\<close>

section \<open>Decoding errors\<close>

text \<open>
  The three values of the enum, and one more for what the enum cannot say: the C++ execution
  runs into undefined behaviour (a shift by a negative amount or by at least the width of its
  operand). Only the bit reader and the XOR decoder can produce it.
\<close>

datatype ReadError = EndOfStream | UnexpectedEnd | VarintOverflow | UndefinedBehaviour

definition max_varint_len64 :: nat where
  "max_varint_len64 = 10"

section \<open>Encoding\<close>

text \<open>
  The encoders fill a caller's buffer and return the number of bytes written; the model is the
  list of the bytes written, so the count is its length.
\<close>

function put_uvarint :: "u64 \<Rightarrow> bytes" where
  "put_uvarint x =
     (if x \<ge> 0x80 then (ucast x OR 0x80) # put_uvarint (drop_bit 7 x) else [ucast x])"
  by pat_completeness auto
termination
  by (relation "measure unat") (auto simp: unat_drop_bit word_le_nat_alt)

declare put_uvarint.simps [simp del]

definition zigzag :: "i64 \<Rightarrow> u64" where
  "zigzag x = push_bit 1 x XOR signed_drop_bit 63 x"

definition unzigzag :: "u64 \<Rightarrow> i64" where
  "unzigzag ux = (let x = drop_bit 1 ux in if ux AND 1 \<noteq> 0 then NOT x else x)"

definition put_varint :: "i64 \<Rightarrow> bytes" where
  "put_varint x = put_uvarint (zigzag x)"

section \<open>Decoding\<close>

text \<open>The loop over the span, with its index, accumulator and shift.\<close>

fun read_uvarint_loop :: "bytes \<Rightarrow> nat \<Rightarrow> u64 \<Rightarrow> nat \<Rightarrow> ReadError + (u64 \<times> nat)" where
  "read_uvarint_loop [] i x s = Inl UnexpectedEnd"
| "read_uvarint_loop (b # bs) i x s =
     (if i = max_varint_len64 then Inl VarintOverflow
      else if b < 0x80 then
        if i = max_varint_len64 - 1 \<and> b > 1 then Inl VarintOverflow
        else Inr (x OR push_bit s (ucast b), i + 1)
      else read_uvarint_loop bs (i + 1) (x OR push_bit s (ucast (b AND 0x7F))) (s + 7))"

definition read_uvarint :: "bytes \<Rightarrow> ReadError + (u64 \<times> nat)" where
  "read_uvarint buf = (if buf = [] then Inl EndOfStream else read_uvarint_loop buf 0 0 0)"

definition read_varint :: "bytes \<Rightarrow> ReadError + (i64 \<times> nat)" where
  "read_varint buf =
     (case read_uvarint buf of Inl e \<Rightarrow> Inl e | Inr (ux, n) \<Rightarrow> Inr (unzigzag ux, n))"

section \<open>Lemmas\<close>

lemma byte_less_128: "(b :: u8) < 0x80 \<longleftrightarrow> \<not> bit b 7"
proof -
  have "unat b < 256"
    using unat_bound [of b] by simp
  then have "unat b div 128 = 0 \<or> unat b div 128 = 1 \<and> 128 \<le> unat b"
    by linarith
  then show ?thesis
    by (auto simp: word_less_nat_alt bit_iff_unat)
qed

lemma unzigzag_zigzag [simp]: "unzigzag (zigzag x) = x"
proof -
  have odd: "zigzag x AND 1 = 0 \<longleftrightarrow> \<not> bit x 63"
    unfolding and_one_iff zigzag_def bit_xor_iff bit_push_bit_iff bit_signed_drop_bit_iff by simp
  show ?thesis
  proof (rule bit_word_eqI)
    fix n assume n: "n < LENGTH(64)"
    have "bit (zigzag x) (Suc n) = (n < 63 \<and> bit x n \<noteq> bit x 63)"
      unfolding zigzag_def bit_xor_iff bit_push_bit_iff bit_signed_drop_bit_iff
      using bit_imp_le_length [of x "64 + n"] by auto
    then have "bit (drop_bit 1 (zigzag x)) n = (n < 63 \<and> bit x n \<noteq> bit x 63)"
      by (simp add: bit_drop_bit_eq)
    moreover have "n < 63 \<or> n = 63"
      using n by auto
    ultimately show "bit (unzigzag (zigzag x)) n = bit x n"
      using n by (auto simp: unzigzag_def Let_def odd bit_not_iff_eq)
  qed
qed

lemma put_uvarint_nonempty [simp]: "put_uvarint x \<noteq> []"
  by (subst put_uvarint.simps) simp

lemma put_uvarint_small: "x < 0x80 \<Longrightarrow> put_uvarint x = [ucast x]"
  by (subst put_uvarint.simps) (simp add: not_le [symmetric])

lemma length_put_uvarint_bound: "unat x < 2 ^ (7 * n) \<Longrightarrow> 0 < n \<Longrightarrow> length (put_uvarint x) \<le> n"
proof (induction x arbitrary: n rule: put_uvarint.induct)
  case (1 x)
  show ?case
  proof (cases "x \<ge> 0x80")
    case True
    then have "n \<noteq> 1"
      using "1.prems" by (auto simp: word_le_nat_alt)
    then obtain m where m: "n = Suc m" "0 < m"
      using "1.prems"(2) by (cases n) auto
    then have "unat (drop_bit 7 x) < 2 ^ (7 * m)"
      using "1.prems"(1) by (simp add: unat_drop_bit power_add less_mult_imp_div_less mult.commute)
    then show ?thesis
      using "1.IH" [OF True, of m] True m by (subst put_uvarint.simps) simp
  next
    case False
    then show ?thesis using "1.prems" by (subst put_uvarint.simps) simp
  qed
qed

lemma length_put_uvarint: "length (put_uvarint x) \<le> max_varint_len64"
  using length_put_uvarint_bound [of x 10] unat_bound [of x] by (simp add: max_varint_len64_def)

text \<open>A continuation byte carries the seven low bits; the rest follows seven places higher.\<close>

lemma bit_seven_literals: "bit (0x7F :: u8) k \<longleftrightarrow> k < 7" "bit (0x80 :: u8) k \<longleftrightarrow> k = 7"
proof -
  have "(0x7F :: u8) = mask 7" "(0x80 :: u8) = push_bit 7 1"
    by (simp_all add: mask_eq_exp_minus_1 push_bit_eq_mult)
  then show "bit (0x7F :: u8) k \<longleftrightarrow> k < 7" "bit (0x80 :: u8) k \<longleftrightarrow> k = 7"
    by (auto simp only: bit_simps) auto
qed

lemma continuation_payload: "(b OR 0x80) AND 0x7F = take_bit 7 (b :: u8)"
  by (rule bit_word_eqI) (unfold bit_and_iff bit_or_iff bit_take_bit_iff bit_seven_literals, auto)

lemma ucast_take_bit_ucast: "ucast (take_bit 7 (ucast x :: u8)) = take_bit 7 (x :: u64)"
  by (rule bit_word_eqI) (auto simp: bit_simps)

lemma group_merge:
  "push_bit s (take_bit 7 x) OR push_bit (s + 7) (drop_bit 7 x) = push_bit s (x :: u64)"
proof (rule bit_word_eqI)
  fix n assume "n < LENGTH(64)"
  moreover have "n - s < 7 \<or> 7 + (n - (s + 7)) = n - s"
    by linarith
  ultimately show "bit (push_bit s (take_bit 7 x) OR push_bit (s + 7) (drop_bit 7 x)) n
      = bit (push_bit s x) n"
    by (auto simp: bit_simps)
qed

lemma read_uvarint_loop_put:
  assumes "unat x < 2 ^ (64 - 7 * i)" "i \<le> 9"
  shows "read_uvarint_loop (put_uvarint x @ rest) i acc (7 * i)
       = Inr (acc OR push_bit (7 * i) x, i + length (put_uvarint x))"
  using assms
proof (induction x arbitrary: i acc rule: put_uvarint.induct)
  case (1 x)
  show ?case
  proof (cases "x \<ge> 0x80")
    case False
    then have small: "put_uvarint x = [ucast x]" "unat x < 128"
      by (simp_all add: put_uvarint_small not_le word_less_nat_alt)
    then have b: "unat (ucast x :: u8) = unat x"
      by (simp add: unat_ucast)
    have bk: "ucast (ucast x :: u8) = x"
      using small(2) by (simp add: word_unat_eq_iff b unat_ucast)
    have "i = 9 \<Longrightarrow> unat x < 2"
      using "1.prems" by simp
    then show ?thesis
      using small "1.prems" by (auto simp: max_varint_len64_def word_less_nat_alt b bk)
  next
    case True
    then have ge: "128 \<le> unat x"
      by (simp add: word_le_nat_alt)
    have "(2 :: nat) ^ 7 < 2 ^ (64 - 7 * i)"
      using ge "1.prems"(1) by simp
    then have "7 < 64 - 7 * i"
      by (metis power_less_imp_less_exp one_less_numeral_iff semiring_norm(76))
    then have i: "i \<le> 8"
      by simp
    then have "64 - 7 * i = 7 + (64 - 7 * (i + 1))"
      by simp
    then have "unat x < 2 ^ (64 - 7 * (i + 1)) * 128"
      using "1.prems"(1) by (simp only: power_add) simp
    then have lt: "unat (drop_bit 7 x) < 2 ^ (64 - 7 * (i + 1))"
      by (simp add: unat_drop_bit less_mult_imp_div_less)
    have eq: "put_uvarint x = (ucast x OR 0x80) # put_uvarint (drop_bit 7 x)"
      using True by (subst put_uvarint.simps) simp
    have "\<not> (ucast x OR 0x80 :: u8) < 0x80"
      by (simp add: byte_less_128 bit_or_iff bit_seven_literals)
    then show ?thesis
      using "1.IH" [OF True lt] i
      by (simp add: eq max_varint_len64_def continuation_payload ucast_take_bit_ucast or.assoc
          add.commute [of 7] group_merge)
  qed
qed

lemma read_uvarint_put [codec, simp]:
  "read_uvarint (put_uvarint x @ rest) = Inr (x, length (put_uvarint x))"
  using read_uvarint_loop_put [of x 0 rest 0] unat_bound [of x] by (simp add: read_uvarint_def)

lemma read_varint_put [codec, simp]:
  "read_varint (put_varint x @ rest) = Inr (x, length (put_varint x))"
  by (simp add: read_varint_def put_varint_def)

interpretation uvarint: prefix_codec put_uvarint read_uvarint "\<lambda>_. True"
  by unfold_locales simp

interpretation varint: prefix_codec put_varint read_varint "\<lambda>_. True"
  by unfold_locales simp

lemmas varint_exact [codec, simp] = uvarint.dec_enc_exact varint.dec_enc_exact

lemma read_uvarint_loop_consumed:
  "read_uvarint_loop bs i x s = Inr (v, n) \<Longrightarrow> i \<le> max_varint_len64 \<Longrightarrow>
     i < n \<and> n \<le> i + length bs \<and> n \<le> max_varint_len64"
  by (induction bs i x s rule: read_uvarint_loop.induct)
    (fastforce simp: max_varint_len64_def split: if_splits)+

lemma read_uvarint_consumed:
  "read_uvarint buf = Inr (v, n) \<Longrightarrow> 0 < n \<and> n \<le> length buf \<and> n \<le> max_varint_len64"
  using read_uvarint_loop_consumed [of buf 0 0 0] by (auto simp: read_uvarint_def split: if_splits)

lemma read_varint_consumed:
  "read_varint buf = Inr (v, n) \<Longrightarrow> 0 < n \<and> n \<le> length buf \<and> n \<le> max_varint_len64"
  by (auto simp: read_varint_def dest: read_uvarint_consumed split: sum.splits prod.splits)

section \<open>Properties\<close>

text \<open>
  C36. Varint round trip: every signed and every unsigned 64-bit value is decoded back from its
  encoding, whatever bytes follow, and the decoder stops exactly at the end of the encoding;
  the encoding never needs more than the ten bytes its callers provide.
\<close>

theorem varint_roundtrip:
  "read_uvarint (put_uvarint x @ rest) = Inr (x, length (put_uvarint x)) \<and>
   read_varint (put_varint y @ rest) = Inr (y, length (put_varint y)) \<and>
   length (put_uvarint x) \<in> {1..max_varint_len64} \<and>
   length (put_varint y) \<in> {1..max_varint_len64}"
proof -
  have "length (put_uvarint z) \<in> {1..max_varint_len64}" for z
    using length_put_uvarint [of z] by (simp add: Suc_le_eq)
  then show ?thesis
    by (simp add: put_varint_def [of y, THEN arg_cong [where f = length]])
qed

end
