(* ===== verification/Bstream.thy ===== *)
theory Bstream
  imports Varint
begin

text \<open>
  The bit-level writer and reader (src/encoding/bstream.cpp). The writer appends bits to the
  unused low bits of its last byte, the reader keeps up to 64 bits in a buffer that it refills
  from the span by an eight-byte fast path or a byte-wise tail path. Both are related to the
  plain list of bits they stand for: a write appends to that list, a read takes from its front,
  and the reader fails only where the list is too short.
\<close>

section \<open>BitWriter\<close>

text \<open>
  \<open>w_count\<close> is the number of right-most bits still free in the last byte. The field is an
  unsigned byte in the source; it stays between 0 and 8, so a natural number is exact.
\<close>

record BitWriter =
  w_stream :: bytes
  w_count :: nat

definition BitWriter_init :: "bytes \<Rightarrow> BitWriter" where
  "BitWriter_init st = \<lparr>w_stream = st, w_count = 0\<rparr>"

text \<open>\<open>stream.back() |= m\<close>\<close>

definition or_back :: "bytes \<Rightarrow> u8 \<Rightarrow> bytes" where
  "or_back st m = butlast st @ [last st OR m]"

definition write_bit :: "bool \<Rightarrow> BitWriter \<Rightarrow> BitWriter" where
  "write_bit b w =
     (let w1 = (if w_count w = 0 then \<lparr>w_stream = w_stream w @ [0], w_count = 8\<rparr> else w);
          w2 = (if b then w1\<lparr>w_stream := or_back (w_stream w1) (push_bit (w_count w1 - 1) 1)\<rparr>
                else w1)
      in w2\<lparr>w_count := w_count w2 - 1\<rparr>)"

definition write_byte :: "u8 \<Rightarrow> BitWriter \<Rightarrow> BitWriter" where
  "write_byte byt w =
     (if w_count w = 0 then w\<lparr>w_stream := w_stream w @ [byt]\<rparr>
      else w\<lparr>w_stream := or_back (w_stream w) (drop_bit (8 - w_count w) byt)
                          @ [push_bit (w_count w) byt]\<rparr>)"

text \<open>The two loops of \<open>write_bits\<close>: whole bytes first, then single bits.\<close>

fun write_bits_bytes :: "u64 \<Rightarrow> nat \<Rightarrow> BitWriter \<Rightarrow> u64 \<times> nat \<times> BitWriter" where
  "write_bits_bytes u nbits w =
     (if nbits \<ge> 8
      then write_bits_bytes (push_bit 8 u) (nbits - 8) (write_byte (ucast (drop_bit 56 u)) w)
      else (u, nbits, w))"

fun write_bits_bits :: "u64 \<Rightarrow> nat \<Rightarrow> BitWriter \<Rightarrow> BitWriter" where
  "write_bits_bits u 0 w = w"
| "write_bits_bits u (Suc n) w =
     write_bits_bits (push_bit 1 u) n (write_bit (drop_bit 63 u \<noteq> 0) w)"

definition write_bits :: "u64 \<Rightarrow> nat \<Rightarrow> BitWriter \<Rightarrow> BitWriter" where
  "write_bits u nbits w =
     (if nbits = 0 then w
      else case write_bits_bytes (push_bit (64 - nbits) u) nbits w of
             (u', n', w') \<Rightarrow> write_bits_bits u' n' w')"

declare write_bits_bytes.simps [simp del]

section \<open>BitReader\<close>

record BitReader =
  r_stream :: bytes
  r_offset :: nat
  r_buffer :: u64
  r_valid :: nat
  r_last :: u8

definition BitReader_init :: "bytes \<Rightarrow> BitReader" where
  "BitReader_init bs = \<lparr>r_stream = bs, r_offset = 0, r_buffer = 0, r_valid = 0,
                        r_last = (if bs = [] then 0 else last bs)\<rparr>"

text \<open>Eight bytes copied into a word on a little-endian host, and the mask-and-shift swap.\<close>

definition memcpy_le64 :: "bytes \<Rightarrow> u64" where
  "memcpy_le64 bs = bits_word (bytes_bits (rev bs))"

definition bswap64 :: "u64 \<Rightarrow> u64" where
  "bswap64 b =
     push_bit 56 (b AND 0x00000000000000FF) OR
     push_bit 40 (b AND 0x000000000000FF00) OR
     push_bit 24 (b AND 0x0000000000FF0000) OR
     push_bit 8  (b AND 0x00000000FF000000) OR
     drop_bit 8  (b AND 0x000000FF00000000) OR
     drop_bit 24 (b AND 0x0000FF0000000000) OR
     drop_bit 40 (b AND 0x00FF000000000000) OR
     drop_bit 56 (b AND 0xFF00000000000000)"

text \<open>
  Refilling the buffer. The tail path takes \<open>nbits / 8 + 1\<close> bytes or what is left, and
  uses the copy of the last byte made by the constructor when it reaches the end.
\<close>

definition load_next_buffer :: "nat \<Rightarrow> BitReader \<Rightarrow> bool \<times> BitReader" where
  "load_next_buffer nbits r =
     (if r_offset r \<ge> length (r_stream r) then (False, r)
      else if r_offset r + 8 < length (r_stream r) then
        (True, r\<lparr>r_buffer := bswap64 (memcpy_le64 (take 8 (drop (r_offset r) (r_stream r)))),
                 r_offset := r_offset r + 8, r_valid := 64\<rparr>)
      else
        let remaining = length (r_stream r) - r_offset r;
            nbytes = min (nbits div 8 + 1) remaining;
            skip = (if r_offset r + nbytes = length (r_stream r) then 1 else 0);
            b0 = (if skip = 1 then ucast (r_last r) else 0);
            b = fold (\<lambda>i b. b OR push_bit (8 * (nbytes - i - 1))
                                  (ucast (r_stream r ! (r_offset r + i))))
                     [0..<nbytes - skip] b0
        in (True, r\<lparr>r_buffer := b, r_offset := r_offset r + nbytes, r_valid := nbytes * 8\<rparr>))"

definition read_bit :: "BitReader \<Rightarrow> (ReadError + bool) \<times> BitReader" where
  "read_bit r =
     (let (ok, r1) = (if r_valid r = 0 then load_next_buffer 1 r else (True, r))
      in if \<not> ok then (Inl EndOfStream, r1)
         else let r2 = r1\<lparr>r_valid := r_valid r1 - 1\<rparr>
              in (Inr (r_buffer r2 AND push_bit (r_valid r2) 1 \<noteq> 0), r2))"

text \<open>
  Reading up to 64 bits, from one buffer or across a refill. After the refill the source
  shifts by \<open>valid_ - remaining\<close> without checking that the refill brought enough bits: on a
  truncated stream that amount is negative and the shift undefined.
\<close>

definition read_bits :: "nat \<Rightarrow> BitReader \<Rightarrow> (ReadError + u64) \<times> BitReader" where
  "read_bits nbits r =
     (if nbits = 0 then (Inr 0, r)
      else
        let (ok, r1) = (if r_valid r = 0 then load_next_buffer nbits r else (True, r))
        in if \<not> ok then (Inl EndOfStream, r1)
           else if nbits \<le> r_valid r1 then
             let mask = (if nbits = 64 then NOT 0 else push_bit nbits 1 - 1);
                 r2 = r1\<lparr>r_valid := r_valid r1 - nbits\<rparr>
             in (Inr (drop_bit (r_valid r2) (r_buffer r2) AND mask), r2)
           else
             let low_mask = push_bit (r_valid r1) 1 - 1;
                 remaining = nbits - r_valid r1;
                 v = push_bit remaining (r_buffer r1 AND low_mask);
                 (ok2, r2) = load_next_buffer remaining (r1\<lparr>r_valid := 0\<rparr>)
             in if \<not> ok2 then (Inl EndOfStream, r2)
                else if r_valid r2 < remaining then (Inl UndefinedBehaviour, r2)
                else
                  let hi_mask = push_bit remaining 1 - 1;
                      v' = v OR (drop_bit (r_valid r2 - remaining) (r_buffer r2) AND hi_mask)
                  in (Inr v', r2\<lparr>r_valid := r_valid r2 - remaining\<rparr>))"

definition read_byte :: "BitReader \<Rightarrow> (ReadError + u8) \<times> BitReader" where
  "read_byte r =
     (case read_bits 8 r of
        (Inl e, r') \<Rightarrow> (Inl e, r')
      | (Inr v, r') \<Rightarrow> (Inr (ucast v), r'))"

text \<open>The loop of \<open>BitReader::read_uvarint\<close>; \<open>n\<close> counts the iterations left.\<close>

fun br_uvarint_loop :: "nat \<Rightarrow> nat \<Rightarrow> u64 \<Rightarrow> nat \<Rightarrow> BitReader \<Rightarrow> (ReadError + u64) \<times> BitReader" where
  "br_uvarint_loop 0 i x s r = (Inl VarintOverflow, r)"
| "br_uvarint_loop (Suc n) i x s r =
     (case read_byte r of
        (Inl e, r') \<Rightarrow> (Inl e, r')
      | (Inr b, r') \<Rightarrow>
          if b < 0x80 then
            if i = max_varint_len64 - 1 \<and> b > 1 then (Inl VarintOverflow, r')
            else (Inr (x OR push_bit s (ucast b)), r')
          else br_uvarint_loop n (i + 1) (x OR push_bit s (ucast (b AND 0x7F))) (s + 7) r')"

definition br_read_uvarint :: "BitReader \<Rightarrow> (ReadError + u64) \<times> BitReader" where
  "br_read_uvarint r = br_uvarint_loop max_varint_len64 0 0 0 r"

definition br_read_varint :: "BitReader \<Rightarrow> (ReadError + i64) \<times> BitReader" where
  "br_read_varint r =
     (case br_read_uvarint r of
        (Inl e, r') \<Rightarrow> (Inl e, r')
      | (Inr ux, r') \<Rightarrow> (Inr (unzigzag ux), r'))"

definition at_end :: "BitReader \<Rightarrow> bool" where
  "at_end r \<longleftrightarrow> r_offset r \<ge> length (r_stream r) \<and> r_valid r = 0"

section \<open>The writer appends to a bit list\<close>

text \<open>The bits written so far; the free bits of the last byte are zero.\<close>

definition w_holds :: "BitWriter \<Rightarrow> bool list \<Rightarrow> bool" where
  "w_holds w bs \<longleftrightarrow>
     w_count w < 8 \<and> bytes_bits (w_stream w) = bs @ replicate (w_count w) False"

lemma w_holds_init: "w_holds (BitWriter_init st) (bytes_bits st)"
  by (simp add: w_holds_def BitWriter_init_def)

lemma w_holds_last:
  assumes "bytes_bits st = bs @ replicate c False" "0 < c" "c \<le> 8"
  obtains ini l x where "st = ini @ [l]" "bs = bytes_bits ini @ x"
    "word_bits 8 l = x @ replicate c False"
proof -
  have "length (bytes_bits st) = length (bs @ replicate c False)"
    using assms(1) by (rule arg_cong)
  then have "st \<noteq> []"
    using assms(2) by auto
  then obtain ini l where st: "st = ini @ [l]"
    by (metis append_butlast_last_id)
  have eq: "bytes_bits ini @ word_bits 8 l = bs @ replicate c False"
    using assms(1) st by simp
  define x where "x = drop (8 * length ini) bs"
  have len: "8 * length ini \<le> length bs"
    using arg_cong [OF eq, of length] assms(3) by simp
  have "bytes_bits ini = take (8 * length ini) bs" "word_bits 8 l = x @ replicate c False"
    using arg_cong [OF eq, of "take (8 * length ini)"] arg_cong [OF eq, of "drop (8 * length ini)"] len
    by (simp_all add: x_def)
  then show thesis
    using that [of ini l x] st by (simp add: x_def)
qed

lemma word_bits_fill:
  assumes "word_bits 8 (l :: u8) = x @ replicate c False" "\<And>k. c \<le> k \<Longrightarrow> \<not> bit m k"
  shows "word_bits 8 (l OR m) = x @ word_bits c m"
proof (rule nth_equalityI)
  have len: "length x + c = 8"
    using arg_cong [OF assms(1), of length] by simp
  then show "length (word_bits 8 (l OR m)) = length (x @ word_bits c m)" by simp
  fix i assume "i < length (word_bits 8 (l OR m))"
  then have i: "i < 8" by simp
  have l: "bit l (7 - i) = (x @ replicate c False) ! i"
    using arg_cong [OF assms(1), of "\<lambda>xs. xs ! i"] i by (simp add: nth_word_bits)
  show "word_bits 8 (l OR m) ! i = (x @ word_bits c m) ! i"
  proof (cases "i < length x")
    case True
    then show ?thesis
      using i len l assms(2) [of "7 - i"] by (simp add: nth_word_bits bit_or_iff nth_append)
  next
    case False
    then have "c - Suc (i - length x) = 7 - i" using i len by simp
    then show ?thesis
      using False i len l by (simp add: nth_word_bits bit_or_iff nth_append)
  qed
qed

lemma or_back_snoc [simp]: "or_back (ini @ [l]) m = ini @ [l OR m]"
  by (simp add: or_back_def)

lemma word_bits_one: "0 < c \<Longrightarrow> c \<le> 8 \<Longrightarrow>
    word_bits c (push_bit (c - 1) 1 :: u8) = True # replicate (c - 1) False"
  by (rule nth_equalityI) (auto simp: nth_word_bits nth_Cons' bit_simps)

lemma bytes_bits_fill_bit:
  assumes "bytes_bits st = bs @ replicate c False" "0 < c" "c \<le> 8"
  shows "bytes_bits (or_back st (push_bit (c - 1) 1)) = bs @ True # replicate (c - 1) False"
proof -
  obtain ini l x where *: "st = ini @ [l]" "bs = bytes_bits ini @ x"
    "word_bits 8 l = x @ replicate c False"
    using w_holds_last [OF assms] by blast
  have "word_bits 8 (l OR push_bit (c - 1) 1) = x @ word_bits c (push_bit (c - 1) 1 :: u8)"
    using *(3) by (rule word_bits_fill) (use assms(2) in \<open>auto simp: bit_simps\<close>)
  also have "word_bits c (push_bit (c - 1) 1 :: u8) = True # replicate (c - 1) False"
    using assms(2,3) by (rule word_bits_one)
  finally show ?thesis
    using * by simp
qed

lemma write_bit_holds: "w_holds w bs \<Longrightarrow> w_holds (write_bit b w) (bs @ [b])"
proof -
  assume w: "w_holds w bs"
  define st c where "st = (if w_count w = 0 then w_stream w @ [0] else w_stream w)"
    and "c = (if w_count w = 0 then 8 else w_count w)"
  have st: "bytes_bits st = bs @ replicate c False" and c: "0 < c" "c \<le> 8"
    using w by (auto simp: w_holds_def st_def c_def)
  have eq: "write_bit b w =
      \<lparr>w_stream = (if b then or_back st (push_bit (c - 1) 1) else st), w_count = c - 1\<rparr>"
    by (cases w) (simp add: write_bit_def st_def c_def)
  have "replicate c False = False # replicate (c - 1) False"
    using c by (cases c) simp_all
  then show "w_holds (write_bit b w) (bs @ [b])"
    using c st bytes_bits_fill_bit [OF st c] by (auto simp: eq w_holds_def)
qed

lemma word_bits_push_bit:
  "c \<le> 8 \<Longrightarrow> word_bits 8 (push_bit c (b :: u8)) = drop c (word_bits 8 b) @ replicate c False"
  by (rule nth_equalityI) (auto simp: nth_word_bits nth_append bit_push_bit_iff add.commute)

lemma write_byte_holds: "w_holds w bs \<Longrightarrow> w_holds (write_byte byt w) (bs @ word_bits 8 byt)"
proof -
  assume w: "w_holds w bs"
  show ?thesis
  proof (cases "w_count w = 0")
    case True
    then show ?thesis using w by (simp add: w_holds_def write_byte_def)
  next
    case False
    define c where "c = w_count w"
    have c: "0 < c" "c \<le> 8" and st: "bytes_bits (w_stream w) = bs @ replicate c False"
      using w False by (auto simp: w_holds_def c_def)
    obtain ini l x where *: "w_stream w = ini @ [l]" "bs = bytes_bits ini @ x"
      "word_bits 8 l = x @ replicate c False"
      using w_holds_last [OF st c] by blast
    have "word_bits 8 (l OR drop_bit (8 - c) byt) = x @ word_bits c (drop_bit (8 - c) byt)"
      using *(3)
    proof (rule word_bits_fill)
      fix k assume "c \<le> k"
      then show "\<not> bit (drop_bit (8 - c) byt) k"
        using bit_imp_le_length [of byt "8 - c + k"] c by (auto simp: bit_drop_bit_eq)
    qed
    also have "word_bits c (drop_bit (8 - c) byt) = take c (word_bits 8 byt)"
      using c by (simp add: take_word_bits)
    finally have fill: "word_bits 8 (l OR drop_bit (8 - c) byt) = x @ take c (word_bits 8 byt)" .
    have "w_count (write_byte byt w) = c" "w_stream (write_byte byt w) =
        ini @ [l OR drop_bit (8 - c) byt, push_bit c byt]"
      using False *(1) by (simp_all add: write_byte_def c_def)
    then show ?thesis
      using w c fill *(2) by (simp add: w_holds_def c_def [symmetric] word_bits_push_bit)
  qed
qed

text \<open>The top byte goes first: shifting the word left by eight drops what was written.\<close>

lemma word_bits_top_byte: "word_bits 8 (ucast (drop_bit 56 u) :: u8) = word_bits 8 (drop_bit 56 (u :: u64))"
  by (simp add: word_bits_ucast)

lemma word_bits_64_shift:
  "n \<le> m \<Longrightarrow> m \<le> 64 \<Longrightarrow>
     word_bits m (drop_bit (64 - m) u) = word_bits n (drop_bit (64 - n) u)
       @ word_bits (m - n) (drop_bit (64 - (m - n)) (push_bit n (u :: u64)))"
  by (rule nth_equalityI)
    (auto simp: nth_word_bits nth_append bit_simps intro!: arg_cong [where f = "bit u"])

lemma write_bits_bytes_holds:
  "w_holds w bs \<Longrightarrow> nbits \<le> 64 \<Longrightarrow> write_bits_bytes u nbits w = (u', n', w') \<Longrightarrow>
     n' < 8 \<and> (\<exists>written. w_holds w' (bs @ written) \<and>
       word_bits nbits (drop_bit (64 - nbits) u)
         = written @ word_bits n' (drop_bit (64 - n') u'))"
proof (induction u nbits w arbitrary: bs rule: write_bits_bytes.induct)
  case (1 u nbits w)
  show ?case
  proof (cases "nbits \<ge> 8")
    case False
    then show ?thesis
      using "1.prems" by (auto simp: write_bits_bytes.simps [of u nbits w] intro!: exI [of _ "[]"])
  next
    case True
    let ?top = "word_bits 8 (drop_bit 56 u)"
    have "w_holds (write_byte (ucast (drop_bit 56 u)) w) (bs @ ?top)"
      using write_byte_holds [OF "1.prems"(1), of "ucast (drop_bit 56 u)"]
      by (simp add: word_bits_top_byte)
    moreover have "nbits - 8 \<le> 64" "write_bits_bytes (push_bit 8 u) (nbits - 8)
        (write_byte (ucast (drop_bit 56 u)) w) = (u', n', w')"
      using "1.prems" True by (simp_all add: write_bits_bytes.simps [of u nbits w])
    ultimately obtain written where "n' < 8" "w_holds w' ((bs @ ?top) @ written)"
      "word_bits (nbits - 8) (drop_bit (64 - (nbits - 8)) (push_bit 8 u))
         = written @ word_bits n' (drop_bit (64 - n') u')"
      using "1.IH" [OF True] by blast
    then show ?thesis
      using word_bits_64_shift [of 8 nbits u] True "1.prems"(2)
      by (intro conjI exI [of _ "?top @ written"]) simp_all
  qed
qed

lemma top_bit: "drop_bit 63 u \<noteq> 0 \<longleftrightarrow> bit (u :: u64) 63"
proof -
  have "drop_bit 63 u = (if bit u 63 then 1 else 0)"
    using bit_imp_le_length [of u] by (intro bit_word_eqI) (force simp: bit_simps)
  then show ?thesis by simp
qed

lemma write_bits_bits_holds:
  "w_holds w bs \<Longrightarrow> n \<le> 64 \<Longrightarrow>
     w_holds (write_bits_bits u n w) (bs @ word_bits n (drop_bit (64 - n) u))"
proof (induction n arbitrary: u w bs)
  case (Suc n)
  have "w_holds (write_bit (drop_bit 63 u \<noteq> 0) w) (bs @ [bit u 63])"
    using write_bit_holds [OF Suc.prems(1)] by (simp only: top_bit)
  moreover have "word_bits (Suc n) (drop_bit (64 - Suc n) u)
      = bit u 63 # word_bits n (drop_bit (64 - n) (push_bit 1 u))"
    using word_bits_64_shift [of 1 "Suc n" u] Suc.prems(2)
    by (simp add: word_bits_Suc [of 0, simplified] bit_drop_bit_eq)
  ultimately show ?case
    using Suc.IH [of "write_bit (drop_bit 63 u \<noteq> 0) w" "bs @ [bit u 63]" "push_bit 1 u"] Suc.prems(2)
    by (simp add: append.assoc [symmetric])
qed simp

lemma write_bits_holds:
  assumes "w_holds w bs" "n \<le> 64"
  shows "w_holds (write_bits u n w) (bs @ word_bits n u)"
proof (cases "n = 0")
  case False
  obtain u' n' w' where run: "write_bits_bytes (push_bit (64 - n) u) n w = (u', n', w')"
    by (metis prod_cases3)
  from write_bits_bytes_holds [OF assms run] obtain written where
    *: "n' < 8" "w_holds w' (bs @ written)"
    "word_bits n (drop_bit (64 - n) (push_bit (64 - n) u)) = written @ word_bits n' (drop_bit (64 - n') u')"
    by auto
  have "word_bits n (drop_bit (64 - n) (push_bit (64 - n) u)) = word_bits n u"
    using assms(2) by (intro word_bits_eqI) (auto simp: bit_simps)
  then show ?thesis
    using write_bits_bits_holds [OF *(2), of n' u'] * False by (simp add: write_bits_def run)
qed (simp add: assms write_bits_def)

section \<open>The reader takes from a bit list\<close>

text \<open>The unread bits: the valid low bits of the buffer, then the bytes not yet loaded.\<close>

definition r_bits :: "BitReader \<Rightarrow> bool list" where
  "r_bits r = word_bits (r_valid r) (r_buffer r) @ bytes_bits (drop (r_offset r) (r_stream r))"

definition r_inv :: "BitReader \<Rightarrow> bool" where
  "r_inv r \<longleftrightarrow> r_valid r \<le> 64 \<and> r_offset r \<le> length (r_stream r) \<and>
     (r_stream r \<noteq> [] \<longrightarrow> r_last r = last (r_stream r))"

lemma r_inv_init: "r_inv (BitReader_init bs)"
  by (simp add: r_inv_def BitReader_init_def)

lemma r_bits_init: "r_bits (BitReader_init bs) = bytes_bits bs"
  by (simp add: r_bits_def BitReader_init_def)

lemma bit_memcpy_le64:
  assumes "length bs = 8" "n < 64"
  shows "bit (memcpy_le64 bs) n = bit (bs ! (n div 8)) (n mod 8)"
proof -
  have "63 - n = 8 * (7 - n div 8) + (7 - n mod 8)"
    using assms(2) div_mult_mod_eq [of n 8] by linarith
  moreover have "(8 * a + b) div 8 = a" "(8 * a + b) mod 8 = b" if "b < 8" for a b :: nat
    using that by simp_all
  moreover have "7 - n mod 8 < 8"
    by simp
  ultimately have dm: "(63 - n) div 8 = 7 - n div 8" "(63 - n) mod 8 = 7 - n mod 8"
    by (simp_all only:)
  have "bit (memcpy_le64 bs) n = bytes_bits (rev bs) ! (63 - n)"
    using assms by (simp add: memcpy_le64_def bit_bits_word rev_nth)
  also have "\<dots> = bit (rev bs ! ((63 - n) div 8)) (7 - (63 - n) mod 8)"
    using assms by (intro nth_bytes_bits) simp
  also have "rev bs ! ((63 - n) div 8) = bs ! (n div 8)"
  proof -
    have "8 - Suc ((63 - n) div 8) = n div 8"
      using assms(2) dm by simp
    moreover have "(63 - n) div 8 < length bs"
      using assms(1) dm(1) by linarith
    ultimately show ?thesis using assms(1) by (simp only: rev_nth)
  qed
  also have "7 - (63 - n) mod 8 = n mod 8"
    using dm by simp
  finally show ?thesis .
qed

lemma bit_byte_mask: "bit (push_bit k (0xFF :: u64)) i \<longleftrightarrow> k \<le> i \<and> i < k + 8 \<and> i < 64"
proof -
  have "(0xFF :: u64) = mask 8"
    by (simp add: mask_eq_exp_minus_1)
  then show ?thesis
    by (auto simp only: bit_push_bit_iff bit_mask_iff) auto
qed

text \<open>Masking out byte \<open>j\<close> of the little-endian word leaves byte \<open>j\<close> of the span in place.\<close>

lemma memcpy_le64_select:
  assumes "length bs = 8" "j < 8"
  shows "memcpy_le64 bs AND push_bit (8 * j) 0xFF = push_bit (8 * j) (ucast (bs ! j))"
proof (rule bit_word_eqI)
  fix n assume n: "n < LENGTH(64)"
  show "bit (memcpy_le64 bs AND push_bit (8 * j) 0xFF) n = bit (push_bit (8 * j) (ucast (bs ! j)) :: u64) n"
  proof (cases "8 * j \<le> n \<and> n < 8 * j + 8")
    case True
    then obtain k where "n = 8 * j + k" "k < 8"
      using le_Suc_ex by (metis nat_add_left_cancel_less)
    then have "n div 8 = j" "n mod 8 = n - 8 * j" by simp_all
    then show ?thesis
      using True n assms unfolding bit_and_iff bit_byte_mask unfolding bit_push_bit_iff bit_ucast_iff
      using bit_imp_le_length [of "bs ! j" "n - 8 * j"] by (auto simp: bit_memcpy_le64)
  next
    case False
    then show ?thesis
      using n bit_imp_le_length [of "bs ! j" "n - 8 * j"]
      unfolding bit_and_iff bit_byte_mask unfolding bit_push_bit_iff bit_ucast_iff by auto
  qed
qed

lemma drop_bit_push_byte:
  "m \<le> n \<Longrightarrow> n + 8 \<le> 64 \<Longrightarrow> drop_bit m (push_bit n (ucast (b :: u8) :: u64)) = push_bit (n - m) (ucast b)"
proof (rule bit_word_eqI)
  fix i assume *: "m \<le> n" "n + 8 \<le> 64" "i < LENGTH(64)"
  have "m + i < 64" if "bit b (m + i - n)" "n \<le> m + i"
    using bit_imp_le_length [OF that(1)] that(2) * by simp
  moreover have "m + i - n = i - (n - m)" "n \<le> m + i \<longleftrightarrow> n - m \<le> i"
    using * by auto
  ultimately show "bit (drop_bit m (push_bit n (ucast b :: u64))) i = bit (push_bit (n - m) (ucast b :: u64)) i"
    using * unfolding bit_drop_bit_eq bit_push_bit_iff bit_ucast_iff comp_def by auto
qed

lemma bswap64_memcpy:
  assumes "length bs = 8"
  shows "bswap64 (memcpy_le64 bs) = read_be64 bs"
proof -
  note sel = memcpy_le64_select [OF assms]
  have "memcpy_le64 bs AND 0x00000000000000FF = ucast (bs ! 0)"
    "memcpy_le64 bs AND 0x000000000000FF00 = push_bit 8 (ucast (bs ! 1))"
    "memcpy_le64 bs AND 0x0000000000FF0000 = push_bit 16 (ucast (bs ! 2))"
    "memcpy_le64 bs AND 0x00000000FF000000 = push_bit 24 (ucast (bs ! 3))"
    "memcpy_le64 bs AND 0x000000FF00000000 = push_bit 32 (ucast (bs ! 4))"
    "memcpy_le64 bs AND 0x0000FF0000000000 = push_bit 40 (ucast (bs ! 5))"
    "memcpy_le64 bs AND 0x00FF000000000000 = push_bit 48 (ucast (bs ! 6))"
    "memcpy_le64 bs AND 0xFF00000000000000 = push_bit 56 (ucast (bs ! 7))"
    using sel [of 0] sel [of 1] sel [of 2] sel [of 3] sel [of 4] sel [of 5] sel [of 6] sel [of 7]
    by (simp_all add: push_bit_eq_mult)
  then show ?thesis
    unfolding bswap64_def read_be64_def
    by (simp only: push_bit_push_bit drop_bit_push_byte) (simp add: or.assoc drop_bit_push_byte)
qed

lemma word_bits_bswap64:
  "length bs = 8 \<Longrightarrow> word_bits 64 (bswap64 (memcpy_le64 bs)) = bytes_bits bs"
  using read_be64_bits [of bs "[]"] by (simp add: bswap64_memcpy)

text \<open>The loop of the tail path packs the bytes most significant first.\<close>

lemma tail_fold:
  assumes "m \<le> length xs"
  shows "fold (\<lambda>i b. b OR push_bit (8 * (length xs - i - 1)) (ucast (xs ! i))) [0..<m] b0
       = b0 OR push_bit (8 * (length xs - m)) (bits_word (bytes_bits (take m xs)) :: u64)"
  using assms
proof (induction m)
  case (Suc m)
  have "length xs - m = Suc (length xs - Suc m)"
    using Suc.prems by simp
  moreover have "bytes_bits (take (Suc m) xs) = bytes_bits (take m xs) @ word_bits 8 (xs ! m)"
    using Suc.prems by (simp add: take_Suc_conv_app_nth)
  ultimately show ?case
    using Suc by (simp add: bits_word_append push_bit_or push_bit_push_bit or.assoc algebra_simps)
qed simp

lemma tail_load:
  assumes "off < length st" "n = min k (length st - off)" "0 < k"
    and "skip = (if off + n = length st then 1 else 0)"
    and "b0 = (if skip = 1 then ucast (last st) else 0)"
  shows "fold (\<lambda>i b. b OR push_bit (8 * (n - i - 1)) (ucast (st ! (off + i)))) [0..<n - skip] b0
       = (bits_word (bytes_bits (take n (drop off st))) :: u64)"
proof -
  define xs where "xs = take n (drop off st)"
  have len: "length xs = n" and n: "0 < n" "off + n \<le> length st"
    using assms(1-3) by (auto simp: xs_def)
  have nth: "i < n \<Longrightarrow> st ! (off + i) = xs ! i" for i
    using n by (simp add: xs_def)
  have skip: "skip \<le> 1" "skip \<le> n"
    using assms(4) n by auto
  have "fold (\<lambda>i b. b OR push_bit (8 * (n - i - 1)) (ucast (st ! (off + i)))) [0..<n - skip] b0
      = fold (\<lambda>i b. b OR push_bit (8 * (length xs - i - 1)) (ucast (xs ! i))) [0..<n - skip] b0"
    by (rule List.fold_cong) (auto simp: nth len)
  also have "\<dots> = b0 OR push_bit (8 * (length xs - (n - skip))) (bits_word (bytes_bits (take (n - skip) xs)))"
    by (rule tail_fold) (simp add: len)
  also have "\<dots> = bits_word (bytes_bits xs)"
  proof (cases "skip = 1")
    case False
    then show ?thesis using skip assms(5) len by simp
  next
    case True
    then have "off + n = length st"
      unfolding assms(4) by (simp split: if_splits)
    then have "last st = last xs"
      using n by (simp add: xs_def last_drop)
    moreover have "xs = take (n - 1) xs @ [last xs]"
      using n len append_butlast_last_id [of xs] by (auto simp: butlast_conv_take)
    ultimately have "bytes_bits xs = bytes_bits (take (n - 1) xs @ [last st])"
      by simp
    then have "bytes_bits xs = bytes_bits (take (n - 1) xs) @ word_bits 8 (last st)"
      by simp
    then show ?thesis
      using True assms(5) len n by (simp add: bits_word_append or.commute)
  qed
  finally show ?thesis by (simp add: xs_def)
qed

text \<open>A refill keeps the unread bits and brings what was asked for, if the stream still has it.\<close>

lemma load_next_buffer_fails:
  "r_inv r \<Longrightarrow> r_valid r = 0 \<Longrightarrow> r_bits r = [] \<Longrightarrow> load_next_buffer n r = (False, r)"
  by (simp add: load_next_buffer_def r_bits_def)

lemma load_next_buffer_ok:
  assumes "r_inv r" "r_valid r = 0" "r_bits r \<noteq> []" "n \<le> 64"
  obtains r' where "load_next_buffer n r = (True, r')" "r_inv r'" "r_bits r' = r_bits r"
    "0 < r_valid r'" "min n (length (r_bits r)) \<le> r_valid r'"
proof -
  let ?st = "r_stream r" and ?off = "r_offset r"
  have off: "?off < length ?st" and last: "r_last r = last ?st" and bits: "r_bits r = bytes_bits (drop ?off ?st)"
    using assms(1-3) by (auto simp: r_inv_def r_bits_def)
  show thesis
  proof (cases "?off + 8 < length ?st")
    case True
    let ?r' = "r\<lparr>r_buffer := bswap64 (memcpy_le64 (take 8 (drop ?off ?st))), r_offset := ?off + 8, r_valid := 64\<rparr>"
    have "r_bits ?r' = bytes_bits (take 8 (drop ?off ?st)) @ bytes_bits (drop 8 (drop ?off ?st))"
      using True by (simp add: r_bits_def word_bits_bswap64 add.commute)
    also have "\<dots> = r_bits r"
      by (simp only: bits bytes_bits_simps(3) [symmetric] append_take_drop_id)
    finally have "r_bits ?r' = r_bits r" .
    moreover have "load_next_buffer n r = (True, ?r')"
      using True by (simp add: load_next_buffer_def)
    moreover have "r_inv ?r'"
      using True assms(1) by (simp add: r_inv_def)
    ultimately show thesis
      using that [of ?r'] assms(4) by simp
  next
    case False
    define m where "m = min (n div 8 + 1) (length ?st - ?off)"
    define r' where "r' = r\<lparr>r_buffer := bits_word (bytes_bits (take m (drop ?off ?st))),
      r_offset := ?off + m, r_valid := m * 8\<rparr>"
    have m: "0 < m" "?off + m \<le> length ?st" "m \<le> 8"
      using off False by (auto simp: m_def)
    have "0 < n div 8 + 1" by simp
    note load = tail_load [OF off m_def this refl refl, folded last]
    have "load_next_buffer n r = (True, r')"
      unfolding load_next_buffer_def Let_def m_def [symmetric] r'_def load
      using False off by simp
    moreover have "r_bits r' = r_bits r"
    proof -
      have "word_bits (m * 8) (bits_word (bytes_bits (take m (drop ?off ?st))) :: u64) = bytes_bits (take m (drop ?off ?st))"
        using m by (intro word_bits_bits_word) simp_all
      then have "r_bits r' = bytes_bits (take m (drop ?off ?st)) @ bytes_bits (drop m (drop ?off ?st))"
        by (simp add: r'_def r_bits_def add.commute)
      also have "\<dots> = r_bits r"
        by (simp only: bits bytes_bits_simps(3) [symmetric] append_take_drop_id)
      finally show ?thesis .
    qed
    moreover have "r_inv r'" "0 < r_valid r'"
      using m assms(1) by (simp_all add: r'_def r_inv_def)
    moreover have "min n (length (r_bits r)) \<le> r_valid r'"
      by (auto simp: r'_def bits m_def min_def)
    ultimately show thesis
      using that by blast
  qed
qed

text \<open>The refill every read starts with when the buffer is empty.\<close>

lemma prime_buffer_ok:
  assumes "r_inv r" "r_bits r \<noteq> []" "n \<le> 64"
  obtains r' where "(if r_valid r = 0 then load_next_buffer n r else (True, r)) = (True, r')"
    "r_inv r'" "r_bits r' = r_bits r" "0 < r_valid r'"
  using assms load_next_buffer_ok [OF assms(1) _ assms(2,3)] by (cases "r_valid r = 0") auto

lemma and_low_mask: "w AND (push_bit n 1 - 1) = take_bit n (w :: u64)"
  by (simp add: take_bit_eq_mask mask_eq_exp_minus_1)

lemma and_read_mask:
  "w AND (if n = 64 then NOT 0 else push_bit n 1 - 1) = take_bit n (w :: u64)"
  using and_low_mask [of w n] by simp

lemma buffer_extract:
  "n \<le> v \<Longrightarrow> take_bit n (drop_bit (v - n) (w :: u64)) = bits_word (take n (word_bits v w))"
  by (simp add: take_word_bits)

lemma r_bits_advance:
  "n \<le> r_valid r \<Longrightarrow> r_inv r \<Longrightarrow>
     r_inv (r\<lparr>r_valid := r_valid r - n\<rparr>) \<and> r_bits (r\<lparr>r_valid := r_valid r - n\<rparr>) = drop n (r_bits r)"
  by (auto simp: r_inv_def r_bits_def drop_word_bits)

lemma read_bit_ok:
  assumes "r_inv r" "r_bits r = b # bs"
  obtains r' where "read_bit r = (Inr b, r')" "r_inv r'" "r_bits r' = bs"
proof -
  obtain r1 where prime: "(if r_valid r = 0 then load_next_buffer 1 r else (True, r)) = (True, r1)"
    and r1: "r_inv r1" "r_bits r1 = r_bits r" "0 < r_valid r1"
    using prime_buffer_ok [OF assms(1), of 1] assms(2) by auto
  let ?r2 = "r1\<lparr>r_valid := r_valid r1 - 1\<rparr>"
  have "r_inv ?r2" "r_bits ?r2 = drop 1 (r_bits r1)"
    using r_bits_advance [of 1 r1] r1 by simp_all
  moreover have "(r_buffer r1 AND push_bit (r_valid r1 - 1) 1 \<noteq> 0) = b"
  proof -
    have "r_bits r1 ! 0 = bit (r_buffer r1) (r_valid r1 - 1)"
      using r1(3) by (simp add: r_bits_def nth_append nth_word_bits)
    moreover have "(r_buffer r1 AND push_bit k 1 \<noteq> 0) = bit (r_buffer r1) k" for k
      by (simp add: bit_iff_and_push_bit_not_eq_0)
    ultimately show ?thesis using r1(2) assms(2) by simp
  qed
  ultimately show thesis
    using that [of ?r2] prime r1(2) assms(2) by (simp add: read_bit_def)
qed

lemma read_bits_split:
  assumes "(if r_valid r = 0 then load_next_buffer n r else (True, r)) = (True, r1)"
    and "n \<noteq> 0" "\<not> n \<le> r_valid r1" "q = n - r_valid r1"
  shows "read_bits n r = (case load_next_buffer q (r1\<lparr>r_valid := 0\<rparr>) of (ok2, r2) \<Rightarrow>
      if \<not> ok2 then (Inl EndOfStream, r2)
      else if r_valid r2 < q then (Inl UndefinedBehaviour, r2)
      else (Inr (push_bit q (take_bit (r_valid r1) (r_buffer r1))
             OR take_bit q (drop_bit (r_valid r2 - q) (r_buffer r2))),
           r2\<lparr>r_valid := r_valid r2 - q\<rparr>))"
  unfolding read_bits_def Let_def assms(1) and_low_mask and_read_mask assms(4) using assms(2,3) by simp

lemma read_bits_ok:
  assumes "r_inv r" "n \<le> 64" "n \<le> length (r_bits r)"
  obtains r' where "read_bits n r = (Inr (bits_word (take n (r_bits r))), r')" "r_inv r'"
    "r_bits r' = drop n (r_bits r)"
proof (cases "n = 0")
  case True
  then show thesis using that [of r] assms(1) by (simp add: read_bits_def)
next
  case False
  then obtain r1 where prime: "(if r_valid r = 0 then load_next_buffer n r else (True, r)) = (True, r1)"
    and r1: "r_inv r1" "r_bits r1 = r_bits r" "0 < r_valid r1"
    using prime_buffer_ok [OF assms(1) _ assms(2)] assms(3) by (metis le_zero_eq list.size(3))
  let ?v = "r_valid r1"
  show thesis
  proof (cases "n \<le> ?v")
    case True
    let ?r2 = "r1\<lparr>r_valid := ?v - n\<rparr>"
    have "take n (r_bits r) = take n (word_bits ?v (r_buffer r1))"
      using True by (simp only: r1(2) [symmetric]) (simp add: r_bits_def)
    then have "read_bits n r = (Inr (bits_word (take n (r_bits r))), ?r2)"
      using False True prime buffer_extract [OF True, of "r_buffer r1"]
      by (simp add: read_bits_def Let_def and_read_mask)
    then show thesis
      using that r_bits_advance [OF True r1(1)] r1(2) by simp
  next
    case split: False
    define q where "q = n - ?v"
    define r0 where "r0 = r1\<lparr>r_valid := 0\<rparr>"
    have bits: "r_bits r = word_bits ?v (r_buffer r1) @ r_bits r0"
      using r1(2) by (simp add: r0_def r_bits_def)
    have q: "0 < q" "q \<le> 64" "q \<le> length (r_bits r0)" "n = ?v + q"
      using split assms(2,3) bits by (auto simp: q_def)
    obtain r2 where load: "load_next_buffer q r0 = (True, r2)" "r_inv r2" "r_bits r2 = r_bits r0"
      "q \<le> r_valid r2"
    proof -
      have "r_inv r0" "r_valid r0 = 0" "r_bits r0 \<noteq> []"
        using r1(1) q(1,3) by (auto simp: r0_def r_inv_def)
      then show thesis
        using load_next_buffer_ok [of r0 q] q(2,3) that by (metis min.absorb1)
    qed
    let ?r3 = "r2\<lparr>r_valid := r_valid r2 - q\<rparr>"
    have "push_bit q (take_bit ?v (r_buffer r1)) OR take_bit q (drop_bit (r_valid r2 - q) (r_buffer r2))
        = bits_word (word_bits ?v (r_buffer r1) @ take q (word_bits (r_valid r2) (r_buffer r2)))"
      using load(4) by (simp add: bits_word_append buffer_extract)
    also have "\<dots> = bits_word (take n (r_bits r))"
    proof -
      have "take q (r_bits r0) = take q (word_bits (r_valid r2) (r_buffer r2))"
        using load(4) by (simp only: load(3) [symmetric]) (simp add: r_bits_def)
      then show ?thesis
        using q(4) by (simp add: bits)
    qed
    finally have "read_bits n r = (Inr (bits_word (take n (r_bits r))), ?r3)"
      using load(1,4) by (simp add: read_bits_split [OF prime False split q_def] r0_def [symmetric])
    then show thesis
      using that r_bits_advance [OF load(4,2)] load(3) q(4) by (simp add: bits)
  qed
qed

lemma read_bit_end: "r_inv r \<Longrightarrow> r_bits r = [] \<Longrightarrow> fst (read_bit r) = Inl EndOfStream"
proof -
  assume r: "r_inv r" "r_bits r = []"
  then have "r_valid r = 0"
    using arg_cong [OF r(2), of length] by (simp add: r_bits_def)
  then show ?thesis
    using r by (simp add: read_bit_def load_next_buffer_fails)
qed

lemma read_bits_short:
  assumes "r_inv r" "n \<le> 64" "length (r_bits r) < n"
  shows "fst (read_bits n r) \<in> {Inl EndOfStream, Inl UndefinedBehaviour}"
proof (cases "r_bits r = []")
  case True
  then have "r_valid r = 0"
    using arg_cong [OF True, of length] by (simp add: r_bits_def)
  then show ?thesis
    using assms True by (simp add: read_bits_def load_next_buffer_fails)
next
  case False
  obtain r1 where prime: "(if r_valid r = 0 then load_next_buffer n r else (True, r)) = (True, r1)"
    and r1: "r_inv r1" "r_bits r1 = r_bits r" "0 < r_valid r1"
    using prime_buffer_ok [OF assms(1) False assms(2)] by blast
  define q where "q = n - r_valid r1"
  define r0 where "r0 = r1\<lparr>r_valid := 0\<rparr>"
  have bits: "r_bits r = word_bits (r_valid r1) (r_buffer r1) @ r_bits r0"
    using r1(2) by (simp add: r0_def r_bits_def)
  have q: "\<not> n \<le> r_valid r1" "n \<noteq> 0" "q \<le> 64" "length (r_bits r0) < q"
    using assms(2,3) arg_cong [OF bits, of length] by (auto simp: q_def)
  have r0: "r_inv r0" "r_valid r0 = 0"
    using r1(1) by (simp_all add: r0_def r_inv_def)
  note eq = read_bits_split [OF prime q(2,1) q_def, folded r0_def]
  show ?thesis
  proof (cases "r_bits r0 = []")
    case True
    then show ?thesis by (simp add: eq load_next_buffer_fails [OF r0 True])
  next
    case False
    obtain r2 where load: "load_next_buffer q r0 = (True, r2)" "r_bits r2 = r_bits r0"
      using load_next_buffer_ok [OF r0 False q(3)] by metis
    have "r_valid r2 \<le> length (r_bits r2)"
      by (simp add: r_bits_def)
    then show ?thesis
      using q(4) load by (simp add: eq)
  qed
qed

section \<open>The stream interfaces\<close>

text \<open>
  What the chunk encoder relies on: a sink that appends to a list of bits, and a source that
  takes from the front of one.
\<close>

locale bit_sink =
  fixes holds :: "'w \<Rightarrow> bool list \<Rightarrow> bool"
    and put_bit :: "bool \<Rightarrow> 'w \<Rightarrow> 'w"
    and put_byte :: "u8 \<Rightarrow> 'w \<Rightarrow> 'w"
    and put_bits :: "u64 \<Rightarrow> nat \<Rightarrow> 'w \<Rightarrow> 'w"
  assumes put_bit: "holds w bs \<Longrightarrow> holds (put_bit b w) (bs @ [b])"
    and put_byte: "holds w bs \<Longrightarrow> holds (put_byte x w) (bs @ word_bits 8 x)"
    and put_bits: "holds w bs \<Longrightarrow> n \<le> 64 \<Longrightarrow> holds (put_bits u n w) (bs @ word_bits n u)"
begin

lemma put_bytes: "holds w bs \<Longrightarrow> holds (fold put_byte xs w) (bs @ bytes_bits xs)"
proof (induction xs arbitrary: w bs)
  case (Cons x xs)
  then show ?case
    using put_byte [of w bs x] by (metis append.assoc bytes_bits_simps(2) fold_simps(2))
qed simp

end

locale bit_source =
  fixes pending :: "'r \<Rightarrow> bool list \<Rightarrow> bool"
    and get_bit :: "'r \<Rightarrow> (ReadError + bool) \<times> 'r"
    and get_bits :: "nat \<Rightarrow> 'r \<Rightarrow> (ReadError + u64) \<times> 'r"
  assumes get_bit: "pending r (b # bs) \<Longrightarrow> \<exists>r'. get_bit r = (Inr b, r') \<and> pending r' bs"
    and get_bits: "pending r (xs @ bs) \<Longrightarrow> length xs = n \<Longrightarrow> n \<le> 64 \<Longrightarrow>
        \<exists>r'. get_bits n r = (Inr (bits_word xs), r') \<and> pending r' bs"
begin

lemma get_word:
  assumes "pending r (word_bits n w @ bs)" "n \<le> 64"
  obtains r' where "get_bits n r = (Inr (take_bit n w), r')" "pending r' bs"
  using get_bits [OF assms(1) _ assms(2)] by auto

end

definition r_pending :: "BitReader \<Rightarrow> bool list \<Rightarrow> bool" where
  "r_pending r bs \<longleftrightarrow> r_inv r \<and> r_bits r = bs"

interpretation writer: bit_sink w_holds write_bit write_byte write_bits
  by unfold_locales (simp_all add: write_bit_holds write_byte_holds write_bits_holds)

interpretation reader: bit_source r_pending read_bit read_bits
proof
  fix r b bs
  assume "r_pending r (b # bs)"
  then show "\<exists>r'. read_bit r = (Inr b, r') \<and> r_pending r' bs"
    using read_bit_ok [of r b bs] by (metis r_pending_def)
next
  fix r xs bs and n :: nat
  assume "r_pending r (xs @ bs)" "length xs = n" "n \<le> 64"
  then show "\<exists>r'. read_bits n r = (Inr (bits_word xs), r') \<and> r_pending r' bs"
    using read_bits_ok [of r n] by (auto simp: r_pending_def)
qed

lemma r_pending_init: "r_pending (BitReader_init bs) (bytes_bits bs)"
  by (simp add: r_pending_def r_inv_init r_bits_init)

lemma read_byte_ok:
  assumes "r_pending r (word_bits 8 b @ bs)"
  obtains r' where "read_byte r = (Inr b, r')" "r_pending r' bs"
proof -
  have *: "r_pending r (word_bits 8 (ucast b :: u64) @ bs)"
    using assms by (simp add: word_bits_ucast)
  obtain r' where "read_bits 8 r = (Inr (take_bit 8 (ucast b :: u64)), r')" "r_pending r' bs"
    using reader.get_word [OF *] by auto
  moreover have "ucast (take_bit 8 (ucast b :: u64)) = b"
    by (rule bit_word_eqI) (auto simp: bit_simps)
  ultimately show thesis
    using that by (simp add: read_byte_def)
qed

text \<open>Reading a varint from the bit stream is reading it from the bytes the stream holds.\<close>

lemma br_uvarint_loop_ok:
  assumes "read_uvarint_loop bs i x s = Inr (v, k)" "r_pending r (bytes_bits bs @ rest)"
    "n + i = max_varint_len64"
  shows "\<exists>r'. br_uvarint_loop n i x s r = (Inr v, r') \<and>
      r_pending r' (bytes_bits (drop (k - i) bs) @ rest)"
  using assms
proof (induction bs i x s arbitrary: n r rule: read_uvarint_loop.induct)
  case (2 b bs i x s)
  obtain r1 where rd: "read_byte r = (Inr b, r1)" "r_pending r1 (bytes_bits bs @ rest)"
    using read_byte_ok [of r b] "2.prems"(2) by auto
  obtain m where n: "n = Suc m" "i \<noteq> max_varint_len64"
    using "2.prems"(1,3) by (cases n) (auto split: if_splits)
  show ?case
  proof (cases "b < 0x80")
    case True
    then show ?thesis
      using "2.prems"(1) rd n by (auto split: if_splits)
  next
    case False
    then have run: "read_uvarint_loop bs (i + 1) (x OR push_bit s (ucast (b AND 0x7F))) (s + 7) = Inr (v, k)"
      using "2.prems"(1) n(2) by simp
    have "\<exists>r'. br_uvarint_loop m (i + 1) (x OR push_bit s (ucast (b AND 0x7F))) (s + 7) r1 = (Inr v, r') \<and>
        r_pending r' (bytes_bits (drop (k - (i + 1)) bs) @ rest)"
      using "2.IH" [OF n(2) False run rd(2)] "2.prems"(3) n(1) by simp
    moreover have "drop (k - i) (b # bs) = drop (k - (i + 1)) bs"
      using read_uvarint_loop_consumed [OF run] "2.prems"(3) n(1) by (simp add: drop_Cons' diff_Suc)
    ultimately show ?thesis
      using False rd(1) n(1) by simp
  qed
qed simp

lemma br_read_uvarint_ok:
  assumes "r_pending r (bytes_bits (put_uvarint x) @ rest)"
  obtains r' where "br_read_uvarint r = (Inr x, r')" "r_pending r' rest"
proof -
  have "read_uvarint_loop (put_uvarint x) 0 0 0 = Inr (x, length (put_uvarint x))"
    using read_uvarint_put [of x "[]"] by (simp add: read_uvarint_def)
  then show thesis
    using br_uvarint_loop_ok [OF _ assms, of 0 0 0] that by (auto simp: br_read_uvarint_def)
qed

lemma br_read_varint_ok:
  assumes "r_pending r (bytes_bits (put_varint x) @ rest)"
  obtains r' where "br_read_varint r = (Inr x, r')" "r_pending r' rest"
proof -
  obtain r' where "br_read_uvarint r = (Inr (zigzag x), r')" "r_pending r' rest"
    using br_read_uvarint_ok [of r "zigzag x"] assms by (auto simp: put_varint_def)
  then show thesis
    using that by (simp add: br_read_varint_def)
qed

section \<open>Properties\<close>

text \<open>
  A client's sequence of writes, and the reads of the same shapes. \<open>OpBits u n\<close> stands for
  a call with the \<open>n\<close> low bits of \<open>u\<close>; what comes back are these bits.
\<close>

datatype bit_op = OpBit bool | OpByte u8 | OpBits u64 nat | OpUvarint u64 | OpVarint i64

fun op_ok :: "bit_op \<Rightarrow> bool" where
  "op_ok (OpBits u n) = (n \<le> 64 \<and> take_bit n u = u)"
| "op_ok _ = True"

fun write_op :: "bit_op \<Rightarrow> BitWriter \<Rightarrow> BitWriter" where
  "write_op (OpBit b) w = write_bit b w"
| "write_op (OpByte x) w = write_byte x w"
| "write_op (OpBits u n) w = write_bits u n w"
| "write_op (OpUvarint u) w = fold write_byte (put_uvarint u) w"
| "write_op (OpVarint i) w = fold write_byte (put_varint i) w"

definition map_result :: "('a \<Rightarrow> 'b) \<Rightarrow> (ReadError + 'a) \<times> 's \<Rightarrow> (ReadError + 'b) \<times> 's" where
  "map_result f p = (map_sum id f (fst p), snd p)"

fun read_op :: "bit_op \<Rightarrow> BitReader \<Rightarrow> (ReadError + bit_op) \<times> BitReader" where
  "read_op (OpBit b) r = map_result OpBit (read_bit r)"
| "read_op (OpByte x) r = map_result OpByte (read_byte r)"
| "read_op (OpBits u n) r = map_result (\<lambda>v. OpBits v n) (read_bits n r)"
| "read_op (OpUvarint u) r = map_result OpUvarint (br_read_uvarint r)"
| "read_op (OpVarint i) r = map_result OpVarint (br_read_varint r)"

fun read_ops :: "bit_op list \<Rightarrow> BitReader \<Rightarrow> (ReadError + bit_op list) \<times> BitReader" where
  "read_ops [] r = (Inr [], r)"
| "read_ops (op # ops) r =
     (case read_op op r of
        (Inl e, r') \<Rightarrow> (Inl e, r')
      | (Inr v, r') \<Rightarrow> map_result ((#) v) (read_ops ops r'))"

fun op_bits :: "bit_op \<Rightarrow> bool list" where
  "op_bits (OpBit b) = [b]"
| "op_bits (OpByte x) = word_bits 8 x"
| "op_bits (OpBits u n) = word_bits n u"
| "op_bits (OpUvarint u) = bytes_bits (put_uvarint u)"
| "op_bits (OpVarint i) = bytes_bits (put_varint i)"

lemma write_op_holds: "op_ok op \<Longrightarrow> w_holds w bs \<Longrightarrow> w_holds (write_op op w) (bs @ op_bits op)"
  by (cases op) (simp_all add: writer.put_bit writer.put_byte writer.put_bits writer.put_bytes)

lemma write_ops_hold:
  "list_all op_ok ops \<Longrightarrow> w_holds w bs \<Longrightarrow>
     w_holds (fold write_op ops w) (bs @ concat (map op_bits ops))"
proof (induction ops arbitrary: w bs)
  case (Cons op ops)
  then show ?case
    using Cons.IH [of "write_op op w" "bs @ op_bits op"] write_op_holds [of op w bs] by simp
qed simp

lemma read_op_ok:
  "op_ok op \<Longrightarrow> r_pending r (op_bits op @ rest) \<Longrightarrow> \<exists>r'. read_op op r = (Inr op, r') \<and> r_pending r' rest"
proof (cases op)
  case (OpBit b)
  moreover assume "op_ok op" "r_pending r (op_bits op @ rest)"
  ultimately show ?thesis using reader.get_bit [of r b rest] by (auto simp: map_result_def)
next
  case (OpByte x)
  moreover assume "op_ok op" "r_pending r (op_bits op @ rest)"
  ultimately show ?thesis using read_byte_ok [of r x rest] by (fastforce simp: map_result_def)
next
  case (OpBits u n)
  moreover assume "op_ok op" "r_pending r (op_bits op @ rest)"
  ultimately show ?thesis using reader.get_word [of r n u rest] by (fastforce simp: map_result_def)
next
  case (OpUvarint u)
  moreover assume "op_ok op" "r_pending r (op_bits op @ rest)"
  ultimately show ?thesis using br_read_uvarint_ok [of r u rest] by (fastforce simp: map_result_def)
next
  case (OpVarint i)
  moreover assume "op_ok op" "r_pending r (op_bits op @ rest)"
  ultimately show ?thesis using br_read_varint_ok [of r i rest] by (fastforce simp: map_result_def)
qed

lemma read_ops_ok:
  "list_all op_ok ops \<Longrightarrow> r_pending r (concat (map op_bits ops) @ rest) \<Longrightarrow>
     \<exists>r'. read_ops ops r = (Inr ops, r') \<and> r_pending r' rest"
proof (induction ops arbitrary: r)
  case (Cons op ops)
  then obtain r1 where "read_op op r = (Inr op, r1)" "r_pending r1 (concat (map op_bits ops) @ rest)"
    using read_op_ok [of op r "concat (map op_bits ops) @ rest"] by auto
  then show ?case
    using Cons.IH [of r1] Cons.prems(1) by (auto simp: map_result_def)
qed simp

text \<open>
  C35. Bit stream round trip: any sequence of bit, byte, multi-bit and varint writes to a fresh
  writer is read back, value for value, by the reads of the same shapes from the writer's
  bytes, whatever the alignment of the writes and wherever the reader refills its buffer.
\<close>

theorem bitstream_roundtrip:
  assumes "list_all op_ok ops"
  shows "fst (read_ops ops (BitReader_init (w_stream (fold write_op ops (BitWriter_init []))))) = Inr ops"
proof -
  let ?w = "fold write_op ops (BitWriter_init [])"
  have "w_holds ?w (concat (map op_bits ops))"
    using write_ops_hold [OF assms w_holds_init [of "[]"]] by simp
  then have "r_pending (BitReader_init (w_stream ?w)) (concat (map op_bits ops) @ replicate (w_count ?w) False)"
    using r_pending_init [of "w_stream ?w"] by (simp add: w_holds_def)
  then show ?thesis
    using read_ops_ok [OF assms] by fastforce
qed

theorem bitstream_roundtrip_witness:
  "fst (read_ops [OpBit True, OpBits 5 3, OpByte 200, OpVarint (- 2)]
     (BitReader_init (w_stream (fold write_op [OpBit True, OpBits 5 3, OpByte 200, OpVarint (- 2)]
       (BitWriter_init []))))) = Inr [OpBit True, OpBits 5 3, OpByte 200, OpVarint (- 2)]"
  by (rule bitstream_roundtrip) (simp add: take_bit_eq_mod)

text \<open>
  Functional specification of the buffered reader: on a well-formed reader a request for
  \<open>n\<close> bits succeeds exactly if that many bits are unread; it then returns the first \<open>n\<close>
  of them as a number and leaves the others, and otherwise it never returns a value.
\<close>

theorem read_bits_spec:
  assumes "r_inv r" and "n \<le> 64"
  shows "if n \<le> length (r_bits r)
         then \<exists>r'. read_bits n r = (Inr (bits_word (take n (r_bits r))), r') \<and> r_inv r' \<and>
                r_bits r' = drop n (r_bits r)
         else fst (read_bits n r) \<in> {Inl EndOfStream, Inl UndefinedBehaviour}"
proof (cases "n \<le> length (r_bits r)")
  case True
  then show ?thesis using read_bits_ok [OF assms True] by (metis (no_types, lifting))
next
  case False
  then show ?thesis using read_bits_short [OF assms] by simp
qed

theorem read_bits_spec_witness:
  "\<exists>r'. read_bits 12 (BitReader_init [0xAB, 0xCD])
      = (Inr (bits_word (take 12 (r_bits (BitReader_init [0xAB, 0xCD])))), r') \<and> r_inv r' \<and>
     r_bits r' = drop 12 (r_bits (BitReader_init [0xAB, 0xCD]))"
  using read_bits_spec [OF r_inv_init [of "[0xAB, 0xCD]"], of 12] by (simp add: r_bits_init)

text \<open>
  What a truncated stream does: if the buffer still holds some bits and the span still has
  bytes, but together they are fewer than requested, the read does not report the end of the
  stream; it shifts by a negative amount, which is undefined.
\<close>

theorem read_bits_truncated_undefined:
  assumes "r_inv r" and "0 < r_valid r" and "r_offset r < length (r_stream r)"
    and "length (r_bits r) < n" and "n \<le> 64"
  shows "fst (read_bits n r) = Inl UndefinedBehaviour"
proof -
  define q where "q = n - r_valid r"
  define r0 where "r0 = r\<lparr>r_valid := 0\<rparr>"
  have bits: "r_bits r = word_bits (r_valid r) (r_buffer r) @ r_bits r0"
    by (simp add: r0_def r_bits_def)
  have q: "q \<le> 64" "length (r_bits r0) < q"
    using assms(4,5) arg_cong [OF bits, of length] by (auto simp: q_def)
  have r0: "r_inv r0" "r_valid r0 = 0" "r_bits r0 \<noteq> []"
    using assms(1,3) by (simp_all add: r0_def r_inv_def r_bits_def)
  obtain r2 where load: "load_next_buffer q r0 = (True, r2)" "r_bits r2 = r_bits r0"
    using load_next_buffer_ok [OF r0 q(1)] by metis
  have "r_valid r2 \<le> length (r_bits r2)"
    by (simp add: r_bits_def)
  then have "r_valid r2 < q"
    using q(2) load(2) by simp
  moreover have "n \<noteq> 0" "\<not> n \<le> r_valid r"
    using q(2) by (auto simp: q_def)
  ultimately show ?thesis
    using load(1) assms(2) by (simp add: read_bits_split [OF _ _ _ q_def] r0_def [symmetric])
qed

theorem read_bits_truncated_undefined_witness:
  "fst (read_bits 64 (snd (read_bit (BitReader_init [0xFF, 0xFF])))) = Inl UndefinedBehaviour"
  by (rule read_bits_truncated_undefined)
    (simp_all add: read_bit_def load_next_buffer_def BitReader_init_def r_inv_def r_bits_def)

end
