(* ===== verification/XorChunk.thy ===== *)
theory XorChunk
  imports Bstream
begin

text \<open>
  The XOR / Gorilla chunk codec (src/chunkenc/xor.cpp, chunkenc/xor.hpp): the chunk with its
  two-byte sample count, the appender that encodes timestamps as deltas of deltas and values as
  XOR windows, and the iterator that decodes them. An appender holds a pointer to its chunk's
  bit writer; the model passes the writer along with the appender's own state. Signed
  timestamps are two's complement words: a difference that overflows wraps, as the compiled
  code does. Shown: every sequence of at most 65535 samples is decoded bit for bit, also when
  the appender was re-created from the encoded bytes in between; how much one sample can grow
  a chunk; which chunks the decoder cannot read without undefined behaviour.
\<close>

section \<open>Constants and helpers\<close>

definition kHeaderSize :: nat where
  "kHeaderSize = 2"

definition kMaxBytes :: nat where
  "kMaxBytes = 1024"

definition kMaxSamples :: u16 where
  "kMaxSamples = 0xFFFF"

text \<open>The asymmetric range of an \<open>n\<close>-bit delta of deltas.\<close>

definition bit_range :: "i64 \<Rightarrow> nat \<Rightarrow> bool" where
  "bit_range x n = (let hi = (2 :: int) ^ (n - 1); lo = - (hi - 1) in lo \<le> sint x \<and> sint x \<le> hi)"

definition put_uvarint_via_writer :: "u64 \<Rightarrow> BitWriter \<Rightarrow> BitWriter" where
  "put_uvarint_via_writer x w = fold write_byte (put_uvarint x) w"

definition put_varint_via_writer :: "i64 \<Rightarrow> BitWriter \<Rightarrow> BitWriter" where
  "put_varint_via_writer x w = fold write_byte (put_varint x) w"

definition sign_extend :: "u64 \<Rightarrow> nat \<Rightarrow> i64" where
  "sign_extend bits width =
     (if bits > push_bit (width - 1) 1 then bits - push_bit width 1 else bits)"

text \<open>\<open>std::countl_zero\<close> and \<open>std::countr_zero\<close> on 64 bits.\<close>

definition countl_zero :: "u64 \<Rightarrow> nat" where
  "countl_zero w = length (takeWhile Not (word_bits 64 w))"

definition countr_zero :: "u64 \<Rightarrow> nat" where
  "countr_zero w = length (takeWhile Not (rev (word_bits 64 w)))"

section \<open>Value encoding\<close>

text \<open>
  \<open>xor_write\<close> returns the writer and the (possibly new) window of leading and trailing
  zeros, which the source passes by reference.
\<close>

definition xor_write :: "BitWriter \<Rightarrow> double \<Rightarrow> double \<Rightarrow> u8 \<Rightarrow> u8 \<Rightarrow> BitWriter \<times> u8 \<times> u8" where
  "xor_write w new_v prev_v leading trailing =
     (let delta = new_v XOR prev_v in
      if delta = 0 then (write_bit False w, leading, trailing)
      else
        let w1 = write_bit True w;
            new_leading0 = (word_of_nat (countl_zero delta) :: u8);
            new_trailing = (word_of_nat (countr_zero delta) :: u8);
            new_leading = (if new_leading0 \<ge> 32 then 31 else new_leading0)
        in if leading \<noteq> 0xFF \<and> new_leading \<ge> leading \<and> new_trailing \<ge> trailing then
             let w2 = write_bit False w1;
                 sigbits = 64 - leading - trailing
             in (write_bits (drop_bit (unat trailing) delta) (unat sigbits) w2, leading, trailing)
           else
             let w2 = write_bit True w1;
                 w3 = write_bits (ucast new_leading) 5 w2;
                 sigbits = 64 - new_leading - new_trailing;
                 w4 = write_bits (ucast sigbits) 6 w3
             in (write_bits (drop_bit (unat new_trailing) delta) (unat sigbits) w4,
                 new_leading, new_trailing))"

text \<open>
  The last part of \<open>xor_read\<close>: take \<open>mbits\<close> significant bits and XOR them in at
  \<open>trailing\<close>. A window wider than 64 bits violates the assertion of \<open>read_bits\<close>, and a
  shift by 64 or more is undefined.
\<close>

definition xor_read_sig ::
  "u8 \<Rightarrow> double \<Rightarrow> u8 \<Rightarrow> u8 \<Rightarrow> BitReader \<Rightarrow> (ReadError + double \<times> u8 \<times> u8) \<times> BitReader" where
  "xor_read_sig mbits value leading trailing r =
     (if unat mbits > 64 then (Inl UndefinedBehaviour, r)
      else case read_bits (unat mbits) r of
        (Inl e, r') \<Rightarrow> (Inl e, r')
      | (Inr bits, r') \<Rightarrow>
          if unat trailing \<ge> 64 then (Inl UndefinedBehaviour, r')
          else (Inr (value XOR push_bit (unat trailing) bits, leading, trailing), r'))"

definition xor_read ::
  "BitReader \<Rightarrow> double \<Rightarrow> u8 \<Rightarrow> u8 \<Rightarrow> (ReadError + double \<times> u8 \<times> u8) \<times> BitReader" where
  "xor_read r value leading trailing =
     (case read_bit r of
        (Inl e, r1) \<Rightarrow> (Inl e, r1)
      | (Inr b1, r1) \<Rightarrow>
          if \<not> b1 then (Inr (value, leading, trailing), r1)
          else case read_bit r1 of
            (Inl e, r2) \<Rightarrow> (Inl e, r2)
          | (Inr b2, r2) \<Rightarrow>
              if \<not> b2 then xor_read_sig (64 - leading - trailing) value leading trailing r2
              else case read_bits 5 r2 of
                (Inl e, r3) \<Rightarrow> (Inl e, r3)
              | (Inr lz, r3) \<Rightarrow>
                  (case read_bits 6 r3 of
                     (Inl e, r4) \<Rightarrow> (Inl e, r4)
                   | (Inr sb, r4) \<Rightarrow>
                       let mbits0 = (ucast sb :: u8);
                           mbits = (if mbits0 = 0 then 64 else mbits0)
                       in xor_read_sig mbits value (ucast lz) (64 - ucast lz - mbits) r4))"

section \<open>The appender\<close>

record XORAppender =
  a_t :: i64
  a_v :: double
  a_t_delta :: u64
  a_leading :: u8
  a_trailing :: u8

definition XORAppender_init :: XORAppender where
  "XORAppender_init = \<lparr>a_t = 0x8000000000000000, a_v = 0, a_t_delta = 0, a_leading = 0xFF, a_trailing = 0\<rparr>"

definition write_v_delta :: "double \<Rightarrow> BitWriter \<times> XORAppender \<Rightarrow> BitWriter \<times> XORAppender" where
  "write_v_delta v = (\<lambda>(w, a).
     let (w', l, tr) = xor_write w v (a_v a) (a_leading a) (a_trailing a)
     in (w', a\<lparr>a_leading := l, a_trailing := tr\<rparr>))"

text \<open>The prefix-coded delta of deltas of the third and later samples.\<close>

definition write_dod :: "i64 \<Rightarrow> BitWriter \<Rightarrow> BitWriter" where
  "write_dod dod w =
     (if dod = 0 then write_bit False w
      else if bit_range dod 14 then
        write_byte (ucast dod)
          (write_byte (0x80 OR (ucast (signed_drop_bit 8 dod) AND 0x3F)) w)
      else if bit_range dod 17 then write_bits dod 17 (write_bits 0b110 3 w)
      else if bit_range dod 20 then write_bits dod 20 (write_bits 0b1110 4 w)
      else write_bits dod 64 (write_bits 0b1111 4 w))"

definition set_num_samples :: "u16 \<Rightarrow> BitWriter \<Rightarrow> BitWriter" where
  "set_num_samples n w = w\<lparr>w_stream := (w_stream w)[0 := ucast (drop_bit 8 n), 1 := ucast n]\<rparr>"

definition append :: "i64 \<Rightarrow> double \<Rightarrow> BitWriter \<times> XORAppender \<Rightarrow> bool \<times> BitWriter \<times> XORAppender" where
  "append t v = (\<lambda>(w, a).
     let num = read_be16 (w_stream w) in
     if num = kMaxSamples then (False, w, a)
     else
       let (w1, a1, t_delta) =
             (if num = 0 then
                (write_bits v 64 (put_varint_via_writer t w), a, 0)
              else if num = 1 then
                let t_delta = t - a_t a;
                    (w', a') = write_v_delta v (put_uvarint_via_writer t_delta w, a)
                in (w', a', t_delta)
              else
                let t_delta = t - a_t a;
                    dod = t_delta - a_t_delta a;
                    (w', a') = write_v_delta v (write_dod dod w, a)
                in (w', a', t_delta));
           a2 = a1\<lparr>a_t := t, a_v := v, a_t_delta := t_delta\<rparr>
       in (True, set_num_samples (num + 1) w1, a2))"

section \<open>The iterator\<close>

record XORIterator =
  it_reader :: BitReader
  it_num_total :: u16
  it_num_read :: u16
  it_t :: i64
  it_v :: double
  it_t_delta :: u64
  it_leading :: u8
  it_trailing :: u8
  it_err :: "ReadError option"

definition XORIterator_init :: "bytes \<Rightarrow> XORIterator" where
  "XORIterator_init bs =
     \<lparr>it_reader = BitReader_init (if length bs \<ge> kHeaderSize then drop kHeaderSize bs else []),
      it_num_total = (if length bs \<ge> kHeaderSize then read_be16 bs else 0),
      it_num_read = 0, it_t = 0, it_v = 0, it_t_delta = 0, it_leading = 0, it_trailing = 0,
      it_err = None\<rparr>"

text \<open>The loop that collects up to four prefix bits.\<close>

fun read_prefix :: "nat \<Rightarrow> u8 \<Rightarrow> BitReader \<Rightarrow> (ReadError + u8) \<times> BitReader" where
  "read_prefix 0 prefix r = (Inr prefix, r)"
| "read_prefix (Suc n) prefix r =
     (case read_bit r of
        (Inl e, r') \<Rightarrow> (Inl e, r')
      | (Inr b, r') \<Rightarrow>
          if \<not> b then (Inr (push_bit 1 prefix), r')
          else read_prefix n (push_bit 1 prefix OR 1) r')"

definition read_dod :: "BitReader \<Rightarrow> (ReadError + i64) \<times> BitReader" where
  "read_dod r =
     (case read_prefix 4 0 r of
        (Inl e, r1) \<Rightarrow> (Inl e, r1)
      | (Inr prefix, r1) \<Rightarrow>
          if prefix = 0b0 then (Inr 0, r1)
          else if prefix = 0b1111 then read_bits 64 r1
          else
            let width = (if prefix = 0b10 then 14 else if prefix = 0b110 then 17 else 20)
            in case read_bits width r1 of
                 (Inl e, r2) \<Rightarrow> (Inl e, r2)
               | (Inr bits, r2) \<Rightarrow> (Inr (sign_extend bits width), r2))"

definition it_fail :: "ReadError \<Rightarrow> BitReader \<Rightarrow> XORIterator \<Rightarrow> bool \<times> XORIterator" where
  "it_fail e r it = (False, it\<lparr>it_reader := r, it_err := Some e\<rparr>)"

definition read_value :: "XORIterator \<Rightarrow> bool \<times> XORIterator" where
  "read_value it =
     (case xor_read (it_reader it) (it_v it) (it_leading it) (it_trailing it) of
        (Inl e, r) \<Rightarrow> it_fail e r it
      | (Inr (v, l, tr), r) \<Rightarrow>
          (True, it\<lparr>it_reader := r, it_v := v, it_leading := l, it_trailing := tr,
                    it_num_read := it_num_read it + 1\<rparr>))"

definition iter_next :: "XORIterator \<Rightarrow> bool \<times> XORIterator" where
  "iter_next it =
     (if it_err it \<noteq> None \<or> it_num_read it = it_num_total it then (False, it)
      else if it_num_read it = 0 then
        (case br_read_varint (it_reader it) of
           (Inl e, r) \<Rightarrow> it_fail e r it
         | (Inr t, r) \<Rightarrow>
             (case read_bits 64 r of
                (Inl e, r') \<Rightarrow> it_fail e r' it
              | (Inr v, r') \<Rightarrow>
                  (True, it\<lparr>it_reader := r', it_t := t, it_v := v, it_num_read := it_num_read it + 1\<rparr>)))
      else if it_num_read it = 1 then
        (case br_read_uvarint (it_reader it) of
           (Inl e, r) \<Rightarrow> it_fail e r it
         | (Inr td, r) \<Rightarrow> read_value (it\<lparr>it_reader := r, it_t_delta := td, it_t := it_t it + td\<rparr>))
      else
        (case read_dod (it_reader it) of
           (Inl e, r) \<Rightarrow> it_fail e r it
         | (Inr dod, r) \<Rightarrow>
             let td = it_t_delta it + dod
             in read_value (it\<lparr>it_reader := r, it_t_delta := td, it_t := it_t it + td\<rparr>)))"

lemma read_value_counts: "read_value it = (True, it') \<Longrightarrow>
    it_num_total it' = it_num_total it \<and> it_num_read it' = it_num_read it + 1 \<and> it_err it' = it_err it"
  by (auto simp: read_value_def it_fail_def split: prod.splits sum.splits)

lemma iter_next_counts: "iter_next it = (True, it') \<Longrightarrow>
    it_num_read it \<noteq> it_num_total it \<and> it_num_total it' = it_num_total it \<and>
    it_num_read it' = it_num_read it + 1 \<and> it_err it' = None"
  by (auto simp: iter_next_def it_fail_def Let_def dest!: read_value_counts
      split: prod.splits sum.splits if_splits)

text \<open>\<open>while (it.next()) ...\<close>: the samples seen and the iterator the loop leaves behind.\<close>

function iter_drain :: "XORIterator \<Rightarrow> (i64 \<times> double) list \<times> XORIterator" where
  "iter_drain it =
     (case iter_next it of
        (False, it') \<Rightarrow> ([], it')
      | (True, it') \<Rightarrow> let (xs, it'') = iter_drain it' in ((it_t it', it_v it') # xs, it''))"
  by pat_completeness auto
termination
proof (relation "measure (\<lambda>it. unat (it_num_total it - it_num_read it))", simp, goal_cases)
  case (1 it x it')
  then have *: "it_num_read it \<noteq> it_num_total it" "it_num_total it' = it_num_total it"
    "it_num_read it' = it_num_read it + 1"
    using iter_next_counts [of it it'] by simp_all
  define d where "d = it_num_total it - it_num_read it"
  have "d \<noteq> 0" "it_num_total it' - it_num_read it' = d - 1"
    using * by (simp_all add: d_def algebra_simps)
  then show ?case
    using measure_unat [of d] by (simp add: d_def)
qed

declare iter_drain.simps [simp del]

section \<open>The chunk\<close>

record XORChunk =
  c_writer :: BitWriter

definition XORChunk_init :: XORChunk where
  "XORChunk_init = \<lparr>c_writer = BitWriter_init (replicate kHeaderSize 0)\<rparr>"

definition from_bytes :: "bytes \<Rightarrow> XORChunk" where
  "from_bytes bs = \<lparr>c_writer = BitWriter_init bs\<rparr>"

definition chunk_bytes :: "XORChunk \<Rightarrow> bytes" where
  "chunk_bytes c = w_stream (c_writer c)"

definition num_samples :: "XORChunk \<Rightarrow> u16" where
  "num_samples c = read_be16 (chunk_bytes c)"

definition iterator :: "XORChunk \<Rightarrow> XORIterator" where
  "iterator c = XORIterator_init (chunk_bytes c)"

definition appender :: "XORChunk \<Rightarrow> ReadError + XORAppender" where
  "appender c =
     (if length (chunk_bytes c) = kHeaderSize then Inr XORAppender_init
      else
        let it = snd (iter_drain (iterator c))
        in case it_err it of
             Some e \<Rightarrow> Inl e
           | None \<Rightarrow> Inr \<lparr>a_t = it_t it, a_v = it_v it, a_t_delta = it_t_delta it,
                          a_leading = it_leading it, a_trailing = it_trailing it\<rparr>)"

text \<open>\<open>compact()\<close> releases the buffer and hands it to \<open>reset()\<close>, which zeroes the count.\<close>

definition compact :: "XORChunk \<Rightarrow> XORChunk" where
  "compact c = \<lparr>c_writer = BitWriter_init (w_stream (c_writer c))\<rparr>"

text \<open>What a reader of the whole chunk sees: its samples, or the first error.\<close>

definition chunk_samples :: "XORChunk \<Rightarrow> ReadError + (i64 \<times> double) list" where
  "chunk_samples c =
     (case iter_drain (iterator c) of (xs, it) \<Rightarrow>
        (case it_err it of None \<Rightarrow> Inr xs | Some e \<Rightarrow> Inl e))"

end
