(* ===== verification/XorRoundtrip.thy ===== *)
theory XorRoundtrip
  imports XorChunk
begin

text \<open>
  Correctness of the XOR chunk codec. The encoder is first described as a function from samples
  to lists of bits; the appender is shown to write these bits and the iterator to read them
  back, and the life of a chunk (appends, and re-creations of the appender) is a step relation
  over which the round trip is proved by rule induction.
\<close>

section \<open>Zeros at both ends\<close>

lemma countl_zero_bits: "64 - countl_zero w \<le> i \<Longrightarrow> \<not> bit w i"
proof -
  assume i: "64 - countl_zero w \<le> i"
  show ?thesis
  proof (cases "i < 64")
    case True
    let ?tw = "takeWhile Not (word_bits 64 w)"
    have "63 - i < length ?tw"
      using i True by (simp add: countl_zero_def)
    then have "\<not> word_bits 64 w ! (63 - i)"
      by (metis nth_mem set_takeWhileD takeWhile_nth)
    then show ?thesis
      using True by (simp add: nth_word_bits)
  qed (use bit_imp_le_length [of w i] in auto)
qed

lemma countr_zero_bits: "i < countr_zero w \<Longrightarrow> \<not> bit w i"
proof -
  assume i: "i < countr_zero w"
  let ?xs = "rev (word_bits 64 w)"
  have len: "countr_zero w \<le> 64"
    unfolding countr_zero_def using length_takeWhile_le [of Not ?xs] by simp
  have "\<not> ?xs ! i"
    using i by (metis countr_zero_def nth_mem set_takeWhileD takeWhile_nth)
  then show ?thesis
    using i len by (simp add: rev_nth nth_word_bits)
qed

lemma countl_zero_top: "w \<noteq> 0 \<Longrightarrow> countl_zero w < 64 \<and> bit w (63 - countl_zero w)"
proof -
  assume "w \<noteq> 0"
  then obtain i where "bit w i" by (auto simp: bit_eq_iff)
  then have less: "countl_zero w < 64"
    using countl_zero_bits [of w i] by (metis diff_is_0_eq le0 not_le_imp_less)
  then have "\<not> \<not> word_bits 64 w ! countl_zero w"
    unfolding countl_zero_def by (intro nth_length_takeWhile) simp
  then show ?thesis
    using less by (simp add: nth_word_bits)
qed

lemma count_zero_sum: "w \<noteq> 0 \<Longrightarrow> countl_zero w + countr_zero w < 64"
  using countl_zero_top [of w] countr_zero_bits [of "63 - countl_zero w" w] by force

section \<open>Windows\<close>

text \<open>A window: leading and trailing zeros that leave at least one significant bit.\<close>

definition window_ok :: "u8 \<Rightarrow> u8 \<Rightarrow> bool" where
  "window_ok l t \<longleftrightarrow> unat l \<le> 31 \<and> unat l + unat t < 64"

definition sig_bits :: "u8 \<Rightarrow> u8 \<Rightarrow> nat" where
  "sig_bits l t = 64 - unat l - unat t"

lemma unat_sigbits: "window_ok l t \<Longrightarrow> unat (64 - l - t) = sig_bits l t"
proof -
  assume w: "window_ok l t"
  have "unat (64 - l :: u8) = 64 - unat l"
    using w by (subst unat_sub) (simp_all add: window_ok_def word_le_nat_alt)
  moreover from this have "unat (64 - l - t) = unat (64 - l) - unat t"
    using w by (intro unat_sub) (auto simp: window_ok_def word_le_nat_alt)
  ultimately show ?thesis
    by (simp add: sig_bits_def)
qed

text \<open>A delta fits a window if its zeros cover the window's.\<close>

definition fits :: "u8 \<Rightarrow> u8 \<Rightarrow> u64 \<Rightarrow> bool" where
  "fits l t delta \<longleftrightarrow> window_ok l t \<and> unat l \<le> countl_zero delta \<and> unat t \<le> countr_zero delta"

lemma fits_low: "fits l t delta \<Longrightarrow> push_bit (unat t) (drop_bit (unat t) delta) = delta"
proof (rule bit_word_eqI)
  fix n assume f: "fits l t delta" and "n < LENGTH(64)"
  moreover have "unat t \<le> n" if "bit delta n"
    using f countr_zero_bits [of n delta] that by (force simp: fits_def)
  ultimately show "bit (push_bit (unat t) (drop_bit (unat t) delta)) n = bit delta n"
    by (auto simp: bit_simps)
qed

lemma fits_high:
  "fits l t delta \<Longrightarrow> take_bit (sig_bits l t) (drop_bit (unat t) delta) = drop_bit (unat t) delta"
proof (rule bit_word_eqI)
  fix n assume f: "fits l t delta"
  have "\<not> bit delta (unat t + n)" if "\<not> n < sig_bits l t"
    using f that by (intro countl_zero_bits) (auto simp: fits_def sig_bits_def window_ok_def)
  then show "bit (take_bit (sig_bits l t) (drop_bit (unat t) delta)) n = bit (drop_bit (unat t) delta) n"
    by (auto simp: bit_simps)
qed

lemma sig_bits_bounds: "window_ok l t \<Longrightarrow> 0 < sig_bits l t \<and> sig_bits l t \<le> 64"
  by (auto simp: sig_bits_def window_ok_def)

lemma xor_read_sig_ok:
  assumes "r_pending r (word_bits (sig_bits l t) (drop_bit (unat t) delta) @ rest)"
    and "fits l t delta"
  obtains r' where "xor_read_sig (64 - l - t) v l t r = (Inr (v XOR delta, l, t), r')"
    "r_pending r' rest"
proof -
  have w: "window_ok l t" using assms(2) by (simp add: fits_def)
  obtain r' where "read_bits (sig_bits l t) r = (Inr (take_bit (sig_bits l t) (drop_bit (unat t) delta)), r')"
    "r_pending r' rest"
    using reader.get_word [OF assms(1)] sig_bits_bounds [OF w] by blast
  moreover have "\<not> 64 \<le> unat t"
    using w by (simp add: window_ok_def)
  ultimately show thesis
    using that sig_bits_bounds [OF w]
    by (simp add: xor_read_sig_def unat_sigbits [OF w] fits_high [OF assms(2)] fits_low [OF assms(2)])
qed

section \<open>The value code\<close>

text \<open>The window \<open>xor_write\<close> computes from a delta.\<close>

definition new_window :: "u64 \<Rightarrow> u8 \<times> u8" where
  "new_window delta =
     (let l = (word_of_nat (countl_zero delta) :: u8)
      in (if l \<ge> 32 then 31 else l, word_of_nat (countr_zero delta)))"

lemma new_window_fits: "delta \<noteq> 0 \<Longrightarrow> fits (fst (new_window delta)) (snd (new_window delta)) delta"
proof -
  assume "delta \<noteq> 0"
  then have sum: "countl_zero delta + countr_zero delta < 64"
    by (rule count_zero_sum)
  have l: "unat (word_of_nat (countl_zero delta) :: u8) = countl_zero delta"
    and t: "unat (word_of_nat (countr_zero delta) :: u8) = countr_zero delta"
    using sum by (simp_all add: unat_of_nat)
  show ?thesis
    using sum by (auto simp: new_window_def Let_def fits_def window_ok_def word_le_nat_alt l t)
qed

definition reuses :: "u8 \<Rightarrow> u8 \<Rightarrow> u64 \<Rightarrow> bool" where
  "reuses l t delta \<longleftrightarrow> l \<noteq> 0xFF \<and> l \<le> fst (new_window delta) \<and> t \<le> snd (new_window delta)"

definition enc_value :: "u64 \<Rightarrow> u8 \<Rightarrow> u8 \<Rightarrow> bool list" where
  "enc_value delta l t =
     (if delta = 0 then [False]
      else if reuses l t delta then
        [True, False] @ word_bits (sig_bits l t) (drop_bit (unat t) delta)
      else
        let (nl, nt) = new_window delta in
        [True, True] @ word_bits 5 nl @ word_bits 6 (64 - nl - nt)
          @ word_bits (sig_bits nl nt) (drop_bit (unat nt) delta))"

definition next_window :: "u64 \<Rightarrow> u8 \<Rightarrow> u8 \<Rightarrow> u8 \<times> u8" where
  "next_window delta l t = (if delta = 0 \<or> reuses l t delta then (l, t) else new_window delta)"

text \<open>
  The windows of appender and iterator: equal and valid, or the appender still has the
  sentinel 0xFF and the iterator its zeros.
\<close>

definition windows_agree :: "u8 \<times> u8 \<Rightarrow> u8 \<times> u8 \<Rightarrow> bool" where
  "windows_agree a i \<longleftrightarrow> fst a = 0xFF \<and> i = (0, 0) \<or> a = i \<and> window_ok (fst a) (snd a)"

lemma reuses_fits:
  "reuses l t delta \<Longrightarrow> delta \<noteq> 0 \<Longrightarrow> windows_agree (l, t) i \<Longrightarrow> fits l t delta \<and> i = (l, t)"
  using new_window_fits [of delta]
  by (auto simp: reuses_def windows_agree_def fits_def word_le_nat_alt)

lemma xor_write_holds:
  assumes "w_holds w bs" "windows_agree (l, t) i"
  shows "\<exists>w'. xor_write w v p l t = (w', next_window (v XOR p) l t) \<and>
     w_holds w' (bs @ enc_value (v XOR p) l t)"
proof -
  define delta where "delta = v XOR p"
  obtain nl nt where nw: "new_window delta = (nl, nt)" by fastforce
  note puts = writer.put_bit writer.put_bits
  show ?thesis
  proof (cases "delta = 0")
    case True
    then show ?thesis
      using puts(1) [OF assms(1)] by (simp add: xor_write_def delta_def [symmetric] next_window_def enc_value_def)
  next
    case nz: False
    then have fit: "fits nl nt delta"
      using new_window_fits [OF nz] nw by simp
    show ?thesis
    proof (cases "reuses l t delta")
      case True
      then have "fits l t delta"
        using reuses_fits [OF True nz assms(2)] by simp
      then have w: "window_ok l t" by (simp add: fits_def)
      have "w_holds (write_bits (drop_bit (unat t) delta) (sig_bits l t) (write_bit False (write_bit True w)))
          (((bs @ [True]) @ [False]) @ word_bits (sig_bits l t) (drop_bit (unat t) delta))"
        by (intro puts assms(1)) (use sig_bits_bounds [OF w] in simp)
      then show ?thesis
        using nz True nw unat_sigbits [OF w]
        by (simp add: xor_write_def delta_def [symmetric] Let_def next_window_def enc_value_def
            reuses_def new_window_def)
    next
      case False
      have w: "window_ok nl nt" using fit by (simp add: fits_def)
      let ?w3 = "write_bits (ucast nl) 5 (write_bit True (write_bit True w))"
      let ?w4 = "write_bits (ucast (64 - nl - nt)) 6 ?w3"
      have "w_holds (write_bits (drop_bit (unat nt) delta) (sig_bits nl nt) ?w4)
          (((((bs @ [True]) @ [True]) @ word_bits 5 (ucast nl :: u64)) @ word_bits 6 (ucast (64 - nl - nt) :: u64))
            @ word_bits (sig_bits nl nt) (drop_bit (unat nt) delta))"
        by (intro puts assms(1)) (use sig_bits_bounds [OF w] in simp_all)
      then show ?thesis
        using nz False nw unat_sigbits [OF w]
        by (auto simp: xor_write_def delta_def [symmetric] Let_def next_window_def enc_value_def
            reuses_def new_window_def word_bits_ucast)
    qed
  qed
qed

lemma take_bit_small: "unat w < 2 ^ n \<Longrightarrow> take_bit n w = (w :: 'a::len word)"
  by (simp add: word_unat_eq_iff unat_take_bit)

lemma ucast_take_small:
  "unat (b :: u8) < 2 ^ n \<Longrightarrow> (ucast (take_bit n (ucast b :: u64)) :: u8) = b"
proof -
  assume b: "unat b < 2 ^ n"
  have "unat (ucast b :: u64) = unat b"
    using unat_bound [of b] by (simp add: unat_ucast)
  then have "take_bit n (ucast b :: u64) = ucast b"
    using b by (intro take_bit_small) simp
  moreover have "ucast (ucast b :: u64) = b"
    by (rule bit_word_eqI) (auto simp: bit_simps)
  ultimately show ?thesis by simp
qed

lemma next_window_agree:
  "windows_agree (l, t) i \<Longrightarrow>
     windows_agree (next_window delta l t)
       (if delta = 0 \<or> reuses l t delta then i else new_window delta)"
  using new_window_fits [of delta]
  by (auto simp: next_window_def windows_agree_def fits_def prod_eq_iff)

text \<open>The six-bit field holds the width of the window, with 64 written as 0.\<close>

lemma read_width:
  assumes "window_ok l t"
  shows "(let m = (ucast (take_bit 6 (ucast (64 - l - t :: u8) :: u64)) :: u8)
          in if m = 0 then 64 else m) = 64 - l - t"
proof -
  define s where "s = (64 - l - t :: u8)"
  have s: "unat s = sig_bits l t" "0 < unat s" "unat s \<le> 64"
    using unat_sigbits [OF assms] sig_bits_bounds [OF assms] by (auto simp: s_def)
  have nz: "s \<noteq> 0"
    using s(2) by (metis unat_0 less_irrefl)
  show ?thesis
  proof (cases "unat s < 64")
    case True
    then have "(ucast (take_bit 6 (ucast s :: u64)) :: u8) = s"
      by (intro ucast_take_small) simp
    then show ?thesis
      unfolding s_def [symmetric] Let_def using nz by simp
  next
    case False
    then have "s = 64"
      using s(3) by (simp add: word_unat_eq_iff)
    then show ?thesis
      unfolding s_def [symmetric] Let_def by simp
  qed
qed

lemma read_trailing: "window_ok l t \<Longrightarrow> 64 - l - (64 - l - t :: u8) = t"
  by simp

lemma xor_read_ok:
  assumes pend: "r_pending r (enc_value (v XOR p) l t @ rest)"
    and agree: "windows_agree (l, t) (il, it)"
  obtains r' i' where "xor_read r p il it = (Inr (v, i'), r')" "r_pending r' rest"
    "windows_agree (next_window (v XOR p) l t) i'"
proof -
  define delta where "delta = v XOR p"
  have v: "v = p XOR delta"
    by (simp add: delta_def xor.commute)
  obtain nl nt where nw: "new_window delta = (nl, nt)" by fastforce
  show thesis
  proof (cases "delta = 0")
    case True
    then have "r_pending r (False # rest)"
      using pend by (simp add: enc_value_def delta_def)
    then obtain r' where "read_bit r = (Inr False, r')" "r_pending r' rest"
      using reader.get_bit by blast
    moreover have "v = p"
      using True by (simp add: delta_def)
    ultimately show thesis
      using that [of "(il, it)" r'] agree by (simp add: xor_read_def next_window_def)
  next
    case nz: False
    show thesis
    proof (cases "reuses l t delta")
      case True
      then have fit: "fits l t delta" and i: "(il, it) = (l, t)"
        using reuses_fits [OF True nz agree] by simp_all
      have "r_pending r (True # False # word_bits (sig_bits l t) (drop_bit (unat t) delta) @ rest)"
        using pend nz True by (simp add: enc_value_def delta_def)
      then obtain r1 r2 where "read_bit r = (Inr True, r1)" "read_bit r1 = (Inr False, r2)"
        "r_pending r2 (word_bits (sig_bits l t) (drop_bit (unat t) delta) @ rest)"
        using reader.get_bit by metis
      moreover from this obtain r3 where "xor_read_sig (64 - l - t) p l t r2 = (Inr (p XOR delta, l, t), r3)"
        "r_pending r3 rest"
        using xor_read_sig_ok [OF _ fit] by blast
      ultimately have "xor_read r p il it = (Inr (v, l, t), r3)" and r3: "r_pending r3 rest"
        using i by (simp_all add: xor_read_def v)
      moreover have "windows_agree (next_window delta l t) (l, t)"
        using agree i True by (simp add: next_window_def)
      ultimately show thesis
        using that by (simp add: delta_def)
    next
      case False
      have fit: "fits nl nt delta"
        using new_window_fits [OF nz] nw by simp
      then have w: "window_ok nl nt" by (simp add: fits_def)
      have "r_pending r (True # True # word_bits 5 (ucast nl :: u64) @ word_bits 6 (ucast (64 - nl - nt) :: u64)
          @ word_bits (sig_bits nl nt) (drop_bit (unat nt) delta) @ rest)"
        using pend nz False nw by (simp add: enc_value_def delta_def [symmetric] word_bits_ucast)
      then obtain r1 r2 where r12: "read_bit r = (Inr True, r1)" "read_bit r1 = (Inr True, r2)"
        "r_pending r2 (word_bits 5 (ucast nl :: u64) @ word_bits 6 (ucast (64 - nl - nt) :: u64)
          @ word_bits (sig_bits nl nt) (drop_bit (unat nt) delta) @ rest)"
        using reader.get_bit by metis
      obtain r3 where r3: "read_bits 5 r2 = (Inr (take_bit 5 (ucast nl)), r3)"
        "r_pending r3 (word_bits 6 (ucast (64 - nl - nt) :: u64)
          @ word_bits (sig_bits nl nt) (drop_bit (unat nt) delta) @ rest)"
        using reader.get_word [OF r12(3)] by auto
      obtain r4 where r4: "read_bits 6 r3 = (Inr (take_bit 6 (ucast (64 - nl - nt))), r4)"
        "r_pending r4 (word_bits (sig_bits nl nt) (drop_bit (unat nt) delta) @ rest)"
        using reader.get_word [OF r3(2)] by auto
      obtain r5 where r5: "xor_read_sig (64 - nl - nt) p nl nt r4 = (Inr (p XOR delta, nl, nt), r5)"
        "r_pending r5 rest"
        using xor_read_sig_ok [OF r4(2) fit] by blast
      have lz: "(ucast (take_bit 5 (ucast nl :: u64)) :: u8) = nl"
        using w by (intro ucast_take_small) (simp add: window_ok_def)
      have "xor_read r p il it = (Inr (v, nl, nt), r5)"
        using r12(1,2) r3(1) r4(1) r5(1) read_width [OF w] v
        by (simp add: xor_read_def lz Let_def)
      then show thesis
        using that r5(2) next_window_agree [OF agree, of delta] nz False nw by (simp add: delta_def)
    qed
  qed
qed

section \<open>The timestamp code\<close>

definition enc_dod :: "i64 \<Rightarrow> bool list" where
  "enc_dod dod =
     (if dod = 0 then [False]
      else if bit_range dod 14 then [True, False] @ word_bits 14 dod
      else if bit_range dod 17 then [True, True, False] @ word_bits 17 dod
      else if bit_range dod 20 then [True, True, True, False] @ word_bits 20 dod
      else [True, True, True, True] @ word_bits 64 dod)"

lemma word_bits_8_unfold: "word_bits 8 X = bit X 7 # bit X 6 # word_bits 6 X"
  using word_bits_Suc [of 7 X] word_bits_Suc [of 6 X] by simp

text \<open>The two bytes of the 14-bit case hold the prefix 10 and the fourteen low bits.\<close>

lemma dod14_bytes:
  "word_bits 8 (0x80 OR (ucast (signed_drop_bit 8 dod) AND 0x3F) :: u8) @ word_bits 8 (ucast dod :: u8)
   = [True, False] @ word_bits 14 (dod :: i64)"
proof -
  let ?X = "0x80 OR (ucast (signed_drop_bit 8 dod) AND 0x3F) :: u8"
  have mask: "bit (0x3F :: u8) k \<longleftrightarrow> k < 6" for k
  proof -
    have "(0x3F :: u8) = mask 6" by (simp add: mask_eq_exp_minus_1)
    then show ?thesis by (auto simp only: bit_simps) auto
  qed
  have X: "bit ?X k \<longleftrightarrow> k = 7 \<or> k < 6 \<and> bit dod (8 + k)" for k
    unfolding bit_or_iff bit_and_iff bit_seven_literals mask bit_ucast_iff bit_signed_drop_bit_iff
    by auto
  have "word_bits 6 ?X = word_bits 6 (drop_bit 8 dod)"
    by (rule word_bits_eqI) (simp only: X bit_drop_bit_eq comp_def, auto)
  then show ?thesis
    using word_bits_append [of 6 8 dod] by (simp add: word_bits_8_unfold [of ?X] X word_bits_ucast)
qed

lemma prefix_literals:
  "word_bits 3 (0b110 :: u64) = [True, True, False]"
  "word_bits 4 (0b1110 :: u64) = [True, True, True, False]"
  "word_bits 4 (0b1111 :: u64) = [True, True, True, True]"
  by (simp_all add: word_bits_def upt_rec)

lemma write_dod_holds: "w_holds w bs \<Longrightarrow> w_holds (write_dod dod w) (bs @ enc_dod dod)"
proof -
  assume w: "w_holds w bs"
  have bits: "w_holds (write_bits dod n (write_bits p k w)) (bs @ word_bits k p @ word_bits n dod)"
    if "n \<le> 64" "k \<le> 64" for n k p
    using writer.put_bits [OF writer.put_bits [OF w that(2)] that(1), of dod p] by simp
  have bytes: "w_holds (write_byte y (write_byte x w)) (bs @ word_bits 8 x @ word_bits 8 y)" for x y
    using writer.put_byte [OF writer.put_byte [OF w]] by simp
  show ?thesis
    unfolding write_dod_def enc_dod_def
    using writer.put_bit [OF w, of False] bits [of 17 3 "0b110"] bits [of 20 4 "0b1110"]
      bits [of 64 4 "0b1111"] bytes [of "ucast dod" "0x80 OR (ucast (signed_drop_bit 8 dod) AND 0x3F)"]
    by (simp add: prefix_literals dod14_bytes)
qed

lemma sign_extend_range:
  assumes "bit_range x n" "0 < n" "n < 64"
  shows "sign_extend (take_bit n x) n = x"
proof -
  let ?s = "sint x" and ?p = "(2 :: int) ^ (n - 1)" and ?b = "take_bit n x"
  have p: "2 ^ n = 2 * ?p" "1 \<le> ?p"
    using assms(2) by (cases n) simp_all
  have s: "- (?p - 1) \<le> ?s" "?s \<le> ?p"
    using assms(1) by (simp_all add: bit_range_def Let_def)
  have b: "uint ?b = ?s mod 2 ^ n"
  proof -
    have "uint ?b = take_bit n (uint x)"
      by (rule unsigned_take_bit_eq)
    also have "uint x = take_bit 64 ?s"
      using uint_sint [of x] by simp
    also have "take_bit n (take_bit 64 ?s) = take_bit n ?s"
      using assms(3) by (simp add: min_def)
    finally show ?thesis
      by (simp only: take_bit_eq_mod)
  qed
  have pow: "uint (push_bit k 1 :: u64) = 2 ^ k" if "k < 64" for k
    unfolding unsigned_push_bit_eq
    using that power_strict_increasing [of k 64 "2 :: int"] by (simp add: take_bit_eq_mod)
  have gt: "?b > push_bit (n - 1) 1 \<longleftrightarrow> ?p < ?s mod 2 ^ n"
    using assms(3) by (simp only: word_less_def pow b)
  show ?thesis
  proof (cases "0 \<le> ?s")
    case True
    then have "?s mod 2 ^ n = ?s"
      using s p by (intro mod_pos_pos_trivial) auto
    moreover from this have "?b = x"
      using b word_of_int_uint [of ?b] by simp
    ultimately show ?thesis
      using gt s(2) by (simp add: sign_extend_def)
  next
    case False
    have "?s mod 2 ^ n = (?s + 2 ^ n) mod 2 ^ n" by simp
    also have "\<dots> = ?s + 2 ^ n"
      using False s p by (intro mod_pos_pos_trivial) auto
    finally have m: "?s mod 2 ^ n = ?s + 2 ^ n" .
    then have "?b = of_int (?s + 2 ^ n)"
      using b word_of_int_uint [of ?b] by simp
    then have "?b - push_bit n 1 = x"
      by (simp add: push_bit_eq_mult)
    moreover have "?p < ?s mod 2 ^ n"
      using m s(1) p by simp
    ultimately show ?thesis
      using gt by (simp add: sign_extend_def)
  qed
qed

lemma read_dod_ok:
  assumes "r_pending r (enc_dod dod @ rest)"
  obtains r' where "read_dod r = (Inr dod, r')" "r_pending r' rest"
proof -
  have zero: thesis if *: "r_pending r (False # rest)" "dod = 0"
  proof -
    obtain r1 where "read_bit r = (Inr False, r1)" "r_pending r1 rest"
      using reader.get_bit [OF *(1)] by blast
    then show thesis
      using \<open>\<And>r'. read_dod r = (Inr dod, r') \<Longrightarrow> r_pending r' rest \<Longrightarrow> thesis\<close> *
      by (simp add: read_dod_def numeral_eq_Suc)
  qed
  have two: "\<exists>r'. read_prefix 4 0 r = (Inr 0b10, r') \<and> r_pending r' bs"
    if "r_pending r (True # False # bs)" for bs
    using reader.get_bit [OF that] reader.get_bit [of _ False bs] by (fastforce simp: numeral_eq_Suc)
  have three: "\<exists>r'. read_prefix 4 0 r = (Inr 0b110, r') \<and> r_pending r' bs"
    if pend: "r_pending r (True # True # False # bs)" for bs
  proof -
    obtain r1 r2 r3 where "read_bit r = (Inr True, r1)" "read_bit r1 = (Inr True, r2)"
      "read_bit r2 = (Inr False, r3)" "r_pending r3 bs"
      using reader.get_bit pend by metis
    then show ?thesis by (simp add: numeral_eq_Suc)
  qed
  have four: "\<exists>r'. read_prefix 4 0 r = (Inr (if b then 0b1111 else 0b1110), r') \<and> r_pending r' bs"
    if pend: "r_pending r (True # True # True # b # bs)" for b bs
  proof -
    obtain r1 r2 r3 r4 where "read_bit r = (Inr True, r1)" "read_bit r1 = (Inr True, r2)"
      "read_bit r2 = (Inr True, r3)" "read_bit r3 = (Inr b, r4)" "r_pending r4 bs"
      using reader.get_bit pend by metis
    then show ?thesis by (simp add: numeral_eq_Suc)
  qed
  have payload: thesis
    if *: "read_prefix 4 0 r = (Inr p, r1)" "r_pending r1 (word_bits n dod @ rest)" "bit_range dod n"
      "(p, n) \<in> {(0b10, 14), (0b110, 17), (0b1110, 20)}" for p r1 n
  proof -
    have n: "0 < n" "n < 64" using *(4) by auto
    obtain r2 where "read_bits n r1 = (Inr (take_bit n dod), r2)" "r_pending r2 rest"
      using reader.get_word [OF *(2)] n by auto
    then show thesis
      using \<open>\<And>r'. read_dod r = (Inr dod, r') \<Longrightarrow> r_pending r' rest \<Longrightarrow> thesis\<close> *(1,4)
        sign_extend_range [OF *(3) n] by (auto simp: read_dod_def)
  qed
  show thesis
  proof (cases "dod = 0")
    case True
    then show thesis using zero assms by (simp add: enc_dod_def)
  next
    case nz: False
    consider "bit_range dod 14" | "\<not> bit_range dod 14" "bit_range dod 17"
      | "\<not> bit_range dod 14" "\<not> bit_range dod 17" "bit_range dod 20"
      | "\<not> bit_range dod 14" "\<not> bit_range dod 17" "\<not> bit_range dod 20" by blast
    then show thesis
    proof cases
      case 1
      then show thesis
        using two [of "word_bits 14 dod @ rest"] assms nz payload [of "0b10" _ 14]
        by (auto simp: enc_dod_def)
    next
      case 2
      then show thesis
        using three [of "word_bits 17 dod @ rest"] assms nz payload [of "0b110" _ 17]
        by (auto simp: enc_dod_def)
    next
      case 3
      then show thesis
        using four [of False "word_bits 20 dod @ rest"] assms nz payload [of "0b1110" _ 20]
        by (auto simp: enc_dod_def)
    next
      case 4
      then obtain r1 where r1: "read_prefix 4 0 r = (Inr 0b1111, r1)" "r_pending r1 (word_bits 64 dod @ rest)"
        using four [of True "word_bits 64 dod @ rest"] assms nz by (auto simp: enc_dod_def)
      obtain r2 where "read_bits 64 r1 = (Inr (take_bit 64 dod), r2)" "r_pending r2 rest"
        using reader.get_word [OF r1(2)] by auto
      then show thesis
        using that r1(1) by (simp add: read_dod_def)
    qed
  qed
qed

section \<open>One sample\<close>

text \<open>The bits sample number \<open>n\<close> adds to a chunk, and the appender state after it.\<close>

definition enc_bits :: "nat \<Rightarrow> XORAppender \<Rightarrow> i64 \<Rightarrow> double \<Rightarrow> bool list" where
  "enc_bits n a t v =
     (if n = 0 then bytes_bits (put_varint t) @ word_bits 64 v
      else (if n = 1 then bytes_bits (put_uvarint (t - a_t a)) else enc_dod (t - a_t a - a_t_delta a))
           @ enc_value (v XOR a_v a) (a_leading a) (a_trailing a))"

definition enc_next :: "nat \<Rightarrow> XORAppender \<Rightarrow> i64 \<Rightarrow> double \<Rightarrow> XORAppender" where
  "enc_next n a t v =
     (let w = (if n = 0 then (a_leading a, a_trailing a)
               else next_window (v XOR a_v a) (a_leading a) (a_trailing a))
      in \<lparr>a_t = t, a_v = v, a_t_delta = (if n = 0 then 0 else t - a_t a),
          a_leading = fst w, a_trailing = snd w\<rparr>)"

lemma enc_next_window:
  "(a_leading (enc_next n a t v), a_trailing (enc_next n a t v)) =
     (if n = 0 then (a_leading a, a_trailing a)
      else next_window (v XOR a_v a) (a_leading a) (a_trailing a))"
  by (simp add: enc_next_def Let_def)

lemma w_holds_header:
  assumes "w_holds w (bytes_bits (be16 num) @ payload)"
  shows "2 \<le> length (w_stream w)" "read_be16 (w_stream w) = num"
proof -
  have eq: "bytes_bits (w_stream w) = bytes_bits (be16 num) @ payload @ replicate (w_count w) False"
    using assms by (simp add: w_holds_def)
  show len: "2 \<le> length (w_stream w)"
    using arg_cong [OF eq, of length] by simp
  have "bytes_bits (take 2 (w_stream w)) = take (8 * 2) (bytes_bits (w_stream w))"
    by (simp only: take_bytes_bits)
  also have "\<dots> = word_bits 16 num"
    by (simp only: eq) (simp add: bytes_bits_be16)
  finally have "read_be16 (take 2 (w_stream w) @ drop 2 (w_stream w)) = num"
    using len by (subst read_be16_bits) simp_all
  then show "read_be16 (w_stream w) = num" by simp
qed

lemma list_update_header: "2 \<le> length st \<Longrightarrow> st[0 := x, Suc 0 := y] = [x, y] @ drop 2 st"
  by (cases st; cases "tl st") auto

lemma set_num_samples_holds:
  assumes "w_holds w (bytes_bits (be16 num) @ payload)"
  shows "w_holds (set_num_samples n w) (bytes_bits (be16 n) @ payload)"
proof -
  have eq: "bytes_bits (w_stream w) = bytes_bits (be16 num) @ payload @ replicate (w_count w) False"
    using assms by (simp add: w_holds_def)
  have "bytes_bits (drop 2 (w_stream w)) = drop (8 * 2) (bytes_bits (w_stream w))"
    by (simp only: drop_bytes_bits)
  also have "\<dots> = payload @ replicate (w_count w) False"
    by (simp only: eq) simp
  finally show ?thesis
    using assms w_holds_header(1) [OF assms]
    by (simp add: w_holds_def set_num_samples_def list_update_header be16_def [of n])
qed

lemma write_v_delta_holds:
  assumes "w_holds w bs" "windows_agree (a_leading a, a_trailing a) i"
  shows "\<exists>w'. write_v_delta v (w, a) =
      (w', a\<lparr>a_leading := fst (next_window (v XOR a_v a) (a_leading a) (a_trailing a)),
             a_trailing := snd (next_window (v XOR a_v a) (a_leading a) (a_trailing a))\<rparr>) \<and>
     w_holds w' (bs @ enc_value (v XOR a_v a) (a_leading a) (a_trailing a))"
  using xor_write_holds [OF assms, of v "a_v a"]
  by (fastforce simp: write_v_delta_def split: prod.splits)

text \<open>The appender writes exactly these bits and counts the sample in the header.\<close>

lemma append_holds:
  assumes hold: "w_holds w (bytes_bits (be16 num) @ payload)" and num: "num \<noteq> kMaxSamples"
    and agree: "windows_agree (a_leading a, a_trailing a) i"
  shows "\<exists>w'. append t v (w, a) = (True, w', enc_next (unat num) a t v) \<and>
     w_holds w' (bytes_bits (be16 (num + 1)) @ payload @ enc_bits (unat num) a t v)"
proof -
  note hd = w_holds_header(2) [OF hold]
  have unat: "unat num = 0 \<longleftrightarrow> num = 0" "unat num = Suc 0 \<longleftrightarrow> num = 1"
    by (simp_all add: word_unat_eq_iff)
  let ?nw = "next_window (v XOR a_v a) (a_leading a) (a_trailing a)"
  have finish: "\<exists>w'. write_v_delta v (w1, a) = (w', a\<lparr>a_leading := fst ?nw, a_trailing := snd ?nw\<rparr>) \<and>
      w_holds (set_num_samples (num + 1) w')
        (bytes_bits (be16 (num + 1)) @ payload @ tbits @ enc_value (v XOR a_v a) (a_leading a) (a_trailing a))"
    if "w_holds w1 ((bytes_bits (be16 num) @ payload) @ tbits)" for w1 tbits
    using write_v_delta_holds [OF that agree, of v] set_num_samples_holds [of _ num _ "num + 1"]
    by fastforce
  consider "num = 0" | "num = 1" | "num \<noteq> 0" "num \<noteq> 1" by blast
  then show ?thesis
  proof cases
    case 1
    have "w_holds (write_bits v 64 (put_varint_via_writer t w))
        ((bytes_bits (be16 num) @ payload) @ bytes_bits (put_varint t) @ word_bits 64 v)"
      using writer.put_bits [OF writer.put_bytes [OF hold, of "put_varint t"], of 64 v]
      by (simp add: put_varint_via_writer_def)
    then show ?thesis
      using set_num_samples_holds [of _ num _ "num + 1"] 1 num
      by (auto simp: append_def hd Let_def enc_bits_def enc_next_def unat)
  next
    case 2
    let ?td = "t - a_t a"
    have "w_holds (put_uvarint_via_writer ?td w) ((bytes_bits (be16 num) @ payload) @ bytes_bits (put_uvarint ?td))"
      using writer.put_bytes [OF hold] by (simp add: put_uvarint_via_writer_def)
    from finish [OF this] show ?thesis
      using 2 num by (auto simp: append_def hd Let_def enc_bits_def enc_next_def unat)
  next
    case 3
    let ?td = "t - a_t a"
    have "w_holds (write_dod (?td - a_t_delta a) w) ((bytes_bits (be16 num) @ payload) @ enc_dod (?td - a_t_delta a))"
      using write_dod_holds [OF hold] by simp
    from finish [OF this] show ?thesis
      using 3 num by (auto simp: append_def hd Let_def enc_bits_def enc_next_def unat)
  qed
qed

section \<open>The iterator follows the appender\<close>

definition tracks :: "XORAppender \<Rightarrow> XORIterator \<Rightarrow> bool" where
  "tracks a it \<longleftrightarrow>
     it_err it = None \<and>
     windows_agree (a_leading a, a_trailing a) (it_leading it, it_trailing it) \<and>
     it_t_delta it = a_t_delta a \<and> (it_num_read it = 0 \<longrightarrow> it_t_delta it = 0) \<and>
     (it_num_read it \<noteq> 0 \<longrightarrow> it_t it = a_t a \<and> it_v it = a_v a)"

lemma read_value_ok:
  assumes "r_pending (it_reader it) (enc_value (v XOR it_v it) l tr @ rest)"
    and "windows_agree (l, tr) (it_leading it, it_trailing it)"
  obtains it' where "read_value it = (True, it')" "r_pending (it_reader it') rest"
    "it_t it' = it_t it" "it_v it' = v" "it_t_delta it' = it_t_delta it" "it_err it' = it_err it"
    "it_num_total it' = it_num_total it" "it_num_read it' = it_num_read it + 1"
    "windows_agree (next_window (v XOR it_v it) l tr) (it_leading it', it_trailing it')"
proof -
  obtain r' i' where "xor_read (it_reader it) (it_v it) (it_leading it) (it_trailing it) = (Inr (v, i'), r')"
    "r_pending r' rest" "windows_agree (next_window (v XOR it_v it) l tr) i'"
    using xor_read_ok [OF assms] by blast
  then show thesis
    using that [of "it\<lparr>it_reader := r', it_v := v, it_leading := fst i', it_trailing := snd i',
        it_num_read := it_num_read it + 1\<rparr>"]
    by (simp add: read_value_def split: prod.splits)
qed

lemma iter_next_ok:
  assumes pend: "r_pending (it_reader it) (enc_bits (unat (it_num_read it)) a t v @ rest)"
    and tracks: "tracks a it" and more: "it_num_read it \<noteq> it_num_total it"
    and next_nz: "it_num_read it + 1 \<noteq> 0"
  obtains it' where "iter_next it = (True, it')" "r_pending (it_reader it') rest"
    "it_t it' = t" "it_v it' = v" "it_num_total it' = it_num_total it"
    "it_num_read it' = it_num_read it + 1" "tracks (enc_next (unat (it_num_read it)) a t v) it'"
proof -
  let ?n = "it_num_read it"
  have unat: "unat ?n = 0 \<longleftrightarrow> ?n = 0" "unat ?n = Suc 0 \<longleftrightarrow> ?n = 1"
    by (simp_all add: word_unat_eq_iff)
  note tr = tracks [unfolded tracks_def]
  have val: thesis
    if *: "iter_next it = read_value (it\<lparr>it_reader := r, it_t_delta := t - a_t a, it_t := t\<rparr>)" "?n \<noteq> 0"
      "r_pending r (enc_value (v XOR a_v a) (a_leading a) (a_trailing a) @ rest)" for r
  proof -
    let ?it = "it\<lparr>it_reader := r, it_t_delta := t - a_t a, it_t := t\<rparr>"
    have "r_pending (it_reader ?it) (enc_value (v XOR it_v ?it) (a_leading a) (a_trailing a) @ rest)"
      "windows_agree (a_leading a, a_trailing a) (it_leading ?it, it_trailing ?it)"
      using * tr by simp_all
    then obtain it' where "read_value ?it = (True, it')" "r_pending (it_reader it') rest"
      "it_t it' = t" "it_v it' = v" "it_t_delta it' = t - a_t a" "it_err it' = None"
      "it_num_total it' = it_num_total it" "it_num_read it' = ?n + 1"
      "windows_agree (next_window (v XOR a_v a) (a_leading a) (a_trailing a)) (it_leading it', it_trailing it')"
      using tr * by (elim read_value_ok) simp_all
    then show thesis
      using *(1,2) next_nz \<open>\<And>it'. iter_next it = (True, it') \<Longrightarrow> r_pending (it_reader it') rest \<Longrightarrow> it_t it' = t \<Longrightarrow>
        it_v it' = v \<Longrightarrow> it_num_total it' = it_num_total it \<Longrightarrow> it_num_read it' = ?n + 1 \<Longrightarrow>
        tracks (enc_next (unat ?n) a t v) it' \<Longrightarrow> thesis\<close>
      by (simp add: tracks_def enc_next_def unat Let_def)
  qed
  consider "?n = 0" | "?n = 1" | "?n \<noteq> 0" "?n \<noteq> 1" by blast
  then show thesis
  proof cases
    case 1
    then have "r_pending (it_reader it) (bytes_bits (put_varint t) @ word_bits 64 v @ rest)"
      using pend by (simp add: enc_bits_def)
    then obtain r1 where r1: "br_read_varint (it_reader it) = (Inr t, r1)" "r_pending r1 (word_bits 64 v @ rest)"
      by (rule br_read_varint_ok)
    obtain r2 where "read_bits 64 r1 = (Inr (take_bit 64 v), r2)" "r_pending r2 rest"
      using reader.get_word [OF r1(2)] by auto
    then show thesis
      using that [of "it\<lparr>it_reader := r2, it_t := t, it_v := v, it_num_read := ?n + 1\<rparr>"] 1 r1(1) tr more
      by (auto simp: iter_next_def tracks_def enc_next_def)
  next
    case 2
    then have "r_pending (it_reader it) (bytes_bits (put_uvarint (t - a_t a))
        @ enc_value (v XOR a_v a) (a_leading a) (a_trailing a) @ rest)"
      using pend by (simp add: enc_bits_def)
    then obtain r1 where r1: "br_read_uvarint (it_reader it) = (Inr (t - a_t a), r1)"
      "r_pending r1 (enc_value (v XOR a_v a) (a_leading a) (a_trailing a) @ rest)"
      by (rule br_read_uvarint_ok)
    then show thesis
      using val [of r1] 2 tr more by (simp add: iter_next_def)
  next
    case 3
    then have "r_pending (it_reader it) (enc_dod (t - a_t a - a_t_delta a)
        @ enc_value (v XOR a_v a) (a_leading a) (a_trailing a) @ rest)"
      using pend by (simp add: enc_bits_def unat)
    then obtain r1 where r1: "read_dod (it_reader it) = (Inr (t - a_t a - a_t_delta a), r1)"
      "r_pending r1 (enc_value (v XOR a_v a) (a_leading a) (a_trailing a) @ rest)"
      by (rule read_dod_ok)
    then show thesis
      using val [of r1] 3 tr more by (simp add: iter_next_def Let_def)
  qed
qed

section \<open>The life of a chunk\<close>

text \<open>
  The payload a run of appends produces, with the state of the appender. The third rule is the
  re-creation of the appender from the bytes: the decoder knows no sentinel, so a chunk with no
  window yet resumes with the window of the iterator.
\<close>

inductive encodes :: "bool list \<Rightarrow> (i64 \<times> double) list \<Rightarrow> XORAppender \<Rightarrow> bool" where
  enc_start: "encodes [] [] XORAppender_init"
| enc_append: "encodes p xs a \<Longrightarrow> length xs < unat kMaxSamples \<Longrightarrow>
     encodes (p @ enc_bits (length xs) a t v) (xs @ [(t, v)]) (enc_next (length xs) a t v)"
| enc_resume: "encodes p xs a \<Longrightarrow> xs \<noteq> [] \<Longrightarrow> a_leading a = 0xFF \<Longrightarrow>
     encodes p xs (a\<lparr>a_leading := 0, a_trailing := 0\<rparr>)"

lemma encodes_length: "encodes p xs a \<Longrightarrow> length xs \<le> unat kMaxSamples"
  by (induction rule: encodes.induct) simp_all

lemma iter_drain_next:
  "iter_next it = (True, it') \<Longrightarrow>
     iter_drain it = ((it_t it', it_v it') # fst (iter_drain it'), snd (iter_drain it'))"
  by (subst iter_drain.simps) (simp split: prod.splits)

lemma iter_drain_done: "it_num_read it = it_num_total it \<Longrightarrow> iter_drain it = ([], it)"
  by (subst iter_drain.simps) (simp add: iter_next_def)

text \<open>An iterator at the start of such a payload returns its samples and then follows the appender.\<close>

lemma encodes_drain:
  assumes "encodes p xs a" "r_pending (it_reader it) (p @ rest)" "tracks XORAppender_init it"
    "it_num_read it = 0" "length xs \<le> unat (it_num_total it)"
  shows "\<exists>it'. iter_drain it = (xs @ fst (iter_drain it'), snd (iter_drain it')) \<and>
     r_pending (it_reader it') rest \<and> tracks a it' \<and> it_num_total it' = it_num_total it \<and>
     unat (it_num_read it') = length xs"
  using assms(1,2,5)
proof (induction arbitrary: rest rule: encodes.induct)
  case enc_start
  then show ?case using assms(3,4) by auto
next
  case (enc_append p xs a t v)
  obtain it1 where it1: "iter_drain it = (xs @ fst (iter_drain it1), snd (iter_drain it1))"
    "r_pending (it_reader it1) (enc_bits (length xs) a t v @ rest)" "tracks a it1"
    "it_num_total it1 = it_num_total it" "unat (it_num_read it1) = length xs"
    using enc_append.IH [of "enc_bits (length xs) a t v @ rest"] enc_append.prems by auto
  have more: "it_num_read it1 \<noteq> it_num_total it1"
    using it1(4,5) enc_append.prems(2) by auto
  have inc: "unat (it_num_read it1 + 1) = Suc (length xs)"
    using enc_append.hyps(2) it1(5) by (simp add: kMaxSamples_def unat_word_ariths)
  then have "it_num_read it1 + 1 \<noteq> 0"
    by (metis nat.simps(3) unat_0)
  then obtain it2 where it2: "iter_next it1 = (True, it2)" "r_pending (it_reader it2) rest"
    "it_t it2 = t" "it_v it2 = v" "it_num_total it2 = it_num_total it1"
    "it_num_read it2 = it_num_read it1 + 1" "tracks (enc_next (length xs) a t v) it2"
    using iter_next_ok [of it1 a t v rest] it1(2,3,5) more by metis
  have "iter_drain it1 = ((t, v) # fst (iter_drain it2), snd (iter_drain it2))"
    using iter_drain_next [OF it2(1)] it2(3,4) by simp
  then show ?case
    using it1(1,4) it2(2,5-7) inc by (intro exI [of _ it2]) simp
next
  case (enc_resume p xs a)
  then obtain it1 where it1: "iter_drain it = (xs @ fst (iter_drain it1), snd (iter_drain it1))"
    "r_pending (it_reader it1) rest" "tracks a it1"
    "it_num_total it1 = it_num_total it" "unat (it_num_read it1) = length xs" by blast
  have "tracks (a\<lparr>a_leading := 0, a_trailing := 0\<rparr>) it1"
    using it1(3) enc_resume.hyps(3) by (auto simp: tracks_def windows_agree_def window_ok_def)
  then show ?case using it1 by blast
qed

lemma encodes_windows: "encodes p xs a \<Longrightarrow> \<exists>i. windows_agree (a_leading a, a_trailing a) i"
proof (induction rule: encodes.induct)
  case enc_start
  then show ?case by (auto simp: XORAppender_init_def windows_agree_def)
next
  case (enc_append p xs a t v)
  then obtain i where "windows_agree (a_leading a, a_trailing a) i" by blast
  from this next_window_agree [OF this, of "v XOR a_v a"] show ?case
    unfolding enc_next_window by (cases "xs = []") (simp_all only: list.size simp_thms if_True length_0_conv if_False, blast+)
next
  case (enc_resume p xs a)
  then show ?case by (auto simp: windows_agree_def window_ok_def)
qed

text \<open>A chunk holds a list of samples: its header counts them and its payload encodes them.\<close>

definition chunk_holds :: "XORChunk \<Rightarrow> (i64 \<times> double) list \<Rightarrow> XORAppender \<Rightarrow> bool" where
  "chunk_holds c xs a \<longleftrightarrow>
     (\<exists>p. encodes p xs a \<and> w_holds (c_writer c) (bytes_bits (be16 (of_nat (length xs))) @ p))"

lemma unat_length_samples: "length xs \<le> unat kMaxSamples \<Longrightarrow> unat (of_nat (length xs) :: u16) = length xs"
  by (simp add: kMaxSamples_def unat_of_nat)

lemma chunk_holds_drain:
  assumes "chunk_holds c xs a"
  shows "\<exists>it. iter_drain (iterator c) = (xs, it) \<and> tracks a it \<and> unat (it_num_read it) = length xs"
proof -
  let ?n = "of_nat (length xs) :: u16" and ?st = "w_stream (c_writer c)"
  obtain p where p: "encodes p xs a" "w_holds (c_writer c) (bytes_bits (be16 ?n) @ p)"
    using assms by (auto simp: chunk_holds_def)
  note n = unat_length_samples [OF encodes_length [OF p(1)]]
  note st = w_holds_header [OF p(2)]
  have "bytes_bits (drop 2 ?st) = drop (8 * 2) (bytes_bits ?st)"
    by (simp only: drop_bytes_bits)
  also have "\<dots> = p @ replicate (w_count (c_writer c)) False"
    using p(2) by (simp add: w_holds_def)
  finally have "r_pending (BitReader_init (drop 2 ?st)) (p @ replicate (w_count (c_writer c)) False)"
    using r_pending_init [of "drop 2 ?st"] by simp
  moreover have "tracks XORAppender_init (iterator c)"
    by (simp add: tracks_def iterator_def XORIterator_init_def XORAppender_init_def windows_agree_def)
  ultimately obtain it where "iter_drain (iterator c) = (xs @ fst (iter_drain it), snd (iter_drain it))"
    "tracks a it" "it_num_total it = ?n" "unat (it_num_read it) = length xs"
    using encodes_drain [OF p(1), of "iterator c"] st n
    by (auto simp: iterator_def XORIterator_init_def chunk_bytes_def kHeaderSize_def)
  then show ?thesis
    using iter_drain_done [of it] n by (auto simp: word_unat_eq_iff)
qed

lemma chunk_holds_samples:
  assumes "chunk_holds c xs a"
  shows "chunk_samples c = Inr xs" "unat (num_samples c) = length xs"
proof -
  show "chunk_samples c = Inr xs"
    using chunk_holds_drain [OF assms] by (auto simp: chunk_samples_def tracks_def)
  obtain p where p: "encodes p xs a" "w_holds (c_writer c) (bytes_bits (be16 (of_nat (length xs))) @ p)"
    using assms by (auto simp: chunk_holds_def)
  then show "unat (num_samples c) = length xs"
    using w_holds_header(2) [OF p(2)] unat_length_samples [OF encodes_length [OF p(1)]]
    by (simp add: num_samples_def chunk_bytes_def)
qed

lemma chunk_holds_init: "chunk_holds XORChunk_init [] XORAppender_init"
  using w_holds_init [of "replicate 2 0"] enc_start
  by (auto simp: chunk_holds_def XORChunk_init_def kHeaderSize_def be16_def numeral_eq_Suc)

lemma chunk_holds_append:
  assumes "chunk_holds c xs a" "length xs < unat kMaxSamples"
  shows "\<exists>w' a'. append t v (c_writer c, a) = (True, w', a') \<and>
     chunk_holds \<lparr>c_writer = w'\<rparr> (xs @ [(t, v)]) a'"
proof -
  let ?n = "of_nat (length xs) :: u16"
  obtain p where p: "encodes p xs a" "w_holds (c_writer c) (bytes_bits (be16 ?n) @ p)"
    using assms(1) by (auto simp: chunk_holds_def)
  obtain i where i: "windows_agree (a_leading a, a_trailing a) i"
    using encodes_windows [OF p(1)] by blast
  have n: "unat ?n = length xs"
    using assms(2) by (simp add: unat_length_samples)
  moreover have "?n \<noteq> kMaxSamples"
    using n assms(2) by auto
  ultimately show ?thesis
    using append_holds [OF p(2) _ i, of t v] enc_append [OF p(1) assms(2), of t v]
    by (fastforce simp: chunk_holds_def add.commute)
qed

lemma append_full:
  "chunk_holds c xs a \<Longrightarrow> length xs = unat kMaxSamples \<Longrightarrow>
     append t v (c_writer c, a) = (False, c_writer c, a)"
  using chunk_holds_samples(2) [of c xs a]
  by (simp add: append_def num_samples_def chunk_bytes_def word_unat_eq_iff)

lemma encodes_Nil: "encodes p [] a \<Longrightarrow> p = [] \<and> a = XORAppender_init"
  by (erule encodes.cases) auto

lemma w_holds_length: "w_holds w bs \<Longrightarrow> length (w_stream w) = (length bs + 7) div 8"
proof -
  assume w: "w_holds w bs"
  then have "8 * length (w_stream w) = length bs + w_count w"
    unfolding w_holds_def by (metis length_append length_bytes_bits length_replicate)
  then have "length bs + 7 = (7 - w_count w) + 8 * length (w_stream w)"
    using w by (simp add: w_holds_def)
  then show ?thesis
    by simp
qed

section \<open>Sizes\<close>

lemma enc_value_length: "windows_agree (l, t) i \<Longrightarrow> length (enc_value delta l t) \<in> {1..77}"
  using reuses_fits [of l t delta i] new_window_fits [of delta] sig_bits_bounds
  by (auto simp: enc_value_def fits_def sig_bits_def split: prod.splits)

lemma enc_dod_length: "length (enc_dod dod) \<in> {1..68}"
  by (simp add: enc_dod_def)

lemma put_uvarint_bits: "length (bytes_bits (put_uvarint x)) \<in> {8..80}"
  using length_put_uvarint [of x] put_uvarint_nonempty [of x]
  by (cases "put_uvarint x") (auto simp: max_varint_len64_def)

lemma enc_bits_length:
  assumes "windows_agree (a_leading a, a_trailing a) i"
  shows "length (enc_bits n a t v) \<in> (if n = 0 then {72..144} else if n = 1 then {9..157} else {2..145})"
  using enc_value_length [OF assms, of "v XOR a_v a"] enc_dod_length [of "t - a_t a - a_t_delta a"]
    put_uvarint_bits [of "t - a_t a"] put_uvarint_bits [of "zigzag t"]
  by (auto simp: enc_bits_def put_varint_def)

lemma encodes_bits_nonempty: "encodes p xs a \<Longrightarrow> xs \<noteq> [] \<Longrightarrow> p \<noteq> []"
proof (induction rule: encodes.induct)
  case (enc_append p xs a t v)
  obtain i where "windows_agree (a_leading a, a_trailing a) i"
    using encodes_windows [OF enc_append.hyps(1)] by blast
  then show ?case
    using enc_bits_length [of a i "length xs" t v] by (auto split: if_splits)
qed auto

lemma chunk_holds_appender:
  assumes "chunk_holds c xs a"
  shows "\<exists>a'. appender c = Inr a' \<and> chunk_holds c xs a'"
proof -
  obtain p where p: "encodes p xs a" "w_holds (c_writer c) (bytes_bits (be16 (of_nat (length xs))) @ p)"
    using assms by (auto simp: chunk_holds_def)
  obtain it where it: "iter_drain (iterator c) = (xs, it)" "tracks a it" "unat (it_num_read it) = length xs"
    using chunk_holds_drain [OF assms] by blast
  show ?thesis
  proof (cases "xs = []")
    case True
    then have "length (chunk_bytes c) = kHeaderSize" "a = XORAppender_init"
      using encodes_Nil [of p a] p(1) w_holds_length [OF p(2)]
      by (simp_all add: kHeaderSize_def chunk_bytes_def)
    then show ?thesis
      using assms by (simp add: appender_def)
  next
    case False
    let ?a = "\<lparr>a_t = it_t it, a_v = it_v it, a_t_delta = it_t_delta it,
               a_leading = it_leading it, a_trailing = it_trailing it\<rparr>"
    have nz: "it_num_read it \<noteq> 0"
      using it(3) False by auto
    then have a: "?a = a \<or> a_leading a = 0xFF \<and> ?a = a\<lparr>a_leading := 0, a_trailing := 0\<rparr>"
      using it(2) by (auto simp: tracks_def windows_agree_def)
    then have "chunk_holds c xs ?a"
      using assms enc_resume [OF p(1) False] p(2) by (auto simp: chunk_holds_def)
    moreover have "length (chunk_bytes c) \<noteq> kHeaderSize"
      using encodes_bits_nonempty [OF p(1) False] w_holds_length [OF p(2)]
      by (cases p) (simp_all add: kHeaderSize_def chunk_bytes_def)
    ultimately show ?thesis
      using it(1,2) by (simp add: appender_def tracks_def)
  qed
qed

section \<open>The property of every run\<close>

text \<open>
  The life of a chunk as a step relation on chunk and appender: it starts empty, accepts
  samples, and its appender may be thrown away and re-created from the bytes at any time.
\<close>

inductive chunk_run :: "(i64 \<times> double) list \<Rightarrow> XORChunk \<Rightarrow> XORAppender \<Rightarrow> bool" where
  run_start: "appender XORChunk_init = Inr a \<Longrightarrow> chunk_run [] XORChunk_init a"
| run_append: "chunk_run xs c a \<Longrightarrow> append t v (c_writer c, a) = (True, w', a') \<Longrightarrow>
     chunk_run (xs @ [(t, v)]) \<lparr>c_writer = w'\<rparr> a'"
| run_reopen: "chunk_run xs c a \<Longrightarrow> appender c = Inr a' \<Longrightarrow> chunk_run xs c a'"

lemma chunk_holds_append_cases:
  "chunk_holds c xs a \<Longrightarrow> append t v (c_writer c, a) = (True, w', a') \<Longrightarrow>
     length xs < unat kMaxSamples \<and> chunk_holds \<lparr>c_writer = w'\<rparr> (xs @ [(t, v)]) a'"
  using chunk_holds_append [of c xs a t v] append_full [of c xs a t v] encodes_length [of _ xs a]
  by (force simp: chunk_holds_def [of c])

lemma chunk_run_holds: "chunk_run xs c a \<Longrightarrow> chunk_holds c xs a"
proof (induction rule: chunk_run.induct)
  case (run_start a)
  then show ?case
    using chunk_holds_init by (simp add: appender_def XORChunk_init_def chunk_bytes_def BitWriter_init_def)
next
  case (run_append xs c a t v w' a')
  then show ?case using chunk_holds_append_cases by blast
next
  case (run_reopen xs c a a')
  then show ?case using chunk_holds_appender by fastforce
qed

lemma chunk_run_exists: "length xs \<le> unat kMaxSamples \<Longrightarrow> \<exists>c a. chunk_run xs c a"
proof (induction xs rule: rev_induct)
  case Nil
  then show ?case
    using run_start [of XORAppender_init]
    by (auto simp: appender_def XORChunk_init_def chunk_bytes_def BitWriter_init_def)
next
  case (snoc x xs)
  then obtain c a where run: "chunk_run xs c a" by auto
  obtain t v where x: "x = (t, v)" by fastforce
  have "length xs < unat kMaxSamples" using snoc.prems by simp
  then show ?case
    using chunk_holds_append [OF chunk_run_holds [OF run], of t v] run_append [OF run, of t v]
    unfolding x by blast
qed

text \<open>How the size of a chunk follows from its samples.\<close>

lemma encodes_size:
  "encodes p xs a \<Longrightarrow> xs \<noteq> [] \<Longrightarrow>
     72 + 2 * (length xs - 1) \<le> length p \<and> length p \<le> (if length xs = 1 then 144 else 156) + 145 * (length xs - 1)"
proof (induction rule: encodes.induct)
  case (enc_append p xs a t v)
  obtain i where "windows_agree (a_leading a, a_trailing a) i"
    using encodes_windows [OF enc_append.hyps(1)] by blast
  note bits = enc_bits_length [OF this, of "length xs" t v]
  show ?case
  proof (cases "xs = []")
    case True
    then show ?thesis
      using bits encodes_Nil [of p a] enc_append.hyps(1) by simp
  next
    case False
    then show ?thesis
      using bits enc_append.IH by (cases "length xs") (auto split: if_splits)
  qed
qed auto

lemma chunk_holds_size:
  assumes "chunk_holds c xs a" "xs \<noteq> []"
  shows "2 * length xs + 86 \<le> 8 * length (chunk_bytes c)"
    "8 * length (chunk_bytes c) \<le> 34 + 145 * length xs"
proof -
  obtain p where p: "encodes p xs a" "w_holds (c_writer c) (bytes_bits (be16 (of_nat (length xs))) @ p)"
    using assms(1) by (auto simp: chunk_holds_def)
  have len: "length (chunk_bytes c) = (length p + 23) div 8"
    using w_holds_length [OF p(2)] by (simp add: chunk_bytes_def add.commute)
  have n: "length xs \<noteq> 0" using assms(2) by simp
  have "16 + length p \<le> 8 * ((length p + 23) div 8)" "8 * ((length p + 23) div 8) \<le> length p + 23"
    by linarith+
  moreover have "70 + 2 * length xs \<le> length p" "length p \<le> 11 + 145 * length xs"
    using encodes_size [OF p(1) assms(2)] n by (cases "length xs"; simp split: if_splits)+
  ultimately show "2 * length xs + 86 \<le> 8 * length (chunk_bytes c)"
    "8 * length (chunk_bytes c) \<le> 34 + 145 * length xs"
    unfolding len by linarith+
qed

lemma append_growth:
  assumes "chunk_holds c xs a" "append t v (c_writer c, a) = (True, w', a')"
  shows "length (w_stream w') \<le> length (chunk_bytes c) + (if length xs = 0 then 18 else if length xs = 1 then 20 else 19)"
proof -
  let ?n = "of_nat (length xs) :: u16"
  obtain p where p: "encodes p xs a" "w_holds (c_writer c) (bytes_bits (be16 ?n) @ p)"
    using assms by (auto simp: chunk_holds_def)
  obtain i where i: "windows_agree (a_leading a, a_trailing a) i"
    using encodes_windows [OF p(1)] by blast
  have lt: "length xs < unat kMaxSamples"
    using chunk_holds_append_cases [OF assms] by simp
  have n: "unat ?n = length xs" "?n \<noteq> kMaxSamples"
    using lt unat_length_samples [of xs] by auto
  have "w_holds w' (bytes_bits (be16 (?n + 1)) @ p @ enc_bits (length xs) a t v)"
    using append_holds [OF p(2) n(2) i, of t v] assms(2) n(1) by auto
  from w_holds_length [OF this] w_holds_length [OF p(2)]
  have "length (w_stream w') = (length p + length (enc_bits (length xs) a t v) + 23) div 8"
    "length (chunk_bytes c) = (length p + 23) div 8"
    by (simp_all add: chunk_bytes_def add.commute add.left_commute)
  then show ?thesis
    using enc_bits_length [OF i, of "length xs" t v] encodes_Nil [of p a] p(1)
    by (auto split: if_splits)
qed

text \<open>Appending a list of samples one by one, stopping at a full chunk.\<close>

fun append_all :: "(i64 \<times> double) list \<Rightarrow> XORChunk \<times> XORAppender \<Rightarrow> XORChunk \<times> XORAppender" where
  "append_all [] s = s"
| "append_all ((t, v) # xs) (c, a) =
     (let (ok, w', a') = append t v (c_writer c, a)
      in if ok then append_all xs (\<lparr>c_writer = w'\<rparr>, a') else (c, a))"

section \<open>Properties\<close>

text \<open>
  C4. Every run of a chunk, over any number of appends and any re-creations of the appender
  from the encoded bytes, decodes to exactly the samples that were accepted, in order and bit
  for bit; the header counts them, and a further sample is accepted unless there are 65535.
\<close>

theorem xor_chunk_roundtrip:
  assumes "chunk_run xs c a"
  shows "chunk_samples c = Inr xs \<and> unat (num_samples c) = length xs \<and>
     (\<exists>a'. appender c = Inr a') \<and>
     (fst (append t v (c_writer c, a)) \<longleftrightarrow> length xs < 65535)"
proof -
  note holds = chunk_run_holds [OF assms]
  have "length xs \<le> unat kMaxSamples"
    using holds encodes_length by (auto simp: chunk_holds_def)
  moreover have "unat kMaxSamples = 65535" by (simp add: kMaxSamples_def)
  ultimately show ?thesis
    using chunk_holds_samples [OF holds] chunk_holds_appender [OF holds] append_full [OF holds, of t v]
      chunk_holds_append [OF holds, of t v] by (cases "length xs < 65535") auto
qed

theorem xor_chunk_roundtrip_witness:
  "\<exists>c a. chunk_run [(1000, 0x3FF0000000000000), (2000, 0x4000000000000000), (2500, 7)] c a \<and>
     chunk_samples c = Inr [(1000, 0x3FF0000000000000), (2000, 0x4000000000000000), (2500, 7)]"
  using chunk_run_exists [of "[(1000, 0x3FF0000000000000), (2000, 0x4000000000000000), (2500, 7)]"]
    xor_chunk_roundtrip by (fastforce simp: kMaxSamples_def)

text \<open>
  C34. Sizes: one sample grows a chunk by at most 19 bytes (20 for the second of a chunk, whose
  delta is a varint), and a chunk of at most 1024 bytes holds fewer
  than 4096 samples, so the sixteen-bit count cannot overflow below the size limit.
\<close>

theorem xor_chunk_growth:
  assumes "chunk_run xs c a" and "append t v (c_writer c, a) = (True, w', a')"
  shows "length (w_stream w') \<le> length (chunk_bytes c) +
       (if length xs = 0 then 18 else if length xs = 1 then 20 else 19) \<and>
     (length (chunk_bytes c) \<le> kMaxBytes \<longrightarrow> length xs < 4096)"
proof -
  note holds = chunk_run_holds [OF assms(1)]
  show ?thesis
    using append_growth [OF holds assms(2)] chunk_holds_size(1) [OF holds]
    by (cases "xs = []") (auto simp: kMaxBytes_def)
qed


lemma append_all_run:
  "chunk_run xs c a \<Longrightarrow> length xs + length ys \<le> unat kMaxSamples \<Longrightarrow>
     append_all ys (c, a) = (c', a') \<Longrightarrow> chunk_run (xs @ ys) c' a'"
proof (induction ys arbitrary: xs c a)
  case (Cons y ys)
  obtain t v where y: "y = (t, v)" by fastforce
  obtain w1 a1 where step: "append t v (c_writer c, a) = (True, w1, a1)"
    using chunk_holds_append [OF chunk_run_holds [OF Cons.prems(1)], of t v] Cons.prems(2) by auto
  then show ?case
    using Cons.IH [OF run_append [OF Cons.prems(1) step]] Cons.prems(2,3) y by simp
qed simp

theorem xor_chunk_growth_witness:
  "\<exists>c a w' a'. chunk_run [(1000, 5), (2000, 7)] c a \<and> append 3000 9 (c_writer c, a) = (True, w', a') \<and>
     length (w_stream w') \<le> length (chunk_bytes c) + 19"
proof -
  obtain c a where run: "chunk_run [(1000, 5), (2000, 7)] c a"
    using chunk_run_exists [of "[(1000, 5), (2000, 7)]"] by (auto simp: kMaxSamples_def)
  moreover from this obtain w' a' where step: "append 3000 9 (c_writer c, a) = (True, w', a')"
    using chunk_holds_append [OF chunk_run_holds] by (fastforce simp: kMaxSamples_def)
  ultimately show ?thesis
    using xor_chunk_growth [OF run step] by auto
qed

text \<open>The state of the appender, in terms of the samples.\<close>

lemma encodes_state:
  "encodes p xs a \<Longrightarrow> (xs \<noteq> [] \<longrightarrow> (a_t a, a_v a) = last xs) \<and>
     (2 \<le> length xs \<longrightarrow> a_t_delta a = fst (last xs) - fst (last (butlast xs)))"
proof (induction rule: encodes.induct)
  case (enc_append p xs a t v)
  then show ?case by (cases "xs = []") (auto simp: enc_next_def Let_def prod_eq_iff)
qed auto

text \<open>
  The free bits of the last byte are zero. Two of them read as a sample: a second difference of
  zero and an unchanged value.
\<close>

lemma enc_bits_repeat: "2 \<le> n \<Longrightarrow> enc_bits n a (a_t a + a_t_delta a) (a_v a) = [False, False]"
  by (simp add: enc_bits_def enc_dod_def enc_value_def)

lemma compact_append_reads:
  assumes holds: "chunk_holds c xs a" and len: "2 \<le> length xs" "length xs < unat kMaxSamples"
    and free: "2 \<le> w_count (c_writer c)"
  shows "\<exists>w' a'. append t v (c_writer (compact c), a) = (True, w', a') \<and>
     chunk_samples \<lparr>c_writer = w'\<rparr> = Inr (xs @ [(a_t a + a_t_delta a, a_v a)])"
proof -
  let ?n = "of_nat (length xs) :: u16" and ?k = "w_count (c_writer c)" and ?w = "c_writer (compact c)"
  obtain p where p: "encodes p xs a" "w_holds (c_writer c) (bytes_bits (be16 ?n) @ p)"
    using holds by (auto simp: chunk_holds_def)
  obtain i where i: "windows_agree (a_leading a, a_trailing a) i" using encodes_windows [OF p(1)] by blast
  have n: "unat ?n = length xs" "?n \<noteq> kMaxSamples" "unat (?n + 1) = Suc (length xs)"
    using len(2) unat_length_samples [of xs] by (auto simp: kMaxSamples_def unat_word_ariths)
  have "w_holds ?w (bytes_bits (be16 ?n) @ (p @ replicate ?k False))"
    using p(2) by (simp add: w_holds_def compact_def BitWriter_init_def)
  from append_holds [OF this n(2) i, of t v] obtain w' a' where w': "append t v (?w, a) = (True, w', a')"
    "w_holds w' (bytes_bits (be16 (?n + 1)) @ (p @ replicate ?k False) @ enc_bits (length xs) a t v)"
    unfolding n(1) by blast
  let ?it = "iterator \<lparr>c_writer = w'\<rparr>" and ?st = "w_stream w'"
  note st = w_holds_header [OF w'(2)]
  obtain j where k: "replicate ?k False = [False, False] @ replicate j False"
    using free by (metis Suc_1 add_2_eq_Suc append_Cons append_Nil le_Suc_ex replicate_Suc)
  have "bytes_bits (drop 2 ?st) = drop (8 * 2) (bytes_bits ?st)"
    by (simp only: drop_bytes_bits)
  then obtain rest where "bytes_bits (drop 2 ?st) = (p @ [False, False]) @ rest"
    using w'(2) k by (auto simp: w_holds_def)
  then have pend: "r_pending (it_reader ?it) ((p @ [False, False]) @ rest)"
    using r_pending_init [of "drop 2 ?st"] st(1) by (simp add: iterator_def XORIterator_init_def chunk_bytes_def kHeaderSize_def)
  have tr: "tracks XORAppender_init ?it" "it_num_read ?it = 0" "it_num_total ?it = ?n + 1"
    using st by (simp_all add: tracks_def iterator_def XORIterator_init_def XORAppender_init_def windows_agree_def
        chunk_bytes_def kHeaderSize_def)
  have ghost: "encodes (p @ [False, False]) (xs @ [(a_t a + a_t_delta a, a_v a)]) (enc_next (length xs) a (a_t a + a_t_delta a) (a_v a))"
    using enc_append [OF p(1) len(2), of "a_t a + a_t_delta a" "a_v a"] enc_bits_repeat [OF len(1), of a] by simp
  obtain it where "iter_drain ?it = ((xs @ [(a_t a + a_t_delta a, a_v a)]) @ fst (iter_drain it), snd (iter_drain it))"
    "tracks (enc_next (length xs) a (a_t a + a_t_delta a) (a_v a)) it" "it_num_total it = it_num_total ?it" "unat (it_num_read it) = Suc (length xs)"
    using encodes_drain [OF ghost pend tr(1,2)] tr(3) n(3) by auto
  then have "chunk_samples \<lparr>c_writer = w'\<rparr> = Inr (xs @ [(a_t a + a_t_delta a, a_v a)])"
    using iter_drain_done [of it] tr(3) n(3) by (simp add: chunk_samples_def tracks_def word_unat_eq_iff)
  then show ?thesis using w'(1) by blast
qed

text \<open>
  C38. A compacted chunk cannot be appended to. \<open>compact()\<close> forgets how many bits of the last byte are
  free. If a chunk in any state it can reach has at least two samples, room for another and two free
  bits, it reads the same after \<open>compact()\<close>, but the next append, which reports success, is lost:
  whatever was appended, the decoder returns the last value at the time extrapolated from the last two
  timestamps. Without \<open>compact()\<close> the same append is decoded correctly.
\<close>

theorem xor_compact_then_append_corrupts:
  assumes "chunk_run (xs @ [(t1, v1), (t2, v2)]) c a" and "length xs + 2 < 65535" and "2 \<le> w_count (c_writer c)"
  shows "chunk_samples (compact c) = Inr (xs @ [(t1, v1), (t2, v2)]) \<and>
     (\<exists>w' a'. append t v (c_writer (compact c), a) = (True, w', a') \<and>
        chunk_samples \<lparr>c_writer = w'\<rparr> = Inr (xs @ [(t1, v1), (t2, v2), (t2 + (t2 - t1), v2)])) \<and>
     (\<exists>w' a'. append t v (c_writer c, a) = (True, w', a') \<and>
        chunk_samples \<lparr>c_writer = w'\<rparr> = Inr (xs @ [(t1, v1), (t2, v2), (t, v)]))"
proof -
  let ?xs = "xs @ [(t1, v1), (t2, v2)]"
  note holds = chunk_run_holds [OF assms(1)]
  have len: "2 \<le> length ?xs" "length ?xs < unat kMaxSamples" using assms(2) by (simp_all add: kMaxSamples_def)
  obtain p where "encodes p ?xs a" using holds by (auto simp: chunk_holds_def)
  from encodes_state [OF this] have state: "a_t a = t2" "a_v a = v2" "a_t_delta a = t2 - t1"
    by (simp_all add: butlast_append)
  have "chunk_samples (compact c) = chunk_samples c"
    by (simp add: chunk_samples_def iterator_def chunk_bytes_def compact_def BitWriter_init_def)
  then have same: "chunk_samples (compact c) = Inr ?xs" using chunk_holds_samples(1) [OF holds] by simp
  obtain w' a' where "append t v (c_writer c, a) = (True, w', a')" "chunk_samples \<lparr>c_writer = w'\<rparr> = Inr (?xs @ [(t, v)])"
    using chunk_holds_append [OF holds len(2), of t v] chunk_holds_samples(1) by blast
  then show ?thesis
    using same compact_append_reads [OF holds len assms(3), of t v] by (simp add: state)
qed

theorem xor_compact_then_append_corrupts_witness:
  "\<exists>c a w' a'. chunk_run [(0, 0), (1, 0)] c a \<and> append 5 9 (c_writer (compact c), a) = (True, w', a') \<and>
     chunk_samples \<lparr>c_writer = w'\<rparr> = Inr [(0, 0), (1, 0), (2, 0)]"
proof -
  have start: "chunk_run [] XORChunk_init XORAppender_init"
    by (rule run_start) (simp add: appender_def XORChunk_init_def chunk_bytes_def BitWriter_init_def)
  obtain c a where all: "append_all [(0, 0), (1, 0)] (XORChunk_init, XORAppender_init) = (c, a)" by fastforce
  have run: "chunk_run [(0, 0), (1, 0)] c a"
    using append_all_run [OF start _ all] by (simp add: kMaxSamples_def)
  have "w_count (c_writer (fst (append_all [(0, 0), (1, 0)] (XORChunk_init, XORAppender_init)))) = 7"
    by code_simp
  then have "2 \<le> w_count (c_writer c)" using all by simp
  from xor_compact_then_append_corrupts [of "[]" 0 0 1 0 c a 5 9, OF _ _ this] run show ?thesis by auto
qed

text \<open>
  A malformed chunk (two samples; the second opens a window of 31 leading zeros with a
  width field of zero, read as 64) drives the decoder into a shift by 225, which is undefined,
  instead of an error.
\<close>

theorem xor_malformed_window_undefined:
  "chunk_samples (from_bytes ([0, 2, 0] @ replicate 8 0 @ [0, 0b11111110] @ replicate 16 0))
     = Inl UndefinedBehaviour"
  by code_simp

end
