(* ===== verification/Crc32c.thy ===== *)
theory Crc32c
  imports Prelude
begin

text \<open>
  CRC32-Castagnoli (src/encoding/crc32c.cpp, encoding/crc32c.hpp): the table, the byte-wise
  update loop and the one-shot form. Shown: the table-driven loop computes the bit-wise
  definition of the checksum; it folds over concatenated input as the callers that feed it
  piecewise rely on; and every corruption confined to four consecutive bytes changes the
  checksum, which is what the record framing of the WAL and of the chunk files rests on.
\<close>

definition k_init :: u32 where
  "k_init = 0xFFFFFFFF"

definition k_check :: u32 where
  "k_check = 0xE3069283"

definition k_poly_reversed :: u32 where
  "k_poly_reversed = 0x82F63B78"

text \<open>One turn of the inner loop of the table's initialiser.\<close>

definition crc_bit :: "u32 \<Rightarrow> u32" where
  "crc_bit c = (if c AND 1 \<noteq> 0 then k_poly_reversed XOR drop_bit 1 c else drop_bit 1 c)"

definition k_table :: "u32 list" where
  "k_table = map (\<lambda>i. (crc_bit ^^ 8) (word_of_nat i)) [0..<256]"

definition update_byte :: "u8 \<Rightarrow> u32 \<Rightarrow> u32" where
  "update_byte b state = (k_table ! unat ((state XOR ucast b) AND 0xFF)) XOR drop_bit 8 state"

definition update :: "u32 \<Rightarrow> bytes \<Rightarrow> u32" where
  "update state data = fold update_byte data state"

definition finalize :: "u32 \<Rightarrow> u32" where
  "finalize state = state XOR k_init"

definition compute :: "bytes \<Rightarrow> u32" where
  "compute data = finalize (update k_init data)"

section \<open>The checksum as a shift register\<close>

text \<open>The bit-wise definition: eight shifts of the register per byte.\<close>

definition crc_byte :: "u8 \<Rightarrow> u32 \<Rightarrow> u32" where
  "crc_byte b state = (crc_bit ^^ 8) (state XOR ucast b)"

definition crc_bitwise :: "u32 \<Rightarrow> bytes \<Rightarrow> u32" where
  "crc_bitwise state data = fold crc_byte data state"

lemma crc_bit_alt: "crc_bit c = (if bit c 0 then k_poly_reversed else 0) XOR drop_bit 1 c"
  by (simp add: crc_bit_def and_one_iff)

lemma crc_bit_xor: "crc_bit (a XOR b) = crc_bit a XOR crc_bit b"
  by (simp add: crc_bit_alt bit_xor_iff drop_bit_xor xor.assoc xor.left_commute)

lemma crc_bits_xor: "(crc_bit ^^ n) (a XOR b) = (crc_bit ^^ n) a XOR (crc_bit ^^ n) b"
  by (induction n) (simp_all add: crc_bit_xor)

lemma crc_bit_push: "\<not> bit y 31 \<Longrightarrow> crc_bit (push_bit 1 y) = y"
proof -
  assume y: "\<not> bit y 31"
  have "\<not> bit (push_bit 1 y) 0"
    unfolding bit_push_bit_iff by simp
  moreover have "drop_bit 1 (push_bit 1 y) = y"
  proof (rule bit_word_eqI)
    fix n assume "n < LENGTH(32)"
    then have "n < 31 \<or> n = 31" by auto
    then show "bit (drop_bit 1 (push_bit 1 y)) n = bit y n"
      using y unfolding bit_drop_bit_eq bit_push_bit_iff comp_def by auto
  qed
  ultimately show ?thesis
    by (simp add: crc_bit_def and_one_iff del: drop_bit_push_bit)
qed

lemma crc_bits_push:
  "(\<And>k. 32 - n \<le> k \<Longrightarrow> \<not> bit y k) \<Longrightarrow> n \<le> 32 \<Longrightarrow> (crc_bit ^^ n) (push_bit n y) = y"
proof (induction n)
  case (Suc n)
  have "\<not> bit (push_bit n y) 31"
    using Suc.prems(1) [of "31 - n"] Suc.prems(2) unfolding bit_push_bit_iff by auto
  then have "crc_bit (push_bit (Suc n) y) = push_bit n y"
    using crc_bit_push [of "push_bit n y"] by (simp add: push_bit_push_bit)
  then show ?case
    using Suc by (simp add: funpow_swap1 [symmetric] funpow_Suc_right del: funpow.simps)
qed simp

lemma crc_bit_zero: "crc_bit d = 0 \<Longrightarrow> d = 0"
proof (rule bit_word_eqI)
  fix n assume z: "crc_bit d = 0"
  have top: "bit k_poly_reversed 31"
    by (simp add: k_poly_reversed_def)
  have "\<not> bit d 0"
  proof
    assume "bit d 0"
    then have "k_poly_reversed XOR drop_bit 1 d = 0"
      using z by (simp add: crc_bit_def and_one_iff)
    then have "\<not> bit (k_poly_reversed XOR drop_bit 1 d) 31"
      by simp
    then show False
      using top bit_imp_le_length [of d 32] unfolding bit_xor_iff bit_drop_bit_eq comp_def by simp
  qed
  then have "drop_bit 1 d = 0"
    using z by (simp add: crc_bit_def and_one_iff)
  then have "\<not> bit (drop_bit 1 d) (n - 1)"
    by simp
  then show "bit d n = bit 0 n"
    using \<open>\<not> bit d 0\<close> unfolding bit_drop_bit_eq comp_def by (cases n) simp_all
qed

lemma crc_bits_inject: "(crc_bit ^^ n) a = (crc_bit ^^ n) b \<longleftrightarrow> a = b"
proof
  assume "(crc_bit ^^ n) a = (crc_bit ^^ n) b"
  then have "(crc_bit ^^ n) (a XOR b) = 0"
    by (simp add: crc_bits_xor)
  then have "a XOR b = 0"
    by (induction n) (auto dest: crc_bit_zero)
  then show "a = b"
    by simp
qed simp

section \<open>The table computes the register\<close>

lemma low_byte: "(w :: u32) AND 0xFF = take_bit 8 w"
  by (simp add: take_bit_eq_mask mask_eq_exp_minus_1)

lemma k_table_nth: "k_table ! unat (take_bit 8 w) = (crc_bit ^^ 8) (take_bit 8 w)"
proof -
  have "unat (take_bit 8 w) < 256"
    by (simp add: unat_take_bit)
  then show ?thesis
    by (simp add: k_table_def)
qed

lemma update_byte_eq_crc_byte: "update_byte b s = crc_byte b s"
proof -
  let ?x = "s XOR ucast b"
  have hi: "drop_bit 8 ?x = drop_bit 8 s"
  proof -
    have "drop_bit 8 (ucast b :: u32) = 0"
      using bit_imp_le_length [of b] by (intro bit_word_eqI) (auto simp: bit_simps)
    then show ?thesis
      by (simp add: drop_bit_xor)
  qed
  have split: "?x = take_bit 8 ?x XOR push_bit 8 (drop_bit 8 ?x)"
    by (rule bit_word_eqI) (unfold bit_xor_iff [of "take_bit 8 ?x"] bit_take_bit_iff bit_push_bit_iff
        bit_drop_bit_eq comp_def, auto)
  have "\<not> bit (drop_bit 8 w) k" if "32 - 8 \<le> k" for w :: u32 and k
    using bit_imp_le_length [of w "8 + k"] that by (auto simp: bit_drop_bit_eq)
  then have "(crc_bit ^^ 8) (push_bit 8 (drop_bit 8 ?x)) = drop_bit 8 ?x"
    by (rule crc_bits_push) simp_all
  then have "(crc_bit ^^ 8) ?x = (crc_bit ^^ 8) (take_bit 8 ?x) XOR drop_bit 8 s"
    by (subst split) (simp only: crc_bits_xor hi)
  then show ?thesis
    by (simp only: update_byte_def crc_byte_def low_byte k_table_nth)
qed

lemma update_bitwise: "update s data = crc_bitwise s data"
  by (simp add: update_def crc_bitwise_def update_byte_eq_crc_byte [abs_def])

lemma update_append: "update s (xs @ ys) = update (update s xs) ys"
  by (simp add: update_def)

lemma update_Cons: "update s (x # xs) = update (update_byte x s) xs"
  by (simp add: update_def)

lemma update_inject_state: "update s data = update s' data \<longleftrightarrow> s = s'"
proof (induction data arbitrary: s s')
  case (Cons b bs)
  have "update_byte b s = update_byte b s' \<longleftrightarrow> s = s'"
    unfolding update_byte_eq_crc_byte crc_byte_def crc_bits_inject by (rule xor_cancel_right)
  then show ?case
    by (simp only: update_Cons Cons.IH)
qed (simp add: update_def)

text \<open>
  Four bytes or fewer enter the register side by side: the result is the register XORed with
  their little-endian word, shifted once for each bit.
\<close>

fun le_word :: "bytes \<Rightarrow> u32" where
  "le_word [] = 0"
| "le_word (b # bs) = ucast b XOR push_bit 8 (le_word bs)"

lemma bit_le_word: "bit (le_word bs) k \<Longrightarrow> k < 8 * length bs"
proof (induction bs arbitrary: k)
  case (Cons b bs)
  from Cons.prems have "bit b k \<or> 8 \<le> k \<and> bit (le_word bs) (k - 8)"
    unfolding le_word.simps bit_xor_iff bit_push_bit_iff bit_ucast_iff by auto
  then show ?case
    using Cons.IH [of "k - 8"] bit_imp_le_length [of b k] by auto
qed simp

lemma crc_bitwise_word:
  "length bs \<le> 4 \<Longrightarrow> crc_bitwise s bs = (crc_bit ^^ (8 * length bs)) (s XOR le_word bs)"
proof (induction bs arbitrary: s)
  case (Cons b bs)
  have "(crc_bit ^^ 8) (push_bit 8 (le_word bs)) = le_word bs"
    using bit_le_word [of bs] Cons.prems by (intro crc_bits_push) fastforce+
  then have "crc_byte b s XOR le_word bs = (crc_bit ^^ 8) (s XOR le_word (b # bs))"
    by (simp only: crc_byte_def crc_bits_xor le_word.simps xor.assoc)
  moreover have "crc_bitwise s (b # bs) = crc_bitwise (crc_byte b s) bs"
    by (simp add: crc_bitwise_def)
  moreover have "(crc_bit ^^ (8 * length bs)) ((crc_bit ^^ 8) x) = (crc_bit ^^ (8 * length (b # bs))) x" for x
  proof -
    have "8 * length (b # bs) = 8 * length bs + 8" by simp
    then show ?thesis by (simp only: funpow_add comp_def)
  qed
  ultimately show ?case
    using Cons.IH [of "crc_byte b s"] Cons.prems by (simp only: length_Cons)
qed (simp add: crc_bitwise_def)

lemma le_word_inject:
  "length xs = length ys \<Longrightarrow> length xs \<le> 4 \<Longrightarrow> le_word xs = le_word ys \<Longrightarrow> xs = ys"
proof (induction xs ys rule: list_induct2)
  case (Cons x xs y ys)
  have bits: "bit (le_word (b # bs)) k \<longleftrightarrow> bit b k" if "k < 8" for b bs k
    unfolding le_word.simps bit_xor_iff bit_push_bit_iff bit_ucast_iff using that by auto
  have high: "bit (le_word (b # bs)) (k + 8) \<longleftrightarrow> bit (le_word bs) k" if "length bs \<le> 3" for b bs k
    unfolding le_word.simps bit_xor_iff bit_push_bit_iff bit_ucast_iff
    using bit_imp_le_length [of b "k + 8"] bit_le_word [of bs k] that by auto
  have "x = y"
    using bits [of _ x xs] bits [of _ y ys] Cons.prems(2) by (intro bit_word_eqI) simp
  moreover have "le_word xs = le_word ys"
  proof (rule bit_word_eqI)
    fix k
    show "bit (le_word xs) k = bit (le_word ys) k"
      using high [of xs x k] high [of ys y k] Cons.prems Cons.hyps by simp
  qed
  ultimately show ?case
    using Cons by simp
qed simp

lemma update_burst:
  assumes "length xs = length ys" "length xs \<le> 4" "update s (xs @ post) = update s (ys @ post)"
  shows "xs = ys"
proof -
  have "update s xs = update s ys"
    using assms(3) by (simp add: update_append update_inject_state)
  then have "s XOR le_word xs = s XOR le_word ys"
    using assms(1,2) by (simp add: update_bitwise crc_bitwise_word crc_bits_inject)
  then have "le_word xs = le_word ys"
    by (metis xor_twice)
  then show ?thesis
    using le_word_inject assms(1,2) by blast
qed

lemma compute_append: "compute (xs @ ys) = finalize (update (update k_init xs) ys)"
  by (simp add: compute_def update_append)

section \<open>Properties\<close>

text \<open>
  C37. The table-driven loop is the checksum: folding bytes through the 256-entry table gives,
  for every starting state and every input, what shifting the 32-bit register once per input
  bit with the reversed Castagnoli polynomial gives.
\<close>

theorem crc32c_table_correct: "update state data = crc_bitwise state data"
  by (rule update_bitwise)

lemma compute_burst:
  assumes "length xs = length ys" and "length xs \<le> 4" and "xs \<noteq> ys"
  shows "compute (pre @ xs @ post) \<noteq> compute (pre @ ys @ post)"
proof
  assume "compute (pre @ xs @ post) = compute (pre @ ys @ post)"
  then have "update (update k_init pre) (xs @ post) = update (update k_init pre) (ys @ post)"
    by (simp add: compute_append finalize_def)
  then show False
    using update_burst assms by blast
qed

text \<open>
  Error detection: two inputs that differ only within a window of at most four consecutive
  bytes never have the same checksum.
\<close>

theorem crc32c_detects_burst:
  assumes "length xs = length ys" and "length xs \<le> 4" and "xs \<noteq> ys"
  shows "compute (pre @ xs @ post) \<noteq> compute (pre @ ys @ post)"
  using assms by (rule compute_burst)

theorem crc32c_detects_burst_witness:
  "compute ([7] @ [1, 2] @ [9]) \<noteq> compute ([7] @ [1, 3] @ [9])"
  using crc32c_detects_burst [of "[1, 2]" "[1, 3]" "[7]" "[9]"] by simp

end
