(* ===== verification/WalPage.thy ===== *)
theory WalPage
  imports Crc32c
begin

text \<open>
  The page framing of the write-ahead log (src/wal/page.cpp, wal/page.hpp): a writer that cuts
  records into fragments with a seven-byte header inside 32 KiB pages, and a reader that
  reassembles and checks them. Shown: records logged one after the other are read back, and
  the reader then reports a clean end; a log cut off at any byte yields a prefix of its records
  and then one of three errors, never a wrong record; a damaged fragment is reported; and the
  one page position at which the writer produces a log its reader rejects.
\<close>

definition k_page_size :: nat where
  "k_page_size = 32 * 1024"

definition k_record_header_size :: nat where
  "k_record_header_size = 7"

datatype RecType = PageTerm | Full | First | Middle | Last

fun rec_code :: "RecType \<Rightarrow> u8" where
  "rec_code PageTerm = 0"
| "rec_code Full = 1"
| "rec_code First = 2"
| "rec_code Middle = 3"
| "rec_code Last = 4"

definition code_rec :: "u8 \<Rightarrow> RecType" where
  "code_rec b = (if b = 0 then PageTerm else if b = 1 then Full else if b = 2 then First
                 else if b = 3 then Middle else Last)"

definition k_snappy_mask :: u8 where
  "k_snappy_mask = 0x08"

definition k_zstd_mask :: u8 where
  "k_zstd_mask = 0x10"

definition k_rec_type_mask :: u8 where
  "k_rec_type_mask = 0x07"

datatype WalReadError = EndOfStream | UnexpectedEnd | InvalidRecType | CrcMismatch
  | UnexpectedFirst | UnexpectedMiddle | TornRecord | UnsupportedCompression

section \<open>The writer\<close>

record PageWriter =
  pw_buf :: bytes

definition PageWriter_init :: PageWriter where
  "PageWriter_init = \<lparr>pw_buf = []\<rparr>"

definition page_offset :: "PageWriter \<Rightarrow> nat" where
  "page_offset w = length (pw_buf w) mod k_page_size"

definition page_room_for_header :: "PageWriter \<Rightarrow> nat" where
  "page_room_for_header w =
     (if k_page_size - page_offset w < k_record_header_size then 0
      else k_page_size - page_offset w - k_record_header_size)"

definition put :: "bytes \<Rightarrow> PageWriter \<Rightarrow> PageWriter" where
  "put bs w = w\<lparr>pw_buf := pw_buf w @ bs\<rparr>"

definition header_bytes :: "RecType \<Rightarrow> u16 \<Rightarrow> u32 \<Rightarrow> bytes" where
  "header_bytes t len crc =
     [rec_code t, ucast (drop_bit 8 len), ucast len,
      ucast (drop_bit 24 crc), ucast (drop_bit 16 crc), ucast (drop_bit 8 crc), ucast crc]"

definition write_header :: "RecType \<Rightarrow> u16 \<Rightarrow> u32 \<Rightarrow> PageWriter \<Rightarrow> PageWriter" where
  "write_header t len crc w = put (header_bytes t len crc) w"

definition pad_page :: "PageWriter \<Rightarrow> PageWriter" where
  "pad_page w =
     (if k_page_size - page_offset w < k_record_header_size
      then put (replicate (k_page_size - page_offset w) 0) w else w)"

definition frag_type :: "bool \<Rightarrow> bool \<Rightarrow> RecType" where
  "frag_type first_frag last_frag =
     (if first_frag \<and> last_frag then Full else if first_frag then First
      else if last_frag then Last else Middle)"

text \<open>The body of the loop of \<open>log\<close>: the fragment it writes at \<open>pos\<close>, and its length.\<close>

definition log_fragment :: "bytes \<Rightarrow> nat \<Rightarrow> PageWriter \<Rightarrow> nat \<times> PageWriter" where
  "log_fragment body pos w =
     (let w1 = pad_page w;
          page_room = page_room_for_header w1;
          remaining = length body - pos;
          fragment_len = min remaining page_room;
          t = frag_type (pos = 0) (pos + fragment_len = length body);
          fragment = take fragment_len (drop pos body);
          crc = compute fragment;
          w2 = write_header t (word_of_nat fragment_len) crc w1
      in (fragment_len, put fragment w2))"

lemma page_offset_less [simp]: "page_offset w < k_page_size"
  by (simp add: page_offset_def k_page_size_def)

lemma page_offset_put: "page_offset (put bs w) = (page_offset w + length bs) mod k_page_size"
  by (simp add: page_offset_def put_def mod_add_left_eq)

lemma length_header_bytes [simp]: "length (header_bytes t len crc) = k_record_header_size"
  by (simp add: header_bytes_def k_record_header_size_def)

text \<open>
  The offset the header goes to leaves room for it, and a fragment ends the record or the page.
  A fragment of no bytes before the end happens only with exactly seven bytes left.
\<close>

lemma page_offset_pad:
  "page_offset (pad_page w) = (if k_page_size - page_offset w < k_record_header_size then 0 else page_offset w)"
  by (simp add: pad_page_def page_offset_put less_imp_le)

lemma log_fragment_progress:
  assumes "log_fragment body pos w = (n, w')" "pos < length body"
  shows "pos + n \<le> length body" "pos + n < length body \<Longrightarrow> page_offset w' = 0"
    "n = 0 \<Longrightarrow> page_offset w = k_page_size - k_record_header_size"
proof -
  let ?w1 = "pad_page w"
  have room: "page_offset ?w1 + k_record_header_size + page_room_for_header ?w1 = k_page_size"
    using page_offset_less [of w]
    by (auto simp: page_room_for_header_def page_offset_pad k_page_size_def k_record_header_size_def)
  have n: "n = min (length body - pos) (page_room_for_header ?w1)"
    using assms(1) by (auto simp: log_fragment_def Let_def)
  show "pos + n \<le> length body" using n assms(2) by simp
  show "page_offset w' = 0" if "pos + n < length body"
  proof -
    have "n = page_room_for_header ?w1" using that n by linarith
    then show ?thesis
      using assms(1) room n by (auto simp: log_fragment_def Let_def write_header_def page_offset_put mod_simps ac_simps)
  qed
  show "page_offset w = k_page_size - k_record_header_size" if "n = 0"
    using that n assms(2) page_offset_less [of w] room
    by (auto simp: page_offset_pad k_page_size_def k_record_header_size_def split: if_splits)
qed

text \<open>The recursion of \<open>log\<close> ends: what is left gets shorter, or an empty fragment fills the page.\<close>

definition log_order :: "((bytes \<times> nat \<times> PageWriter) \<times> (bytes \<times> nat \<times> PageWriter)) set" where
  "log_order = (\<lambda>(body, pos, w). length body - pos) <*mlex*>
     measure (\<lambda>(body, pos, w). if page_offset w = 0 then 0 else 1)"

lemma wf_log_order: "wf log_order"
  by (simp add: log_order_def wf_mlex)

lemma log_order_fragment:
  assumes frag: "log_fragment body pos w = (n, w')" and pos: "pos < length body"
  shows "((body, pos + n, w'), (body, pos, w)) \<in> log_order"
proof (cases "n = 0")
  case True
  then have "page_offset w' = 0" "page_offset w \<noteq> 0"
    using log_fragment_progress [OF frag pos] pos by (auto simp: k_page_size_def k_record_header_size_def)
  then show ?thesis using True by (auto simp: log_order_def intro!: mlex_leq)
qed (use pos in \<open>auto simp: log_order_def intro!: mlex_less\<close>)

function log_loop :: "bytes \<Rightarrow> nat \<Rightarrow> PageWriter \<Rightarrow> PageWriter" where
  "log_loop body pos w =
     (if pos < length body \<or> (body = [] \<and> pos = 0) then
        let (fragment_len, w') = log_fragment body pos w
        in if body = [] then w' else log_loop body (pos + fragment_len) w'
      else w)"
  by pat_completeness auto
termination
  by (relation log_order) (auto simp: wf_log_order intro: log_order_fragment [OF sym])

declare log_loop.simps [simp del]

definition log :: "bytes \<Rightarrow> PageWriter \<Rightarrow> PageWriter" where
  "log body w = log_loop body 0 w"

definition close_page :: "PageWriter \<Rightarrow> PageWriter" where
  "close_page w =
     (let pos = page_offset w
      in if pos = 0 then w else put (replicate (k_page_size - pos) 0) w)"

section \<open>The reader\<close>

record PageReader =
  pr_buf :: bytes
  pr_offset :: nat
  pr_record :: bytes

definition PageReader_init :: "bytes \<Rightarrow> PageReader" where
  "PageReader_init bs = \<lparr>pr_buf = bs, pr_offset = 0, pr_record = []\<rparr>"

definition read_fragment_header :: "PageReader \<Rightarrow> (WalReadError + RecType \<times> u16 \<times> u32) \<times> PageReader" where
  "read_fragment_header r =
     (if pr_offset r + k_record_header_size > length (pr_buf r) then (Inl UnexpectedEnd, r)
      else
        let h = take k_record_header_size (drop (pr_offset r) (pr_buf r));
            type_byte = h ! 0;
            raw_type = type_byte AND k_rec_type_mask
        in if type_byte AND (k_snappy_mask OR k_zstd_mask) \<noteq> 0 then (Inl UnsupportedCompression, r)
           else if raw_type > rec_code Last then (Inl InvalidRecType, r)
           else (Inr (code_rec raw_type, read_be16 (take 2 (drop 1 h)), read_be32 (take 4 (drop 3 h))),
                 r\<lparr>pr_offset := pr_offset r + k_record_header_size\<rparr>))"

text \<open>
  One turn of the loop of \<open>next\<close>: it returns, or goes on with \<open>open\<close> set or not. The second
  component of the result is the new \<open>open\<close> flag.
\<close>

datatype step = Return "WalReadError + bytes" | Continue bool

definition skip_padding :: "bool \<Rightarrow> PageReader \<Rightarrow> step \<times> PageReader" where
  "skip_padding opn r =
     (let page_remaining = k_page_size - pr_offset r mod k_page_size;
          pad = take (min page_remaining (length (pr_buf r) - pr_offset r)) (drop (pr_offset r) (pr_buf r))
      in if list_ex (\<lambda>b. b \<noteq> 0) pad then (Return (Inl InvalidRecType), r)
         else (Continue opn, r\<lparr>pr_offset := pr_offset r + length pad\<rparr>))"

definition take_fragment :: "bool \<Rightarrow> RecType \<Rightarrow> bytes \<Rightarrow> PageReader \<Rightarrow> step \<times> PageReader" where
  "take_fragment opn t fragment r =
     (case t of
        Full \<Rightarrow>
          if opn then (Return (Inl UnexpectedFirst), r)
          else (Return (Inr fragment), r\<lparr>pr_record := fragment\<rparr>)
      | First \<Rightarrow>
          if opn then (Return (Inl UnexpectedFirst), r)
          else (Continue True, r\<lparr>pr_record := fragment\<rparr>)
      | Middle \<Rightarrow>
          if \<not> opn then (Return (Inl UnexpectedMiddle), r)
          else (Continue opn, r\<lparr>pr_record := pr_record r @ fragment\<rparr>)
      | Last \<Rightarrow>
          if \<not> opn then (Return (Inl UnexpectedMiddle), r)
          else (Return (Inr (pr_record r @ fragment)), r\<lparr>pr_record := pr_record r @ fragment\<rparr>)
      | PageTerm \<Rightarrow> (Return (Inl InvalidRecType), r))"

definition next_step :: "bool \<Rightarrow> PageReader \<Rightarrow> step \<times> PageReader" where
  "next_step opn r =
     (if pr_offset r \<ge> length (pr_buf r) then
        (Return (Inl (if opn then TornRecord else EndOfStream)), r)
      else if pr_buf r ! pr_offset r = 0 then skip_padding opn r
      else
        case read_fragment_header r of
          (Inl e, r1) \<Rightarrow> (Return (Inl e), r1)
        | (Inr (t, len, crc), r1) \<Rightarrow>
            if pr_offset r1 + unat len > length (pr_buf r1) then (Return (Inl UnexpectedEnd), r1)
            else
              let fragment = take (unat len) (drop (pr_offset r1) (pr_buf r1));
                  r2 = r1\<lparr>pr_offset := pr_offset r1 + unat len\<rparr>
              in if compute fragment \<noteq> crc then (Return (Inl CrcMismatch), r2)
                 else take_fragment opn t fragment r2)"

lemma skip_padding_progress:
  "skip_padding opn r = (Continue opn', r') \<Longrightarrow> pr_offset r < length (pr_buf r) \<Longrightarrow>
     pr_buf r' = pr_buf r \<and> pr_offset r < pr_offset r' \<and> pr_offset r' \<le> length (pr_buf r)"
  by (auto simp: skip_padding_def Let_def k_page_size_def split: if_splits)

lemma read_fragment_header_progress:
  "read_fragment_header r = (Inr h, r') \<Longrightarrow>
     pr_buf r' = pr_buf r \<and> pr_offset r < pr_offset r' \<and> pr_record r' = pr_record r"
  by (auto simp: read_fragment_header_def Let_def k_record_header_size_def split: if_splits)

lemma take_fragment_progress:
  "take_fragment opn t f r = (Continue opn', r') \<Longrightarrow> pr_buf r' = pr_buf r \<and> pr_offset r' = pr_offset r"
  by (auto simp: take_fragment_def split: RecType.splits if_splits)

lemma next_step_progress:
  "next_step opn r = (Continue opn', r') \<Longrightarrow>
     pr_buf r' = pr_buf r \<and> pr_offset r < pr_offset r' \<and> pr_offset r' \<le> length (pr_buf r)"
  by (auto simp: next_step_def Let_def dest!: skip_padding_progress read_fragment_header_progress
      take_fragment_progress split: if_splits prod.splits sum.splits)

function next_loop :: "bool \<Rightarrow> PageReader \<Rightarrow> (WalReadError + bytes) \<times> PageReader" where
  "next_loop opn r =
     (case next_step opn r of
        (Return res, r') \<Rightarrow> (res, r')
      | (Continue opn', r') \<Rightarrow> next_loop opn' r')"
  by pat_completeness auto
termination
  by (relation "measure (\<lambda>(opn, r). length (pr_buf r) - pr_offset r)")
    (auto dest!: sym [of "(_, _)"] next_step_progress)

declare next_loop.simps [simp del]

definition page_next :: "PageReader \<Rightarrow> (WalReadError + bytes) \<times> PageReader" where
  "page_next r = next_loop False (r\<lparr>pr_record := []\<rparr>)"

lemma page_next_progress:
  "page_next r = (Inr b, r') \<Longrightarrow>
     pr_buf r' = pr_buf r \<and> pr_offset r < pr_offset r' \<and> pr_offset r' \<le> length (pr_buf r)"
proof -
  have "next_loop opn r = (Inr b, r') \<Longrightarrow>
      pr_buf r' = pr_buf r \<and> pr_offset r < pr_offset r' \<and> pr_offset r' \<le> length (pr_buf r)" for opn r
  proof (induction opn r rule: next_loop.induct)
    case (1 opn r)
    show ?case
    proof (cases "next_step opn r")
      case (Pair st r1)
      show ?thesis
      proof (cases st)
        case (Return res)
        then have "next_step opn r = (Return (Inr b), r')"
          using Pair "1.prems" by (simp add: next_loop.simps)
        then show ?thesis
          by (auto simp: next_step_def skip_padding_def take_fragment_def Let_def
              dest!: read_fragment_header_progress
              split: if_splits prod.splits sum.splits RecType.splits)
      next
        case (Continue opn')
        then show ?thesis
          using Pair "1.IH" [OF Pair [symmetric], of opn'] "1.prems" next_step_progress [of opn r opn' r1]
          by (force simp: next_loop.simps [of opn r])
      qed
    qed
  qed
  then show "page_next r = (Inr b, r') \<Longrightarrow> ?thesis"
    unfolding page_next_def by fastforce
qed

text \<open>The loop of a caller: records until the first error.\<close>

function read_records :: "PageReader \<Rightarrow> bytes list \<times> WalReadError" where
  "read_records r =
     (case page_next r of
        (Inl e, r') \<Rightarrow> ([], e)
      | (Inr b, r') \<Rightarrow> let (bs, e) = read_records r' in (b # bs, e))"
  by pat_completeness auto
termination
  by (relation "measure (\<lambda>r. length (pr_buf r) - pr_offset r)")
    (auto dest!: sym [of "(_, _)"] page_next_progress)

declare read_records.simps [simp del]

section \<open>Reading what was written\<close>

lemma read_fragment_header_ok:
  assumes "drop (pr_offset r) (pr_buf r) = header_bytes t len crc @ rest"
  shows "read_fragment_header r =
     (Inr (t, len, crc), r\<lparr>pr_offset := pr_offset r + k_record_header_size\<rparr>)"
proof -
  have len: "pr_offset r + k_record_header_size \<le> length (pr_buf r)"
    using arg_cong [OF assms, of length] by (simp add: k_record_header_size_def)
  have h: "take k_record_header_size (drop (pr_offset r) (pr_buf r)) = header_bytes t len crc"
    by (simp add: assms)
  have "[ucast (drop_bit 8 len), ucast len] = be16 len"
    "[ucast (drop_bit 24 crc), ucast (drop_bit 16 crc), ucast (drop_bit 8 crc), ucast crc] = be32 crc"
    by (simp_all add: be16_def be32_def)
  then have parts: "take 2 (drop 1 (header_bytes t len crc)) = be16 len"
    "take 4 (drop 3 (header_bytes t len crc)) = be32 crc"
    by (simp_all add: header_bytes_def)
  have t: "header_bytes t len crc ! 0 = rec_code t" by (simp add: header_bytes_def)
  have "rec_code t AND (k_snappy_mask OR k_zstd_mask) = 0"
    "rec_code t AND k_rec_type_mask = rec_code t" "\<not> rec_code Last < rec_code t" "code_rec (rec_code t) = t"
    by (cases t; simp add: k_snappy_mask_def k_zstd_mask_def k_rec_type_mask_def code_rec_def)+
  then show ?thesis
    using len unfolding read_fragment_header_def h Let_def parts t by simp
qed

lemma next_step_fragment:
  assumes "drop (pr_offset r) (pr_buf r) = header_bytes t (word_of_nat (length f)) (compute f) @ f @ rest"
    and "t \<noteq> PageTerm" "length f < k_page_size"
  shows "next_step opn r =
     take_fragment opn t f (r\<lparr>pr_offset := pr_offset r + k_record_header_size + length f\<rparr>)"
proof -
  have len: "length (pr_buf r) - pr_offset r = k_record_header_size + length f + length rest"
    using arg_cong [OF assms(1), of length] by simp
  have "pr_buf r ! pr_offset r = (drop (pr_offset r) (pr_buf r)) ! 0"
    using len by (simp add: k_record_header_size_def)
  also have "\<dots> = rec_code t"
    unfolding assms(1) by (simp add: header_bytes_def)
  also have "\<dots> \<noteq> 0"
    using assms(2) by (cases t) simp_all
  finally have nz: "pr_buf r ! pr_offset r \<noteq> 0" .
  have f: "unat (word_of_nat (length f) :: u16) = length f"
    using assms(3) by (simp add: unat_of_nat k_page_size_def)
  have "drop (pr_offset r + k_record_header_size) (pr_buf r) = f @ rest"
    using arg_cong [OF assms(1), of "drop k_record_header_size"] by (simp add: add.commute)
  moreover have "\<not> length (pr_buf r) \<le> pr_offset r"
    "\<not> length (pr_buf r) < pr_offset r + k_record_header_size + length f"
    using len by (auto simp: k_record_header_size_def)
  ultimately show ?thesis
    using nz by (simp add: next_step_def read_fragment_header_ok [OF assms(1)] f Let_def)
qed

text \<open>Padding is skipped up to the end of the page, or of the buffer.\<close>

lemma next_step_padding:
  assumes "drop (pr_offset r) (pr_buf r) = replicate n 0 @ rest" "0 < n"
    and "n \<le> k_page_size - pr_offset r mod k_page_size"
    and "n = k_page_size - pr_offset r mod k_page_size \<or> rest = []"
  shows "next_step opn r = (Continue opn, r\<lparr>pr_offset := pr_offset r + n\<rparr>)"
proof -
  let ?p = "k_page_size - pr_offset r mod k_page_size"
  have len: "length (pr_buf r) - pr_offset r = n + length rest"
    using arg_cong [OF assms(1), of length] by simp
  have "pr_buf r ! pr_offset r = (drop (pr_offset r) (pr_buf r)) ! 0"
    using len assms(2) by simp
  also have "\<dots> = 0"
    unfolding assms(1) using assms(2) by (simp add: nth_append)
  finally have z: "pr_buf r ! pr_offset r = 0" .
  have "min ?p (length (pr_buf r) - pr_offset r) = n"
    using assms(3,4) len by auto
  then have "take (min ?p (length (pr_buf r) - pr_offset r)) (drop (pr_offset r) (pr_buf r)) = replicate n 0"
    using assms(1) by simp
  then show ?thesis
    using z len assms(2) by (simp add: next_step_def skip_padding_def Let_def list_ex_iff)
qed

text \<open>What \<open>log_fragment\<close> adds to the buffer.\<close>

definition pad_len :: "PageWriter \<Rightarrow> nat" where
  "pad_len w = (if k_page_size - page_offset w < k_record_header_size then k_page_size - page_offset w else 0)"

definition frame :: "RecType \<Rightarrow> bytes \<Rightarrow> bytes" where
  "frame t f = header_bytes t (word_of_nat (length f)) (compute f) @ f"

lemma length_frame [simp]: "length (frame t f) = k_record_header_size + length f"
  by (simp add: frame_def)

lemma log_fragment_layout:
  assumes "log_fragment body pos w = (n, w')"
  shows "pw_buf w' = pw_buf w @ replicate (pad_len w) 0 @
     frame (frag_type (pos = 0) (pos + n = length body)) (take n (drop pos body))"
    "n \<le> length body - pos" "n < k_page_size"
proof -
  have n: "n = min (length body - pos) (page_room_for_header (pad_page w))"
    using assms by (auto simp: log_fragment_def Let_def)
  then show "n \<le> length body - pos" by simp
  have "page_room_for_header (pad_page w) < k_page_size"
    using diff_le_self [of 32761 "page_offset (pad_page w)"]
    by (simp add: page_room_for_header_def k_page_size_def k_record_header_size_def del: diff_le_self)
  then show "n < k_page_size" using n by linarith
  have "min (length body - pos) n = n" using n by simp
  moreover have "pw_buf (pad_page w) = pw_buf w @ replicate (pad_len w) 0"
    by (simp add: pad_page_def pad_len_def put_def)
  ultimately show "pw_buf w' = pw_buf w @ replicate (pad_len w) 0 @
     frame (frag_type (pos = 0) (pos + n = length body)) (take n (drop pos body))"
    using assms n [symmetric] by (auto simp: log_fragment_def Let_def frame_def write_header_def put_def)
qed

lemma next_loop_continue:
  "next_step opn r = (Continue opn', r') \<Longrightarrow> next_loop opn r = next_loop opn' r'"
  "next_step opn r = (Return res, r') \<Longrightarrow> next_loop opn r = (res, r')"
  by (simp_all add: next_loop.simps [of opn r])

lemma next_loop_skip:
  assumes "pr_buf r = pw_buf w @ replicate (pad_len w) 0 @ rest" "pr_offset r = length (pw_buf w)"
  shows "next_loop opn r = next_loop opn (r\<lparr>pr_offset := length (pw_buf w) + pad_len w\<rparr>)"
proof (cases "pad_len w = 0")
  case True
  then show ?thesis using assms(2) by (metis PageReader.surjective PageReader.update_convs(2) add_0_right)
next
  case False
  then have "next_step opn r = (Continue opn, r\<lparr>pr_offset := pr_offset r + pad_len w\<rparr>)"
    using assms by (intro next_step_padding [of r _ rest])
      (auto simp: pad_len_def page_offset_def split: if_splits)
  then show ?thesis using assms(2) by (simp add: next_loop_continue)
qed

lemma frag_type_not_term [simp]: "frag_type a b \<noteq> PageTerm"
  by (simp add: frag_type_def)

lemma next_loop_fragment:
  assumes frag: "log_fragment body pos w = (n, w')"
    and buf: "pr_buf r = pw_buf w' @ rest" and off: "pr_offset r = length (pw_buf w)"
    and step: "take_fragment opn (frag_type (pos = 0) (pos + n = length body)) (take n (drop pos body))
        (r\<lparr>pr_offset := length (pw_buf w')\<rparr>) = (st, r')"
  shows "next_loop opn r = (case st of Return res \<Rightarrow> (res, r') | Continue opn' \<Rightarrow> next_loop opn' r')"
proof -
  let ?t = "frag_type (pos = 0) (pos + n = length body)" and ?f = "take n (drop pos body)"
  let ?r = "r\<lparr>pr_offset := length (pw_buf w) + pad_len w\<rparr>"
  note lay = log_fragment_layout [OF frag]
  have "next_loop opn r = next_loop opn ?r"
    using buf lay(1) off by (intro next_loop_skip [where rest = "frame ?t ?f @ rest"]) auto
  moreover have "drop (pr_offset ?r) (pr_buf ?r) = header_bytes ?t (word_of_nat (length ?f)) (compute ?f) @ ?f @ rest"
    using buf lay(1) by (simp add: frame_def)
  then have "next_step opn ?r = take_fragment opn ?t ?f (?r\<lparr>pr_offset := pr_offset ?r + k_record_header_size + length ?f\<rparr>)"
    using lay(3) by (intro next_step_fragment) auto
  moreover have "pr_offset ?r + k_record_header_size + length ?f = length (pw_buf w')"
    using lay(1) by simp
  ultimately show ?thesis
    using step by (auto simp: next_loop_continue split: step.splits)
qed

lemma log_loop_end: "pos = length body \<Longrightarrow> body \<noteq> [] \<Longrightarrow> log_loop body pos w = w"
  by (simp add: log_loop.simps)

lemma log_loop_extends: "\<exists>s. pw_buf (log_loop body pos w) = pw_buf w @ s"
proof (induction body pos w rule: log_loop.induct)
  case (1 body pos w)
  obtain n w' where frag: "log_fragment body pos w = (n, w')" by fastforce
  note lay = log_fragment_layout(1) [OF frag]
  show ?case
  proof (cases "pos < length body \<and> body \<noteq> []")
    case True
    then show ?thesis
      using "1.IH" [OF _ frag [symmetric] refl] lay frag by (fastforce simp: log_loop.simps [of body pos w])
  next
    case False
    then show ?thesis using lay frag by (auto simp: log_loop.simps [of body pos w])
  qed
qed

text \<open>
  The writer's position is sound for a record unless the record has bytes and exactly seven are
  left in the page.
\<close>

definition log_ok :: "bytes \<Rightarrow> PageWriter \<Rightarrow> bool" where
  "log_ok body w \<longleftrightarrow> body = [] \<or> page_offset w \<noteq> k_page_size - k_record_header_size"

lemma log_loop_read:
  assumes "pos < length body" "pos = 0 \<longrightarrow> log_ok body w"
    and "pr_buf r = pw_buf (log_loop body pos w) @ rest" "pr_offset r = length (pw_buf w)"
    and "0 < pos \<longrightarrow> pr_record r = take pos body"
  shows "next_loop (0 < pos) r =
     (Inr body, r\<lparr>pr_offset := length (pw_buf (log_loop body pos w)), pr_record := body\<rparr>)"
  using assms
proof (induction body pos w arbitrary: r rule: log_loop.induct)
  case (1 body pos w)
  obtain n w' where frag: "log_fragment body pos w = (n, w')" by fastforce
  have body: "body \<noteq> []" using "1.prems"(1) by auto
  have loop: "log_loop body pos w = log_loop body (pos + n) w'"
    using "1.prems"(1) body frag by (simp add: log_loop.simps [of body pos w])
  obtain s where s: "pw_buf (log_loop body (pos + n) w') = pw_buf w' @ s"
    using log_loop_extends by blast
  note prog = log_fragment_progress [OF frag "1.prems"(1)]
  have step: "next_loop (0 < pos) r = (case st of Return res \<Rightarrow> (res, r') | Continue opn' \<Rightarrow> next_loop opn' r')"
    if "take_fragment (0 < pos) (frag_type (pos = 0) (pos + n = length body)) (take n (drop pos body))
        (r\<lparr>pr_offset := length (pw_buf w')\<rparr>) = (st, r')" for st r'
    using next_loop_fragment [OF frag _ "1.prems"(4) that] "1.prems"(3) s loop by simp
  show ?case
  proof (cases "pos + n = length body")
    case True
    then have "pw_buf (log_loop body pos w) = pw_buf w'"
      using loop body by (simp add: log_loop_end)
    moreover have "take pos body @ drop pos body = body" by simp
    ultimately show ?thesis
      using step True "1.prems"(5) by (cases "pos = 0") (auto simp: take_fragment_def frag_type_def)
  next
    case False
    then have more: "pos + n < length body" and po: "page_offset w' = 0"
      using prog by simp_all
    let ?r = "r\<lparr>pr_offset := length (pw_buf w'), pr_record := take (pos + n) body\<rparr>"
    have pos: "0 < pos + n"
      using "1.prems"(2) prog(3) body by (auto simp: log_ok_def)
    have "next_loop (0 < pos) r = next_loop True ?r"
      using step False "1.prems"(5) by (cases "pos = 0") (auto simp: take_fragment_def frag_type_def take_add)
    moreover have "next_loop True ?r = (Inr body,
        ?r\<lparr>pr_offset := length (pw_buf (log_loop body pos w)), pr_record := body\<rparr>)"
      using "1.IH" [OF _ frag [symmetric] refl body more, of ?r] "1.prems"(1,3) pos loop by auto
    ultimately show ?thesis by simp
  qed
qed

lemma page_next_log:
  assumes "log_ok body w" "pr_buf r = pw_buf (log body w) @ rest" "pr_offset r = length (pw_buf w)"
  shows "page_next r = (Inr body, r\<lparr>pr_offset := length (pw_buf (log body w)), pr_record := body\<rparr>)"
proof (cases "body = []")
  case True
  obtain n w' where frag: "log_fragment body 0 w = (n, w')" by fastforce
  then have n: "n = 0" and loop: "log body w = w'"
    using True log_fragment_layout(2) [OF frag] by (simp_all add: log_def log_loop.simps)
  then show ?thesis
    using next_loop_fragment [OF frag, of "r\<lparr>pr_record := []\<rparr>" rest False] assms(2,3) True
    by (simp add: page_next_def take_fragment_def frag_type_def)
next
  case False
  then show ?thesis
    using log_loop_read [of 0 body w "r\<lparr>pr_record := []\<rparr>" rest] assms
    by (simp add: page_next_def log_def)
qed

text \<open>A sequence of records.\<close>

fun log_all :: "bytes list \<Rightarrow> PageWriter \<Rightarrow> PageWriter" where
  "log_all [] w = w"
| "log_all (b # bs) w = log_all bs (log b w)"

fun log_all_ok :: "bytes list \<Rightarrow> PageWriter \<Rightarrow> bool" where
  "log_all_ok [] w = True"
| "log_all_ok (b # bs) w = (log_ok b w \<and> log_all_ok bs (log b w))"

lemma log_all_append:
  "log_all (xs @ ys) w = log_all ys (log_all xs w)"
  "log_all_ok (xs @ ys) w \<longleftrightarrow> log_all_ok xs w \<and> log_all_ok ys (log_all xs w)"
  by (induction xs arbitrary: w) auto

lemma log_all_extends: "\<exists>s. pw_buf (log_all bs w) = pw_buf w @ s"
proof (induction bs arbitrary: w)
  case (Cons b bs)
  obtain s where "pw_buf (log b w) = pw_buf w @ s"
    unfolding log_def using log_loop_extends by blast
  then show ?case
    using Cons.IH [of "log b w"] by auto
qed simp

lemma read_records_log_all:
  assumes "log_all_ok bs w" "pr_buf r = pw_buf (log_all bs w) @ rest" "pr_offset r = length (pw_buf w)"
  shows "\<exists>r'. read_records r = (bs @ fst (read_records r'), snd (read_records r')) \<and>
     pr_buf r' = pr_buf r \<and> pr_offset r' = length (pw_buf (log_all bs w))"
  using assms
proof (induction bs arbitrary: w r)
  case (Cons b bs)
  let ?r = "r\<lparr>pr_offset := length (pw_buf (log b w)), pr_record := b\<rparr>"
  obtain s where "pw_buf (log_all bs (log b w)) = pw_buf (log b w) @ s"
    using log_all_extends by blast
  then have "page_next r = (Inr b, ?r)"
    using Cons.prems by (intro page_next_log [where rest = "s @ rest"]) auto
  then show ?case
    using Cons.IH [of "log b w" ?r] Cons.prems
    by (auto simp: read_records.simps [of r] split: prod.splits)
qed auto

lemma read_records_end:
  "pr_offset r = length (pr_buf r) \<Longrightarrow> read_records r = ([], EndOfStream)"
  by (simp add: read_records.simps [of r] page_next_def next_loop.simps next_step_def)

lemma read_records_padding:
  assumes "pr_buf r = pw_buf (close_page w)" "pr_offset r = length (pw_buf w)"
  shows "read_records r = ([], EndOfStream)"
proof (cases "page_offset w = 0")
  case True
  then show ?thesis
    using assms by (simp add: read_records_end close_page_def)
next
  case False
  let ?n = "k_page_size - page_offset w" and ?r = "r\<lparr>pr_record := []\<rparr>"
  have buf: "pr_buf r = pw_buf w @ replicate ?n 0"
    using assms(1) False by (simp add: close_page_def Let_def put_def)
  have "next_step False ?r = (Continue False, ?r\<lparr>pr_offset := pr_offset ?r + ?n\<rparr>)"
    using buf assms(2) page_offset_less [of w]
    by (intro next_step_padding [where rest = "[]"]) (simp_all add: page_offset_def)
  then have "fst (page_next r) = Inl EndOfStream"
    using buf assms(2) by (simp add: page_next_def next_loop_continue next_loop.simps next_step_def)
  then show ?thesis
    by (cases "page_next r") (auto simp: read_records.simps [of r])
qed

section \<open>A log that was cut off\<close>

text \<open>
  Where the fragments of a record lie in the log, each from the first byte of its header to the end
  of its data, and whether a position is inside one of them.
\<close>

function fragment_spans :: "bytes \<Rightarrow> nat \<Rightarrow> PageWriter \<Rightarrow> (nat \<times> nat) list" where
  "fragment_spans body pos w =
     (if pos < length body \<or> (body = [] \<and> pos = 0) then
        let (n, w') = log_fragment body pos w; span = (length (pw_buf (pad_page w)), length (pw_buf w'))
        in if body = [] then [span] else span # fragment_spans body (pos + n) w'
      else [])"
  by pat_completeness auto
termination
  by (relation log_order) (auto simp: wf_log_order intro: log_order_fragment [OF sym])

declare fragment_spans.simps [simp del]

fun record_spans :: "bytes list \<Rightarrow> PageWriter \<Rightarrow> (nat \<times> nat) list" where
  "record_spans [] w = []"
| "record_spans (b # bs) w = fragment_spans b 0 w @ record_spans bs (log b w)"

definition inside :: "nat \<Rightarrow> (nat \<times> nat) list \<Rightarrow> bool" where
  "inside m spans \<longleftrightarrow> list_ex (\<lambda>(s, e). s < m \<and> m < e) spans"

lemma inside_simps [simp]:
  "\<not> inside m []" "inside m (x # xs) \<longleftrightarrow> fst x < m \<and> m < snd x \<or> inside m xs"
  "inside m (xs @ ys) \<longleftrightarrow> inside m xs \<or> inside m ys"
  by (auto simp: inside_def split: prod.splits)

lemma length_pad_page: "length (pw_buf (pad_page w)) = length (pw_buf w) + pad_len w"
  by (simp add: pad_page_def pad_len_def put_def)

lemma fragment_spans_bounds:
  "inside m (fragment_spans body pos w) \<Longrightarrow> length (pw_buf w) < m \<and> m < length (pw_buf (log_loop body pos w))"
proof (induction body pos w rule: fragment_spans.induct)
  case (1 body pos w)
  obtain n w' where frag: "log_fragment body pos w = (n, w')" by fastforce
  note lay = arg_cong [OF log_fragment_layout(1) [OF frag], of length]
  obtain s where s: "pw_buf (log_loop body (pos + n) w') = pw_buf w' @ s" using log_loop_extends by blast
  have more: "pos < length body \<or> body = [] \<and> pos = 0"
    using "1.prems" by (cases "pos < length body \<or> body = [] \<and> pos = 0") (simp_all add: fragment_spans.simps [of body pos w])
  show ?case
  proof (cases "body = []")
    case True
    then show ?thesis
      using "1.prems" frag more
      by (simp add: fragment_spans.simps [of "[]" 0] log_loop.simps [of "[]" 0] length_pad_page)
  next
    case False
    have loop: "log_loop body pos w = log_loop body (pos + n) w'"
      using False more frag by (simp add: log_loop.simps [of body pos w])
    have "length (pw_buf (pad_page w)) < m \<and> m < length (pw_buf w') \<or> inside m (fragment_spans body (pos + n) w')"
      using "1.prems" frag more False by (simp add: fragment_spans.simps [of body pos w])
    then show ?thesis
      using "1.IH" [OF more frag [symmetric] refl refl False] s lay unfolding loop by (auto simp: length_pad_page)
  qed
qed

lemma record_spans_bounds: "inside m (record_spans bs w) \<Longrightarrow> length (pw_buf w) < m"
proof (induction bs arbitrary: w)
  case (Cons b bs)
  obtain s where "pw_buf (log b w) = pw_buf w @ s" unfolding log_def using log_loop_extends by blast
  then show ?case using Cons fragment_spans_bounds [of m b 0 w] by fastforce
qed simp

abbreviation torn :: "WalReadError set" where
  "torn \<equiv> {EndOfStream, UnexpectedEnd, TornRecord}"

lemma next_loop_end:
  "pr_offset r = length (pr_buf r) \<Longrightarrow> \<exists>e\<in>torn. fst (next_loop opn r) = Inl e \<and> e \<noteq> UnexpectedEnd"
  by (simp add: next_loop.simps [of opn r] next_step_def)

lemma next_step_cut_frame:
  assumes "drop (pr_offset r) (pr_buf r) = take k (frame t f)" "0 < k" "k < length (frame t f)"
    and "t \<noteq> PageTerm" "length f < k_page_size"
  shows "fst (next_step opn r) = Return (Inl UnexpectedEnd)"
proof -
  have len: "length (pr_buf r) - pr_offset r = k"
    using arg_cong [OF assms(1), of length] assms(3) by simp
  have "pr_buf r ! pr_offset r = (drop (pr_offset r) (pr_buf r)) ! 0"
    using len assms(2) by simp
  also have "\<dots> = rec_code t"
    unfolding assms(1) using assms(2) by (simp add: frame_def header_bytes_def nth_append)
  also have "\<dots> \<noteq> 0"
    using assms(4) by (cases t) simp_all
  finally have nz: "pr_buf r ! pr_offset r \<noteq> 0" .
  show ?thesis
  proof (cases "k < k_record_header_size")
    case True
    then show ?thesis
      using len nz assms(2) by (auto simp: next_step_def read_fragment_header_def)
  next
    case False
    then have "drop (pr_offset r) (pr_buf r) =
        header_bytes t (word_of_nat (length f)) (compute f) @ take (k - k_record_header_size) f"
      using assms(1) by (simp add: frame_def)
    note hd = read_fragment_header_ok [OF this]
    have "unat (word_of_nat (length f) :: u16) = length f"
      using assms(5) by (simp add: unat_of_nat k_page_size_def)
    then show ?thesis
      using len nz assms(2,3) False by (auto simp: next_step_def hd)
  qed
qed

lemma next_loop_cut_fragment:
  assumes frag: "log_fragment body pos w = (n, w')"
    and buf: "pr_buf r = take m (pw_buf w')" and off: "pr_offset r = length (pw_buf w)"
    and m: "length (pw_buf w) \<le> m" "m < length (pw_buf w')"
  shows "\<exists>e\<in>torn. fst (next_loop opn r) = Inl e \<and> (e = UnexpectedEnd \<longleftrightarrow> length (pw_buf (pad_page w)) < m)"
proof -
  let ?t = "frag_type (pos = 0) (pos + n = length body)" and ?f = "take n (drop pos body)"
  note lay = log_fragment_layout [OF frag]
  let ?j = "m - length (pw_buf w)"
  have buf': "pr_buf r = pw_buf w @ take ?j (replicate (pad_len w) 0 @ frame ?t ?f)"
    using buf m(1) lay(1) by simp
  show ?thesis
  proof (cases "?j \<le> pad_len w")
    case True
    then have tail: "drop (pr_offset r) (pr_buf r) = replicate ?j 0 @ []"
      using buf' off by simp
    show ?thesis
    proof (cases "?j = 0")
      case True
      then have "\<exists>e\<in>torn. fst (next_loop opn r) = Inl e \<and> e \<noteq> UnexpectedEnd" using buf' off by (intro next_loop_end) simp
      then show ?thesis using True m(1) by (auto simp: length_pad_page)
    next
      case False
      have "next_loop opn r = next_loop opn (r\<lparr>pr_offset := pr_offset r + ?j\<rparr>)"
        using tail False True off
        by (intro next_loop_continue(1) next_step_padding) (auto simp: pad_len_def page_offset_def split: if_splits)
      moreover have "\<exists>e\<in>torn. fst (next_loop opn (r\<lparr>pr_offset := pr_offset r + ?j\<rparr>)) = Inl e \<and> e \<noteq> UnexpectedEnd"
        using buf' off True by (intro next_loop_end) simp
      moreover have "\<not> length (pw_buf (pad_page w)) < m" using True m(1) by (simp add: length_pad_page)
      ultimately show ?thesis by auto
    qed
  next
    case False
    let ?k = "?j - pad_len w" and ?r = "r\<lparr>pr_offset := length (pw_buf w) + pad_len w\<rparr>"
    have buf'': "pr_buf r = pw_buf w @ replicate (pad_len w) 0 @ take ?k (frame ?t ?f)"
      using buf' False by simp
    then have "next_loop opn r = next_loop opn ?r"
      using off by (rule next_loop_skip)
    moreover have "fst (next_step opn ?r) = Return (Inl UnexpectedEnd)"
      using buf'' False m lay(1,3) by (intro next_step_cut_frame [where t = ?t and f = ?f and k = ?k]) auto
    then have "fst (next_loop opn ?r) = Inl UnexpectedEnd"
      by (cases "next_step opn ?r") (simp add: next_loop_continue)
    ultimately show ?thesis using False by (simp add: length_pad_page)
  qed
qed

lemma log_loop_cut:
  assumes "pos < length body" "pos = 0 \<longrightarrow> log_ok body w"
    and "pr_buf r = take m (pw_buf (log_loop body pos w))" "pr_offset r = length (pw_buf w)"
    and "length (pw_buf w) \<le> m" "m < length (pw_buf (log_loop body pos w))"
  shows "\<exists>e\<in>torn. fst (next_loop (0 < pos) r) = Inl e \<and> (e = UnexpectedEnd \<longleftrightarrow> inside m (fragment_spans body pos w))"
  using assms
proof (induction body pos w arbitrary: r rule: log_loop.induct)
  case (1 body pos w)
  obtain n w' where frag: "log_fragment body pos w = (n, w')" by fastforce
  have body: "body \<noteq> []" using "1.prems"(1) by auto
  have loop: "log_loop body pos w = log_loop body (pos + n) w'"
    using "1.prems"(1) body frag by (simp add: log_loop.simps [of body pos w])
  obtain s where s: "pw_buf (log_loop body (pos + n) w') = pw_buf w' @ s"
    using log_loop_extends by blast
  note prog = log_fragment_progress [OF frag "1.prems"(1)]
  have spans: "fragment_spans body pos w = (length (pw_buf (pad_page w)), length (pw_buf w')) # fragment_spans body (pos + n) w'"
    using "1.prems"(1) body frag by (simp add: fragment_spans.simps [of body pos w])
  show ?case
  proof (cases "m < length (pw_buf w')")
    case True
    then have "\<not> inside m (fragment_spans body (pos + n) w')"
      using fragment_spans_bounds [of m body "pos + n" w'] by auto
    then show ?thesis
      using next_loop_cut_fragment [OF frag _ "1.prems"(4,5)] "1.prems"(3) loop s True by (simp add: spans)
  next
    case False
    then have more: "pos + n < length body"
      using prog(1) "1.prems"(6) loop log_loop_end [of "pos + n" body w'] body by (cases "pos + n = length body") auto
    have pos: "0 < pos + n"
      using "1.prems"(2) prog(3) body by (auto simp: log_ok_def)
    obtain r' where r': "take_fragment (0 < pos) (frag_type (pos = 0) (pos + n = length body))
        (take n (drop pos body)) (r\<lparr>pr_offset := length (pw_buf w')\<rparr>) = (Continue True, r')"
      "pr_buf r' = pr_buf r" "pr_offset r' = length (pw_buf w')"
      using more by (cases "pos = 0") (auto simp: take_fragment_def frag_type_def)
    have "pr_buf r = pw_buf w' @ take (m - length (pw_buf w')) s"
      using "1.prems"(3) loop s False by simp
    then have "next_loop (0 < pos) r = next_loop True r'"
      using next_loop_fragment [OF frag _ "1.prems"(4) r'(1)] by simp
    then show ?thesis
      using "1.IH" [OF _ frag [symmetric] refl body more, of r'] "1.prems" pos loop r' False by (auto simp: spans)
  qed
qed

lemma page_next_cut:
  assumes "log_ok body w" "pr_buf r = take m (pw_buf (log body w))" "pr_offset r = length (pw_buf w)"
    and "length (pw_buf w) \<le> m" "m < length (pw_buf (log body w))"
  shows "\<exists>e\<in>torn. fst (page_next r) = Inl e \<and> (e = UnexpectedEnd \<longleftrightarrow> inside m (fragment_spans body 0 w))"
proof (cases "body = []")
  case True
  obtain n w' where frag: "log_fragment body 0 w = (n, w')" by fastforce
  then have "log body w = w'"
    using True by (simp add: log_def log_loop.simps)
  then show ?thesis
    using next_loop_cut_fragment [OF frag, of "r\<lparr>pr_record := []\<rparr>" m] assms frag True
    by (simp add: page_next_def fragment_spans.simps [of "[]"])
next
  case False
  then show ?thesis
    using log_loop_cut [of 0 body w "r\<lparr>pr_record := []\<rparr>" m] assms by (simp add: page_next_def log_def)
qed

text \<open>The records whose last byte is within the first \<open>m\<close> bytes of the log.\<close>

fun durable :: "nat \<Rightarrow> bytes list \<Rightarrow> PageWriter \<Rightarrow> bytes list" where
  "durable m [] w = []"
| "durable m (b # bs) w = (if length (pw_buf (log b w)) \<le> m then b # durable m bs (log b w) else [])"

lemma durable_prefix: "\<exists>k. durable m bs w = take k bs"
proof (induction bs arbitrary: w)
  case (Cons b bs)
  then obtain k where "durable m bs (log b w) = take k bs" by blast
  then show ?case
    by (cases "length (pw_buf (log b w)) \<le> m") (auto intro: exI [of _ "Suc k"] exI [of _ 0])
qed simp

lemma read_records_cut:
  assumes "log_all_ok bs w" "pr_buf r = take m (pw_buf (log_all bs w))" "pr_offset r = length (pw_buf w)"
    and "length (pw_buf w) \<le> m"
  shows "fst (read_records r) = durable m bs w \<and> snd (read_records r) \<in> torn \<and>
     (snd (read_records r) = UnexpectedEnd \<longleftrightarrow> inside m (record_spans bs w))"
  using assms
proof (induction bs arbitrary: w r)
  case Nil
  then show ?case by (simp add: read_records_end)
next
  case (Cons b bs)
  obtain s where s: "pw_buf (log_all bs (log b w)) = pw_buf (log b w) @ s"
    using log_all_extends by blast
  show ?case
  proof (cases "length (pw_buf (log b w)) \<le> m")
    case True
    let ?r = "r\<lparr>pr_offset := length (pw_buf (log b w)), pr_record := b\<rparr>"
    have "page_next r = (Inr b, ?r)"
      using Cons.prems s True
      by (intro page_next_log [where rest = "take (m - length (pw_buf (log b w))) s"]) auto
    moreover have "\<not> inside m (fragment_spans b 0 w)"
      using fragment_spans_bounds [of m b 0 w] True by (auto simp: log_def)
    ultimately show ?thesis
      using Cons.IH [of "log b w" ?r] Cons.prems True
      by (auto simp: read_records.simps [of r] split: prod.splits)
  next
    case False
    then have "\<exists>e\<in>torn. fst (page_next r) = Inl e \<and> (e = UnexpectedEnd \<longleftrightarrow> inside m (fragment_spans b 0 w))"
      using Cons.prems s by (intro page_next_cut [where body = b and w = w and m = m]) auto
    moreover have "\<not> inside m (record_spans bs (log b w))"
      using record_spans_bounds [of m bs "log b w"] False by auto
    ultimately show ?thesis
      using False by (cases "page_next r") (auto simp: read_records.simps [of r])
  qed
qed

lemma read_log_cut:
  assumes "log_all_ok bodies PageWriter_init"
  shows "fst (read_records (PageReader_init (take m (pw_buf (log_all bodies PageWriter_init))))) = durable m bodies PageWriter_init"
    "snd (read_records (PageReader_init (take m (pw_buf (log_all bodies PageWriter_init))))) \<in> torn"
    "snd (read_records (PageReader_init (take m (pw_buf (log_all bodies PageWriter_init))))) = UnexpectedEnd \<longleftrightarrow>
       inside m (record_spans bodies PageWriter_init)"
  using read_records_cut [OF assms, of "PageReader_init (take m (pw_buf (log_all bodies PageWriter_init)))" m]
  by (simp_all only: PageReader_init_def PageReader.select_convs list.size PageWriter_init_def PageWriter.select_convs le0)

section \<open>Damage, and a record the reader rejects\<close>

lemma log_single:
  assumes "page_offset w + k_record_header_size + length body \<le> k_page_size"
  shows "pw_buf (log body w) = pw_buf w @ frame Full body"
proof -
  obtain n w' where frag: "log_fragment body 0 w = (n, w')" by fastforce
  have "page_offset (pad_page w) = page_offset w"
    using assms by (auto simp: page_offset_pad)
  then have n: "n = length body"
    using frag assms by (auto simp: log_fragment_def Let_def page_room_for_header_def)
  have "log body w = w'"
    using frag n by (cases "body = []") (simp_all add: log_def log_loop.simps [of _ 0 w] log_loop_end)
  moreover have "pad_len w = 0"
    using assms by (simp add: pad_len_def)
  ultimately show ?thesis
    using log_fragment_layout(1) [OF frag] n by (simp add: frag_type_def)
qed

lemma page_next_damaged:
  assumes "drop (pr_offset r) (pr_buf r) = header_bytes t (word_of_nat (length f)) crc @ f @ rest"
    and "t \<noteq> PageTerm" "length f < k_page_size" "compute f \<noteq> crc"
  shows "fst (page_next r) = Inl CrcMismatch"
proof -
  let ?r = "r\<lparr>pr_record := []\<rparr>"
  have len: "length (pr_buf r) - pr_offset r = k_record_header_size + length f + length rest"
    using arg_cong [OF assms(1), of length] by simp
  have "pr_buf r ! pr_offset r = (drop (pr_offset r) (pr_buf r)) ! 0"
    using len by (simp add: k_record_header_size_def)
  also have "\<dots> = rec_code t"
    unfolding assms(1) by (simp add: header_bytes_def)
  also have "\<dots> \<noteq> 0"
    using assms(2) by (cases t) simp_all
  finally have nz: "pr_buf r ! pr_offset r \<noteq> 0" .
  have f: "unat (word_of_nat (length f) :: u16) = length f"
    using assms(3) by (simp add: unat_of_nat k_page_size_def)
  have "drop (pr_offset r + k_record_header_size) (pr_buf r) = f @ rest"
    using arg_cong [OF assms(1), of "drop k_record_header_size"] by (simp add: add.commute)
  moreover have "\<not> length (pr_buf r) \<le> pr_offset r"
    "\<not> length (pr_buf r) < pr_offset r + k_record_header_size + length f"
    using len by (auto simp: k_record_header_size_def)
  moreover have "read_fragment_header ?r = (Inr (t, word_of_nat (length f), crc),
      ?r\<lparr>pr_offset := pr_offset ?r + k_record_header_size\<rparr>)"
    using assms(1) by (intro read_fragment_header_ok [where rest = "f @ rest"]) simp
  ultimately have "fst (next_step False ?r) = Return (Inl CrcMismatch)"
    using nz assms(4) by (simp add: next_step_def f Let_def)
  then show ?thesis
    by (cases "next_step False ?r") (simp add: page_next_def next_loop_continue)
qed

lemma page_next_reopened:
  assumes "\<not> log_ok body w" "pr_buf r = pw_buf (log body w) @ rest" "pr_offset r = length (pw_buf w)"
  shows "fst (page_next r) = Inl UnexpectedFirst"
proof -
  have body: "body \<noteq> []" and off: "page_offset w = k_page_size - k_record_header_size"
    using assms(1) by (simp_all add: log_ok_def)
  obtain n w1 where f1: "log_fragment body 0 w = (n, w1)" by fastforce
  have n: "n = 0"
    using f1 off by (auto simp: log_fragment_def Let_def page_room_for_header_def page_offset_pad
        k_page_size_def k_record_header_size_def)
  obtain m w2 where f2: "log_fragment body 0 w1 = (m, w2)" by fastforce
  have log: "log body w = log_loop body m w2"
    using body f1 f2 n by (simp add: log_def log_loop.simps [of body 0])
  obtain s where "pw_buf (log_loop body m w2) = pw_buf w2 @ s"
    using log_loop_extends by blast
  then have buf: "pr_buf r = pw_buf w2 @ s @ rest" using log assms(2) by simp
  let ?r1 = "r\<lparr>pr_offset := length (pw_buf w1), pr_record := []\<rparr>"
  have "next_loop False (r\<lparr>pr_record := []\<rparr>) = next_loop True ?r1"
    using next_loop_fragment [OF f1, of "r\<lparr>pr_record := []\<rparr>"] buf assms(3) n body
      log_fragment_layout(1) [OF f2] by (simp add: take_fragment_def frag_type_def)
  also have "fst \<dots> = Inl UnexpectedFirst"
    using next_loop_fragment [OF f2, of ?r1 "s @ rest" True] buf
    by (auto simp: take_fragment_def frag_type_def)
  finally show ?thesis by (simp add: page_next_def)
qed

text \<open>The bytes of a segment: a log as it was written, or padded to the end of its page.\<close>

definition seg_content :: "bytes \<Rightarrow> bytes list \<Rightarrow> bool" where
  "seg_content c bodies \<longleftrightarrow> log_all_ok bodies PageWriter_init \<and>
     (c = pw_buf (log_all bodies PageWriter_init) \<or> c = pw_buf (close_page (log_all bodies PageWriter_init)))"

lemma read_records_segment:
  assumes "seg_content c bodies"
  shows "read_records (PageReader_init c) = (bodies, EndOfStream)"
proof -
  let ?w = "log_all bodies PageWriter_init"
  have ok: "log_all_ok bodies PageWriter_init" using assms by (simp add: seg_content_def)
  obtain s where s: "c = pw_buf ?w @ s"
    using assms by (cases "page_offset ?w = 0") (auto simp: seg_content_def close_page_def Let_def put_def)
  obtain r' where r': "read_records (PageReader_init c) = (bodies @ fst (read_records r'), snd (read_records r'))"
    "pr_buf r' = c" "pr_offset r' = length (pw_buf ?w)"
    using read_records_log_all [OF ok, of "PageReader_init c" s] s
    by (auto simp: PageReader_init_def PageWriter_init_def)
  have "read_records r' = ([], EndOfStream)"
    using assms r'(2,3) read_records_end [of r'] read_records_padding [of r' ?w] by (auto simp: seg_content_def)
  then show ?thesis using r'(1) by simp
qed

section \<open>Properties\<close>

text \<open>
  C5. Records logged one after the other by a page writer are read back in order, whatever
  their sizes and however they were cut into fragments, and the reader then reports a clean end
  of the stream; so does a reader of the log whose last page was padded with \<open>close_page\<close>. The
  hypothesis excludes one page position, at which the framing breaks.
\<close>

theorem wal_log_roundtrip:
  assumes "log_all_ok bodies PageWriter_init"
  shows "read_records (PageReader_init (pw_buf (log_all bodies PageWriter_init))) = (bodies, EndOfStream) \<and>
     read_records (PageReader_init (pw_buf (close_page (log_all bodies PageWriter_init)))) = (bodies, EndOfStream)"
  using assms by (simp add: read_records_segment seg_content_def)

theorem wal_log_roundtrip_witness:
  "read_records (PageReader_init (pw_buf (log_all [[1, 2, 3], replicate 40000 7] PageWriter_init)))
     = ([[1, 2, 3], replicate 40000 7], EndOfStream)"
proof -
  have "page_offset (log [1, 2, 3] PageWriter_init) = 10"
    by (simp add: page_offset_def log_single PageWriter_init_def k_page_size_def k_record_header_size_def)
  then have "log_all_ok [[1, 2, 3], replicate 40000 7] PageWriter_init"
    by (simp add: log_ok_def page_offset_def PageWriter_init_def k_page_size_def k_record_header_size_def)
  then show ?thesis using wal_log_roundtrip by blast
qed

text \<open>
  C6. Crash safety of the framing: a log cut off after any number of bytes yields exactly the
  records that lie completely within those bytes, and then the end of the stream, a truncated
  fragment or a torn record; never a record that was not logged, and no other error. The hypothesis
  excludes the page position with exactly seven bytes left, at which the framing breaks.
\<close>

theorem wal_log_cut_off:
  assumes "log_all_ok bodies PageWriter_init"
  shows "fst (read_records (PageReader_init (take m (pw_buf (log_all bodies PageWriter_init)))))
       = durable m bodies PageWriter_init \<and>
     snd (read_records (PageReader_init (take m (pw_buf (log_all bodies PageWriter_init)))))
       \<in> {EndOfStream, UnexpectedEnd, TornRecord}"
  by (intro conjI read_log_cut [OF assms])

theorem wal_log_cut_off_witness:
  "fst (read_records (PageReader_init (take 15 (pw_buf (log_all [[1, 2, 3], [4]] PageWriter_init)))))
     = [[1, 2, 3]]"
proof -
  have len: "length (pw_buf (log [1, 2, 3] PageWriter_init)) = 10"
    "page_offset (log [1, 2, 3] PageWriter_init) = 10"
    by (simp_all add: page_offset_def log_single PageWriter_init_def k_page_size_def k_record_header_size_def)
  moreover from this have "length (pw_buf (log [4] (log [1, 2, 3] PageWriter_init))) = 18"
    by (simp add: log_single k_page_size_def k_record_header_size_def)
  moreover have "log_all_ok [[1, 2, 3], [4]] PageWriter_init"
    using len by (simp add: log_ok_def page_offset_def PageWriter_init_def k_page_size_def k_record_header_size_def)
  ultimately show ?thesis
    using wal_log_cut_off [of "[[1, 2, 3], [4]]" 15] by simp
qed

text \<open>
  C33. Damage to at most four neighbouring bytes of a record that fits its page is reported as a
  checksum mismatch, after the records before it were returned unharmed.
\<close>

theorem wal_damage_detected:
  assumes "log_all_ok bodies PageWriter_init" and "w = log_all bodies PageWriter_init"
    and "page_offset w + k_record_header_size + length (pre @ xs @ post) \<le> k_page_size"
    and "length xs = length ys" and "length xs \<le> 4" and "xs \<noteq> ys"
  shows "read_records (PageReader_init
       (take (length (pw_buf w) + k_record_header_size) (pw_buf (log (pre @ xs @ post) w))
         @ pre @ ys @ post @ rest)) = (bodies, CrcMismatch)"
proof -
  let ?good = "pre @ xs @ post" and ?bad = "pre @ ys @ post"
  let ?hd = "header_bytes Full (word_of_nat (length ?good)) (compute ?good)"
  let ?buf = "pw_buf w @ ?hd @ ?bad @ rest"
  have buf: "take (length (pw_buf w) + k_record_header_size) (pw_buf (log ?good w)) @ pre @ ys @ post @ rest = ?buf"
    using log_single [OF assms(3)] by (simp add: frame_def)
  obtain r' where r': "read_records (PageReader_init ?buf) = (bodies @ fst (read_records r'), snd (read_records r'))"
    "pr_buf r' = ?buf" "pr_offset r' = length (pw_buf w)"
    using read_records_log_all [OF assms(1), of "PageReader_init ?buf" "?hd @ ?bad @ rest"] assms(2)
    by (auto simp: PageReader_init_def PageWriter_init_def)
  have "fst (page_next r') = Inl CrcMismatch"
    using r'(2,3) assms(3,4) compute_burst [OF assms(4-6), of pre post]
    by (intro page_next_damaged [where t = Full and f = ?bad and rest = rest])
      (auto simp: k_record_header_size_def)
  then have "read_records r' = ([], CrcMismatch)"
    by (cases "page_next r'") (simp add: read_records.simps [of r'])
  then show ?thesis using r'(1) buf by simp
qed

theorem wal_damage_detected_witness:
  "read_records (PageReader_init
     (take 7 (pw_buf (log ([5] @ [6] @ [7]) (log_all [] PageWriter_init))) @ [5] @ [66] @ [7] @ []))
   = ([], CrcMismatch)"
  using wal_damage_detected [of "[]" PageWriter_init "[5]" "[6]" "[7]" "[66]" "[]"]
  by (simp add: page_offset_def PageWriter_init_def k_page_size_def k_record_header_size_def)

text \<open>
  C30. The page position at which the framing breaks: with exactly seven bytes left in the page,
  a non-empty record starts with an empty First fragment, and since no byte of it was consumed
  the next fragment is marked First (or Full) again. The reader returns the earlier records and
  then refuses the log.
\<close>

theorem wal_seven_bytes_left_unreadable:
  assumes "log_all_ok bodies PageWriter_init" and "body \<noteq> []"
    and "page_offset (log_all bodies PageWriter_init) = k_page_size - k_record_header_size"
  shows "read_records (PageReader_init (pw_buf (log body (log_all bodies PageWriter_init))))
     = (bodies, UnexpectedFirst)"
proof -
  let ?w = "log_all bodies PageWriter_init"
  let ?buf = "pw_buf (log body ?w)"
  obtain s where "?buf = pw_buf ?w @ s"
    using log_loop_extends by (metis log_def)
  then obtain r' where r': "read_records (PageReader_init ?buf) = (bodies @ fst (read_records r'), snd (read_records r'))"
    "pr_buf r' = ?buf" "pr_offset r' = length (pw_buf ?w)"
    using read_records_log_all [OF assms(1), of "PageReader_init ?buf" s]
    by (auto simp: PageReader_init_def PageWriter_init_def)
  have "fst (page_next r') = Inl UnexpectedFirst"
    using r'(2,3) assms(2,3) by (intro page_next_reopened [of body ?w r' "[]"]) (simp_all add: log_ok_def)
  then have "read_records r' = ([], UnexpectedFirst)"
    by (cases "page_next r'") (simp add: read_records.simps [of r'])
  then show ?thesis using r'(1) by simp
qed

theorem wal_seven_bytes_left_unreadable_witness:
  "read_records (PageReader_init (pw_buf (log [1] (log_all [replicate 32754 7] PageWriter_init))))
     = ([replicate 32754 7], UnexpectedFirst)"
  by (rule wal_seven_bytes_left_unreadable)
    (simp_all add: log_single log_ok_def page_offset_def PageWriter_init_def k_page_size_def k_record_header_size_def)

end
