(* ===== verification/WalRecord.thy ===== *)
theory WalRecord
  imports Varint
begin

text \<open>
  The record bodies of the write-ahead log (src/wal/record.cpp, wal/record.hpp): series records
  and V2 sample records, with the cursor the decoders read through. A C++ exception thrown while
  decoding is an error value of its own. Shown: both record kinds decode to what was encoded;
  the decoders return on every input, with a value or an error; which inputs make the series
  decoder throw instead of returning its error.
\<close>

section \<open>Records\<close>

datatype Type = Unknown | Series | Samples | Tombstones | Exemplars | MmapMarkers | Metadata
  | HistogramSamples | FloatHistogramSamples | CustomBucketsHistogramSamples
  | CustomBucketsFloatHistogramSamples | SamplesV2 | HistogramSamplesV2 | FloatHistogramSamplesV2

fun type_code :: "Type \<Rightarrow> u8" where
  "type_code Unknown = 255"
| "type_code Series = 1"
| "type_code Samples = 2"
| "type_code Tombstones = 3"
| "type_code Exemplars = 4"
| "type_code MmapMarkers = 5"
| "type_code Metadata = 6"
| "type_code HistogramSamples = 7"
| "type_code FloatHistogramSamples = 8"
| "type_code CustomBucketsHistogramSamples = 9"
| "type_code CustomBucketsFloatHistogramSamples = 10"
| "type_code SamplesV2 = 11"
| "type_code HistogramSamplesV2 = 12"
| "type_code FloatHistogramSamplesV2 = 13"

text \<open>The type is compared as its byte: the cast of an unlisted byte is a value of the enum too.\<close>

definition peek_type :: "bytes \<Rightarrow> u8" where
  "peek_type rec = (case rec of [] \<Rightarrow> type_code Unknown | b # _ \<Rightarrow> b)"

type_synonym SeriesRef = u64

record WalLabel =
  wl_name :: string
  wl_value :: string

record RefSeries =
  rs_ref :: SeriesRef
  rs_labels :: "WalLabel list"

record RefSample =
  sm_ref :: SeriesRef
  sm_t :: i64
  sm_st :: i64
  sm_v :: double

text \<open>
  \<open>Length_error\<close> is the exception of \<open>std::vector::reserve\<close> and of the \<open>std::string\<close>
  constructor for a size no object can have.
\<close>

datatype RecordError = InvalidType | UnexpectedEnd | TrailingBytes | LabelTooLong | StMarkerInvalid
  | Length_error

text \<open>\<open>max_size()\<close> of a vector of labels (64 bytes each), the limit of \<open>reserve\<close>.\<close>

definition max_labels :: nat where
  "max_labels = (2 ^ 63 - 1) div 64"

section \<open>Encoding\<close>

definition append_uvarint :: "u64 \<Rightarrow> bytes \<Rightarrow> bytes" where
  "append_uvarint x buf = buf @ put_uvarint x"

definition append_varint :: "i64 \<Rightarrow> bytes \<Rightarrow> bytes" where
  "append_varint x buf = buf @ put_varint x"

definition append_be64 :: "u64 \<Rightarrow> bytes \<Rightarrow> bytes" where
  "append_be64 x buf = buf @ be64 x"

definition append_uvarint_str :: "string \<Rightarrow> bytes \<Rightarrow> bytes" where
  "append_uvarint_str s buf = append_uvarint (of_nat (length s)) buf @ string_bytes s"

definition encode_label :: "WalLabel \<Rightarrow> bytes \<Rightarrow> bytes" where
  "encode_label l out = append_uvarint_str (wl_value l) (append_uvarint_str (wl_name l) out)"

definition encode_one_series :: "RefSeries \<Rightarrow> bytes \<Rightarrow> bytes" where
  "encode_one_series s out =
     fold encode_label (rs_labels s)
       (append_uvarint (of_nat (length (rs_labels s))) (append_be64 (rs_ref s) out))"

definition encode_series :: "RefSeries list \<Rightarrow> bytes" where
  "encode_series series = fold encode_one_series series [type_code Series]"

definition k_st_no :: u8 where "k_st_no = 0"
definition k_st_same :: u8 where "k_st_same = 1"
definition k_st_explicit :: u8 where "k_st_explicit = 2"

definition write_st_marker :: "i64 \<Rightarrow> i64 \<Rightarrow> i64 \<Rightarrow> bytes \<Rightarrow> bytes" where
  "write_st_marker st first_st prev_st out =
     (if st = 0 then out @ [k_st_no]
      else if st = prev_st then out @ [k_st_same]
      else append_varint (st - first_st) (out @ [k_st_explicit]))"

definition encode_first_sample :: "RefSample \<Rightarrow> bytes \<Rightarrow> bytes" where
  "encode_first_sample s out =
     append_be64 (sm_v s) (append_varint (sm_st s) (append_varint (sm_t s) (append_varint (sm_ref s) out)))"

definition encode_next_sample :: "RefSample \<Rightarrow> RefSample \<Rightarrow> RefSample \<Rightarrow> bytes \<Rightarrow> bytes" where
  "encode_next_sample first prev s out =
     append_be64 (sm_v s)
       (write_st_marker (sm_st s) (sm_st first) (sm_st prev)
         (append_varint (sm_t s - sm_t first)
           (append_varint (sm_ref s - sm_ref prev) out)))"

fun encode_rest :: "RefSample \<Rightarrow> RefSample \<Rightarrow> RefSample list \<Rightarrow> bytes \<Rightarrow> bytes" where
  "encode_rest first prev [] out = out"
| "encode_rest first prev (s # ss) out = encode_rest first s ss (encode_next_sample first prev s out)"

fun encode_samples_v2 :: "RefSample list \<Rightarrow> bytes" where
  "encode_samples_v2 [] = [type_code SamplesV2]"
| "encode_samples_v2 (first # ss) =
     encode_rest first first ss (encode_first_sample first [type_code SamplesV2])"

section \<open>The cursor\<close>

record Decoder =
  d_buf :: bytes
  d_offset :: nat
  d_err :: bool

definition Decoder_init :: "bytes \<Rightarrow> Decoder" where
  "Decoder_init b = \<lparr>d_buf = b, d_offset = 0, d_err = False\<rparr>"

definition has_more :: "Decoder \<Rightarrow> bool" where
  "has_more d \<longleftrightarrow> \<not> d_err d \<and> d_offset d < length (d_buf d)"

definition d_remaining :: "Decoder \<Rightarrow> nat" where
  "d_remaining d = (if d_offset d \<le> length (d_buf d) then length (d_buf d) - d_offset d else 0)"

definition dec_byte :: "Decoder \<Rightarrow> u8 \<times> Decoder" where
  "dec_byte d =
     (if d_offset d \<ge> length (d_buf d) then (0, d\<lparr>d_err := True\<rparr>)
      else (d_buf d ! d_offset d, d\<lparr>d_offset := d_offset d + 1\<rparr>))"

definition dec_be64 :: "Decoder \<Rightarrow> u64 \<times> Decoder" where
  "dec_be64 d =
     (if d_offset d + 8 > length (d_buf d) then (0, d\<lparr>d_err := True\<rparr>)
      else (read_be64 (drop (d_offset d) (d_buf d)), d\<lparr>d_offset := d_offset d + 8\<rparr>))"

definition dec_uvarint :: "Decoder \<Rightarrow> u64 \<times> Decoder" where
  "dec_uvarint d =
     (case read_uvarint (drop (d_offset d) (d_buf d)) of
        Inl e \<Rightarrow> (0, d\<lparr>d_err := True\<rparr>)
      | Inr (x, n) \<Rightarrow> (x, d\<lparr>d_offset := d_offset d + n\<rparr>))"

definition dec_varint :: "Decoder \<Rightarrow> i64 \<times> Decoder" where
  "dec_varint d =
     (case read_varint (drop (d_offset d) (d_buf d)) of
        Inl e \<Rightarrow> (0, d\<lparr>d_err := True\<rparr>)
      | Inr (x, n) \<Rightarrow> (x, d\<lparr>d_offset := d_offset d + n\<rparr>))"

text \<open>
  A string view is its offset and length. The bounds test adds in \<open>std::size_t\<close>, so a length
  near \<open>2 ^ 64\<close> wraps and passes.
\<close>

definition dec_uvarint_str :: "Decoder \<Rightarrow> (nat \<times> nat) \<times> Decoder" where
  "dec_uvarint_str d =
     (let (len, d1) = dec_uvarint d in
      if d_err d1 then ((0, 0), d1)
      else
        let end_offset = (d_offset d1 + unat len) mod 2 ^ 64 in
        if end_offset > length (d_buf d1) then ((0, 0), d1\<lparr>d_err := True\<rparr>)
        else ((d_offset d1, unat len), d1\<lparr>d_offset := end_offset\<rparr>))"

text \<open>
  \<open>std::string(view)\<close>. A view whose end wrapped is longer than any string can be (its length
  exceeds \<open>max_size()\<close>), so the constructor throws.
\<close>

definition view_string :: "bytes \<Rightarrow> nat \<times> nat \<Rightarrow> string option" where
  "view_string buf v =
     (if fst v + snd v \<le> length buf \<and> fst v + snd v < 2 ^ 64 then Some (bytes_string (take (snd v) (drop (fst v) buf))) else None)"

section \<open>Decoding\<close>

fun decode_labels :: "nat \<Rightarrow> WalLabel list \<Rightarrow> Decoder \<Rightarrow> (RecordError + WalLabel list) \<times> Decoder" where
  "decode_labels 0 ls d = (if d_err d then (Inl UnexpectedEnd, d) else (Inr ls, d))"
| "decode_labels (Suc n) ls d =
     (let (nm, d1) = dec_uvarint_str d; (vl, d2) = dec_uvarint_str d1 in
      if d_err d2 then (Inl UnexpectedEnd, d2)
      else case (view_string (d_buf d2) nm, view_string (d_buf d2) vl) of
        (Some a, Some b) \<Rightarrow> decode_labels n (ls @ [\<lparr>wl_name = a, wl_value = b\<rparr>]) d2
      | _ \<Rightarrow> (Inl Length_error, d2))"

definition decode_one_series :: "Decoder \<Rightarrow> (RecordError + RefSeries) \<times> Decoder" where
  "decode_one_series d =
     (let (ref, d1) = dec_be64 d; (label_count, d2) = dec_uvarint d1 in
      if unat label_count > max_labels then (Inl Length_error, d2)
      else case decode_labels (unat label_count) [] d2 of
        (Inl e, d3) \<Rightarrow> (Inl e, d3)
      | (Inr ls, d3) \<Rightarrow> (Inr \<lparr>rs_ref = ref, rs_labels = ls\<rparr>, d3))"

text \<open>A read that sets no error moves the cursor forward and keeps it inside the buffer.\<close>

definition advances :: "Decoder \<Rightarrow> Decoder \<Rightarrow> bool" where
  "advances d d' \<longleftrightarrow> \<not> d_err d \<and> d_buf d' = d_buf d \<and> d_offset d < d_offset d' \<and>
     d_offset d' \<le> length (d_buf d)"

lemma advances_trans: "advances d d' \<Longrightarrow> advances d' d'' \<Longrightarrow> advances d d''"
  by (auto simp: advances_def)

lemma dec_advances:
  "dec_byte d = (b, d') \<Longrightarrow> \<not> d_err d' \<Longrightarrow> advances d d'"
  "dec_be64 d = (x, d') \<Longrightarrow> \<not> d_err d' \<Longrightarrow> advances d d'"
  "dec_uvarint d = (x, d') \<Longrightarrow> \<not> d_err d' \<Longrightarrow> advances d d'"
  "dec_varint d = (y, d') \<Longrightarrow> \<not> d_err d' \<Longrightarrow> advances d d'"
  by (auto simp: dec_byte_def dec_be64_def dec_uvarint_def dec_varint_def advances_def
      dest!: read_uvarint_consumed read_varint_consumed split: if_splits sum.splits prod.splits)

lemma dec_str_advances:
  "dec_uvarint_str d = (v, d') \<Longrightarrow> \<not> d_err d' \<Longrightarrow> view_string (d_buf d') v = Some s \<Longrightarrow> advances d d'"
  by (fastforce simp: dec_uvarint_str_def view_string_def Let_def advances_def
      dest!: dec_advances(3) split: if_splits prod.splits)

lemma dec_str_err: "dec_uvarint_str d = (v, d') \<Longrightarrow> d_err d \<Longrightarrow> d_err d'"
  by (auto simp: dec_uvarint_str_def dec_uvarint_def Let_def split: if_splits prod.splits sum.splits)

lemma dec_str_buf: "dec_uvarint_str d = (v, d') \<Longrightarrow> d_buf d' = d_buf d"
  by (auto simp: dec_uvarint_str_def dec_uvarint_def Let_def split: if_splits prod.splits sum.splits)

lemma decode_labels_advances:
  "decode_labels n ls d = (Inr ls', d') \<Longrightarrow> \<not> d_err d' \<and> (d' = d \<or> advances d d')"
proof (induction n ls d rule: decode_labels.induct)
  case (2 n ls d)
  obtain nm d1 where 1: "dec_uvarint_str d = (nm, d1)" by fastforce
  obtain vl d2 where 2: "dec_uvarint_str d1 = (vl, d2)" by fastforce
  obtain a b where ab: "\<not> d_err d2" "view_string (d_buf d2) nm = Some a" "view_string (d_buf d2) vl = Some b"
    "decode_labels n (ls @ [\<lparr>wl_name = a, wl_value = b\<rparr>]) d2 = (Inr ls', d')"
    using "2.prems" 1 2 by (auto split: if_splits option.splits)
  have "advances d1 d2" using dec_str_advances [OF 2 ab(1,3)] .
  moreover have "advances d d1"
    using dec_str_advances [OF 1] ab(1,2) dec_str_err [OF 2] dec_str_buf [OF 2] by auto
  ultimately show ?case
    using "2.IH" [OF 1 [symmetric] refl 2 [symmetric] refl ab(1) refl ab(2,3) ab(4)] advances_trans by blast
qed (auto split: if_splits)

lemma decode_one_series_advances:
  assumes "decode_one_series d = (Inr s, d')"
  shows "\<not> d_err d' \<and> advances d d'"
proof -
  obtain ref d1 n d2 where 1: "dec_be64 d = (ref, d1)" and 2: "dec_uvarint d1 = (n, d2)"
    by (metis surj_pair)
  obtain ls where 3: "decode_labels (unat n) [] d2 = (Inr ls, d')"
    using assms 1 2 by (auto simp: decode_one_series_def split: if_splits sum.splits prod.splits)
  have nerr: "\<not> d_err d'" "d' = d2 \<or> advances d2 d'"
    using decode_labels_advances [OF 3] by auto
  then have "\<not> d_err d2" by (auto simp: advances_def)
  then have "advances d1 d2" using dec_advances(3) [OF 2] by blast
  moreover from this have "advances d d1"
    using dec_advances(2) [OF 1] by (auto simp: advances_def)
  ultimately show ?thesis
    using nerr advances_trans by blast
qed

function decode_series_loop :: "RefSeries list \<Rightarrow> Decoder \<Rightarrow> (RecordError + RefSeries list) \<times> Decoder" where
  "decode_series_loop out d =
     (if has_more d then
        case decode_one_series d of
          (Inl e, d') \<Rightarrow> (Inl e, d')
        | (Inr s, d') \<Rightarrow> decode_series_loop (out @ [s]) d'
      else (Inr out, d))"
  by pat_completeness auto
termination
  by (relation "measure (\<lambda>(out, d). length (d_buf d) - d_offset d)")
    (auto simp: advances_def dest!: sym [of "(_, _)"] decode_one_series_advances)

declare decode_series_loop.simps [simp del]

definition decode_series :: "bytes \<Rightarrow> RecordError + RefSeries list" where
  "decode_series rec =
     (let (b, d) = dec_byte (Decoder_init rec) in
      if b \<noteq> type_code Series then Inl InvalidType
      else case decode_series_loop [] d of
        (Inl e, d') \<Rightarrow> Inl e
      | (Inr out, d') \<Rightarrow>
          if d_err d' then Inl UnexpectedEnd
          else if d_remaining d' \<noteq> 0 then Inl TrailingBytes
          else Inr out)"

text \<open>One sample: the first of a record, or a later one after \<open>prev\<close>.\<close>

definition decode_first_sample :: "Decoder \<Rightarrow> (RecordError + RefSample) \<times> Decoder" where
  "decode_first_sample d =
     (let (ref, d1) = dec_varint d; (t, d2) = dec_varint d1; (st, d3) = dec_varint d2;
          (v, d4) = dec_be64 d3
      in if d_err d4 then (Inl UnexpectedEnd, d4)
         else (Inr \<lparr>sm_ref = ref, sm_t = t, sm_st = st, sm_v = v\<rparr>, d4))"

definition decode_st :: "u8 \<Rightarrow> i64 \<Rightarrow> i64 \<Rightarrow> Decoder \<Rightarrow> (RecordError + i64) \<times> Decoder" where
  "decode_st marker first_st prev_st d =
     (if marker = k_st_no then (Inr 0, d)
      else if marker = k_st_same then (Inr prev_st, d)
      else if marker = k_st_explicit then let (x, d') = dec_varint d in (Inr (first_st + x), d')
      else (Inl StMarkerInvalid, d))"

definition decode_next_sample ::
  "i64 \<Rightarrow> i64 \<Rightarrow> RefSample \<Rightarrow> Decoder \<Rightarrow> (RecordError + RefSample) \<times> Decoder" where
  "decode_next_sample first_t first_st prev d =
     (let (dref, d1) = dec_varint d; (dt, d2) = dec_varint d1; (marker, d3) = dec_byte d2
      in if d_err d3 then (Inl UnexpectedEnd, d3)
         else case decode_st marker first_st (sm_st prev) d3 of
           (Inl e, d4) \<Rightarrow> (Inl e, d4)
         | (Inr st, d4) \<Rightarrow>
             let (v, d5) = dec_be64 d4
             in if d_err d5 then (Inl UnexpectedEnd, d5)
                else (Inr \<lparr>sm_ref = sm_ref prev + dref, sm_t = first_t + dt, sm_st = st, sm_v = v\<rparr>, d5))"

text \<open>The branch on \<open>out.empty()\<close>; the two locals set by the first sample are its fields.\<close>

definition decode_sample :: "RefSample list \<Rightarrow> Decoder \<Rightarrow> (RecordError + RefSample) \<times> Decoder" where
  "decode_sample out d =
     (case out of [] \<Rightarrow> decode_first_sample d
      | first # _ \<Rightarrow> decode_next_sample (sm_t first) (sm_st first) (last out) d)"

lemma advances_noerr: "advances d d' \<Longrightarrow> \<not> d_err d"
  by (simp add: advances_def)

lemma decode_first_sample_advances:
  assumes "decode_first_sample d = (Inr s, d')"
  shows "\<not> d_err d' \<and> advances d d'"
proof -
  obtain ref d1 t d2 st d3 v where *: "dec_varint d = (ref, d1)" "dec_varint d1 = (t, d2)"
    "dec_varint d2 = (st, d3)" "dec_be64 d3 = (v, d')" "\<not> d_err d'"
    using assms by (auto simp: decode_first_sample_def split: prod.splits if_splits)
  note 4 = dec_advances(2) [OF *(4,5)]
  note 3 = dec_advances(4) [OF *(3) advances_noerr [OF 4]]
  note 2 = dec_advances(4) [OF *(2) advances_noerr [OF 3]]
  note 1 = dec_advances(4) [OF *(1) advances_noerr [OF 2]]
  from 1 2 3 4 *(5) show ?thesis by (blast intro: advances_trans)
qed

lemma decode_st_advances:
  "decode_st m f p d = (Inr st, d') \<Longrightarrow> \<not> d_err d' \<Longrightarrow> d' = d \<or> advances d d'"
  by (auto simp: decode_st_def dest: dec_advances(4) split: if_splits prod.splits)

lemma decode_next_sample_advances:
  assumes "decode_next_sample ft fst' prev d = (Inr s, d')"
  shows "\<not> d_err d' \<and> advances d d'"
proof -
  obtain dref d1 dt d2 m d3 st d4 v where *: "dec_varint d = (dref, d1)" "dec_varint d1 = (dt, d2)"
    "dec_byte d2 = (m, d3)" "\<not> d_err d3" "decode_st m fst' (sm_st prev) d3 = (Inr st, d4)"
    "dec_be64 d4 = (v, d')" "\<not> d_err d'"
    using assms by (auto simp: decode_next_sample_def split: prod.splits if_splits sum.splits)
  note 5 = dec_advances(2) [OF *(6,7)]
  note 4 = decode_st_advances [OF *(5) advances_noerr [OF 5]]
  note 3 = dec_advances(1) [OF *(3,4)]
  note 2 = dec_advances(4) [OF *(2) advances_noerr [OF 3]]
  note 1 = dec_advances(4) [OF *(1) advances_noerr [OF 2]]
  from 1 2 3 4 5 *(7) show ?thesis by (blast intro: advances_trans)
qed

lemma decode_sample_advances:
  "decode_sample out d = (Inr s, d') \<Longrightarrow> \<not> d_err d' \<and> advances d d'"
  by (cases out) (simp_all add: decode_sample_def decode_first_sample_advances decode_next_sample_advances)

function decode_samples_loop :: "RefSample list \<Rightarrow> Decoder \<Rightarrow> (RecordError + RefSample list) \<times> Decoder" where
  "decode_samples_loop out d =
     (if has_more d then
        case decode_sample out d of
          (Inl e, d') \<Rightarrow> (Inl e, d')
        | (Inr s, d') \<Rightarrow> decode_samples_loop (out @ [s]) d'
      else (Inr out, d))"
  by pat_completeness auto
termination
  by (relation "measure (\<lambda>(out, d). length (d_buf d) - d_offset d)")
    (auto simp: advances_def dest!: sym [of "(_, _)"] decode_sample_advances)

declare decode_samples_loop.simps [simp del]

definition decode_samples_v2 :: "bytes \<Rightarrow> RecordError + RefSample list" where
  "decode_samples_v2 rec =
     (let (b, d) = dec_byte (Decoder_init rec) in
      if b \<noteq> type_code SamplesV2 then Inl InvalidType
      else if \<not> has_more d then if d_err d then Inl UnexpectedEnd else Inr []
      else case decode_samples_loop [] d of
        (Inl e, d') \<Rightarrow> Inl e
      | (Inr out, d') \<Rightarrow>
          if d_err d' then Inl UnexpectedEnd
          else if d_remaining d' \<noteq> 0 then Inl TrailingBytes
          else Inr out)"

section \<open>Round trips\<close>

lemma record_eta [simp]:
  "\<lparr>wl_name = wl_name l, wl_value = wl_value l\<rparr> = l"
  "\<lparr>rs_ref = rs_ref s, rs_labels = rs_labels s\<rparr> = s"
  "\<lparr>sm_ref = sm_ref x, sm_t = sm_t x, sm_st = sm_st x, sm_v = sm_v x\<rparr> = x"
  by simp_all

text \<open>The cursor stands before the bytes \<open>bs\<close>, in a buffer a process can hold.\<close>

definition d_at :: "Decoder \<Rightarrow> bytes \<Rightarrow> bool" where
  "d_at d bs \<longleftrightarrow> \<not> d_err d \<and> d_offset d \<le> length (d_buf d) \<and> drop (d_offset d) (d_buf d) = bs \<and>
     length (d_buf d) < 2 ^ 64"

lemma d_at_skip: "d_at d (xs @ ys) \<Longrightarrow> d_at (d\<lparr>d_offset := d_offset d + length xs\<rparr>) ys"
proof -
  assume d: "d_at d (xs @ ys)"
  then have "length (drop (d_offset d) (d_buf d)) = length xs + length ys"
    by (simp add: d_at_def)
  moreover have "drop (length xs) (drop (d_offset d) (d_buf d)) = ys"
    using d by (simp add: d_at_def)
  ultimately show ?thesis using d by (auto simp: d_at_def add.commute)
qed

lemma d_at_init: "length b < 2 ^ 64 \<Longrightarrow> d_at (Decoder_init b) b"
  by (simp add: d_at_def Decoder_init_def)

lemma d_at_length: "d_at d bs \<Longrightarrow> d_offset d + length bs = length (d_buf d)"
  by (auto simp: d_at_def)

lemma dec_ok:
  "d_at d (b # rest) \<Longrightarrow> \<exists>d'. dec_byte d = (b, d') \<and> d_at d' rest"
  "d_at d (be64 x @ rest) \<Longrightarrow> \<exists>d'. dec_be64 d = (x, d') \<and> d_at d' rest"
  "d_at d (put_uvarint x @ rest) \<Longrightarrow> \<exists>d'. dec_uvarint d = (x, d') \<and> d_at d' rest"
  "d_at d (put_varint x @ rest) \<Longrightarrow> \<exists>d'. dec_varint d = (x, d') \<and> d_at d' rest"
proof -
  assume d: "d_at d (b # rest)"
  have "d_buf d ! d_offset d = b"
    using d by (simp add: d_at_def nth_via_drop)
  then show "\<exists>d'. dec_byte d = (b, d') \<and> d_at d' rest"
    using d d_at_length [OF d] d_at_skip [of d "[b]" rest] by (simp add: dec_byte_def d_at_def)
next
  assume d: "d_at d (be64 x @ rest)"
  then show "\<exists>d'. dec_be64 d = (x, d') \<and> d_at d' rest"
    using d_at_length [OF d] d_at_skip [OF d] by (simp add: dec_be64_def d_at_def)
next
  assume d: "d_at d (put_uvarint x @ rest)"
  then have "read_uvarint (drop (d_offset d) (d_buf d)) = Inr (x, length (put_uvarint x))"
    using read_uvarint_put [of x rest] by (simp add: d_at_def)
  then show "\<exists>d'. dec_uvarint d = (x, d') \<and> d_at d' rest"
    using d_at_skip [OF d] by (simp add: dec_uvarint_def)
next
  assume d: "d_at d (put_varint x @ rest)"
  then have "read_varint (drop (d_offset d) (d_buf d)) = Inr (x, length (put_varint x))"
    using read_varint_put [of x rest] by (simp add: d_at_def)
  then show "\<exists>d'. dec_varint d = (x, d') \<and> d_at d' rest"
    using d_at_skip [OF d] by (simp add: dec_varint_def)
qed

definition str_bytes :: "string \<Rightarrow> bytes" where
  "str_bytes s = put_uvarint (of_nat (length s)) @ string_bytes s"

lemma dec_str_ok:
  assumes "d_at d (str_bytes s @ rest)"
  obtains v d' where "dec_uvarint_str d = (v, d')" "d_at d' rest" "d_buf d' = d_buf d"
    "view_string (d_buf d) v = Some s"
proof -
  have "d_at d (put_uvarint (of_nat (length s)) @ string_bytes s @ rest)"
    using assms by (simp add: str_bytes_def)
  then obtain d1 where d1: "dec_uvarint d = (of_nat (length s), d1)" "d_at d1 (string_bytes s @ rest)"
    using dec_ok(3) by blast
  have buf: "d_buf d1 = d_buf d"
    using d1 by (auto simp: dec_uvarint_def d_at_def split: sum.splits prod.splits)
  have len: "d_offset d1 + length s + length rest = length (d_buf d)" "length (d_buf d) < 2 ^ 64"
    using d_at_length [OF d1(2)] buf d1(2) by (simp_all add: d_at_def)
  have n: "unat (of_nat (length s) :: u64) = length s"
    using len by (simp add: unat_of_nat)
  let ?d = "d1\<lparr>d_offset := d_offset d1 + length (string_bytes s)\<rparr>"
  have "dec_uvarint_str d = ((d_offset d1, length s), ?d)"
    using d1 n len buf by (simp add: dec_uvarint_str_def Let_def d_at_def)
  moreover have "view_string (d_buf d) (d_offset d1, length s) = Some s"
    using d1(2) len buf by (simp add: view_string_def d_at_def)
  ultimately show thesis
    using that [of "(d_offset d1, length s)" ?d] d_at_skip [OF d1(2)] buf by simp
qed

definition label_bytes :: "WalLabel \<Rightarrow> bytes" where
  "label_bytes l = str_bytes (wl_name l) @ str_bytes (wl_value l)"

definition series_bytes :: "RefSeries \<Rightarrow> bytes" where
  "series_bytes s = be64 (rs_ref s) @ put_uvarint (of_nat (length (rs_labels s))) @
     concat (map label_bytes (rs_labels s))"

lemma encode_labels_bytes: "fold encode_label ls out = out @ concat (map label_bytes ls)"
  by (induction ls arbitrary: out)
    (simp_all add: encode_label_def append_uvarint_str_def append_uvarint_def label_bytes_def str_bytes_def)

lemma encode_one_series_bytes: "encode_one_series s out = out @ series_bytes s"
  by (simp add: encode_one_series_def encode_labels_bytes append_uvarint_def append_be64_def series_bytes_def)

lemma encode_series_bytes: "encode_series ss = type_code Series # concat (map series_bytes ss)"
proof -
  have "fold encode_one_series ss out = out @ concat (map series_bytes ss)" for out
    by (induction ss arbitrary: out) (simp_all add: encode_one_series_bytes)
  then show ?thesis by (simp add: encode_series_def)
qed

lemma decode_labels_ok:
  "d_at d (concat (map label_bytes ls) @ rest) \<Longrightarrow>
     \<exists>d'. decode_labels (length ls) acc d = (Inr (acc @ ls), d') \<and> d_at d' rest"
proof (induction ls arbitrary: acc d)
  case (Cons l ls)
  then have "d_at d (str_bytes (wl_name l) @ str_bytes (wl_value l) @ concat (map label_bytes ls) @ rest)"
    by (simp add: label_bytes_def [of l])
  then obtain v1 d1 where 1: "dec_uvarint_str d = (v1, d1)" "d_buf d1 = d_buf d"
    "view_string (d_buf d) v1 = Some (wl_name l)"
    "d_at d1 (str_bytes (wl_value l) @ concat (map label_bytes ls) @ rest)"
    using dec_str_ok by blast
  then obtain v2 d2 where 2: "dec_uvarint_str d1 = (v2, d2)" "d_buf d2 = d_buf d1"
    "view_string (d_buf d1) v2 = Some (wl_value l)" "d_at d2 (concat (map label_bytes ls) @ rest)"
    using dec_str_ok by blast
  have "\<not> d_err d2" using 2(4) by (simp add: d_at_def)
  then show ?case
    using Cons.IH [OF 2(4), of "acc @ [l]"] 1 2 by simp
qed (simp add: d_at_def)

definition series_wf :: "RefSeries list \<Rightarrow> bool" where
  "series_wf ss \<longleftrightarrow> list_all (\<lambda>s. length (rs_labels s) \<le> max_labels) ss \<and> length (encode_series ss) < 2 ^ 64"

lemma decode_one_series_ok:
  assumes "d_at d (series_bytes s @ rest)" "length (rs_labels s) \<le> max_labels"
  shows "\<exists>d'. decode_one_series d = (Inr s, d') \<and> d_at d' rest"
proof -
  have "d_at d (be64 (rs_ref s) @ put_uvarint (of_nat (length (rs_labels s))) @
      concat (map label_bytes (rs_labels s)) @ rest)"
    using assms(1) by (simp add: series_bytes_def)
  from dec_ok(2) [OF this] obtain d1 where d1: "dec_be64 d = (rs_ref s, d1)"
    "d_at d1 (put_uvarint (of_nat (length (rs_labels s))) @ concat (map label_bytes (rs_labels s)) @ rest)"
    by blast
  from d1(1) dec_ok(3) [OF d1(2)] obtain d2 where 1: "dec_be64 d = (rs_ref s, d1)"
    "dec_uvarint d1 = (of_nat (length (rs_labels s)), d2)" "d_at d2 (concat (map label_bytes (rs_labels s)) @ rest)"
    by blast
  moreover have "unat (of_nat (length (rs_labels s)) :: u64) = length (rs_labels s)"
    using assms(2) by (simp add: unat_of_nat max_labels_def)
  ultimately show ?thesis
    using decode_labels_ok [OF 1(3), of "[]"] assms(2) by (auto simp: decode_one_series_def)
qed

lemma decode_series_loop_ok:
  "d_at d (concat (map series_bytes ss)) \<Longrightarrow> list_all (\<lambda>s. length (rs_labels s) \<le> max_labels) ss \<Longrightarrow>
     \<exists>d'. decode_series_loop acc d = (Inr (acc @ ss), d') \<and> d_at d' []"
proof (induction ss arbitrary: acc d)
  case Nil
  then show ?case
    by (subst decode_series_loop.simps) (auto simp: has_more_def d_at_def)
next
  case (Cons s ss)
  then obtain d' where d': "decode_one_series d = (Inr s, d')" "d_at d' (concat (map series_bytes ss))"
    using decode_one_series_ok [of d s "concat (map series_bytes ss)"] by auto
  have "has_more d"
    using Cons.prems(1) d_at_length [OF Cons.prems(1)] by (simp add: has_more_def d_at_def series_bytes_def)
  then show ?case
    using Cons.IH [OF d'(2), of "acc @ [s]"] Cons.prems(2) d'(1)
    by (subst decode_series_loop.simps) simp
qed

lemma decode_series_ok: "series_wf ss \<Longrightarrow> decode_series (encode_series ss) = Inr ss"
proof -
  assume wf: "series_wf ss"
  let ?b = "encode_series ss"
  obtain d where d: "dec_byte (Decoder_init ?b) = (type_code Series, d)" "d_at d (concat (map series_bytes ss))"
    using dec_ok(1) [of "Decoder_init ?b" "type_code Series"] wf d_at_init [of ?b]
    by (auto simp: series_wf_def encode_series_bytes)
  obtain d' where "decode_series_loop [] d = (Inr ss, d')" "d_at d' []"
    using decode_series_loop_ok [OF d(2), of "[]"] wf by (auto simp: series_wf_def)
  then show ?thesis
    using d(1) d_at_length [of d' "[]"] by (auto simp: decode_series_def d_at_def d_remaining_def)
qed

interpretation series_record: record_codec encode_series decode_series series_wf
  by unfold_locales (rule decode_series_ok)

text \<open>The sample records.\<close>

definition st_bytes :: "i64 \<Rightarrow> i64 \<Rightarrow> i64 \<Rightarrow> bytes" where
  "st_bytes st first_st prev_st = write_st_marker st first_st prev_st []"

definition first_bytes :: "RefSample \<Rightarrow> bytes" where
  "first_bytes s = put_varint (sm_ref s) @ put_varint (sm_t s) @ put_varint (sm_st s) @ be64 (sm_v s)"

definition next_bytes :: "RefSample \<Rightarrow> RefSample \<Rightarrow> RefSample \<Rightarrow> bytes" where
  "next_bytes first prev s = put_varint (sm_ref s - sm_ref prev) @ put_varint (sm_t s - sm_t first) @
     st_bytes (sm_st s) (sm_st first) (sm_st prev) @ be64 (sm_v s)"

fun rest_bytes :: "RefSample \<Rightarrow> RefSample \<Rightarrow> RefSample list \<Rightarrow> bytes" where
  "rest_bytes first prev [] = []"
| "rest_bytes first prev (s # ss) = next_bytes first prev s @ rest_bytes first s ss"

lemma write_st_marker_bytes: "write_st_marker st f p out = out @ st_bytes st f p"
  by (simp add: write_st_marker_def st_bytes_def append_varint_def)

lemma encode_rest_bytes: "encode_rest first prev ss out = out @ rest_bytes first prev ss"
  by (induction first prev ss out rule: encode_rest.induct)
    (simp_all add: encode_next_sample_def write_st_marker_bytes append_be64_def append_varint_def next_bytes_def)

lemma encode_samples_bytes:
  "encode_samples_v2 (s # ss) = type_code SamplesV2 # first_bytes s @ rest_bytes s s ss"
  by (simp add: encode_rest_bytes encode_first_sample_def append_be64_def append_varint_def first_bytes_def)

lemma decode_first_ok:
  "d_at d (first_bytes s @ rest) \<Longrightarrow> \<exists>d'. decode_first_sample d = (Inr s, d') \<and> d_at d' rest"
proof -
  assume "d_at d (first_bytes s @ rest)"
  then have "d_at d (put_varint (sm_ref s) @ put_varint (sm_t s) @ put_varint (sm_st s) @ be64 (sm_v s) @ rest)"
    by (simp add: first_bytes_def)
  from dec_ok(4) [OF this] obtain d1 where 1: "dec_varint d = (sm_ref s, d1)"
    "d_at d1 (put_varint (sm_t s) @ put_varint (sm_st s) @ be64 (sm_v s) @ rest)" by blast
  from dec_ok(4) [OF this(2)] obtain d2 where 2: "dec_varint d1 = (sm_t s, d2)"
    "d_at d2 (put_varint (sm_st s) @ be64 (sm_v s) @ rest)" by blast
  from dec_ok(4) [OF this(2)] obtain d3 where 3: "dec_varint d2 = (sm_st s, d3)"
    "d_at d3 (be64 (sm_v s) @ rest)" by blast
  from dec_ok(2) [OF this(2)] obtain d4 where "dec_be64 d3 = (sm_v s, d4)" "d_at d4 rest" by blast
  then show ?thesis using 1 2 3 by (simp add: decode_first_sample_def d_at_def)
qed

lemma decode_st_ok:
  assumes "d_at d (st_bytes st f p @ rest)"
  shows "\<exists>m d1 d2. dec_byte d = (m, d1) \<and> \<not> d_err d1 \<and> decode_st m f p d1 = (Inr st, d2) \<and> d_at d2 rest"
proof (cases "st = 0 \<or> st = p")
  case True
  then obtain m where m: "st_bytes st f p = [m]" "m = k_st_no \<and> st = 0 \<or> m = k_st_same \<and> st = p"
    by (cases "st = 0") (simp_all add: st_bytes_def write_st_marker_def)
  then obtain d1 where "dec_byte d = (m, d1)" "d_at d1 rest"
    using assms dec_ok(1) [of d m rest] by auto
  then show ?thesis
    using m(2) by (auto simp: decode_st_def d_at_def k_st_no_def k_st_same_def)
next
  case False
  then have "d_at d (k_st_explicit # put_varint (st - f) @ rest)"
    using assms by (simp add: st_bytes_def write_st_marker_def append_varint_def)
  from dec_ok(1) [OF this] obtain d1 where 1: "dec_byte d = (k_st_explicit, d1)"
    "d_at d1 (put_varint (st - f) @ rest)" by blast
  from dec_ok(4) [OF this(2)] obtain d2 where "dec_varint d1 = (st - f, d2)" "d_at d2 rest" by blast
  with 1 show ?thesis
    by (auto simp: decode_st_def d_at_def k_st_no_def k_st_same_def k_st_explicit_def)
qed

lemma decode_next_ok:
  assumes "d_at d (next_bytes first prev s @ rest)"
  shows "\<exists>d'. decode_next_sample (sm_t first) (sm_st first) prev d = (Inr s, d') \<and> d_at d' rest"
proof -
  have "d_at d (put_varint (sm_ref s - sm_ref prev) @ put_varint (sm_t s - sm_t first) @
      st_bytes (sm_st s) (sm_st first) (sm_st prev) @ be64 (sm_v s) @ rest)"
    using assms by (simp add: next_bytes_def)
  from dec_ok(4) [OF this] obtain d1 where d1: "dec_varint d = (sm_ref s - sm_ref prev, d1)"
    "d_at d1 (put_varint (sm_t s - sm_t first) @ st_bytes (sm_st s) (sm_st first) (sm_st prev)
      @ be64 (sm_v s) @ rest)" by blast
  from d1(1) dec_ok(4) [OF d1(2)] obtain d2 where 12: "dec_varint d = (sm_ref s - sm_ref prev, d1)"
    "dec_varint d1 = (sm_t s - sm_t first, d2)"
    "d_at d2 (st_bytes (sm_st s) (sm_st first) (sm_st prev) @ be64 (sm_v s) @ rest)" by blast
  obtain m d3 d4 where 34: "dec_byte d2 = (m, d3)" "\<not> d_err d3"
    "decode_st m (sm_st first) (sm_st prev) d3 = (Inr (sm_st s), d4)" "d_at d4 (be64 (sm_v s) @ rest)"
    using decode_st_ok [OF 12(3)] by blast
  obtain d5 where "dec_be64 d4 = (sm_v s, d5)" "d_at d5 rest"
    using dec_ok(2) [OF 34(4)] by blast
  then show ?thesis
    using 12(1,2) 34(1-3) by (simp add: decode_next_sample_def d_at_def)
qed

lemma decode_samples_loop_ok:
  "d_at d (rest_bytes (hd out) (last out) ss) \<Longrightarrow> out \<noteq> [] \<Longrightarrow>
     \<exists>d'. decode_samples_loop out d = (Inr (out @ ss), d') \<and> d_at d' []"
proof (induction ss arbitrary: out d)
  case Nil
  then show ?case
    by (subst decode_samples_loop.simps) (auto simp: has_more_def d_at_def)
next
  case (Cons s ss)
  then obtain d' where d': "decode_next_sample (sm_t (hd out)) (sm_st (hd out)) (last out) d = (Inr s, d')"
    "d_at d' (rest_bytes (hd out) s ss)"
    using decode_next_ok [of d "hd out" "last out" s "rest_bytes (hd out) s ss"] by auto
  have "has_more d"
    using Cons.prems d_at_length [OF Cons.prems(1)] by (simp add: has_more_def d_at_def next_bytes_def)
  then show ?case
    using Cons.IH [of d' "out @ [s]"] d' Cons.prems(2)
    by (subst decode_samples_loop.simps) (auto simp: decode_sample_def hd_append split: list.splits)
qed

definition samples_wf :: "RefSample list \<Rightarrow> bool" where
  "samples_wf ss \<longleftrightarrow> length (encode_samples_v2 ss) < 2 ^ 64"

lemma decode_samples_ok:
  assumes "samples_wf ss"
  shows "decode_samples_v2 (encode_samples_v2 ss) = Inr ss"
proof (cases ss)
  case Nil
  then show ?thesis
    by (simp add: decode_samples_v2_def dec_byte_def Decoder_init_def has_more_def)
next
  case (Cons s rest)
  let ?b = "encode_samples_v2 ss"
  obtain d where d: "dec_byte (Decoder_init ?b) = (type_code SamplesV2, d)"
    "d_at d (first_bytes s @ rest_bytes s s rest)"
    using dec_ok(1) [of "Decoder_init ?b" "type_code SamplesV2"] d_at_init [of ?b] assms Cons
    unfolding samples_wf_def by (auto simp only: encode_samples_bytes)
  have more: "has_more d"
    using d(2) d_at_length [OF d(2)] by (simp add: has_more_def d_at_def first_bytes_def)
  obtain d1 where d1: "decode_first_sample d = (Inr s, d1)" "d_at d1 (rest_bytes s s rest)"
    using decode_first_ok [OF d(2)] by blast
  obtain d2 where d2: "decode_samples_loop [s] d1 = (Inr ss, d2)" "d_at d2 []"
    using decode_samples_loop_ok [of d1 "[s]" rest] d1(2) Cons by auto
  have "decode_samples_loop [] d = (Inr ss, d2)"
    using more d1(1) d2(1) by (subst decode_samples_loop.simps) (simp add: decode_sample_def)
  then show ?thesis
    using d(1) more d2(2) d_at_length [OF d2(2)]
    by (auto simp: decode_samples_v2_def d_at_def d_remaining_def)
qed

interpretation samples_record: record_codec encode_samples_v2 decode_samples_v2 samples_wf
  by unfold_locales (rule decode_samples_ok)

section \<open>Properties\<close>

text \<open>
  C31. A series record decodes to exactly the references and label lists it was encoded from,
  and distinct lists have distinct encodings. The hypothesis is what every vector satisfies: no
  label list is longer than \<open>max_size()\<close>, and the record is addressable.
\<close>

theorem series_record_roundtrip:
  assumes "series_wf ss"
  shows "decode_series (encode_series ss) = Inr ss \<and>
     (series_wf ss' \<longrightarrow> encode_series ss = encode_series ss' \<longrightarrow> ss = ss')"
  using series_record.dec_enc [OF assms] series_record.enc_inject [OF assms] by blast

theorem series_record_roundtrip_witness:
  "decode_series (encode_series [\<lparr>rs_ref = 7, rs_labels = [\<lparr>wl_name = ''job'', wl_value = ''api''\<rparr>]\<rparr>])
     = Inr [\<lparr>rs_ref = 7, rs_labels = [\<lparr>wl_name = ''job'', wl_value = ''api''\<rparr>]\<rparr>]"
  using series_record_roundtrip [of "[\<lparr>rs_ref = 7, rs_labels = [\<lparr>wl_name = ''job'', wl_value = ''api''\<rparr>]\<rparr>]"]
  by (simp add: series_wf_def max_labels_def encode_series_bytes series_bytes_def label_bytes_def
      str_bytes_def put_uvarint_small)

text \<open>
  C32. A V2 sample record decodes to exactly the samples it was encoded from, bit for bit, with
  references in any order, timestamps before and after the first one, and start timestamps that
  are absent, repeated or explicit.
\<close>

theorem samples_record_roundtrip:
  assumes "samples_wf ss"
  shows "decode_samples_v2 (encode_samples_v2 ss) = Inr ss \<and>
     (samples_wf ss' \<longrightarrow> encode_samples_v2 ss = encode_samples_v2 ss' \<longrightarrow> ss = ss')"
  using samples_record.dec_enc [OF assms] samples_record.enc_inject [OF assms] by blast

theorem samples_record_roundtrip_witness:
  "decode_samples_v2 (encode_samples_v2 [\<lparr>sm_ref = 2, sm_t = 10, sm_st = 0, sm_v = 5\<rparr>])
     = Inr [\<lparr>sm_ref = 2, sm_t = 10, sm_st = 0, sm_v = 5\<rparr>]"
proof -
  have "length (put_varint x) \<le> 10" for x
    using length_put_uvarint [of "zigzag x"] by (simp add: put_varint_def max_varint_len64_def)
  from this [of 2] this [of 10] this [of 0]
  have "samples_wf [\<lparr>sm_ref = 2, sm_t = 10, sm_st = 0, sm_v = 5\<rparr>]"
    unfolding samples_wf_def encode_samples_bytes by (simp add: first_bytes_def)
  then show ?thesis using samples_record_roundtrip by blast
qed

text \<open>
  A series record whose label count exceeds what a vector can hold does not make the
  decoder return its error: \<open>reserve\<close> is called with the unchecked count and throws, whatever
  follows in the record.
\<close>

theorem series_label_count_throws:
  assumes "max_labels < unat n" and "length rest < 2 ^ 32"
  shows "decode_series (type_code Series # be64 ref @ put_uvarint n @ rest) = Inl Length_error"
proof -
  let ?b = "type_code Series # be64 ref @ put_uvarint n @ rest"
  have "length ?b < 2 ^ 64"
    using assms(2) length_put_uvarint [of n] by (simp add: max_varint_len64_def)
  from dec_ok(1) [OF d_at_init [OF this]] obtain d where d: "dec_byte (Decoder_init ?b) = (type_code Series, d)"
    "d_at d (be64 ref @ put_uvarint n @ rest)" by blast
  from dec_ok(2) [OF this(2)] obtain d1 where d1: "dec_be64 d = (ref, d1)" "d_at d1 (put_uvarint n @ rest)" by blast
  from dec_ok(3) [OF this(2)] obtain d2 where d2: "dec_uvarint d1 = (n, d2)" by blast
  have "has_more d"
    using d(2) d_at_length [OF d(2)] by (simp add: has_more_def d_at_def)
  then have "fst (decode_series_loop [] d) = Inl Length_error"
    using d1(1) d2 assms(1) by (subst decode_series_loop.simps) (simp add: decode_one_series_def)
  then show ?thesis
    using d(1) by (auto simp: decode_series_def split: prod.splits sum.splits)
qed

theorem series_label_count_throws_witness:
  "decode_series (type_code Series # be64 1 @ put_uvarint 0x8000000000000000 @ []) = Inl Length_error"
  by (rule series_label_count_throws) (simp_all add: max_labels_def)

end
