(* ===== verification/Labels.thy ===== *)
theory Labels
  imports Prelude
begin

text \<open>
  Label sets (src/model/labels.cpp, model/labels.hpp): construction with sorting and
  de-duplication, lookup by binary search, the hash, and the builder-style update. Shown: a label
  set is always sorted by name without duplicates; the last entry of a name wins; the binary
  search finds what a linear search would; two label sets are equal exactly if every name has
  the same value in both; and the byte stream under the hash determines the label set.
\<close>

section \<open>Labels\<close>

datatype Label = Label (l_name: string) (l_value: string)

text \<open>
  The defaulted \<open>operator<=>\<close>: the members are compared in the order of their declaration, each as
  \<open>std::string\<close> compares, and the first difference decides.
\<close>

datatype strong_ordering = Ordering_less | Ordering_equal | Ordering_greater

definition string_compare :: "string \<Rightarrow> string \<Rightarrow> strong_ordering" where
  "string_compare a b = (if a < b then Ordering_less else if a = b then Ordering_equal else Ordering_greater)"

definition label_compare :: "Label \<Rightarrow> Label \<Rightarrow> strong_ordering" where
  "label_compare a b =
     (case string_compare (l_name a) (l_name b) of
        Ordering_equal \<Rightarrow> string_compare (l_value a) (l_value b)
      | order \<Rightarrow> order)"

lemma label_compare_less:
  "label_compare a b = Ordering_less \<longleftrightarrow> l_name a < l_name b \<or> l_name a = l_name b \<and> l_value a < l_value b"
  by (auto simp: label_compare_def string_compare_def)

lemma label_compare_greater:
  "label_compare a b \<noteq> Ordering_greater \<longleftrightarrow> l_name a < l_name b \<or> l_name a = l_name b \<and> l_value a \<le> l_value b"
  by (auto simp: label_compare_def string_compare_def)

text \<open>The comparison is a linear order, and that of the library.\<close>

instantiation Label :: linorder
begin

definition less_eq_Label :: "Label \<Rightarrow> Label \<Rightarrow> bool" where
  "less_eq_Label a b \<longleftrightarrow> label_compare a b \<noteq> Ordering_greater"

definition less_Label :: "Label \<Rightarrow> Label \<Rightarrow> bool" where
  "less_Label a b \<longleftrightarrow> label_compare a b = Ordering_less"

instance
  by standard (auto simp: less_eq_Label_def less_Label_def label_compare_less label_compare_greater Label.expand)

end

record Labels =
  entries :: "Label list"

text \<open>The loop of \<open>canonicalize\<close>: an entry is dropped if the next one has its name.\<close>

fun dedupe :: "Label list \<Rightarrow> Label list" where
  "dedupe [] = []"
| "dedupe [x] = [x]"
| "dedupe (x # y # zs) = (if l_name x = l_name y then dedupe (y # zs) else x # dedupe (y # zs))"

definition canonicalize :: "Label list \<Rightarrow> Label list" where
  "canonicalize es = dedupe (sort_key l_name es)"

definition mk_labels :: "Label list \<Rightarrow> Labels" where
  "mk_labels es = \<lparr>entries = canonicalize es\<rparr>"

text \<open>\<open>std::lower_bound\<close>: halving of the interval that starts at \<open>first\<close>.\<close>

function lower_bound :: "('a \<Rightarrow> bool) \<Rightarrow> 'a list \<Rightarrow> nat \<Rightarrow> nat \<Rightarrow> nat" where
  "lower_bound before xs first count =
     (if count = 0 then first
      else
        let step = count div 2; it = first + step
        in if before (xs ! it) then lower_bound before xs (it + 1) (count - (step + 1))
           else lower_bound before xs first step)"
  by pat_completeness auto
termination
  by (relation "measure (\<lambda>(p, xs, first, count). count)") auto

declare lower_bound.simps [simp del]

definition get :: "Labels \<Rightarrow> string \<Rightarrow> string option" where
  "get l name =
     (let es = entries l; it = lower_bound (\<lambda>e. l_name e < name) es 0 (length es)
      in if it = length es \<or> l_name (es ! it) \<noteq> name then None else Some (l_value (es ! it)))"

definition has :: "Labels \<Rightarrow> string \<Rightarrow> bool" where
  "has l name \<longleftrightarrow> get l name \<noteq> None"

definition k_fnv_offset :: u64 where
  "k_fnv_offset = 0xCBF29CE484222325"

definition k_fnv_prime :: u64 where
  "k_fnv_prime = 0x00000100000001B3"

definition fnv_byte :: "u8 \<Rightarrow> u64 \<Rightarrow> u64" where
  "fnv_byte b h = (h XOR ucast b) * k_fnv_prime"

definition fnv1a :: "u64 \<Rightarrow> string \<Rightarrow> u64" where
  "fnv1a h s = fold (\<lambda>c. fnv_byte (char_byte c)) s h"

definition k_sep_field :: u8 where
  "k_sep_field = 0xFF"

definition k_sep_pair :: u8 where
  "k_sep_pair = 0xFE"

definition hash_label :: "Label \<Rightarrow> u64 \<Rightarrow> u64" where
  "hash_label l h =
     (let h1 = fnv1a h (l_name l); h2 = fnv_byte k_sep_field h1; h3 = fnv1a h2 (l_value l)
      in fnv_byte k_sep_pair h3)"

definition hash :: "Labels \<Rightarrow> u64" where
  "hash l = fold hash_label (entries l) k_fnv_offset"

definition add :: "string \<Rightarrow> string \<Rightarrow> Labels \<Rightarrow> Labels" where
  "add name val l = mk_labels (entries l @ [Label name val])"

section \<open>Canonical form\<close>

definition labels_wf :: "Labels \<Rightarrow> bool" where
  "labels_wf l \<longleftrightarrow> sorted_wrt (<) (map l_name (entries l))"

lemma set_dedupe: "set (dedupe xs) \<subseteq> set xs"
  by (induction xs rule: dedupe.induct) auto

lemma dedupe_sorted: "sorted (map l_name xs) \<Longrightarrow> sorted_wrt (<) (map l_name (dedupe xs))"
proof (induction xs rule: dedupe.induct)
  case (3 x y zs)
  show ?case
  proof (cases "l_name x = l_name y")
    case False
    then have "\<forall>z\<in>set (y # zs). l_name x < l_name z"
      using "3.prems" by (auto simp: order.strict_iff_order)
    then have "\<forall>z\<in>set (dedupe (y # zs)). l_name x < l_name z"
      using set_dedupe [of "y # zs"] by blast
    then show ?thesis using 3 False by simp
  qed (use 3 in simp)
qed simp_all

lemma mk_labels_wf: "labels_wf (mk_labels es)"
  by (simp add: labels_wf_def mk_labels_def canonicalize_def dedupe_sorted)

text \<open>What a list of entries says of a name: the last entry that has it.\<close>

definition last_value :: "Label list \<Rightarrow> string \<Rightarrow> string option" where
  "last_value es n = (case filter (\<lambda>e. l_name e = n) es of [] \<Rightarrow> None | xs \<Rightarrow> Some (l_value (last xs)))"

lemma last_value_Nil [simp]: "last_value [] n = None"
  by (simp add: last_value_def)

lemma last_value_Cons:
  "last_value (x # xs) n =
     (case last_value xs n of Some v \<Rightarrow> Some v | None \<Rightarrow> if l_name x = n then Some (l_value x) else None)"
  by (simp add: last_value_def split: list.splits)

lemma last_value_dedupe: "last_value (dedupe xs) n = last_value xs n"
  by (induction xs rule: dedupe.induct) (simp_all add: last_value_Cons split: option.splits)

lemma last_value_sort: "last_value (sort_key l_name xs) n = last_value xs n"
  by (simp add: last_value_def sort_key_stable)

lemma last_value_snoc: "last_value (es @ [e]) n = (if l_name e = n then Some (l_value e) else last_value es n)"
  by (induction es) (simp_all add: last_value_Cons)

lemma last_value_None: "last_value es n = None \<longleftrightarrow> n \<notin> l_name ` set es"
  by (induction es) (auto simp: last_value_Cons split: option.splits)

lemma last_value_set:
  "distinct (map l_name es) \<Longrightarrow> last_value es n = Some v \<longleftrightarrow> Label n v \<in> set es"
proof (induction es)
  case (Cons e es)
  have "Label n v = e \<longleftrightarrow> l_name e = n \<and> l_value e = v"
    by (cases e) auto
  moreover have "last_value es (l_name e) = None"
    using Cons.prems by (auto simp: last_value_None)
  ultimately show ?case
    using Cons by (auto simp: last_value_Cons split: option.splits)
qed simp

section \<open>Binary search\<close>

lemma lower_bound_bounds:
  assumes "\<And>i j. i \<le> j \<Longrightarrow> j < length xs \<Longrightarrow> p (xs ! j) \<Longrightarrow> p (xs ! i)" "first + count \<le> length xs"
  shows "first \<le> lower_bound p xs first count \<and> lower_bound p xs first count \<le> first + count \<and>
     (\<forall>i. first \<le> i \<longrightarrow> i < lower_bound p xs first count \<longrightarrow> p (xs ! i)) \<and>
     (\<forall>i. lower_bound p xs first count \<le> i \<longrightarrow> i < first + count \<longrightarrow> \<not> p (xs ! i))"
  using assms(2)
proof (induction count arbitrary: first rule: less_induct)
  case (less count)
  let ?step = "count div 2"
  let ?it = "first + ?step"
  show ?case
  proof (cases "count = 0")
    case True
    then show ?thesis by (simp add: lower_bound.simps)
  next
    case False
    then have it: "?it < length xs" "?step < count" using less.prems by auto
    show ?thesis
    proof (cases "p (xs ! ?it)")
      case True
      let ?r = "lower_bound p xs (?it + 1) (count - (?step + 1))"
      have r: "lower_bound p xs first count = ?r"
        using False True by (simp add: lower_bound.simps [of p xs first] Let_def)
      have low: "p (xs ! i)" if "i \<le> ?it" for i
        using assms(1) [OF that it(1) True] .
      have cnt: "?it + 1 + (count - (?step + 1)) = first + count" using it(2) by simp
      have IH: "?it + 1 \<le> ?r" "?r \<le> first + count" "\<forall>i. ?it + 1 \<le> i \<longrightarrow> i < ?r \<longrightarrow> p (xs ! i)"
        "\<forall>i. ?r \<le> i \<longrightarrow> i < first + count \<longrightarrow> \<not> p (xs ! i)"
        using less.IH [of "count - (?step + 1)" "?it + 1"] less.prems it(2) unfolding cnt by simp_all
      have "p (xs ! i)" if "i < ?r" for i
        using that IH(3) low [of i] by (cases "i \<le> ?it") auto
      then show ?thesis
        unfolding r using IH(1,2,4) by auto
    next
      case fls: False
      have "\<not> p (xs ! i)" if "?it \<le> i" "i < first + count" for i
        using assms(1) [OF that(1)] fls that(2) less.prems by auto
      moreover let ?r = "lower_bound p xs first ?step"
      have r: "lower_bound p xs first count = ?r"
        using False fls by (simp add: lower_bound.simps [of p xs first count] Let_def)
      have IH: "first \<le> ?r" "?r \<le> first + ?step" "\<forall>i. first \<le> i \<longrightarrow> i < ?r \<longrightarrow> p (xs ! i)"
        "\<forall>i. ?r \<le> i \<longrightarrow> i < ?it \<longrightarrow> \<not> p (xs ! i)"
        using less.IH [of ?step first] less.prems it(2) by simp_all
      ultimately have "\<not> p (xs ! i)" if "?r \<le> i" "i < first + count" for i
        using that by (cases "i < ?it") auto
      moreover have "?r \<le> first + count" using IH(2) it(2) by linarith
      ultimately show ?thesis
        unfolding r using IH(1,3) by blast
    qed
  qed
qed

text \<open>On a range partitioned by the predicate it is the length of the longest prefix satisfying it.\<close>

lemma lower_bound_takeWhile:
  assumes "\<And>i j. i \<le> j \<Longrightarrow> j < length xs \<Longrightarrow> p (xs ! j) \<Longrightarrow> p (xs ! i)"
  shows "lower_bound p xs 0 (length xs) = length (takeWhile p xs)"
proof -
  let ?r = "lower_bound p xs 0 (length xs)"
  have r: "?r \<le> length xs" "\<forall>i < ?r. p (xs ! i)" "\<forall>i. ?r \<le> i \<longrightarrow> i < length xs \<longrightarrow> \<not> p (xs ! i)"
    using lower_bound_bounds [of xs p 0 "length xs"] assms by auto
  have "takeWhile p xs = take ?r xs"
    using r by (intro takeWhile_eq_take_P_nth) auto
  then show ?thesis using r(1) by simp
qed

lemma sorted_prefix:
  "sorted_wrt (<) (map l_name es) \<Longrightarrow> i \<le> j \<Longrightarrow> j < length es \<Longrightarrow> l_name (es ! j) < n \<Longrightarrow> l_name (es ! i) < n"
  using sorted_wrt_nth_less [of "(<)" "map l_name es" i j] by (cases "i = j") auto

lemma last_value_takeWhile:
  assumes "sorted_wrt (<) (map l_name es)"
  shows "last_value es n =
     (let k = length (takeWhile (\<lambda>e. l_name e < n) es)
      in if k = length es \<or> l_name (es ! k) \<noteq> n then None else Some (l_value (es ! k)))"
  using assms
proof (induction es)
  case (Cons e es)
  have none: "last_value es m = None" if "m \<le> l_name e" for m
    using Cons.prems that by (force simp: last_value_None)
  show ?case
  proof (cases "l_name e < n")
    case True
    then show ?thesis
      using Cons by (auto simp: last_value_Cons Let_def split: option.splits)
  next
    case False
    then show ?thesis
      using none [of n] by (auto simp: last_value_Cons)
  qed
qed simp

lemma get_last_value: "labels_wf l \<Longrightarrow> get l n = last_value (entries l) n"
proof -
  assume wf: "labels_wf l"
  then have "lower_bound (\<lambda>e. l_name e < n) (entries l) 0 (length (entries l))
      = length (takeWhile (\<lambda>e. l_name e < n) (entries l))"
    by (intro lower_bound_takeWhile) (auto simp: labels_wf_def dest: sorted_prefix [of "entries l"])
  then show ?thesis
    using wf by (simp add: get_def labels_wf_def last_value_takeWhile Let_def)
qed

lemma get_mk_labels: "get (mk_labels es) n = last_value es n"
  using get_last_value [OF mk_labels_wf]
  by (simp add: mk_labels_def canonicalize_def last_value_dedupe last_value_sort)

lemma get_set: "labels_wf l \<Longrightarrow> get l n = Some v \<longleftrightarrow> Label n v \<in> set (entries l)"
  unfolding labels_wf_def
  by (simp add: get_last_value labels_wf_def last_value_set strict_sorted_iff)

lemma labels_ext:
  assumes "labels_wf a" "labels_wf b" "\<And>n. get a n = get b n"
  shows "a = b"
proof -
  have "x \<in> set (entries a) \<longleftrightarrow> x \<in> set (entries b)" for x
    using get_set [OF assms(1)] get_set [OF assms(2)] assms(3) by (cases x) metis
  then have set: "set (entries a) = set (entries b)" by blast
  have "sorted (map l_name (entries a))" "sorted (map l_name (entries b))"
    "distinct (map l_name (entries a))" "distinct (map l_name (entries b))"
    using assms(1,2) by (auto simp: labels_wf_def strict_sorted_iff)
  moreover from this have "inj_on l_name (set (entries a) \<union> set (entries b))"
    using set by (simp add: distinct_map)
  ultimately have "entries a = entries b"
    using set map_sorted_distinct_set_unique by blast
  then show ?thesis by simp
qed

lemma mk_labels_idem: "labels_wf l \<Longrightarrow> mk_labels (entries l) = l"
  by (rule labels_ext) (simp_all add: mk_labels_wf get_mk_labels get_last_value)

section \<open>The map interface\<close>

text \<open>What clients rely on: an updatable map with extensional equality.\<close>

locale label_map =
  fixes lookup :: "'m \<Rightarrow> string \<Rightarrow> string option"
    and update :: "string \<Rightarrow> string \<Rightarrow> 'm \<Rightarrow> 'm"
    and wf :: "'m \<Rightarrow> bool"
  assumes lookup_update: "wf l \<Longrightarrow> lookup (update n v l) m = (if m = n then Some v else lookup l m)"
    and update_wf: "wf l \<Longrightarrow> wf (update n v l)"
    and ext: "wf a \<Longrightarrow> wf b \<Longrightarrow> (\<And>n. lookup a n = lookup b n) \<Longrightarrow> a = b"
begin

lemma update_update: "wf l \<Longrightarrow> update n v (update n w l) = update n v l"
  by (rule ext) (simp_all add: lookup_update update_wf)

lemma update_commute: "wf l \<Longrightarrow> n \<noteq> m \<Longrightarrow> update n v (update m w l) = update m w (update n v l)"
  by (rule ext) (auto simp: lookup_update update_wf)

lemma update_same: "wf l \<Longrightarrow> lookup l n = Some v \<Longrightarrow> update n v l = l"
  by (rule ext) (auto simp: lookup_update update_wf)

end

lemma get_add: "labels_wf l \<Longrightarrow> get (add n v l) m = (if m = n then Some v else get l m)"
  by (simp add: add_def get_mk_labels last_value_snoc get_last_value)

interpretation labels: label_map get add labels_wf
proof
  show "labels_wf (add n v l)" for n v l
    by (simp add: add_def mk_labels_wf)
qed (simp_all add: get_add labels_ext)

section \<open>The hash\<close>

definition label_stream :: "Label \<Rightarrow> bytes" where
  "label_stream l = string_bytes (l_name l) @ [k_sep_field] @ string_bytes (l_value l) @ [k_sep_pair]"

definition hash_stream :: "Labels \<Rightarrow> bytes" where
  "hash_stream l = concat (map label_stream (entries l))"

lemma fnv1a_stream: "fnv1a h s = fold fnv_byte (string_bytes s) h"
  by (simp add: fnv1a_def string_bytes_def fold_map comp_def)

lemma hash_label_stream: "hash_label l h = fold fnv_byte (label_stream l) h"
  by (simp add: hash_label_def Let_def fnv1a_stream label_stream_def)

lemma hash_hash_stream: "hash l = fold fnv_byte (hash_stream l) k_fnv_offset"
proof -
  have "fold hash_label es h = fold fnv_byte (concat (map label_stream es)) h" for es h
    by (induction es arbitrary: h) (simp_all add: hash_label_stream)
  then show ?thesis by (simp add: hash_def hash_stream_def)
qed

text \<open>Strings without the two separator bytes; all UTF-8 text is of this kind.\<close>

definition plain :: "string \<Rightarrow> bool" where
  "plain s \<longleftrightarrow> k_sep_field \<notin> set (string_bytes s) \<and> k_sep_pair \<notin> set (string_bytes s)"

lemma string_bytes_inject: "string_bytes s = string_bytes t \<longleftrightarrow> s = t"
  by (metis bytes_string_bytes)

lemma split_at_sep:
  "x \<notin> set as \<Longrightarrow> x \<notin> set bs \<Longrightarrow> as @ x # cs = bs @ x # ds \<Longrightarrow> as = bs \<and> cs = ds"
  by (induction as arbitrary: bs) (auto simp: Cons_eq_append_conv)

lemma label_stream_inject:
  assumes "plain (l_name a)" "plain (l_value a)" "plain (l_name b)" "plain (l_value b)"
    "label_stream a @ r = label_stream b @ s"
  shows "a = b \<and> r = s"
proof -
  have "string_bytes (l_name a) = string_bytes (l_name b) \<and>
      string_bytes (l_value a) @ k_sep_pair # r = string_bytes (l_value b) @ k_sep_pair # s"
    using assms(1,3,5) by (intro split_at_sep) (auto simp: plain_def label_stream_def)
  moreover from this have "string_bytes (l_value a) = string_bytes (l_value b) \<and> r = s"
    using assms(2,4) by (intro split_at_sep [where x = k_sep_pair]) (auto simp: plain_def)
  ultimately show ?thesis
    by (simp add: string_bytes_inject Label.expand)
qed

lemma label_streams_inject:
  "list_all (\<lambda>l. plain (l_name l) \<and> plain (l_value l)) as \<Longrightarrow>
   list_all (\<lambda>l. plain (l_name l) \<and> plain (l_value l)) bs \<Longrightarrow>
   concat (map label_stream as) = concat (map label_stream bs) \<Longrightarrow> as = bs"
proof (induction as arbitrary: bs)
  case Nil
  then show ?case by (cases bs) (auto simp: label_stream_def)
next
  case (Cons a as)
  then obtain b bs' where bs: "bs = b # bs'" by (cases bs) (auto simp: label_stream_def)
  have "a = b \<and> concat (map label_stream as) = concat (map label_stream bs')"
    using Cons.prems bs by (intro label_stream_inject) auto
  then show ?case using Cons bs by auto
qed

section \<open>Properties\<close>

text \<open>
  C28. Label sets are canonical: the constructor sorts by name, keeps one entry per name and lets
  the last one win, for every input order and any duplicates; lookup by binary search then
  returns that value; and label sets that agree on every name are equal, so equality of label
  sets does not depend on how they were built.
\<close>

theorem labels_canonical:
  "labels_wf (mk_labels es) \<and> get (mk_labels es) n = last_value es n \<and>
   ((\<forall>m. last_value es m = last_value es' m) \<longleftrightarrow> mk_labels es = mk_labels es')"
proof -
  have "mk_labels es = mk_labels es'" if "\<forall>m. last_value es m = last_value es' m"
    using that by (intro labels.ext) (simp_all add: mk_labels_wf get_mk_labels)
  moreover have "last_value es m = last_value es' m" if "mk_labels es = mk_labels es'" for m
    using that get_mk_labels by metis
  ultimately show ?thesis using mk_labels_wf get_mk_labels by blast
qed

text \<open>
  The hash is a function of the label set's byte stream, and distinct label sets whose
  strings avoid the bytes 0xFF and 0xFE (all UTF-8 text does) have distinct streams: the
  separators keep "ab", "c" and "a", "bc" apart.
\<close>

theorem labels_hash_stream:
  assumes "list_all (\<lambda>l. plain (l_name l) \<and> plain (l_value l)) (entries a)"
    and "list_all (\<lambda>l. plain (l_name l) \<and> plain (l_value l)) (entries b)"
  shows "hash a = fold fnv_byte (hash_stream a) k_fnv_offset \<and> (hash_stream a = hash_stream b \<longleftrightarrow> a = b)"
  using label_streams_inject [OF assms] by (auto simp: hash_hash_stream hash_stream_def)

theorem labels_hash_stream_witness:
  "hash_stream (mk_labels [Label ''ab'' ''c'']) \<noteq> hash_stream (mk_labels [Label ''a'' ''bc''])"
proof -
  have "mk_labels [Label ''ab'' ''c''] \<noteq> mk_labels [Label ''a'' ''bc'']"
    by (simp add: mk_labels_def canonicalize_def)
  moreover have "plain ''ab''" "plain ''c''" "plain ''a''" "plain ''bc''"
    by (simp_all add: plain_def string_bytes_def char_byte_def k_sep_field_def k_sep_pair_def)
  ultimately show ?thesis
    using labels_hash_stream [of "mk_labels [Label ''ab'' ''c'']" "mk_labels [Label ''a'' ''bc'']"]
    by (simp add: mk_labels_def canonicalize_def)
qed

end
