(* ===== verification/MemSeries.thy ===== *)
theory MemSeries
  imports XorRoundtrip Labels
begin

text \<open>
  One series of the head (src/head/mem_series.cpp, head/mem_series.hpp): its chunks, the
  appender of the last one, and the monotonicity guard. Shown: a series holds exactly the
  samples it accepted, in order, with non-decreasing timestamps, however they are spread over
  chunks; no chunk outgrows 1024 bytes; the retry after a full chunk and the use of a missing
  appender never happen.
\<close>

type_synonym sample = "i64 \<times> double"

definition k_max_bytes_per_chunk_before_append :: nat where
  "k_max_bytes_per_chunk_before_append = kMaxBytes - 19"

record MemSeries =
  ms_ref :: u64
  ms_labels :: Labels
  ms_chunks :: "XORChunk list"
  ms_appender :: "XORAppender option"
  ms_last_t :: i64
  ms_last_v :: double
  ms_num_samples :: u64
  ms_has_sample :: bool

definition MemSeries_init :: "u64 \<Rightarrow> Labels \<Rightarrow> MemSeries" where
  "MemSeries_init ref labels =
     \<lparr>ms_ref = ref, ms_labels = labels, ms_chunks = [], ms_appender = None,
      ms_last_t = 0x8000000000000000, ms_last_v = 0, ms_num_samples = 0, ms_has_sample = False\<rparr>"

definition cut_chunk :: "MemSeries \<Rightarrow> MemSeries" where
  "cut_chunk ms =
     (let ms1 = ms\<lparr>ms_appender := None, ms_chunks := ms_chunks ms @ [XORChunk_init]\<rparr>
      in case appender (last (ms_chunks ms1)) of
           Inl e \<Rightarrow> ms1
         | Inr a \<Rightarrow> ms1\<lparr>ms_appender := Some a\<rparr>)"

text \<open>
  \<open>current_appender_->append\<close>. The appender writes into the last chunk; without an appender
  the dereference of the empty optional is undefined.
\<close>

datatype append_result = Appended | Refused | Undefined

definition append_current :: "i64 \<Rightarrow> double \<Rightarrow> MemSeries \<Rightarrow> append_result \<times> MemSeries" where
  "append_current t v ms =
     (case ms_appender ms of
        None \<Rightarrow> (Undefined, ms)
      | Some a \<Rightarrow>
          let (ok, w, a') = XorChunk.append t v (c_writer (last (ms_chunks ms)), a)
          in (if ok then Appended else Refused,
              ms\<lparr>ms_appender := Some a', ms_chunks := butlast (ms_chunks ms) @ [\<lparr>c_writer = w\<rparr>]\<rparr>))"

definition count_sample :: "i64 \<Rightarrow> double \<Rightarrow> MemSeries \<Rightarrow> MemSeries" where
  "count_sample t v ms =
     ms\<lparr>ms_last_t := t, ms_last_v := v, ms_num_samples := ms_num_samples ms + 1, ms_has_sample := True\<rparr>"

definition ms_append :: "i64 \<Rightarrow> double \<Rightarrow> MemSeries \<Rightarrow> append_result \<times> MemSeries" where
  "ms_append t v ms =
     (if ms_has_sample ms \<and> sint t < sint (ms_last_t ms) then (Refused, ms)
      else
        let ms1 = (if ms_chunks ms = [] \<or>
                     length (chunk_bytes (last (ms_chunks ms))) > k_max_bytes_per_chunk_before_append
                   then cut_chunk ms else ms)
        in case append_current t v ms1 of
             (Appended, ms2) \<Rightarrow> (Appended, count_sample t v ms2)
           | (Undefined, ms2) \<Rightarrow> (Undefined, ms2)
           | (Refused, ms2) \<Rightarrow>
               (case append_current t v (cut_chunk ms2) of
                  (Appended, ms3) \<Rightarrow> (Appended, count_sample t v ms3)
                | (r, ms3) \<Rightarrow> (r, ms3)))"

definition reset :: "MemSeries \<Rightarrow> MemSeries" where
  "reset ms = ms\<lparr>ms_appender := None, ms_chunks := [], ms_last_t := 0x8000000000000000, ms_last_v := 0,
                 ms_num_samples := 0, ms_has_sample := False\<rparr>"

text \<open>Reading a series: its chunks one after the other.\<close>

fun chunks_samples :: "XORChunk list \<Rightarrow> ReadError + sample list" where
  "chunks_samples [] = Inr []"
| "chunks_samples (c # cs) =
     (case chunk_samples c of
        Inl e \<Rightarrow> Inl e
      | Inr xs \<Rightarrow> (case chunks_samples cs of Inl e \<Rightarrow> Inl e | Inr ys \<Rightarrow> Inr (xs @ ys)))"

section \<open>Invariant\<close>

definition chunk_ok :: "XORChunk \<Rightarrow> sample list \<Rightarrow> bool" where
  "chunk_ok c xs \<longleftrightarrow> xs \<noteq> [] \<and> (\<exists>a. chunk_run xs c a) \<and> length (chunk_bytes c) \<le> kMaxBytes"

definition ms_parts :: "MemSeries \<Rightarrow> sample list list \<Rightarrow> bool" where
  "ms_parts ms parts \<longleftrightarrow>
     list_all2 chunk_ok (ms_chunks ms) parts \<and>
     (parts \<noteq> [] \<longrightarrow> (\<exists>a. ms_appender ms = Some a \<and> chunk_run (last parts) (last (ms_chunks ms)) a))"

definition ms_inv :: "MemSeries \<Rightarrow> sample list \<Rightarrow> bool" where
  "ms_inv ms xs \<longleftrightarrow>
     (\<exists>parts. concat parts = xs \<and> ms_parts ms parts) \<and>
     ms_has_sample ms = (xs \<noteq> []) \<and> (xs \<noteq> [] \<longrightarrow> (ms_last_t ms, ms_last_v ms) = last xs) \<and>
     ms_num_samples ms = of_nat (length xs) \<and> sorted (map (sint \<circ> fst) xs)"

lemma ms_inv_init: "ms_inv (MemSeries_init ref labels) []"
  by (auto simp: ms_inv_def ms_parts_def MemSeries_init_def intro!: exI [of _ "[]"])

lemma chunk_run_start: "chunk_run [] XORChunk_init XORAppender_init" "appender XORChunk_init = Inr XORAppender_init"
proof -
  show "appender XORChunk_init = Inr XORAppender_init"
    by (simp add: appender_def XORChunk_init_def chunk_bytes_def BitWriter_init_def)
  then show "chunk_run [] XORChunk_init XORAppender_init" by (rule run_start)
qed

lemma cut_chunk_eq:
  "cut_chunk ms = ms\<lparr>ms_appender := Some XORAppender_init, ms_chunks := ms_chunks ms @ [XORChunk_init]\<rparr>"
  by (simp add: cut_chunk_def Let_def chunk_run_start)

text \<open>A chunk below the limit accepts the next sample and stays below 1024 bytes.\<close>

lemma chunk_append_ok:
  assumes run: "chunk_run xs c a"
    and size: "length (chunk_bytes c) \<le> k_max_bytes_per_chunk_before_append"
  shows "\<exists>w a'. XorChunk.append t v (c_writer c, a) = (True, w, a') \<and>
     chunk_run (xs @ [(t, v)]) \<lparr>c_writer = w\<rparr> a' \<and> chunk_ok \<lparr>c_writer = w\<rparr> (xs @ [(t, v)])"
proof -
  note holds = chunk_run_holds [OF run]
  have len: "length xs < 4096"
    using chunk_holds_size(1) [OF holds] size
    by (cases "xs = []") (auto simp: k_max_bytes_per_chunk_before_append_def kMaxBytes_def)
  then obtain w a' where step: "XorChunk.append t v (c_writer c, a) = (True, w, a')"
    using chunk_holds_append [OF holds, of t v] by (auto simp: kMaxSamples_def)
  have small: "length (chunk_bytes c) \<le> 22" if "length xs = 1"
    using chunk_holds_size(2) [OF holds] that by (cases xs) auto
  have "length (w_stream w) \<le> kMaxBytes"
    using append_growth [OF holds step] size small
    by (auto simp: k_max_bytes_per_chunk_before_append_def kMaxBytes_def split: if_splits)
  then show ?thesis
    using step run_append [OF run step] by (auto simp: chunk_ok_def chunk_bytes_def)
qed

lemma append_current_ok:
  assumes "ms_appender ms = Some a" "chunk_run ys (last (ms_chunks ms)) a"
    and "length (chunk_bytes (last (ms_chunks ms))) \<le> k_max_bytes_per_chunk_before_append"
  shows "\<exists>c a'. append_current t v ms =
       (Appended, ms\<lparr>ms_appender := Some a', ms_chunks := butlast (ms_chunks ms) @ [c]\<rparr>) \<and>
     chunk_run (ys @ [(t, v)]) c a' \<and> chunk_ok c (ys @ [(t, v)])"
proof -
  obtain w a' where "XorChunk.append t v (c_writer (last (ms_chunks ms)), a) = (True, w, a')"
    "chunk_run (ys @ [(t, v)]) \<lparr>c_writer = w\<rparr> a'" "chunk_ok \<lparr>c_writer = w\<rparr> (ys @ [(t, v)])"
    using chunk_append_ok [OF assms(2,3), of t v] by blast
  then show ?thesis
    using assms(1) by (intro exI [of _ "\<lparr>c_writer = w\<rparr>"] exI [of _ a']) (simp add: append_current_def)
qed

lemma sorted_snoc: "sorted xs \<Longrightarrow> (xs \<noteq> [] \<longrightarrow> last xs \<le> x) \<Longrightarrow> sorted (xs @ [x])"
  by (cases xs rule: rev_cases) (auto simp: sorted_append)

text \<open>The parts of the series after a sample went into a fresh chunk, or into the last one.\<close>

lemma ms_parts_cut:
  assumes "ms_parts ms parts" "chunk_run ys c a" "chunk_ok c ys"
  shows "ms_parts (ms\<lparr>ms_appender := Some a, ms_chunks := ms_chunks ms @ [c]\<rparr>) (parts @ [ys])"
  using assms by (simp add: ms_parts_def list_all2_appendI)

lemma ms_parts_grow:
  assumes "ms_parts ms parts" "parts \<noteq> []" "chunk_run ys c a" "chunk_ok c ys"
  shows "ms_parts (ms\<lparr>ms_appender := Some a, ms_chunks := butlast (ms_chunks ms) @ [c]\<rparr>) (butlast parts @ [ys])"
proof -
  have "list_all2 chunk_ok (butlast (ms_chunks ms)) (butlast parts)"
    using assms(1) by (auto simp: ms_parts_def butlast_conv_take list_all2_lengthD)
  then show ?thesis
    using assms(3,4) by (simp add: ms_parts_def list_all2_appendI)
qed

lemma ms_append_ok:
  assumes inv: "ms_inv ms xs" and time: "xs \<noteq> [] \<longrightarrow> sint (fst (last xs)) \<le> sint t"
  shows "\<exists>ms'. ms_append t v ms = (Appended, ms') \<and> ms_inv ms' (xs @ [(t, v)]) \<and>
     ms_ref ms' = ms_ref ms \<and> ms_labels ms' = ms_labels ms"
proof -
  obtain parts where parts: "concat parts = xs" "ms_parts ms parts"
    using inv by (auto simp: ms_inv_def)
  let ?cut = "ms_chunks ms = [] \<or> length (chunk_bytes (last (ms_chunks ms))) > k_max_bytes_per_chunk_before_append"
  let ?ms1 = "if ?cut then cut_chunk ms else ms"
  have "\<exists>ms2 parts'. append_current t v ?ms1 = (Appended, ms2) \<and> ms_parts ms2 parts' \<and>
      concat parts' = xs @ [(t, v)] \<and> ms_ref ms2 = ms_ref ms \<and> ms_labels ms2 = ms_labels ms \<and>
      ms_num_samples ms2 = ms_num_samples ms"
  proof (cases ?cut)
    case True
    have "length (chunk_bytes XORChunk_init) \<le> k_max_bytes_per_chunk_before_append"
      by (simp add: XORChunk_init_def chunk_bytes_def BitWriter_init_def kHeaderSize_def
          k_max_bytes_per_chunk_before_append_def kMaxBytes_def)
    then obtain c a' where "append_current t v (cut_chunk ms) =
        (Appended, ms\<lparr>ms_appender := Some a', ms_chunks := ms_chunks ms @ [c]\<rparr>)"
      "chunk_run [(t, v)] c a'" "chunk_ok c [(t, v)]"
      using append_current_ok [of "cut_chunk ms" XORAppender_init "[]" t v] chunk_run_start(1)
      by (auto simp: cut_chunk_eq)
    then show ?thesis
      using True parts ms_parts_cut [OF parts(2)] by (fastforce intro: exI [of _ "parts @ [[(t, v)]]"])
  next
    case False
    then have ne: "parts \<noteq> []"
      using parts(2) by (auto simp: ms_parts_def)
    then obtain a where a: "ms_appender ms = Some a" "chunk_run (last parts) (last (ms_chunks ms)) a"
      using parts(2) by (auto simp: ms_parts_def)
    then obtain c a' where "append_current t v ms =
        (Appended, ms\<lparr>ms_appender := Some a', ms_chunks := butlast (ms_chunks ms) @ [c]\<rparr>)"
      "chunk_run (last parts @ [(t, v)]) c a'" "chunk_ok c (last parts @ [(t, v)])"
      using append_current_ok [OF a, of t v] False by auto
    moreover have "concat (butlast parts @ [last parts @ [(t, v)]]) = xs @ [(t, v)]"
      using ne parts(1) by (cases parts rule: rev_cases) auto
    ultimately show ?thesis
      using False parts ms_parts_grow [OF parts(2) ne] by fastforce
  qed
  then obtain ms2 parts' where ms2: "append_current t v ?ms1 = (Appended, ms2)" "ms_parts ms2 parts'"
    "concat parts' = xs @ [(t, v)]" "ms_ref ms2 = ms_ref ms" "ms_labels ms2 = ms_labels ms"
    "ms_num_samples ms2 = ms_num_samples ms" by blast
  have "\<not> (ms_has_sample ms \<and> sint t < sint (ms_last_t ms))"
    using inv time by (cases "xs = []") (auto simp: ms_inv_def dest: sym)
  then have "ms_append t v ms = (Appended, count_sample t v ms2)"
    using ms2(1) by (simp add: ms_append_def)
  moreover have "sorted (map (sint \<circ> fst) (xs @ [(t, v)]))"
    using inv time sorted_snoc [of "map (sint \<circ> fst) xs" "sint t"] by (simp add: ms_inv_def last_map)
  then have "ms_inv (count_sample t v ms2) (xs @ [(t, v)])"
    using ms2 inv by (auto simp: ms_inv_def count_sample_def ms_parts_def add.commute)
  ultimately show ?thesis
    using ms2(4,5) by (auto simp: count_sample_def)
qed

lemma ms_append_refused:
  "ms_inv ms xs \<Longrightarrow> xs \<noteq> [] \<Longrightarrow> sint t < sint (fst (last xs)) \<Longrightarrow> ms_append t v ms = (Refused, ms)"
  by (auto simp: ms_inv_def ms_append_def dest: sym)

lemma chunks_samples_ok: "list_all2 chunk_ok cs parts \<Longrightarrow> chunks_samples cs = Inr (concat parts)"
proof (induction cs parts rule: list_all2_induct)
  case (Cons c cs xs parts)
  obtain a where "chunk_run xs c a" using Cons.hyps by (auto simp: chunk_ok_def)
  then have "chunk_samples c = Inr xs"
    using chunk_holds_samples(1) [OF chunk_run_holds] by blast
  then show ?case using Cons.IH by simp
qed simp

lemma ms_inv_samples: "ms_inv ms xs \<Longrightarrow> chunks_samples (ms_chunks ms) = Inr xs"
  using chunks_samples_ok by (auto simp: ms_inv_def ms_parts_def)

lemma list_all2_chunk_ok:
  "list_all2 chunk_ok cs parts \<Longrightarrow> list_all (\<lambda>c. num_samples c \<noteq> 0 \<and> length (chunk_bytes c) \<le> kMaxBytes) cs"
proof (induction cs parts rule: list_all2_induct)
  case (Cons c cs xs parts)
  obtain a where "chunk_run xs c a" using Cons.hyps by (auto simp: chunk_ok_def)
  then have "unat (num_samples c) = length xs"
    using chunk_holds_samples(2) [OF chunk_run_holds] by blast
  then show ?case using Cons by (auto simp: chunk_ok_def)
qed simp

section \<open>Specification\<close>

text \<open>A series as a list of samples: a sample older than the last one is refused.\<close>

definition accepts :: "sample list \<Rightarrow> i64 \<Rightarrow> bool" where
  "accepts xs t \<longleftrightarrow> xs = [] \<or> sint (fst (last xs)) \<le> sint t"

fun accepted :: "sample list \<Rightarrow> sample list \<Rightarrow> sample list" where
  "accepted xs [] = xs"
| "accepted xs ((t, v) # ops) = accepted (if accepts xs t then xs @ [(t, v)] else xs) ops"

fun ms_append_all :: "sample list \<Rightarrow> MemSeries \<Rightarrow> MemSeries" where
  "ms_append_all [] ms = ms"
| "ms_append_all ((t, v) # ops) ms = ms_append_all ops (snd (ms_append t v ms))"

lemma ms_append_spec:
  assumes "ms_inv ms xs"
  shows "\<exists>ms'. ms_append t v ms = (if accepts xs t then Appended else Refused, ms') \<and>
     ms_inv ms' (if accepts xs t then xs @ [(t, v)] else xs) \<and>
     ms_ref ms' = ms_ref ms \<and> ms_labels ms' = ms_labels ms"
  using ms_append_ok [OF assms, of t v] ms_append_refused [OF assms, of t v] assms
  by (auto simp: accepts_def not_le)

lemma ms_append_all_inv:
  "ms_inv ms xs \<Longrightarrow> ms_inv (ms_append_all ops ms) (accepted xs ops) \<and>
     ms_ref (ms_append_all ops ms) = ms_ref ms \<and> ms_labels (ms_append_all ops ms) = ms_labels ms"
proof (induction ops arbitrary: ms xs)
  case (Cons op ops)
  obtain t v where "op = (t, v)" by fastforce
  then show ?case
    using ms_append_spec [OF Cons.prems, of t v] Cons.IH by fastforce
qed simp

section \<open>Properties\<close>

text \<open>
  C18. A series refines a list of samples: after any sequence of appends, decoding its chunks
  gives exactly the samples not older than their predecessor, in order and bit for bit; their
  timestamps never decrease, the counters agree, and no chunk is empty or larger than 1024
  bytes. The next append is accepted exactly if it is not older than the last sample, and
  undefined behaviour does not occur.
\<close>

theorem mem_series_refines_list:
  "let ms = ms_append_all ops (MemSeries_init ref labels); xs = accepted [] ops in
   chunks_samples (ms_chunks ms) = Inr xs \<and> sorted (map (sint \<circ> fst) xs) \<and>
   ms_num_samples ms = of_nat (length xs) \<and> ms_has_sample ms = (xs \<noteq> []) \<and>
   list_all (\<lambda>c. num_samples c \<noteq> 0 \<and> length (chunk_bytes c) \<le> kMaxBytes) (ms_chunks ms) \<and>
   fst (ms_append t v ms) = (if accepts xs t then Appended else Refused)"
proof -
  let ?ms = "ms_append_all ops (MemSeries_init ref labels)" and ?xs = "accepted [] ops"
  have inv: "ms_inv ?ms ?xs"
    using ms_append_all_inv [OF ms_inv_init] by blast
  then have "list_all (\<lambda>c. num_samples c \<noteq> 0 \<and> length (chunk_bytes c) \<le> kMaxBytes) (ms_chunks ?ms)"
    using list_all2_chunk_ok by (auto simp: ms_inv_def ms_parts_def)
  then show ?thesis
    using inv ms_inv_samples [OF inv] ms_append_spec [OF inv, of t v] by (auto simp: ms_inv_def Let_def)
qed

end
