(* ===== verification/SeriesStore.thy ===== *)
theory SeriesStore
  imports MemSeries
begin

text \<open>
  The series store of the head (src/head/series_store.cpp, head/series_store.hpp): the vector of
  series indexed by reference minus one, the map from label sets to references, and the next
  reference to hand out. A pointer to a series is modelled by its reference. \<open>resize\<close> throws
  beyond \<open>max_size()\<close>; that exception is an error value, other memory exhaustion is not
  modelled. Shown: references are unique and stable, the two directions of the index agree, and
  what each operation adds or refuses; clients get these laws through a locale.
\<close>

record SeriesStore =
  ss_by_ref :: "MemSeries option list"
  ss_by_labels :: "Labels \<Rightarrow> u64 option"
  ss_next_ref :: u64

definition SeriesStore_init :: SeriesStore where
  "SeriesStore_init = \<lparr>ss_by_ref = [], ss_by_labels = (\<lambda>l. None), ss_next_ref = 1\<rparr>"

datatype store_error = Vector_too_long

text \<open>\<open>max_size()\<close> of a vector of pointers.\<close>

definition max_slots :: nat where
  "max_slots = (2 ^ 63 - 1) div 8"

definition ensure_ref_slot :: "MemSeries option list \<Rightarrow> u64 \<Rightarrow> store_error + MemSeries option list" where
  "ensure_ref_slot by_ref ref =
     (if ref = 0 then Inr by_ref
      else if unat (ref - 1) \<ge> length by_ref then
        if unat ref > max_slots then Inl Vector_too_long
        else Inr (by_ref @ replicate (unat ref - length by_ref) None)
      else Inr by_ref)"

definition get_or_create :: "Labels \<Rightarrow> SeriesStore \<Rightarrow> (store_error + u64 \<times> bool) \<times> SeriesStore" where
  "get_or_create labels s =
     (case ss_by_labels s labels of
        Some ref \<Rightarrow> (Inr (ref, False), s)
      | None \<Rightarrow>
          let ref = ss_next_ref s; s1 = s\<lparr>ss_next_ref := ss_next_ref s + 1\<rparr>
          in case ensure_ref_slot (ss_by_ref s1) ref of
               Inl e \<Rightarrow> (Inl e, s1)
             | Inr slots \<Rightarrow>
                 (Inr (ref, True),
                  s1\<lparr>ss_by_ref := slots[unat ref - 1 := Some (MemSeries_init ref labels)],
                     ss_by_labels := (ss_by_labels s1)(labels \<mapsto> ref)\<rparr>))"

definition slot_get :: "u64 \<Rightarrow> MemSeries option list \<Rightarrow> MemSeries option" where
  "slot_get ref by_ref =
     (if ref = 0 \<or> unat (ref - 1) \<ge> length by_ref then None else by_ref ! (unat ref - 1))"

definition store_get :: "u64 \<Rightarrow> SeriesStore \<Rightarrow> MemSeries option" where
  "store_get ref s = slot_get ref (ss_by_ref s)"

text \<open>An assignment through the pointer \<open>get\<close> returned.\<close>

definition store_put :: "u64 \<Rightarrow> MemSeries \<Rightarrow> SeriesStore \<Rightarrow> SeriesStore" where
  "store_put ref ms s = s\<lparr>ss_by_ref := (ss_by_ref s)[unat ref - 1 := Some ms]\<rparr>"

definition insert_with_ref :: "u64 \<Rightarrow> Labels \<Rightarrow> SeriesStore \<Rightarrow> (store_error + bool) \<times> SeriesStore" where
  "insert_with_ref ref labels s =
     (if ref = 0 then (Inr False, s)
      else case (if unat (ref - 1) < length (ss_by_ref s) then ss_by_ref s ! unat (ref - 1) else None) of
        Some ms \<Rightarrow> (Inr (ms_labels ms = labels), s)
      | None \<Rightarrow>
          (case ss_by_labels s labels of
             Some ref' \<Rightarrow> (Inr (ref' = ref), s)
           | None \<Rightarrow>
               (case ensure_ref_slot (ss_by_ref s) ref of
                  Inl e \<Rightarrow> (Inl e, s)
                | Inr slots \<Rightarrow>
                    (Inr True,
                     \<lparr>ss_by_ref = slots[unat (ref - 1) := Some (MemSeries_init ref labels)],
                      ss_by_labels = (ss_by_labels s)(labels \<mapsto> ref),
                      ss_next_ref = max (ss_next_ref s) (ref + 1)\<rparr>))))"

definition all_series :: "SeriesStore \<Rightarrow> MemSeries list" where
  "all_series s = List.map_filter (\<lambda>x. x) (ss_by_ref s)"

section \<open>Invariant\<close>

definition store_inv :: "SeriesStore \<Rightarrow> bool" where
  "store_inv s \<longleftrightarrow>
     length (ss_by_ref s) \<le> max_slots \<and> unat (ss_next_ref s) = length (ss_by_ref s) + 1 \<and>
     (\<forall>ref ms. store_get ref s = Some ms \<longrightarrow> ms_ref ms = ref) \<and>
     (\<forall>labels ref. ss_by_labels s labels = Some ref \<longleftrightarrow>
        (\<exists>ms. store_get ref s = Some ms \<and> ms_labels ms = labels))"

lemma ref_minus: "ref \<noteq> 0 \<Longrightarrow> unat (ref - 1 :: u64) = unat ref - 1"
  by (simp add: unat_minus_one)

lemma store_get_Some:
  "store_get ref s = Some ms \<longleftrightarrow>
     ref \<noteq> 0 \<and> unat ref \<le> length (ss_by_ref s) \<and> ss_by_ref s ! (unat ref - 1) = Some ms"
proof -
  have "ref \<noteq> 0 \<Longrightarrow> 0 < unat ref" by (simp add: unat_gt_0)
  then show ?thesis
    by (cases "ref = 0") (auto simp: store_get_def slot_get_def ref_minus)
qed

lemma store_inv_init: "store_inv SeriesStore_init"
  by (simp add: store_inv_def store_get_def slot_get_def SeriesStore_init_def)

text \<open>Filling the slot of a reference changes the lookup of that reference only.\<close>

lemma ref_pos: "ref \<noteq> 0 \<Longrightarrow> 0 < unat (ref :: u64)"
  by (simp add: unat_gt_0)

lemma ref_slot_inject: "r \<noteq> 0 \<Longrightarrow> ref \<noteq> 0 \<Longrightarrow> unat r - 1 = unat ref - 1 \<longleftrightarrow> r = (ref :: u64)"
  using ref_pos [of r] ref_pos [of ref] by (auto simp: word_unat_eq_iff)

lemma slot_get_update:
  assumes "ref \<noteq> 0" "unat ref \<le> length xs"
  shows "slot_get r (xs[unat ref - 1 := Some ms]) = (if r = ref then Some ms else slot_get r xs)"
proof (cases "r = 0")
  case False
  have "unat ref - 1 < length xs"
    using assms ref_pos [OF assms(1)] by linarith
  then show ?thesis
    using False assms ref_slot_inject [OF False assms(1)] ref_pos [OF False]
    by (auto simp: slot_get_def ref_minus nth_list_update)
qed (use assms in \<open>simp add: slot_get_def\<close>)

lemma slot_get_resize: "slot_get r (xs @ replicate k None) = slot_get r xs"
  by (auto simp: slot_get_def nth_append not_le not_less ref_minus)

lemma ensure_ref_slot_ok:
  assumes "ensure_ref_slot xs ref = Inr slots" "ref \<noteq> 0"
  shows "unat ref \<le> length slots" "length slots = max (length xs) (unat ref)"
    "unat ref \<le> length xs \<or> unat ref \<le> max_slots" "slot_get r slots = slot_get r xs"
  using assms ref_pos [OF assms(2)]
  by (auto simp: ensure_ref_slot_def ref_minus slot_get_resize split: if_splits)

lemma store_put_get:
  assumes "store_get ref s \<noteq> None"
  shows "store_get r (store_put ref ms s) = (if r = ref then Some ms else store_get r s)"
proof -
  have "ref \<noteq> 0" "unat ref \<le> length (ss_by_ref s)"
    using assms store_get_Some by auto
  then show ?thesis
    using slot_get_update [of ref "ss_by_ref s" r ms] by (simp add: store_put_def store_get_def)
qed

section \<open>The operations\<close>

lemma get_or_create_found:
  "ss_by_labels s labels = Some ref \<Longrightarrow> get_or_create labels s = (Inr (ref, False), s)"
  by (simp add: get_or_create_def)

lemma store_inv_extend:
  assumes inv: "store_inv s" and new: "ss_by_labels s labels = None" "store_get ref s = None" "ref \<noteq> 0"
    and slot: "ensure_ref_slot (ss_by_ref s) ref = Inr slots"
    and next_ref: "nr = max (ss_next_ref s) (ref + 1)"
  defines "s' \<equiv> \<lparr>ss_by_ref = slots[unat ref - 1 := Some (MemSeries_init ref labels)],
      ss_by_labels = (ss_by_labels s)(labels \<mapsto> ref), ss_next_ref = nr\<rparr>"
  shows "store_inv s'" "store_get r s' = (if r = ref then Some (MemSeries_init ref labels) else store_get r s)"
proof -
  note ens = ensure_ref_slot_ok [OF slot new(3)]
  have get: "store_get r s' = (if r = ref then Some (MemSeries_init ref labels) else store_get r s)" for r
    unfolding s'_def
    using slot_get_update [OF new(3) ens(1), of r "MemSeries_init ref labels"] ens(4) [of r]
    by (simp add: store_get_def)
  then show "store_get r s' = (if r = ref then Some (MemSeries_init ref labels) else store_get r s)" .
  have len: "length (ss_by_ref s') = max (length (ss_by_ref s)) (unat ref)" "length (ss_by_ref s') \<le> max_slots"
    using ens(2,3) inv by (auto simp: s'_def store_inv_def)
  have "unat ref \<le> max_slots" using len by simp
  then have "unat (ref + 1) = unat ref + 1"
    by (simp add: max_slots_def unat_word_ariths)
  then have "unat (ss_next_ref s') = length (ss_by_ref s') + 1"
    using len(1) inv by (auto simp: s'_def store_inv_def next_ref max_def word_le_nat_alt)
  moreover have "ms_ref ms = r" if "store_get r s' = Some ms" for r ms
    using that inv get [of r] by (auto simp: store_inv_def MemSeries_init_def split: if_splits)
  moreover have "ss_by_labels s' l = Some r \<longleftrightarrow> (\<exists>ms. store_get r s' = Some ms \<and> ms_labels ms = l)" for l r
  proof -
    have old: "ss_by_labels s l = Some r \<longleftrightarrow> (\<exists>ms. store_get r s = Some ms \<and> ms_labels ms = l)"
      using inv by (simp add: store_inv_def)
    have lbl: "ss_by_labels s' l = (if l = labels then Some ref else ss_by_labels s l)"
      by (simp add: s'_def)
    show ?thesis
      unfolding lbl get using old new(1,2) by (auto simp: MemSeries_init_def)
  qed
  ultimately show "store_inv s'"
    using len(2) by (simp add: store_inv_def)
qed

lemma fresh_ref:
  assumes "store_inv s"
  shows "ss_next_ref s \<noteq> 0" "store_get (ss_next_ref s) s = None"
    "max (ss_next_ref s) (ss_next_ref s + 1) = ss_next_ref s + 1"
proof -
  have n: "unat (ss_next_ref s) = length (ss_by_ref s) + 1" "length (ss_by_ref s) \<le> max_slots"
    using assms by (simp_all add: store_inv_def)
  then show "ss_next_ref s \<noteq> 0" by auto
  show "store_get (ss_next_ref s) s = None"
    using n(1) by (cases "store_get (ss_next_ref s) s") (auto simp: store_get_Some)
  have "unat (ss_next_ref s + 1) = unat (ss_next_ref s) + 1"
    using n by (simp add: max_slots_def unat_word_ariths)
  then show "max (ss_next_ref s) (ss_next_ref s + 1) = ss_next_ref s + 1"
    by (simp add: max_def word_le_nat_alt)
qed

lemma get_or_create_new:
  assumes inv: "store_inv s" and new: "ss_by_labels s labels = None"
    and res: "get_or_create labels s = (Inr (ref, fresh), s')"
  shows "fresh" "ref = ss_next_ref s" "store_inv s'"
    "store_get r s' = (if r = ref then Some (MemSeries_init ref labels) else store_get r s)"
    "ss_by_labels s' = (ss_by_labels s)(labels \<mapsto> ref)"
proof -
  obtain slots where slots: "ensure_ref_slot (ss_by_ref s) (ss_next_ref s) = Inr slots"
    using res new by (auto simp: get_or_create_def Let_def split: sum.splits)
  let ?s = "\<lparr>ss_by_ref = slots[unat (ss_next_ref s) - 1 := Some (MemSeries_init (ss_next_ref s) labels)],
      ss_by_labels = (ss_by_labels s)(labels \<mapsto> ss_next_ref s), ss_next_ref = ss_next_ref s + 1\<rparr>"
  have s': "fresh" "ref = ss_next_ref s" "s' = ?s"
    using res new slots by (auto simp: get_or_create_def Let_def)
  then show "fresh" "ref = ss_next_ref s" "ss_by_labels s' = (ss_by_labels s)(labels \<mapsto> ref)" by simp_all
  note f = fresh_ref [OF inv]
  show "store_inv s'" "store_get r s' = (if r = ref then Some (MemSeries_init ref labels) else store_get r s)"
    using store_inv_extend [OF inv new f(2,1) slots f(3) [symmetric]] s' by simp_all
qed

lemma insert_with_ref_new:
  assumes inv: "store_inv s" and new: "ss_by_labels s labels = None" "store_get ref s = None" "ref \<noteq> 0"
  shows "case insert_with_ref ref labels s of
       (Inl e, s') \<Rightarrow> max_slots < unat ref \<and> s' = s
     | (Inr ok, s') \<Rightarrow> ok \<and> unat ref \<le> max_slots \<and> store_inv s' \<and> ss_by_labels s' = (ss_by_labels s)(labels \<mapsto> ref) \<and>
         ss_next_ref s' = max (ss_next_ref s) (ref + 1) \<and>
         (\<forall>r. store_get r s' = (if r = ref then Some (MemSeries_init ref labels) else store_get r s))"
proof -
  have slot: "(if unat (ref - 1) < length (ss_by_ref s) then ss_by_ref s ! unat (ref - 1) else None) = None"
    using new(2,3) by (auto simp: store_get_def slot_get_def ref_minus split: if_splits)
  show ?thesis
  proof (cases "ensure_ref_slot (ss_by_ref s) ref")
    case (Inl e)
    then show ?thesis
      using new slot by (auto simp: insert_with_ref_def ensure_ref_slot_def split: if_splits)
  next
    case (Inr slots)
    have "unat ref \<le> max_slots"
      using ensure_ref_slot_ok(3) [OF Inr new(3)] inv unfolding store_inv_def by linarith
    then show ?thesis
      using store_inv_extend [OF inv new Inr refl] Inr new slot by (simp add: insert_with_ref_def ref_minus)
  qed
qed

lemma insert_with_ref_same:
  "store_get ref s = Some ms \<Longrightarrow> insert_with_ref ref labels s = (Inr (ms_labels ms = labels), s)"
  by (auto simp: insert_with_ref_def store_get_def slot_get_def ref_minus split: if_splits)

lemma insert_with_ref_conflict:
  assumes "store_inv s" "store_get ref s = None" "ss_by_labels s labels = Some ref'"
  shows "insert_with_ref ref labels s = (Inr False, s)"
proof -
  have "ref' \<noteq> ref" using assms by (auto simp: store_inv_def)
  moreover have "(if unat (ref - 1) < length (ss_by_ref s) then ss_by_ref s ! unat (ref - 1) else None) = None"
    if "ref \<noteq> 0"
    using that assms(2) by (auto simp: store_get_def slot_get_def ref_minus split: if_splits)
  ultimately show ?thesis
    using assms(3) by (simp add: insert_with_ref_def)
qed

lemma store_put_inv:
  assumes "store_inv s" "store_get ref s = Some ms" "ms_ref ms' = ms_ref ms" "ms_labels ms' = ms_labels ms"
  shows "store_inv (store_put ref ms' s)"
proof -
  have get: "store_get r (store_put ref ms' s) = (if r = ref then Some ms' else store_get r s)" for r
    using store_put_get [of ref s r ms'] assms(2) by simp
  have "ss_by_labels s l = Some r \<longleftrightarrow> (\<exists>m. store_get r (store_put ref ms' s) = Some m \<and> ms_labels m = l)" for l r
    using assms unfolding get by (auto simp: store_inv_def)
  moreover have "ms_ref m = r" if "store_get r (store_put ref ms' s) = Some m" for r m
    using that assms get [of r] by (auto simp: store_inv_def split: if_splits)
  ultimately show ?thesis
    using assms(1) by (simp add: store_inv_def) (simp add: store_put_def)
qed

text \<open>The order of \<open>all_series\<close> is the order of the references.\<close>

lemma map_filter_nth:
  "x \<in> set (List.map_filter (\<lambda>x. x) xs) \<longleftrightarrow> (\<exists>i < length xs. xs ! i = Some x)"
proof -
  have "x \<in> set (List.map_filter (\<lambda>x. x) xs) \<longleftrightarrow> Some x \<in> set xs"
    by (force simp: List.map_filter_def)
  then show ?thesis by (simp add: in_set_conv_nth)
qed

lemma all_series_set:
  "store_inv s \<Longrightarrow> ms \<in> set (all_series s) \<longleftrightarrow> (\<exists>ref. store_get ref s = Some ms)"
proof -
  assume inv: "store_inv s"
  have "\<exists>ref. store_get ref s = Some ms" if i: "i < length (ss_by_ref s)" "ss_by_ref s ! i = Some ms" for i
  proof -
    have "i + 1 < 2 ^ 64"
      using i(1) inv by (simp add: store_inv_def max_slots_def)
    then have "unat (word_of_nat (i + 1) :: u64) = i + 1"
      by (simp only: unat_of_nat) simp
    then show ?thesis
      using i by (intro exI [of _ "word_of_nat (i + 1)"]) (auto simp: store_get_Some)
  qed
  moreover have "\<exists>i < length (ss_by_ref s). ss_by_ref s ! i = Some ms" if "store_get ref s = Some ms" for ref
    using that ref_pos [of ref] by (intro exI [of _ "unat ref - 1"]) (auto simp: store_get_Some)
  ultimately show ?thesis
    by (auto simp: all_series_def map_filter_nth)
qed

section \<open>The interface to the head\<close>

locale series_index =
  fixes inv :: "'s \<Rightarrow> bool"
    and lookup :: "u64 \<Rightarrow> 's \<Rightarrow> MemSeries option"
    and ref_of :: "'s \<Rightarrow> Labels \<Rightarrow> u64 option"
    and put :: "u64 \<Rightarrow> MemSeries \<Rightarrow> 's \<Rightarrow> 's"
  assumes agree: "inv s \<Longrightarrow> ref_of s l = Some r \<longleftrightarrow> (\<exists>ms. lookup r s = Some ms \<and> ms_labels ms = l)"
    and lookup_ref: "inv s \<Longrightarrow> lookup r s = Some ms \<Longrightarrow> ms_ref ms = r"
    and lookup_put: "lookup r s = Some ms \<Longrightarrow> lookup r' (put r ms' s) = (if r' = r then Some ms' else lookup r' s)"
    and put_inv: "inv s \<Longrightarrow> lookup r s = Some ms \<Longrightarrow> ms_ref ms' = ms_ref ms \<Longrightarrow> ms_labels ms' = ms_labels ms \<Longrightarrow>
      inv (put r ms' s)"
begin

lemma labels_unique:
  "inv s \<Longrightarrow> lookup r s = Some a \<Longrightarrow> lookup r' s = Some b \<Longrightarrow> ms_labels a = ms_labels b \<Longrightarrow> r = r' \<and> a = b"
  by (metis agree option.inject)

text \<open>The abstract content of a store: labels and samples by reference.\<close>

definition holds :: "'s \<Rightarrow> (u64 \<Rightarrow> (Labels \<times> sample list) option) \<Rightarrow> bool" where
  "holds s f \<longleftrightarrow> inv s \<and>
     (\<forall>r. rel_option (\<lambda>ms (l, xs). ms_labels ms = l \<and> ms_inv ms xs) (lookup r s) (f r))"

lemma holds_lookup:
  "holds s f \<Longrightarrow> f r = Some (l, xs) \<Longrightarrow> \<exists>ms. lookup r s = Some ms \<and> ms_labels ms = l \<and> ms_ref ms = r \<and> ms_inv ms xs"
proof -
  assume h: "holds s f" and f: "f r = Some (l, xs)"
  from h have "rel_option (\<lambda>ms (l, xs). ms_labels ms = l \<and> ms_inv ms xs) (lookup r s) (f r)" and inv: "inv s"
    by (simp_all add: holds_def)
  then show ?thesis using f by (cases "lookup r s") (auto dest: lookup_ref [OF inv])
qed

lemma holds_None: "holds s f \<Longrightarrow> f r = None \<longleftrightarrow> lookup r s = None"
proof -
  assume "holds s f"
  then have "rel_option (\<lambda>ms (l, xs). ms_labels ms = l \<and> ms_inv ms xs) (lookup r s) (f r)"
    by (simp add: holds_def)
  then show ?thesis by (cases "lookup r s"; cases "f r") auto
qed

lemma holds_ref_of: "holds s f \<Longrightarrow> ref_of s l = Some r \<longleftrightarrow> (\<exists>xs. f r = Some (l, xs))"
proof -
  assume h: "holds s f"
  have "rel_option (\<lambda>ms (l, xs). ms_labels ms = l \<and> ms_inv ms xs) (lookup r s) (f r)" and "inv s"
    using h by (auto simp: holds_def)
  then show ?thesis
    by (cases "lookup r s"; cases "f r") (auto simp: agree)
qed

lemma holds_append:
  assumes "holds s f" "f r = Some (l, xs)" "lookup r s = Some ms"
  shows "\<exists>ms'. ms_append t v ms = (if accepts xs t then Appended else Refused, ms') \<and>
     holds (put r ms' s) (f(r \<mapsto> (l, if accepts xs t then xs @ [(t, v)] else xs)))"
proof -
  have ms: "ms_labels ms = l" "ms_inv ms xs"
    using holds_lookup [OF assms(1,2)] assms(3) by auto
  obtain ms' where ms': "ms_append t v ms = (if accepts xs t then Appended else Refused, ms')"
    "ms_inv ms' (if accepts xs t then xs @ [(t, v)] else xs)" "ms_ref ms' = ms_ref ms" "ms_labels ms' = ms_labels ms"
    using ms_append_spec [OF ms(2), of t v] by blast
  have "inv s" using assms(1) by (simp add: holds_def)
  then have "holds (put r ms' s) (f(r \<mapsto> (l, if accepts xs t then xs @ [(t, v)] else xs)))"
    using assms ms ms' put_inv [OF _ assms(3) ms'(3,4)] lookup_put [OF assms(3), of _ ms']
    by (auto simp: holds_def)
  then show ?thesis using ms'(1) by blast
qed

end

interpretation store: series_index store_inv store_get ss_by_labels store_put
proof
  show "ss_by_labels s l = Some r \<longleftrightarrow> (\<exists>ms. store_get r s = Some ms \<and> ms_labels ms = l)"
    if "store_inv s" for s l r
    using that by (simp add: store_inv_def)
  show "ms_ref ms = r" if "store_inv s" "store_get r s = Some ms" for s r ms
    using that by (simp add: store_inv_def)
qed (simp_all add: store_put_get store_put_inv)

lemma store_holds_init: "store.holds SeriesStore_init (\<lambda>r. None)"
  using store_inv_init by (simp add: store.holds_def store_get_def slot_get_def SeriesStore_init_def)

lemma holds_extend:
  assumes "store.holds s f" "store_inv s'"
    and "\<And>r. store_get r s' = (if r = ref then Some (MemSeries_init ref labels) else store_get r s)"
  shows "store.holds s' (f(ref \<mapsto> (labels, [])))"
  using assms ms_inv_init [of ref labels] by (auto simp: store.holds_def MemSeries_init_def)

lemma get_or_create_holds:
  assumes holds: "store.holds s f" and res: "get_or_create labels s = (Inr (ref, fresh), s')"
  shows "if fresh then (\<forall>r xs. f r \<noteq> Some (labels, xs)) \<and> f ref = None \<and> ref \<noteq> 0 \<and>
           store.holds s' (f(ref \<mapsto> (labels, [])))
         else s' = s \<and> (\<exists>xs. f ref = Some (labels, xs))"
proof (cases "ss_by_labels s labels")
  case None
  have inv: "store_inv s" using holds by (simp add: store.holds_def)
  note new = get_or_create_new [OF inv None res]
  have "store_get ref s = None" "ref \<noteq> 0"
    using fresh_ref(1,2) [OF inv] new(2) by simp_all
  then show ?thesis
    using new(1) None store.holds_ref_of [OF holds, of labels] store.holds_None [OF holds]
      holds_extend [OF holds new(3,4)] by auto
next
  case (Some r)
  then show ?thesis
    using res get_or_create_found [OF Some] store.holds_ref_of [OF holds, of labels] by auto
qed

lemma insert_with_ref_holds:
  assumes holds: "store.holds s f" and new: "\<forall>r xs. f r \<noteq> Some (labels, xs)" "f ref = None" "ref \<noteq> 0"
    and small: "unat ref \<le> max_slots"
  shows "\<exists>s'. insert_with_ref ref labels s = (Inr True, s') \<and> store.holds s' (f(ref \<mapsto> (labels, [])))"
proof -
  have inv: "store_inv s" using holds by (simp add: store.holds_def)
  have "ss_by_labels s labels = None"
    using store.holds_ref_of [OF holds, of labels] new(1) by (cases "ss_by_labels s labels") auto
  moreover have "store_get ref s = None"
    using store.holds_None [OF holds] new(2) by simp
  ultimately obtain s' where "insert_with_ref ref labels s = (Inr True, s')" "store_inv s'"
    "\<forall>r. store_get r s' = (if r = ref then Some (MemSeries_init ref labels) else store_get r s)"
    using insert_with_ref_new [OF inv _ _ new(3), of labels] small
    by (cases "insert_with_ref ref labels s") (auto split: sum.splits)
  then show ?thesis
    using holds_extend [OF holds, of s' ref labels] by blast
qed

section \<open>Properties\<close>

text \<open>
  C26. References are unique and stable: asking the store for a label set returns a reference
  whose series has these labels; every series that existed keeps its reference and its content;
  the reference is new exactly if the label set was unknown; and asking again returns the same
  reference without creating anything.
\<close>

theorem series_refs_stable:
  assumes "store_inv s" and "get_or_create labels s = (Inr (ref, fresh), s')"
  shows "store_inv s' \<and> (\<exists>ms. store_get ref s' = Some ms \<and> ms_labels ms = labels \<and> ms_ref ms = ref) \<and>
     (\<forall>r ms. store_get r s = Some ms \<longrightarrow> store_get r s' = Some ms) \<and>
     (fresh \<longleftrightarrow> (\<forall>r ms. store_get r s = Some ms \<longrightarrow> ms_labels ms \<noteq> labels)) \<and>
     get_or_create labels s' = (Inr (ref, False), s')"
proof (cases "ss_by_labels s labels")
  case None
  note new = get_or_create_new [OF assms(1) None assms(2)]
  have "store_get ref s = None"
    using fresh_ref(2) [OF assms(1)] new(2) by simp
  moreover have "ms_labels ms \<noteq> labels" if "store_get r s = Some ms" for r ms
    using that store.agree [OF assms(1), of labels r] None by auto
  moreover have "get_or_create labels s' = (Inr (ref, False), s')"
    using new(5) by (intro get_or_create_found) simp
  ultimately show ?thesis
    using new by (auto simp: MemSeries_init_def)
next
  case (Some r)
  then have "s' = s" "ref = r" "\<not> fresh"
    using assms(2) get_or_create_found [OF Some] by auto
  then show ?thesis
    using Some assms store.agree [OF assms(1), of labels r] store.lookup_ref [OF assms(1), of r] by auto
qed

theorem series_refs_stable_witness:
  "\<exists>ref s'. get_or_create (mk_labels []) SeriesStore_init = (Inr (ref, True), s') \<and>
     get_or_create (mk_labels []) s' = (Inr (ref, False), s')"
proof -
  obtain s' where s': "get_or_create (mk_labels []) SeriesStore_init = (Inr (1, True), s')"
    by (simp add: get_or_create_def SeriesStore_init_def ensure_ref_slot_def max_slots_def)
  then show ?thesis
    using series_refs_stable [OF store_inv_init s'] by blast
qed

text \<open>
  C27. Replaying a series record, case by case. Reference zero is refused. A reference in use is
  accepted exactly with its own labels, and a label set known under another reference is refused; in
  these cases the store does not change. Otherwise, if the vector can hold the reference, a series
  without samples is created under it with these labels, the other series stay as they are, and the
  next reference to hand out is above it; beyond that size the call throws and changes nothing.
\<close>

theorem insert_with_ref_spec:
  assumes "store_inv s"
  shows "(ref = 0 \<longrightarrow> insert_with_ref ref labels s = (Inr False, s)) \<and>
     (\<forall>ms. store_get ref s = Some ms \<longrightarrow> insert_with_ref ref labels s = (Inr (ms_labels ms = labels), s)) \<and>
     (\<forall>r ms. r \<noteq> ref \<and> store_get r s = Some ms \<and> ms_labels ms = labels \<longrightarrow> insert_with_ref ref labels s = (Inr False, s)) \<and>
     (ref \<noteq> 0 \<and> store_get ref s = None \<and> (\<forall>r ms. store_get r s = Some ms \<longrightarrow> ms_labels ms \<noteq> labels) \<longrightarrow>
        (if unat ref \<le> max_slots
         then \<exists>s'. insert_with_ref ref labels s = (Inr True, s') \<and> store_inv s' \<and>
                store_get ref s' = Some (MemSeries_init ref labels) \<and> (\<forall>r. r \<noteq> ref \<longrightarrow> store_get r s' = store_get r s) \<and>
                ss_next_ref s' = max (ss_next_ref s) (ref + 1) \<and> unat (ref + 1) = unat ref + 1
         else insert_with_ref ref labels s = (Inl Vector_too_long, s)))"
proof (intro conjI impI allI)
  show "insert_with_ref ref labels s = (Inr False, s)" if "ref = 0"
    using that by (simp add: insert_with_ref_def)
  show "insert_with_ref ref labels s = (Inr (ms_labels ms = labels), s)" if "store_get ref s = Some ms" for ms
    by (rule insert_with_ref_same [OF that])
  show "insert_with_ref ref labels s = (Inr False, s)"
    if known: "r \<noteq> ref \<and> store_get r s = Some ms \<and> ms_labels ms = labels" for r ms
  proof (cases "store_get ref s")
    case None
    have "ss_by_labels s labels = Some r" using store.agree [OF assms, of labels r] known by blast
    then show ?thesis by (rule insert_with_ref_conflict [OF assms None])
  next
    case (Some ms')
    then have "ms_labels ms' \<noteq> labels" using store.labels_unique [OF assms Some, of r ms] known by auto
    then show ?thesis using insert_with_ref_same [OF Some, of labels] by simp
  qed
  assume new: "ref \<noteq> 0 \<and> store_get ref s = None \<and> (\<forall>r ms. store_get r s = Some ms \<longrightarrow> ms_labels ms \<noteq> labels)"
  then have "ss_by_labels s labels = None"
    using store.agree [OF assms, of labels] by (cases "ss_by_labels s labels") auto
  note ins = insert_with_ref_new [OF assms this, of ref]
  show "if unat ref \<le> max_slots
         then \<exists>s'. insert_with_ref ref labels s = (Inr True, s') \<and> store_inv s' \<and>
                store_get ref s' = Some (MemSeries_init ref labels) \<and> (\<forall>r. r \<noteq> ref \<longrightarrow> store_get r s' = store_get r s) \<and>
                ss_next_ref s' = max (ss_next_ref s) (ref + 1) \<and> unat (ref + 1) = unat ref + 1
         else insert_with_ref ref labels s = (Inl Vector_too_long, s)"
  proof (cases "unat ref \<le> max_slots")
    case True
    then have "unat (ref + 1) = unat ref + 1" by (simp add: max_slots_def unat_word_ariths)
    then show ?thesis using ins new True by (auto split: prod.splits sum.splits)
  next
    case False
    obtain res s' where run: "insert_with_ref ref labels s = (res, s')" by fastforce
    moreover have "res = Inl Vector_too_long" if "res = Inl e" for e using that by (cases e) simp
    ultimately show ?thesis using ins new False by (cases res) auto
  qed
qed

theorem insert_with_ref_spec_witness:
  "\<exists>s'. insert_with_ref 5 (mk_labels []) SeriesStore_init = (Inr True, s') \<and>
     store_get 5 s' = Some (MemSeries_init 5 (mk_labels [])) \<and> ss_next_ref s' = 6 \<and>
     insert_with_ref 5 (mk_labels []) s' = (Inr True, s') \<and> insert_with_ref 7 (mk_labels []) s' = (Inr False, s')"
proof -
  have none: "store_get r SeriesStore_init = None" for r
    by (simp add: store_get_def slot_get_def SeriesStore_init_def)
  have "unat (5 :: u64) \<le> max_slots" "ss_next_ref SeriesStore_init = 1"
    by (simp_all add: max_slots_def SeriesStore_init_def)
  then obtain s' where s': "insert_with_ref 5 (mk_labels []) SeriesStore_init = (Inr True, s')" "store_inv s'"
    "store_get 5 s' = Some (MemSeries_init 5 (mk_labels []))" "ss_next_ref s' = 6"
    using insert_with_ref_spec [OF store_inv_init, of 5 "mk_labels []"] none by (auto simp: max_def word_le_nat_alt)
  have five: "ms_labels (MemSeries_init 5 (mk_labels [])) = mk_labels []" by (simp add: MemSeries_init_def)
  have "insert_with_ref 5 (mk_labels []) s' = (Inr True, s')"
    using insert_with_ref_spec [OF s'(2), of 5 "mk_labels []", THEN conjunct2, THEN conjunct1, rule_format, OF s'(3)] five by simp
  moreover have "insert_with_ref 7 (mk_labels []) s' = (Inr False, s')"
    using insert_with_ref_spec [OF s'(2), of 7 "mk_labels []", THEN conjunct2, THEN conjunct2, THEN conjunct1, rule_format, of 5] s'(3) five
    by simp
  ultimately show ?thesis using s' by blast
qed

end
