(* ===== verification/Matcher.thy ===== *)
theory Matcher
  imports Labels
begin

text \<open>
  Label matchers (src/model/matcher.cpp, model/matcher.hpp): the four predicate kinds, with
  regular expressions anchored before compilation. The regular-expression engine is a pair of
  parameters: \<open>compile\<close>, which fails on a malformed pattern, and \<open>rmatch\<close>, the full match of
  \<open>std::regex_match\<close>. Shown: what each constructor's matcher accepts on a label set with
  the rule that an absent label is an empty one, and that the negative kinds are the complements
  of the positive ones.
\<close>

datatype MatchType = Eq | Neq | Re | Nre

record 're Matcher =
  m_type :: MatchType
  m_name :: string
  m_value :: string
  m_compiled :: "'re option"

datatype matcher_error = Invalid_argument

definition equal :: "string \<Rightarrow> string \<Rightarrow> 're Matcher" where
  "equal name val = \<lparr>m_type = Eq, m_name = name, m_value = val, m_compiled = None\<rparr>"

definition not_equal :: "string \<Rightarrow> string \<Rightarrow> 're Matcher" where
  "not_equal name val = \<lparr>m_type = Neq, m_name = name, m_value = val, m_compiled = None\<rparr>"

definition compile_anchored :: "(string \<Rightarrow> 're option) \<Rightarrow> string \<Rightarrow> matcher_error + 're" where
  "compile_anchored compile pattern =
     (case compile (''^('' @ pattern @ '')$'') of None \<Rightarrow> Inl Invalid_argument | Some re \<Rightarrow> Inr re)"

definition regex :: "(string \<Rightarrow> 're option) \<Rightarrow> string \<Rightarrow> string \<Rightarrow> matcher_error + 're Matcher" where
  "regex compile name pattern =
     (case compile_anchored compile pattern of
        Inl e \<Rightarrow> Inl e
      | Inr re \<Rightarrow> Inr \<lparr>m_type = Re, m_name = name, m_value = pattern, m_compiled = Some re\<rparr>)"

definition not_regex :: "(string \<Rightarrow> 're option) \<Rightarrow> string \<Rightarrow> string \<Rightarrow> matcher_error + 're Matcher" where
  "not_regex compile name pattern =
     (case compile_anchored compile pattern of
        Inl e \<Rightarrow> Inl e
      | Inr re \<Rightarrow> Inr \<lparr>m_type = Nre, m_name = name, m_value = pattern, m_compiled = Some re\<rparr>)"

definition regex_matches :: "('re \<Rightarrow> string \<Rightarrow> bool) \<Rightarrow> 're Matcher \<Rightarrow> string \<Rightarrow> bool" where
  "regex_matches rmatch m label_value =
     (case m_compiled m of None \<Rightarrow> False | Some re \<Rightarrow> rmatch re label_value)"

definition matches :: "('re \<Rightarrow> string \<Rightarrow> bool) \<Rightarrow> 're Matcher \<Rightarrow> string \<Rightarrow> bool" where
  "matches rmatch m label_value =
     (case m_type m of
        Eq \<Rightarrow> label_value = m_value m
      | Neq \<Rightarrow> label_value \<noteq> m_value m
      | Re \<Rightarrow> (case m_compiled m of None \<Rightarrow> False | Some re \<Rightarrow> rmatch re label_value)
      | Nre \<Rightarrow> (case m_compiled m of None \<Rightarrow> False | Some re \<Rightarrow> \<not> rmatch re label_value))"

text \<open>\<open>labels_match_all\<close> of the head: an absent label counts as the empty string.\<close>

definition value_or_empty :: "string option \<Rightarrow> string" where
  "value_or_empty v = (case v of None \<Rightarrow> [] | Some s \<Rightarrow> s)"

definition labels_match_all :: "('re \<Rightarrow> string \<Rightarrow> bool) \<Rightarrow> Labels \<Rightarrow> 're Matcher list \<Rightarrow> bool" where
  "labels_match_all rmatch labels matchers =
     list_all (\<lambda>m. matches rmatch m (value_or_empty (get labels (m_name m)))) matchers"

lemma labels_match_all_simps [simp]:
  "labels_match_all rm l []"
  "labels_match_all rm l (m # ms) \<longleftrightarrow>
     matches rm m (value_or_empty (get l (m_name m))) \<and> labels_match_all rm l ms"
  by (simp_all add: labels_match_all_def)

lemma matches_equal [simp]:
  "matches rm (equal n v) s \<longleftrightarrow> s = v" "matches rm (not_equal n v) s \<longleftrightarrow> s \<noteq> v"
  "m_name (equal n v) = n" "m_name (not_equal n v) = n"
  by (simp_all add: matches_def equal_def not_equal_def)

section \<open>Properties\<close>

text \<open>
  What the matchers accept: on a well-formed label set a literal matcher with the empty
  value accepts exactly the sets without a non-empty value for its name; the negated literal and
  regular-expression matchers accept exactly what the positive ones with the same arguments
  refuse; both regular-expression constructors fail on exactly the same patterns; and
  \<open>regex_matches\<close> is independent of the polarity.
\<close>

theorem matcher_semantics:
  "(labels_match_all rm l [equal n []] \<longleftrightarrow> get l n = None \<or> get l n = Some []) \<and>
   (labels_match_all rm l [not_equal n v] \<longleftrightarrow> \<not> labels_match_all rm l [equal n v]) \<and>
   (case (regex compile n p, not_regex compile n p) of
      (Inr m, Inr m') \<Rightarrow>
        (labels_match_all rm l [m'] \<longleftrightarrow> \<not> labels_match_all rm l [m]) \<and>
        (\<forall>s. regex_matches rm m s = matches rm m s \<and> regex_matches rm m' s = matches rm m s)
    | (Inl e, Inl e') \<Rightarrow> e = e' \<and> compile (''^('' @ p @ '')$'') = None
    | _ \<Rightarrow> False)"
  by (auto simp: value_or_empty_def regex_def not_regex_def compile_anchored_def matches_def equal_def not_equal_def
      regex_matches_def split: option.splits sum.splits)

end
