(* ===== verification/Segment.thy ===== *)
theory Segment
  imports WalPage "HOL-Library.AList"
begin

text \<open>
  The segment files of the write-ahead log (src/wal/segment_writer.cpp, segment_reader.cpp and
  their headers): numbered file names, a writer that frames records into the current file and
  rolls over to the next one, and a reader that walks all files in order. The operating system
  is a disk: a directory of regular files and the list of outcomes of the next system calls
  (success, short write, interruption, failure), after which every call succeeds; so every error
  path of the code is a path of the model. \<open>std::size_t\<close> counters are natural numbers.
\<close>

section \<open>File names\<close>

definition k_segment_name_width :: nat where
  "k_segment_name_width = 8"

definition digit :: "nat \<Rightarrow> char" where
  "digit d = char_of (48 + d)"

definition digit_value :: "char \<Rightarrow> nat option" where
  "digit_value c = (let n = of_char c in if 48 \<le> n \<and> n < (58 :: nat) then Some (n - 48) else None)"

function decimal :: "nat \<Rightarrow> string" where
  "decimal n = (if n < 10 then [digit n] else decimal (n div 10) @ [digit (n mod 10)])"
  by pat_completeness auto
termination by (relation "measure id") auto

declare decimal.simps [simp del]

text \<open>\<open>snprintf\<close> with \<open>%08zu\<close> into a buffer of 16 bytes.\<close>

definition format_segment_name :: "nat \<Rightarrow> string" where
  "format_segment_name idx =
     take 15 (replicate (k_segment_name_width - length (decimal idx)) (digit 0) @ decimal idx)"

fun parse_digits :: "string \<Rightarrow> nat \<Rightarrow> nat option" where
  "parse_digits [] v = Some v"
| "parse_digits (c # cs) v = (case digit_value c of None \<Rightarrow> None | Some d \<Rightarrow> parse_digits cs (10 * v + d))"

definition parse_segment_name :: "string \<Rightarrow> nat option" where
  "parse_segment_name name = (if length name \<noteq> k_segment_name_width then None else parse_digits name 0)"

section \<open>The disk\<close>

datatype io_result = Done | Partial nat | Interrupted | Failed nat

datatype errc = Os nat | Io_error | Not_a_directory

record Disk =
  dk_dir :: bool
  dk_files :: "(string \<times> bytes) list"
  dk_faults :: "io_result list"

definition k_EINTR :: nat where
  "k_EINTR = 4"

definition syscall :: "Disk \<Rightarrow> io_result \<times> Disk" where
  "syscall d = (case dk_faults d of [] \<Rightarrow> (Done, d) | r # rs \<Rightarrow> (r, d\<lparr>dk_faults := rs\<rparr>))"

text \<open>A call that either succeeds or sets \<open>errno\<close>.\<close>

definition sys_simple :: "Disk \<Rightarrow> (errc + unit) \<times> Disk" where
  "sys_simple d =
     (case syscall d of
        (Failed e, d') \<Rightarrow> (Inl (Os e), d')
      | (Interrupted, d') \<Rightarrow> (Inl (Os k_EINTR), d')
      | (_, d') \<Rightarrow> (Inr (), d'))"

definition file_append :: "string \<Rightarrow> bytes \<Rightarrow> Disk \<Rightarrow> Disk" where
  "file_append name bs d =
     (case map_of (dk_files d) name of
        None \<Rightarrow> d
      | Some old \<Rightarrow> d\<lparr>dk_files := AList.update name (old @ bs) (dk_files d)\<rparr>)"

definition file_create :: "string \<Rightarrow> Disk \<Rightarrow> Disk" where
  "file_create name d = d\<lparr>dk_files := AList.update name [] (dk_files d)\<rparr>"

lemma syscall_shorter: "syscall d = (r, d') \<Longrightarrow> r \<noteq> Done \<Longrightarrow> length (dk_faults d') < length (dk_faults d)"
  by (auto simp: syscall_def split: list.splits)

lemma file_append_faults [simp]: "dk_faults (file_append n bs d) = dk_faults d"
  by (simp add: file_append_def split: option.splits)

function write_all :: "string \<Rightarrow> bytes \<Rightarrow> Disk \<Rightarrow> (errc + unit) \<times> Disk" where
  "write_all fd data d =
     (if data = [] then (Inr (), d)
      else case syscall d of
        (Done, d') \<Rightarrow> (Inr (), file_append fd data d')
      | (Partial n, d') \<Rightarrow>
          let k = min n (length data)
          in if k = 0 then (Inl Io_error, d')
             else write_all fd (drop k data) (file_append fd (take k data) d')
      | (Interrupted, d') \<Rightarrow> write_all fd data d'
      | (Failed e, d') \<Rightarrow> (Inl (Os e), d'))"
  by pat_completeness auto
termination
  by (relation "measure (\<lambda>(fd, data, d). length (dk_faults d))")
    (auto dest!: sym [of "(_, _)"] syscall_shorter)

declare write_all.simps [simp del]

section \<open>The writer\<close>

definition k_default_segment_size :: nat where
  "k_default_segment_size = 128 * 1024 * 1024"

record SegmentWriter =
  sw_segment_size :: nat
  sw_seg_index :: nat
  sw_fd :: "string option"
  sw_pw :: PageWriter
  sw_flushed_bytes :: nat

definition open_new_segment :: "SegmentWriter \<Rightarrow> Disk \<Rightarrow> (errc + unit) \<times> SegmentWriter \<times> Disk" where
  "open_new_segment w d =
     (let path = format_segment_name (sw_seg_index w) in
      case sys_simple d of
        (Inl e, d') \<Rightarrow> (Inl e, w, d')
      | (Inr _, d') \<Rightarrow>
          (Inr (), w\<lparr>sw_fd := Some path, sw_pw := PageWriter_init, sw_flushed_bytes := 0\<rparr>,
           file_create path d'))"

text \<open>The loop over the directory: one past the largest index found, or zero.\<close>

definition next_index :: "(string \<times> bytes) list \<Rightarrow> nat" where
  "next_index files =
     fold (\<lambda>(name, _) idx. case parse_segment_name name of None \<Rightarrow> idx | Some i \<Rightarrow> max idx (i + 1)) files 0"

definition SegmentWriter_open :: "nat \<Rightarrow> Disk \<Rightarrow> (errc + SegmentWriter) \<times> Disk" where
  "SegmentWriter_open segment_size d =
     (case sys_simple d of
        (Inl e, d1) \<Rightarrow> (Inl e, d1)
      | (Inr _, d1) \<Rightarrow>
          let d2 = d1\<lparr>dk_dir := True\<rparr> in
          case sys_simple d2 of
            (Inl e, d3) \<Rightarrow> (Inl e, d3)
          | (Inr _, d3) \<Rightarrow>
              let w = \<lparr>sw_segment_size = segment_size, sw_seg_index = next_index (dk_files d3),
                       sw_fd = None, sw_pw = PageWriter_init, sw_flushed_bytes = 0\<rparr>
              in case open_new_segment w d3 of
                   (Inl e, w', d') \<Rightarrow> (Inl e, d')
                 | (Inr _, w', d') \<Rightarrow> (Inr w', d'))"

definition framed_size_upper_bound :: "nat \<Rightarrow> nat" where
  "framed_size_upper_bound body_len =
     (let body_per_page = k_page_size - k_record_header_size;
          num_fragments = (if body_len = 0 then 1 else (body_len + body_per_page - 1) div body_per_page)
      in num_fragments * k_record_header_size + body_len + (k_record_header_size - 1))"

definition flush_pending :: "SegmentWriter \<Rightarrow> Disk \<Rightarrow> (errc + unit) \<times> SegmentWriter \<times> Disk" where
  "flush_pending w d =
     (case sw_fd w of
        None \<Rightarrow> (Inr (), w, d)
      | Some fd \<Rightarrow>
          let buf = pw_buf (sw_pw w) in
          if sw_flushed_bytes w \<ge> length buf then (Inr (), w, d)
          else case write_all fd (drop (sw_flushed_bytes w) buf) d of
            (Inl e, d') \<Rightarrow> (Inl e, w, d')
          | (Inr _, d') \<Rightarrow> (Inr (), w\<lparr>sw_flushed_bytes := length buf\<rparr>, d'))"

definition sw_sync :: "SegmentWriter \<Rightarrow> Disk \<Rightarrow> (errc + unit) \<times> SegmentWriter \<times> Disk" where
  "sw_sync w d =
     (if sw_fd w = None then (Inr (), w, d)
      else case flush_pending w d of
        (Inl e, w', d') \<Rightarrow> (Inl e, w', d')
      | (Inr _, w', d') \<Rightarrow>
          (case sys_simple d' of
             (Inl e, d2) \<Rightarrow> (Inl e, w', d2)
           | (Inr _, d2) \<Rightarrow> (Inr (), w', d2)))"

definition cut :: "SegmentWriter \<Rightarrow> Disk \<Rightarrow> (errc + unit) \<times> SegmentWriter \<times> Disk" where
  "cut w d =
     (if sw_fd w = None then (Inr (), w, d)
      else
        let w1 = w\<lparr>sw_pw := close_page (sw_pw w)\<rparr> in
        case flush_pending w1 d of
          (Inl e, w2, d2) \<Rightarrow> (Inl e, w2, d2)
        | (Inr _, w2, d2) \<Rightarrow>
            (case sys_simple d2 of
               (Inl e, d3) \<Rightarrow> (Inl e, w2, d3)
             | (Inr _, d3) \<Rightarrow>
                 (case sys_simple d3 of
                    (Inl e, d4) \<Rightarrow> (Inl e, w2, d4)
                  | (Inr _, d4) \<Rightarrow>
                      open_new_segment (w2\<lparr>sw_fd := None, sw_seg_index := sw_seg_index w2 + 1\<rparr>) d4)))"

definition sw_log :: "bytes \<Rightarrow> SegmentWriter \<Rightarrow> Disk \<Rightarrow> (errc + unit) \<times> SegmentWriter \<times> Disk" where
  "sw_log body w d =
     (let already = sw_flushed_bytes w + (length (pw_buf (sw_pw w)) - sw_flushed_bytes w);
          upper_bound = framed_size_upper_bound (length body);
          (r, w1, d1) = (if already > 0 \<and> already + upper_bound > sw_segment_size w then cut w d
                         else (Inr (), w, d))
      in case r of
           Inl e \<Rightarrow> (Inl e, w1, d1)
         | Inr _ \<Rightarrow> flush_pending (w1\<lparr>sw_pw := log body (sw_pw w1)\<rparr>) d1)"

definition release_fd :: "SegmentWriter \<Rightarrow> string option \<times> SegmentWriter" where
  "release_fd w = (sw_fd w, w\<lparr>sw_fd := None, sw_flushed_bytes := 0, sw_pw := PageWriter_init\<rparr>)"

text \<open>
  The destructor: what is buffered is written as far as possible, errors are dropped. The move
  operations transfer the file; the object moved from has no file and an empty buffer. Moving
  into an object that has a file closes that file without writing what is buffered for it.
\<close>

definition SegmentWriter_destroy :: "SegmentWriter \<Rightarrow> Disk \<Rightarrow> Disk" where
  "SegmentWriter_destroy w d =
     (if sw_fd w = None then d
      else case flush_pending w d of
        (_, _, d1) \<Rightarrow> snd (sys_simple (snd (sys_simple d1))))"

definition SegmentWriter_move :: "SegmentWriter \<Rightarrow> SegmentWriter \<times> SegmentWriter" where
  "SegmentWriter_move other = (other, other\<lparr>sw_fd := None, sw_pw := PageWriter_init, sw_flushed_bytes := 0\<rparr>)"

definition SegmentWriter_assign :: "SegmentWriter \<Rightarrow> SegmentWriter \<Rightarrow> Disk \<Rightarrow> (SegmentWriter \<times> SegmentWriter) \<times> Disk" where
  "SegmentWriter_assign self other d =
     (SegmentWriter_move other, if sw_fd self = None then d else snd (sys_simple d))"

section \<open>The reader\<close>

datatype SegmentReadError = SegEndOfStream | DirectoryRead | SegmentOpen | CorruptMidStream | Crc
  | InvalidFraming | SegUnsupportedCompression

fun map_page_error :: "WalReadError \<Rightarrow> SegmentReadError" where
  "map_page_error EndOfStream = SegEndOfStream"
| "map_page_error TornRecord = SegEndOfStream"
| "map_page_error CrcMismatch = Crc"
| "map_page_error UnsupportedCompression = SegUnsupportedCompression"
| "map_page_error UnexpectedEnd = InvalidFraming"
| "map_page_error InvalidRecType = InvalidFraming"
| "map_page_error UnexpectedFirst = InvalidFraming"
| "map_page_error UnexpectedMiddle = InvalidFraming"

record SegmentReader =
  sr_paths :: "string list"
  sr_current_index :: nat
  sr_page_reader :: "PageReader option"

text \<open>Where reader and writer are, as a name in the directory; the reader's index is a position.\<close>

definition segment_count :: "SegmentReader \<Rightarrow> nat" where
  "segment_count r = length (sr_paths r)"

definition sr_current_segment_path :: "SegmentReader \<Rightarrow> string" where
  "sr_current_segment_path r =
     (if sr_current_index r \<ge> length (sr_paths r) then [] else sr_paths r ! sr_current_index r)"

definition sr_current_segment_index :: "SegmentReader \<Rightarrow> nat" where
  "sr_current_segment_index r = (if sr_current_index r < length (sr_paths r) then sr_current_index r else 0)"

definition sw_current_segment_path :: "SegmentWriter \<Rightarrow> string" where
  "sw_current_segment_path w = format_segment_name (sw_seg_index w)"

text \<open>The segments of a directory in the order of their numbers.\<close>

definition indexed :: "(string \<times> bytes) list \<Rightarrow> (nat \<times> string) list" where
  "indexed files =
     sort_key fst (List.map_filter (\<lambda>(name, _). map_option (\<lambda>i. (i, name)) (parse_segment_name name)) files)"

definition SegmentReader_open :: "Disk \<Rightarrow> (errc + SegmentReader) \<times> Disk" where
  "SegmentReader_open d =
     (if \<not> dk_dir d then (Inl Not_a_directory, d)
      else case sys_simple d of
        (Inl e, d') \<Rightarrow> (Inl e, d')
      | (Inr _, d') \<Rightarrow>
          (Inr \<lparr>sr_paths = map snd (indexed (dk_files d')), sr_current_index = 0, sr_page_reader = None\<rparr>, d'))"

definition load_current_segment :: "SegmentReader \<Rightarrow> Disk \<Rightarrow> (SegmentReadError + PageReader) \<times> Disk" where
  "load_current_segment r d =
     (case sys_simple d of
        (Inl _, d') \<Rightarrow> (Inl SegmentOpen, d')
      | (Inr _, d') \<Rightarrow>
          (case map_of (dk_files d') (sr_paths r ! sr_current_index r) of
             None \<Rightarrow> (Inl SegmentOpen, d')
           | Some bs \<Rightarrow> (Inr (PageReader_init bs), d')))"

definition sr_page :: "SegmentReader \<Rightarrow> Disk \<Rightarrow> (SegmentReadError + PageReader) \<times> Disk" where
  "sr_page r d =
     (case sr_page_reader r of Some p \<Rightarrow> (Inr p, d) | None \<Rightarrow> load_current_segment r d)"

function sr_next :: "SegmentReader \<Rightarrow> Disk \<Rightarrow> (SegmentReadError + bytes) \<times> SegmentReader \<times> Disk" where
  "sr_next r d =
     (if sr_current_index r \<ge> length (sr_paths r) then (Inl SegEndOfStream, r, d)
      else case sr_page r d of
        (Inl e, d') \<Rightarrow> (Inl e, r, d')
      | (Inr p, d') \<Rightarrow>
          (case page_next p of
             (Inr rec, p') \<Rightarrow> (Inr rec, r\<lparr>sr_page_reader := Some p'\<rparr>, d')
           | (Inl err, p') \<Rightarrow>
               let is_last_segment = (sr_current_index r + 1 = length (sr_paths r));
                   advanced = r\<lparr>sr_page_reader := None, sr_current_index := sr_current_index r + 1\<rparr>
               in if err = EndOfStream then sr_next advanced d'
                  else if err = TornRecord \<and> is_last_segment then sr_next advanced d'
                  else if err = TornRecord then (Inl CorruptMidStream, r\<lparr>sr_page_reader := Some p'\<rparr>, d')
                  else (Inl (map_page_error err), r\<lparr>sr_page_reader := Some p'\<rparr>, d')))"
  by pat_completeness auto
termination
  by (relation "measure (\<lambda>(r, d). length (sr_paths r) - sr_current_index r)") auto

declare sr_next.simps [simp del]

section \<open>Names and numbers\<close>

lemma digit_value_digit: "d < 10 \<Longrightarrow> digit_value (digit d) = Some d"
  by (simp add: digit_value_def digit_def Let_def)

lemma parse_digits_append:
  "parse_digits (xs @ ys) v = (case parse_digits xs v of None \<Rightarrow> None | Some u \<Rightarrow> parse_digits ys u)"
  by (induction xs arbitrary: v) (simp_all split: option.splits)

lemma parse_decimal: "parse_digits (decimal n) v = Some (v * 10 ^ length (decimal n) + n)"
proof (induction n arbitrary: v rule: decimal.induct)
  case (1 n)
  show ?case
  proof (cases "n < 10")
    case True
    then show ?thesis by (simp add: decimal.simps [of n] digit_value_digit)
  next
    case False
    have d: "decimal n = decimal (n div 10) @ [digit (n mod 10)]"
      using False by (simp add: decimal.simps [of n])
    have "parse_digits (decimal n) v = Some (10 * (v * 10 ^ length (decimal (n div 10)) + n div 10) + n mod 10)"
      unfolding d using "1.IH" [OF False, of v] by (simp add: parse_digits_append digit_value_digit)
    moreover have "10 * (v * 10 ^ length (decimal (n div 10)) + n div 10) + n mod 10
        = v * 10 ^ length (decimal n) + n"
      unfolding d by (simp add: algebra_simps)
    ultimately show ?thesis by simp
  qed
qed

lemma length_decimal: "n < 10 ^ k \<Longrightarrow> 0 < k \<Longrightarrow> length (decimal n) \<le> k"
proof (induction k arbitrary: n)
  case (Suc k)
  show ?case
  proof (cases "n < 10")
    case False
    then have "0 < k" using Suc.prems by (cases k) auto
    then have "length (decimal (n div 10)) \<le> k"
      using Suc.prems(1) by (intro Suc.IH) (simp_all add: less_mult_imp_div_less mult.commute)
    then show ?thesis using False by (simp add: decimal.simps [of n])
  qed (simp add: decimal.simps [of n])
qed simp

lemma parse_zeros: "parse_digits (replicate k (digit 0)) 0 = Some 0"
  by (induction k) (simp_all add: digit_value_digit)

lemma parse_format: "n < 10 ^ 8 \<Longrightarrow> parse_segment_name (format_segment_name n) = Some n"
proof -
  assume n: "n < 10 ^ 8"
  then have len: "length (decimal n) \<le> 8" by (rule length_decimal) simp
  let ?s = "replicate (8 - length (decimal n)) (digit 0) @ decimal n"
  have "format_segment_name n = ?s"
    using len by (simp add: format_segment_name_def k_segment_name_width_def)
  moreover have "parse_digits ?s 0 = Some n"
    by (simp add: parse_digits_append parse_zeros parse_decimal)
  ultimately show ?thesis
    using len by (simp add: parse_segment_name_def k_segment_name_width_def)
qed

lemma parse_digits_div: "parse_digits s v = Some x \<Longrightarrow> x div 10 ^ length s = v"
proof (induction s arbitrary: v)
  case (Cons c s)
  then obtain d where d: "digit_value c = Some d" "parse_digits s (10 * v + d) = Some x"
    by (auto split: option.splits)
  have "d < 10" using d(1) by (auto simp: digit_value_def Let_def split: if_splits)
  moreover have "x div 10 ^ length s = 10 * v + d" using Cons.IH [OF d(2)] .
  moreover have "x div 10 ^ length (c # s) = x div 10 ^ length s div 10"
    by (simp add: mult.commute flip: div_mult2_eq)
  ultimately show ?case by simp
qed simp

lemma digit_value_inject: "digit_value a = Some d \<Longrightarrow> digit_value b = Some d \<Longrightarrow> a = b"
  by (auto simp: digit_value_def Let_def split: if_splits) (metis char_of_char le_add_diff_inverse2)

lemma parse_digits_inject:
  "parse_digits s v = Some x \<Longrightarrow> parse_digits t w = Some x \<Longrightarrow> length s = length t \<Longrightarrow> v = w \<and> s = t"
proof (induction s arbitrary: v t w)
  case (Cons c s)
  then obtain b u where t: "t = b # u" by (cases t) auto
  obtain d where d: "digit_value c = Some d" "parse_digits s (10 * v + d) = Some x"
    using Cons.prems(1) by (auto split: option.splits)
  obtain e where e: "digit_value b = Some e" "parse_digits u (10 * w + e) = Some x"
    using Cons.prems(2) t by (auto split: option.splits)
  have "d < 10" "e < 10" using d(1) e(1) by (auto simp: digit_value_def Let_def split: if_splits)
  moreover have eq: "10 * v + d = 10 * w + e" and su: "s = u"
    using Cons.IH [OF d(2) e(2)] Cons.prems(3) t by simp_all
  ultimately have "v = w" by linarith
  moreover from this eq have "d = e" by simp
  ultimately show ?case
    using t d(1) e(1) su digit_value_inject by blast
qed auto

lemma parse_name_inject: "parse_segment_name a = Some i \<Longrightarrow> parse_segment_name b = Some i \<Longrightarrow> a = b"
  using parse_digits_inject [of a 0 i b 0] by (auto simp: parse_segment_name_def split: if_splits)

lemma next_index_fold:
  "n \<le> fold (\<lambda>(name, _) idx. case parse_segment_name name of None \<Rightarrow> idx | Some i \<Rightarrow> max idx (i + 1)) files n \<and>
   (\<forall>(name, c) \<in> set files. \<forall>i. parse_segment_name name = Some i \<longrightarrow>
      i < fold (\<lambda>(name, _) idx. case parse_segment_name name of None \<Rightarrow> idx | Some i \<Rightarrow> max idx (i + 1)) files n)"
proof (induction files arbitrary: n)
  case (Cons f files)
  obtain name c where f: "f = (name, c)" by fastforce
  show ?case
    using Cons.IH [of "case parse_segment_name name of None \<Rightarrow> n | Some i \<Rightarrow> max n (i + 1)"]
    by (auto simp: f split: option.splits)
qed simp

lemma next_index_fresh:
  "(name, c) \<in> set files \<Longrightarrow> parse_segment_name name = Some i \<Longrightarrow> i < next_index files"
  using next_index_fold [of 0 files] by (auto simp: next_index_def)

section \<open>The files of the log\<close>

definition number :: "string list \<Rightarrow> (nat \<times> string) list" where
  "number names = List.map_filter (\<lambda>name. map_option (\<lambda>i. (i, name)) (parse_segment_name name)) names"

lemma indexed_names: "indexed files = sort_key fst (number (map fst files))"
proof -
  have "List.map_filter (\<lambda>(name, _). map_option (\<lambda>i. (i, name)) (parse_segment_name name)) files
      = number (map fst files)"
    by (induction files) (auto simp: number_def map_filter_simps split: option.splits)
  then show ?thesis by (simp add: indexed_def)
qed

lemma number_append: "number (xs @ ys) = number xs @ number ys"
  by (induction xs) (auto simp: number_def map_filter_simps split: option.splits)

lemma number_set: "(i, n) \<in> set (number names) \<longleftrightarrow> n \<in> set names \<and> parse_segment_name n = Some i"
  by (induction names) (auto simp: number_def map_filter_simps split: option.splits)

lemma sort_key_snoc:
  "(\<And>y. y \<in> set xs \<Longrightarrow> f y \<le> f x) \<Longrightarrow> sort_key f (xs @ [x]) = sort_key f xs @ [x]"
proof (induction xs)
  case (Cons a xs)
  have "insort_key f a (ys @ [x]) = insort_key f a ys @ [x]" for ys
    using Cons.prems [of a] by (induction ys) auto
  then show ?case using Cons by simp
qed simp

text \<open>
  The directory holds the records \<open>parts\<close>, one list per numbered file, in the order of the
  numbers.
\<close>

definition files_hold :: "(string \<times> bytes) list \<Rightarrow> (nat \<times> string) list \<Rightarrow> bytes list list \<Rightarrow> bool" where
  "files_hold files idx parts \<longleftrightarrow>
     list_all2 (\<lambda>(i, n) bs. \<exists>c. map_of files n = Some c \<and> seg_content c bs) idx parts"

definition wal_holds :: "Disk \<Rightarrow> bytes list \<Rightarrow> bool" where
  "wal_holds d recs \<longleftrightarrow> dk_dir d \<and>
     (\<exists>parts. files_hold (dk_files d) (indexed (dk_files d)) parts \<and> concat parts = recs)"

lemma files_hold_cong:
  assumes "files_hold files idx parts" "\<And>i n. (i, n) \<in> set idx \<Longrightarrow> map_of files' n = map_of files n"
  shows "files_hold files' idx parts"
  using assms unfolding files_hold_def by (auto elim!: list.rel_mono_strong)

section \<open>Reading all segments\<close>

lemma sys_simple_ok: "dk_faults d = [] \<Longrightarrow> sys_simple d = (Inr (), d)"
  by (simp add: sys_simple_def syscall_def)

lemma sys_simple_disk: "sys_simple d = (r, d') \<Longrightarrow> dk_files d' = dk_files d \<and> dk_dir d' = dk_dir d"
  by (auto simp: sys_simple_def syscall_def split: list.splits io_result.splits)

definition sr_measure :: "SegmentReader \<Rightarrow> nat \<times> nat \<times> nat" where
  "sr_measure r = (length (sr_paths r) - sr_current_index r,
     (case sr_page_reader r of None \<Rightarrow> (1, 0) | Some p \<Rightarrow> (0, length (pr_buf p) - pr_offset p)))"

abbreviation sr_less :: "((nat \<times> nat \<times> nat) \<times> (nat \<times> nat \<times> nat)) set" where
  "sr_less \<equiv> less_than <*lex*> less_than <*lex*> less_than"

lemma sr_next_progress:
  "sr_next r d = (Inr rec, r', d') \<Longrightarrow> (sr_measure r', sr_measure r) \<in> sr_less"
proof (induction r d rule: sr_next.induct)
  case (1 r d)
  have lt: "sr_current_index r < length (sr_paths r)"
    using "1.prems" by (auto simp: sr_next.simps [of r d] split: if_splits)
  obtain p d1 where p: "sr_page r d = (Inr p, d1)"
    using "1.prems" lt by (auto simp: sr_next.simps [of r d] split: prod.splits sum.splits)
  obtain res p' where pn: "page_next p = (res, p')" by fastforce
  let ?adv = "r\<lparr>sr_page_reader := None, sr_current_index := sr_current_index r + 1\<rparr>"
  show ?case
  proof (cases res)
    case (Inr b)
    then have r': "r' = r\<lparr>sr_page_reader := Some p'\<rparr>"
      using "1.prems" lt p pn by (simp add: sr_next.simps [of r d])
    have "pr_buf p' = pr_buf p" "pr_offset p < pr_offset p'" "pr_offset p' \<le> length (pr_buf p)"
      using page_next_progress [of p b p'] pn Inr by simp_all
    then show ?thesis
      using p r' by (cases "sr_page_reader r") (auto simp: sr_measure_def sr_page_def)
  next
    case (Inl e)
    then have "sr_next ?adv d1 = (Inr rec, r', d')" "e = EndOfStream \<or> e = TornRecord \<and> sr_current_index r + 1 = length (sr_paths r)"
      using "1.prems" lt p pn by (auto simp: sr_next.simps [of r d] Let_def split: if_splits)
    then have "(sr_measure r', sr_measure ?adv) \<in> sr_less"
      using "1.IH" lt p pn Inl by (auto simp: not_le)
    moreover have "(sr_measure ?adv, sr_measure r) \<in> sr_less"
      using lt by (auto simp: sr_measure_def)
    ultimately show ?thesis
      using trans_lex_prod [OF trans_less_than trans_lex_prod [OF trans_less_than trans_less_than]]
      by (rule_tac transD)
  qed
qed

text \<open>The loop of a caller: records until the end or the first error.\<close>

function sr_read_all :: "SegmentReader \<Rightarrow> Disk \<Rightarrow> bytes list \<times> SegmentReadError" where
  "sr_read_all r d =
     (case sr_next r d of
        (Inl e, _) \<Rightarrow> ([], e)
      | (Inr rec, r', d') \<Rightarrow> let (recs, e) = sr_read_all r' d' in (rec # recs, e))"
  by pat_completeness auto
termination
  by (relation "inv_image sr_less (\<lambda>(r, d). sr_measure r)") (auto dest!: sym [of "(_, _)"] sr_next_progress)

declare sr_read_all.simps [simp del]

text \<open>Reading from an open segment to its end continues with the next one.\<close>

lemma sr_read_all_segment:
  assumes "read_records p = (bs, e)" "sr_current_index r < length (sr_paths r)"
  shows "sr_read_all (r\<lparr>sr_page_reader := Some p\<rparr>) d =
     (let advanced = r\<lparr>sr_page_reader := None, sr_current_index := sr_current_index r + 1\<rparr>;
          is_last = (sr_current_index r + 1 = length (sr_paths r))
      in if e = EndOfStream \<or> e = TornRecord \<and> is_last
         then (bs @ fst (sr_read_all advanced d), snd (sr_read_all advanced d))
         else (bs, if e = TornRecord then CorruptMidStream else map_page_error e))"
  using assms(1)
proof (induction p arbitrary: bs rule: read_records.induct)
  case (1 p)
  obtain res p' where pn: "page_next p = (res, p')" by fastforce
  let ?r = "r\<lparr>sr_page_reader := Some p\<rparr>"
  show ?case
  proof (cases res)
    case (Inr b)
    then obtain bs' where bs': "read_records p' = (bs', e)" "bs = b # bs'"
      using "1.prems" pn by (auto simp: read_records.simps [of p] split: prod.splits)
    have "sr_next ?r d = (Inr b, r\<lparr>sr_page_reader := Some p'\<rparr>, d)"
      using assms(2) pn Inr by (simp add: sr_next.simps [of ?r d] sr_page_def)
    then show ?thesis
      using "1.IH" [OF pn [symmetric] Inr bs'(1)] bs'(2)
      by (simp add: sr_read_all.simps [of ?r d] Let_def split: prod.splits)
  next
    case (Inl err)
    then have e: "bs = []" "err = e"
      using "1.prems" pn by (simp_all add: read_records.simps [of p])
    let ?adv = "r\<lparr>sr_page_reader := None, sr_current_index := sr_current_index r + 1\<rparr>"
    have "sr_next ?r d =
        (if e = EndOfStream \<or> e = TornRecord \<and> sr_current_index r + 1 = length (sr_paths r) then sr_next ?adv d
         else (Inl (if e = TornRecord then CorruptMidStream else map_page_error e), r\<lparr>sr_page_reader := Some p'\<rparr>, d))"
      using assms(2) pn Inl e(2) by (simp add: sr_next.simps [of ?r d] sr_page_def Let_def)
    then show ?thesis
      using e(1) sr_read_all.simps [of ?r d] sr_read_all.simps [of ?adv d] by (auto simp: Let_def split: prod.splits sum.splits)
  qed
qed

lemma sr_read_all_load:
  assumes "dk_faults d = []" "sr_page_reader r = None" "sr_current_index r < length (sr_paths r)"
    and "map_of (dk_files d) (sr_paths r ! sr_current_index r) = Some c"
  shows "sr_read_all r d = sr_read_all (r\<lparr>sr_page_reader := Some (PageReader_init c)\<rparr>) d"
proof -
  have "sr_page r d = (Inr (PageReader_init c), d)"
    using assms by (simp add: sr_page_def load_current_segment_def sys_simple_ok)
  then have "sr_next r d = sr_next (r\<lparr>sr_page_reader := Some (PageReader_init c)\<rparr>) d"
    using assms(3) by (subst (1 2) sr_next.simps) (simp add: sr_page_def Let_def split: prod.splits sum.splits)
  then show ?thesis
    by (subst (1 2) sr_read_all.simps) simp
qed

lemma sr_read_all_files:
  assumes "dk_faults d = []" "sr_page_reader r = None"
    and "list_all2 (\<lambda>n bs. \<exists>c. map_of (dk_files d) n = Some c \<and> seg_content c bs)
          (take k (drop (sr_current_index r) (sr_paths r))) parts"
    and "sr_current_index r + k \<le> length (sr_paths r)"
  shows "sr_read_all r d =
     (let r' = r\<lparr>sr_current_index := sr_current_index r + k\<rparr>
      in (concat parts @ fst (sr_read_all r' d), snd (sr_read_all r' d)))"
  using assms(2-4)
proof (induction k arbitrary: r parts)
  case (Suc k)
  let ?i = "sr_current_index r"
  have lt: "?i < length (sr_paths r)" using Suc.prems(3) by simp
  have "drop ?i (sr_paths r) = (sr_paths r ! ?i) # drop (Suc ?i) (sr_paths r)"
    using lt by (simp add: Cons_nth_drop_Suc)
  then obtain bs parts' c where parts: "parts = bs # parts'"
    and c: "map_of (dk_files d) (sr_paths r ! ?i) = Some c" "seg_content c bs"
    and rest: "list_all2 (\<lambda>n bs. \<exists>c. map_of (dk_files d) n = Some c \<and> seg_content c bs)
        (take k (drop (Suc ?i) (sr_paths r))) parts'"
    using Suc.prems(2) by (auto simp: list_all2_Cons1)
  let ?adv = "r\<lparr>sr_page_reader := None, sr_current_index := ?i + 1\<rparr>"
  have "sr_read_all r d = (bs @ fst (sr_read_all ?adv d), snd (sr_read_all ?adv d))"
    using sr_read_all_load [OF assms(1) Suc.prems(1) lt c(1)]
      sr_read_all_segment [OF read_records_segment [OF c(2)] lt, of d] by (simp add: Let_def)
  moreover have "?adv\<lparr>sr_current_index := ?i + Suc k\<rparr> = r\<lparr>sr_current_index := ?i + Suc k\<rparr>"
    using Suc.prems(1) by simp
  ultimately show ?case
    using Suc.IH [of ?adv parts'] rest Suc.prems(3) parts by (simp add: Let_def)
qed (auto simp: Let_def)

lemma sr_read_all_end:
  "sr_current_index r = length (sr_paths r) \<Longrightarrow> sr_read_all r d = ([], SegEndOfStream)"
  by (simp add: sr_read_all.simps sr_next.simps)

lemma files_hold_paths:
  "files_hold files idx parts \<Longrightarrow>
     list_all2 (\<lambda>n bs. \<exists>c. map_of files n = Some c \<and> seg_content c bs) (map snd idx) parts"
  unfolding files_hold_def by (auto simp: list.rel_map elim!: list.rel_mono_strong)

lemma wal_read:
  assumes "wal_holds d recs" "dk_faults d = []"
  shows "\<exists>r. SegmentReader_open d = (Inr r, d) \<and> sr_read_all r d = (recs, SegEndOfStream)"
proof -
  obtain parts where parts: "files_hold (dk_files d) (indexed (dk_files d)) parts" "concat parts = recs"
    using assms(1) by (auto simp: wal_holds_def)
  let ?r = "\<lparr>sr_paths = map snd (indexed (dk_files d)), sr_current_index = 0, sr_page_reader = None\<rparr>"
  have "SegmentReader_open d = (Inr ?r, d)"
    using assms by (simp add: SegmentReader_open_def wal_holds_def sys_simple_ok)
  moreover have "sr_read_all ?r d = (recs, SegEndOfStream)"
    using sr_read_all_files [OF assms(2), of ?r "length (sr_paths ?r)" parts] files_hold_paths [OF parts(1)]
      parts(2) sr_read_all_end by (simp add: Let_def)
  ultimately show ?thesis by blast
qed

section \<open>The writer keeps the log\<close>

lemma map_of_file_append:
  "map_of (dk_files d) fd = Some old \<Longrightarrow>
     map_of (dk_files (file_append fd bs d)) = (map_of (dk_files d))(fd \<mapsto> old @ bs) \<and>
     map fst (dk_files (file_append fd bs d)) = map fst (dk_files d) \<and>
     dk_dir (file_append fd bs d) = dk_dir d"
proof -
  assume old: "map_of (dk_files d) fd = Some old"
  then have "fd \<in> set (map fst (dk_files d))"
    using map_of_SomeD [OF old] by force
  then show ?thesis
    using old by (simp add: file_append_def AList.update_conv' AList.update_keys)
qed

lemma syscall_disk: "syscall d = (r, d') \<Longrightarrow> dk_files d' = dk_files d \<and> dk_dir d' = dk_dir d"
  by (auto simp: syscall_def split: list.splits)

text \<open>
  If \<open>write_all\<close> reports success, everything was appended, whatever short writes and
  interruptions happened on the way.
\<close>

lemma write_all_ok:
  "write_all fd data d = (Inr (), d') \<Longrightarrow> map_of (dk_files d) fd = Some old \<Longrightarrow>
     map_of (dk_files d') = (map_of (dk_files d))(fd \<mapsto> old @ data) \<and>
     map fst (dk_files d') = map fst (dk_files d) \<and> dk_dir d' = dk_dir d"
proof (induction fd data d arbitrary: old rule: write_all.induct)
  case (1 fd data d)
  obtain r d1 where sys: "syscall d = (r, d1)" by fastforce
  note disk = syscall_disk [OF sys]
  show ?case
  proof (cases "data = []")
    case True
    then show ?thesis using "1.prems" by (auto simp: write_all.simps [of fd "[]" d] fun_upd_idem_iff)
  next
    case ne: False
    show ?thesis
    proof (cases r)
      case Done
      then show ?thesis
        using "1.prems" ne sys disk map_of_file_append [of d1 fd old data]
        by (simp add: write_all.simps [of fd data d])
    next
      case (Partial n)
      let ?k = "min n (length data)" and ?d2 = "file_append fd (take (min n (length data)) data) d1"
      have k: "?k \<noteq> 0" and w: "write_all fd (drop ?k data) ?d2 = (Inr (), d')"
        using "1.prems"(1) ne sys Partial by (auto simp: write_all.simps [of fd data d] Let_def split: if_splits)
      have d2: "map_of (dk_files ?d2) = (map_of (dk_files d))(fd \<mapsto> old @ take ?k data)"
        "map fst (dk_files ?d2) = map fst (dk_files d)" "dk_dir ?d2 = dk_dir d"
        using map_of_file_append [of d1 fd old "take ?k data"] disk "1.prems"(2) by simp_all
      show ?thesis
        using "1.IH"(1) [OF ne sys [symmetric] Partial refl k w, of "old @ take ?k data"] d2
        by (auto simp: fun_eq_iff)
    next
      case Interrupted
      then show ?thesis
        using "1.IH"(2) [OF ne sys [symmetric] Interrupted] "1.prems" ne sys disk
        by (simp add: write_all.simps [of fd data d])
    next
      case (Failed e)
      then show ?thesis using "1.prems"(1) ne sys by (simp add: write_all.simps [of fd data d])
    qed
  qed
qed

text \<open>
  A writer whose calls all succeeded: its file is the last numbered one and holds what its page
  writer holds; the files before it are complete segments.
\<close>

definition writer_holds :: "SegmentWriter \<Rightarrow> Disk \<Rightarrow> bytes list \<Rightarrow> bool" where
  "writer_holds w d recs \<longleftrightarrow> dk_dir d \<and>
     (\<exists>front parts cur name.
        name = format_segment_name (sw_seg_index w) \<and> sw_fd w = Some name \<and>
        indexed (dk_files d) = front @ [(sw_seg_index w, name)] \<and>
        (\<forall>(i, n) \<in> set front. n \<noteq> name) \<and> (\<forall>(n, c) \<in> set (dk_files d). \<forall>i. parse_segment_name n = Some i \<longrightarrow> i \<le> sw_seg_index w) \<and>
        files_hold (dk_files d) front parts \<and>
        log_all_ok cur PageWriter_init \<and> sw_pw w = log_all cur PageWriter_init \<and>
        sw_flushed_bytes w = length (pw_buf (sw_pw w)) \<and>
        map_of (dk_files d) name = Some (pw_buf (sw_pw w)) \<and>
        recs = concat parts @ cur)"

lemma writer_holds_wal: "writer_holds w d recs \<Longrightarrow> wal_holds d recs"
proof -
  assume "writer_holds w d recs"
  then obtain front parts cur name where *: "dk_dir d" "indexed (dk_files d) = front @ [(sw_seg_index w, name)]"
    "files_hold (dk_files d) front parts" "log_all_ok cur PageWriter_init" "sw_pw w = log_all cur PageWriter_init"
    "map_of (dk_files d) name = Some (pw_buf (sw_pw w))" "recs = concat parts @ cur"
    unfolding writer_holds_def by blast
  then have "files_hold (dk_files d) (indexed (dk_files d)) (parts @ [cur])"
    by (auto simp: files_hold_def seg_content_def intro!: list_all2_appendI)
  then show ?thesis
    using *(1,7) by (auto simp: wal_holds_def intro!: exI [of _ "parts @ [cur]"])
qed

text \<open>A fresh segment after the last one.\<close>

lemma open_new_segment_ok:
  assumes res: "open_new_segment w d = (Inr (), w', d')" and dir: "dk_dir d"
    and idx: "sw_seg_index w < 10 ^ 8"
    and last: "\<And>n c i. (n, c) \<in> set (dk_files d) \<Longrightarrow> parse_segment_name n = Some i \<Longrightarrow> i < sw_seg_index w"
    and hold: "files_hold (dk_files d) (indexed (dk_files d)) parts"
  shows "writer_holds w' d' (concat parts) \<and> sw_seg_index w' = sw_seg_index w \<and>
     sw_segment_size w' = sw_segment_size w \<and> sw_pw w' = PageWriter_init"
proof -
  let ?n = "format_segment_name (sw_seg_index w)"
  obtain d1 where d1: "sys_simple d = (Inr (), d1)" "d' = file_create ?n d1"
    and w': "w' = w\<lparr>sw_fd := Some ?n, sw_pw := PageWriter_init, sw_flushed_bytes := 0\<rparr>"
    using res by (auto simp: open_new_segment_def Let_def split: prod.splits sum.splits)
  note disk = sys_simple_disk [OF d1(1)]
  have parse: "parse_segment_name ?n = Some (sw_seg_index w)"
    using parse_format [OF idx] .
  have fresh: "?n \<notin> set (map fst (dk_files d))"
    using last parse by fastforce
  have files: "map fst (dk_files d') = map fst (dk_files d) @ [?n]"
    "map_of (dk_files d') = (map_of (dk_files d))(?n \<mapsto> [])"
    using fresh disk by (auto simp: d1(2) file_create_def AList.update_keys AList.update_conv')
  have "number [?n] = [(sw_seg_index w, ?n)]"
    by (simp add: number_def map_filter_simps parse)
  then have "indexed (dk_files d') = sort_key fst (number (map fst (dk_files d)) @ [(sw_seg_index w, ?n)])"
    by (simp add: indexed_names files number_append)
  also have "\<dots> = indexed (dk_files d) @ [(sw_seg_index w, ?n)]"
    unfolding indexed_names
    by (rule sort_key_snoc) (use last number_set in \<open>fastforce intro: less_imp_le\<close>)
  finally have ind: "indexed (dk_files d') = indexed (dk_files d) @ [(sw_seg_index w, ?n)]" .
  have old: "n \<noteq> ?n" if "(i, n) \<in> set (indexed (dk_files d))" for i n
    using that fresh by (force simp: indexed_names number_set)
  then have old': "\<forall>(i, n) \<in> set (indexed (dk_files d)). n \<noteq> ?n" by blast
  have "files_hold (dk_files d') (indexed (dk_files d)) parts"
    by (rule files_hold_cong [OF hold]) (use old in \<open>auto simp: files(2)\<close>)
  moreover have "i \<le> sw_seg_index w" if "(n, c) \<in> set (dk_files d')" "parse_segment_name n = Some i" for n c i
  proof -
    have "n \<in> set (map fst (dk_files d'))" using that(1) by force
    then have "n = ?n \<or> n \<in> set (map fst (dk_files d))" unfolding files(1) by auto
    then show ?thesis using that(2) parse last by (auto intro: less_imp_le)
  qed
  moreover have "dk_dir d'" using dir disk by (simp add: d1(2) file_create_def)
  ultimately have "writer_holds w' d' (concat parts)"
    unfolding writer_holds_def using ind old' w' files(2)
    by (intro conjI exI [of _ "indexed (dk_files d)"] exI [of _ parts] exI [of _ "[] :: bytes list"] exI [of _ ?n])
      (auto simp: PageWriter_init_def)
  then show ?thesis using w' by simp
qed

text \<open>Flushing an unflushed tail brings file and page writer together again.\<close>

lemma flush_pending_ok:
  assumes res: "flush_pending w d = (Inr (), w', d')" and fd: "sw_fd w = Some name"
    and content: "map_of (dk_files d) name = Some (take (sw_flushed_bytes w) (pw_buf (sw_pw w)))"
    and le: "sw_flushed_bytes w \<le> length (pw_buf (sw_pw w))"
  shows "w' = w\<lparr>sw_flushed_bytes := length (pw_buf (sw_pw w))\<rparr> \<and>
     map_of (dk_files d') = (map_of (dk_files d))(name \<mapsto> pw_buf (sw_pw w)) \<and>
     map fst (dk_files d') = map fst (dk_files d) \<and> dk_dir d' = dk_dir d"
proof (cases "sw_flushed_bytes w = length (pw_buf (sw_pw w))")
  case True
  then show ?thesis
    using res fd content by (auto simp: flush_pending_def Let_def fun_upd_idem)
next
  case False
  let ?buf = "pw_buf (sw_pw w)" and ?k = "sw_flushed_bytes w"
  obtain d1 where "write_all name (drop ?k ?buf) d = (Inr (), d1)" "d' = d1"
    "w' = w\<lparr>sw_flushed_bytes := length ?buf\<rparr>"
    using res fd False le by (auto simp: flush_pending_def Let_def split: prod.splits sum.splits)
  then show ?thesis
    using write_all_ok [of name "drop ?k ?buf" d d1 "take ?k ?buf"] content by simp
qed

lemma files_hold_update:
  assumes "files_hold files front parts" "\<forall>(i, n) \<in> set front. n \<noteq> name"
    "map_of files' = (map_of files)(name \<mapsto> c)"
  shows "files_hold files' front parts"
  using assms by (intro files_hold_cong [OF assms(1)]) auto

lemma indexed_cong: "map fst files' = map fst files \<Longrightarrow> indexed files' = indexed files"
  by (simp add: indexed_names)

lemma names_cong:
  fixes files files' :: "(string \<times> bytes) list"
  assumes "map fst files' = map fst files"
  shows "(\<forall>(n, c) \<in> set files'. P n) \<longleftrightarrow> (\<forall>(n, c) \<in> set files. P n)"
proof -
  have "(\<forall>(n, c) \<in> set fs. P n) \<longleftrightarrow> (\<forall>n \<in> set (map fst fs). P n)" for fs :: "(string \<times> bytes) list"
    by force
  then show ?thesis using assms by metis
qed

text \<open>The page writer grew by \<open>new\<close> records and was flushed.\<close>

lemma writer_grow:
  assumes holds: "writer_holds w d recs" and pos: "log_ok body (sw_pw w)"
    and res: "flush_pending (w\<lparr>sw_pw := log body (sw_pw w)\<rparr>) d = (Inr (), w', d')"
  shows "writer_holds w' d' (recs @ [body])" "sw_seg_index w' = sw_seg_index w"
    "sw_segment_size w' = sw_segment_size w" "sw_pw w' = log body (sw_pw w)"
proof -
  obtain front parts cur name where *: "dk_dir d" "name = format_segment_name (sw_seg_index w)"
    "sw_fd w = Some name" "indexed (dk_files d) = front @ [(sw_seg_index w, name)]"
    "\<forall>(i, n) \<in> set front. n \<noteq> name"
    "\<forall>(n, c) \<in> set (dk_files d). \<forall>i. parse_segment_name n = Some i \<longrightarrow> i \<le> sw_seg_index w"
    "files_hold (dk_files d) front parts" "log_all_ok cur PageWriter_init"
    "sw_pw w = log_all cur PageWriter_init" "sw_flushed_bytes w = length (pw_buf (sw_pw w))"
    "map_of (dk_files d) name = Some (pw_buf (sw_pw w))" "recs = concat parts @ cur"
    using holds unfolding writer_holds_def by blast
  let ?w = "w\<lparr>sw_pw := log body (sw_pw w)\<rparr>"
  obtain s where s: "pw_buf (log body (sw_pw w)) = pw_buf (sw_pw w) @ s"
    using log_loop_extends unfolding log_def by blast
  have fl: "w' = ?w\<lparr>sw_flushed_bytes := length (pw_buf (sw_pw ?w))\<rparr>"
    "map_of (dk_files d') = (map_of (dk_files d))(name \<mapsto> pw_buf (sw_pw ?w))"
    "map fst (dk_files d') = map fst (dk_files d)" "dk_dir d' = dk_dir d"
    using flush_pending_ok [OF res, of name] *(3,10,11) s by simp_all
  have "log_all_ok (cur @ [body]) PageWriter_init" "sw_pw w' = log_all (cur @ [body]) PageWriter_init"
    using pos *(8,9) fl(1) by (simp_all add: log_all_append)
  moreover have "files_hold (dk_files d') front parts"
    using files_hold_update [OF *(7,5) fl(2)] .
  moreover have "\<forall>(n, c) \<in> set (dk_files d'). \<forall>i. parse_segment_name n = Some i \<longrightarrow> i \<le> sw_seg_index w"
    using *(6) names_cong [OF fl(3)] by simp
  ultimately show "writer_holds w' d' (recs @ [body])"
    unfolding writer_holds_def
    using *(1-5,12) fl indexed_cong [OF fl(3)]
    by (intro conjI exI [of _ front] exI [of _ parts] exI [of _ "cur @ [body]"] exI [of _ name]) simp_all
  show "sw_seg_index w' = sw_seg_index w" "sw_segment_size w' = sw_segment_size w"
    "sw_pw w' = log body (sw_pw w)" using fl(1) by simp_all
qed

lemma cut_ok:
  assumes holds: "writer_holds w d recs" and res: "cut w d = (Inr (), w', d')"
    and idx: "sw_seg_index w + 1 < 10 ^ 8"
  shows "writer_holds w' d' recs \<and> sw_seg_index w' = sw_seg_index w + 1 \<and>
    sw_segment_size w' = sw_segment_size w \<and> sw_pw w' = PageWriter_init"
proof -
  obtain front parts cur name where *: "dk_dir d" "name = format_segment_name (sw_seg_index w)"
    "sw_fd w = Some name" "indexed (dk_files d) = front @ [(sw_seg_index w, name)]"
    "\<forall>(i, n) \<in> set front. n \<noteq> name"
    "\<forall>(n, c) \<in> set (dk_files d). \<forall>i. parse_segment_name n = Some i \<longrightarrow> i \<le> sw_seg_index w"
    "files_hold (dk_files d) front parts" "log_all_ok cur PageWriter_init"
    "sw_pw w = log_all cur PageWriter_init" "sw_flushed_bytes w = length (pw_buf (sw_pw w))"
    "map_of (dk_files d) name = Some (pw_buf (sw_pw w))" "recs = concat parts @ cur"
    using holds unfolding writer_holds_def by blast
  let ?w1 = "w\<lparr>sw_pw := close_page (sw_pw w)\<rparr>"
  obtain w2 d2 d3 d4 where st: "flush_pending ?w1 d = (Inr (), w2, d2)" "sys_simple d2 = (Inr (), d3)"
    "sys_simple d3 = (Inr (), d4)"
    "open_new_segment (w2\<lparr>sw_fd := None, sw_seg_index := sw_seg_index w2 + 1\<rparr>) d4 = (Inr (), w', d')"
    using res *(3) by (auto simp: cut_def Let_def split: prod.splits sum.splits)
  obtain s where s: "pw_buf (close_page (sw_pw w)) = pw_buf (sw_pw w) @ s"
    by (cases "page_offset (sw_pw w) = 0") (auto simp: close_page_def Let_def put_def)
  have fl: "w2 = ?w1\<lparr>sw_flushed_bytes := length (pw_buf (sw_pw ?w1))\<rparr>"
    "map_of (dk_files d2) = (map_of (dk_files d))(name \<mapsto> pw_buf (sw_pw ?w1))"
    "map fst (dk_files d2) = map fst (dk_files d)" "dk_dir d2 = dk_dir d"
    using flush_pending_ok [OF st(1), of name] *(3,10,11) s by simp_all
  have d4: "dk_files d4 = dk_files d2" "dk_dir d4 = dk_dir d2"
    using sys_simple_disk [OF st(2)] sys_simple_disk [OF st(3)] by simp_all
  have "files_hold (dk_files d2) front parts"
    using files_hold_update [OF *(7,5) fl(2)] .
  then have "files_hold (dk_files d4) (indexed (dk_files d4)) (parts @ [cur])"
    using *(4,8,9) fl(2) indexed_cong [OF fl(3)] d4
    by (auto simp: files_hold_def seg_content_def intro!: list_all2_appendI)
  moreover have "i < sw_seg_index w + 1" if "(n, c) \<in> set (dk_files d4)" "parse_segment_name n = Some i" for n c i
    using that *(6) names_cong [OF fl(3), of "\<lambda>n. \<forall>i. parse_segment_name n = Some i \<longrightarrow> i \<le> sw_seg_index w"] d4
    by fastforce
  ultimately show ?thesis
    using open_new_segment_ok [OF st(4), of "parts @ [cur]"] *(1,12) fl(1,4) d4 idx by simp
qed

text \<open>Where a record goes: into a fresh segment, or behind the current ones.\<close>

definition rolls :: "bytes \<Rightarrow> SegmentWriter \<Rightarrow> bool" where
  "rolls body w \<longleftrightarrow> 0 < length (pw_buf (sw_pw w)) \<and>
     length (pw_buf (sw_pw w)) + framed_size_upper_bound (length body) > sw_segment_size w"

definition position_ok :: "bytes \<Rightarrow> SegmentWriter \<Rightarrow> bool" where
  "position_ok body w \<longleftrightarrow> (if rolls body w then sw_seg_index w + 1 < 10 ^ 8 else log_ok body (sw_pw w))"

lemma sw_log_ok:
  assumes holds: "writer_holds w d recs" and pos: "position_ok body w"
    and res: "sw_log body w d = (Inr (), w', d')"
  shows "writer_holds w' d' (recs @ [body])"
    "sw_seg_index w' = (if rolls body w then sw_seg_index w + 1 else sw_seg_index w)"
proof -
  have flushed: "sw_flushed_bytes w = length (pw_buf (sw_pw w))"
    using holds by (auto simp: writer_holds_def)
  have "writer_holds w' d' (recs @ [body]) \<and>
      sw_seg_index w' = (if rolls body w then sw_seg_index w + 1 else sw_seg_index w)"
  proof (cases "rolls body w")
    case True
    then obtain w1 d1 where c: "cut w d = (Inr (), w1, d1)"
      "flush_pending (w1\<lparr>sw_pw := log body (sw_pw w1)\<rparr>) d1 = (Inr (), w', d')"
      using res flushed by (auto simp: sw_log_def rolls_def Let_def split: prod.splits sum.splits if_splits)
    have w1: "writer_holds w1 d1 recs" "sw_seg_index w1 = sw_seg_index w + 1" "sw_pw w1 = PageWriter_init"
      using cut_ok [OF holds c(1)] pos True by (simp_all add: position_ok_def)
    moreover have "log_ok body (sw_pw w1)"
      using w1(3) by (simp add: log_ok_def page_offset_def PageWriter_init_def k_page_size_def k_record_header_size_def)
    ultimately show ?thesis
      using writer_grow(1,2) [OF w1(1) _ c(2)] True by simp
  next
    case False
    then have "flush_pending (w\<lparr>sw_pw := log body (sw_pw w)\<rparr>) d = (Inr (), w', d')"
      using res flushed by (auto simp: sw_log_def rolls_def Let_def split: if_splits)
    from writer_grow(1,2) [OF holds _ this] show ?thesis
      using pos False by (simp add: position_ok_def)
  qed
  then show "writer_holds w' d' (recs @ [body])"
    "sw_seg_index w' = (if rolls body w then sw_seg_index w + 1 else sw_seg_index w)" by blast+
qed

lemma writer_holds_disk:
  "writer_holds w d recs \<Longrightarrow> dk_files d' = dk_files d \<Longrightarrow> dk_dir d' = dk_dir d \<Longrightarrow> writer_holds w d' recs"
  by (simp add: writer_holds_def)

text \<open>Nothing is left to write when a writer that keeps the log is destroyed.\<close>

lemma destroy_holds: "writer_holds w d recs \<Longrightarrow> writer_holds w (SegmentWriter_destroy w d) recs"
proof -
  assume holds: "writer_holds w d recs"
  then have "flush_pending w d = (Inr (), w, d)"
    by (auto simp: writer_holds_def flush_pending_def Let_def)
  moreover have "dk_files (snd (sys_simple e)) = dk_files e \<and> dk_dir (snd (sys_simple e)) = dk_dir e" for e
    by (metis prod.collapse sys_simple_disk)
  ultimately show ?thesis
    using writer_holds_disk [OF holds] by (simp add: SegmentWriter_destroy_def)
qed

lemma sw_sync_ok:
  assumes holds: "writer_holds w d recs" and res: "sw_sync w d = (Inr (), w', d')"
  shows "writer_holds w' d' recs \<and> w' = w"
proof -
  obtain name where fd: "sw_fd w = Some name" "sw_flushed_bytes w = length (pw_buf (sw_pw w))"
    using holds by (auto simp: writer_holds_def)
  then have "flush_pending w d = (Inr (), w, d)"
    by (simp add: flush_pending_def)
  then have "w' = w" "sys_simple d = (Inr (), d')"
    using res fd by (auto simp: sw_sync_def split: prod.splits sum.splits)
  then show ?thesis
    using writer_holds_disk [OF holds] sys_simple_disk by auto
qed

lemma SegmentWriter_open_ok:
  assumes old: "wal_holds d recs \<or> dk_files d = [] \<and> recs = []"
    and res: "SegmentWriter_open seg_size d = (Inr w, d')" and idx: "next_index (dk_files d) < 10 ^ 8"
  shows "writer_holds w d' recs \<and> sw_segment_size w = seg_size \<and> sw_pw w = PageWriter_init"
proof -
  let ?w = "\<lambda>d. \<lparr>sw_segment_size = seg_size, sw_seg_index = next_index (dk_files d),
      sw_fd = None, sw_pw = PageWriter_init, sw_flushed_bytes = 0\<rparr>"
  obtain d1 d3 where st: "sys_simple d = (Inr (), d1)" "sys_simple (d1\<lparr>dk_dir := True\<rparr>) = (Inr (), d3)"
    "open_new_segment (?w d3) d3 = (Inr (), w, d')"
    using res by (auto simp: SegmentWriter_open_def Let_def split: prod.splits sum.splits)
  have d3: "dk_files d3 = dk_files d" "dk_dir d3"
    using sys_simple_disk [OF st(1)] sys_simple_disk [OF st(2)] by simp_all
  obtain parts where parts: "files_hold (dk_files d) (indexed (dk_files d)) parts" "concat parts = recs"
  proof (cases "dk_files d = []")
    case True
    then have "indexed (dk_files d) = []" by (simp add: indexed_def map_filter_simps)
    moreover from this have "recs = []" using old by (auto simp: wal_holds_def files_hold_def)
    ultimately show thesis using that [of "[]"] by (simp add: files_hold_def)
  next
    case False
    then show thesis using old that by (auto simp: wal_holds_def)
  qed
  then show ?thesis
    using open_new_segment_ok [OF st(3), of parts] d3 idx next_index_fresh [of _ _ "dk_files d"] by simp
qed

text \<open>A sequence of records through the writer; the run stops at the first error.\<close>

fun sw_log_all :: "bytes list \<Rightarrow> SegmentWriter \<Rightarrow> Disk \<Rightarrow> (errc + unit) \<times> SegmentWriter \<times> Disk" where
  "sw_log_all [] w d = (Inr (), w, d)"
| "sw_log_all (b # bs) w d =
     (case sw_log b w d of
        (Inl e, w', d') \<Rightarrow> (Inl e, w', d')
      | (Inr _, w', d') \<Rightarrow> sw_log_all bs w' d')"

fun positions_ok :: "bytes list \<Rightarrow> SegmentWriter \<Rightarrow> Disk \<Rightarrow> bool" where
  "positions_ok [] w d = True"
| "positions_ok (b # bs) w d =
     (position_ok b w \<and>
      (case sw_log b w d of (Inl e, _) \<Rightarrow> True | (Inr _, w', d') \<Rightarrow> positions_ok bs w' d'))"

lemma sw_log_all_ok:
  "writer_holds w d recs \<Longrightarrow> positions_ok bs w d \<Longrightarrow> sw_log_all bs w d = (Inr (), w', d') \<Longrightarrow>
     writer_holds w' d' (recs @ bs)"
proof (induction bs arbitrary: w d recs)
  case (Cons b bs)
  obtain w1 d1 where w1: "sw_log b w d = (Inr (), w1, d1)" "sw_log_all bs w1 d1 = (Inr (), w', d')"
    using Cons.prems(3) by (auto split: prod.splits sum.splits)
  then have "writer_holds w1 d1 (recs @ [b])"
    using sw_log_ok(1) [OF Cons.prems(1)] Cons.prems(2) by simp
  then show ?case
    using Cons.IH [of w1 d1 "recs @ [b]"] Cons.prems(2) w1 by simp
qed simp

section \<open>A torn last segment\<close>

lemma sr_read_all_cut:
  assumes "writer_holds w d recs" "name = format_segment_name (sw_seg_index w)"
    and "d' = d\<lparr>dk_files := AList.update name (take m (pw_buf (sw_pw w))) (dk_files d), dk_faults := []\<rparr>"
  shows "\<exists>r old cur. SegmentReader_open d' = (Inr r, d') \<and> recs = old @ cur \<and>
     sw_pw w = log_all cur PageWriter_init \<and>
     sr_read_all r d' = (old @ durable m cur PageWriter_init,
       if inside m (record_spans cur PageWriter_init) then InvalidFraming else SegEndOfStream)"
proof -
  obtain front parts cur where *: "dk_dir d" "indexed (dk_files d) = front @ [(sw_seg_index w, name)]"
    "\<forall>(i, n) \<in> set front. n \<noteq> name" "files_hold (dk_files d) front parts" "log_all_ok cur PageWriter_init"
    "sw_pw w = log_all cur PageWriter_init" "map_of (dk_files d) name = Some (pw_buf (sw_pw w))"
    "recs = concat parts @ cur"
    using assms(1,2) unfolding writer_holds_def by blast
  let ?c = "take m (pw_buf (sw_pw w))"
  have "name \<in> set (map fst (dk_files d))"
    using map_of_SomeD [OF *(7)] by force
  then have files: "map fst (dk_files d') = map fst (dk_files d)"
    "map_of (dk_files d') = (map_of (dk_files d))(name \<mapsto> ?c)" "dk_faults d' = []" "dk_dir d'"
    using assms(3) *(1) by (auto simp: AList.update_keys AList.update_conv')
  let ?r = "\<lparr>sr_paths = map snd front @ [name], sr_current_index = 0, sr_page_reader = None\<rparr>"
  let ?last = "?r\<lparr>sr_current_index := length front\<rparr>"
  have ind: "indexed (dk_files d') = front @ [(sw_seg_index w, name)]"
    using indexed_cong [OF files(1)] *(2) by simp
  then have "SegmentReader_open d' = (Inr ?r, d')"
    using files by (simp add: SegmentReader_open_def sys_simple_ok)
  moreover have hold: "files_hold (dk_files d') front parts"
    using files_hold_update [OF *(4,3) files(2)] .
  have "sr_read_all ?r d' = (concat parts @ fst (sr_read_all ?last d'), snd (sr_read_all ?last d'))"
    using sr_read_all_files [OF files(3), of ?r "length front" parts] files_hold_paths [OF hold] by (simp add: Let_def)
  moreover obtain e where e: "read_records (PageReader_init ?c) = (durable m cur PageWriter_init, e)" "e \<in> torn"
    "e = UnexpectedEnd \<longleftrightarrow> inside m (record_spans cur PageWriter_init)"
    using read_log_cut [OF *(5), of m] unfolding *(6) [symmetric] by (metis prod.collapse)
  moreover have "sr_read_all ?last d' = (durable m cur PageWriter_init,
      if e = UnexpectedEnd then InvalidFraming else SegEndOfStream)"
    using sr_read_all_load [OF files(3), of ?last ?c] sr_read_all_segment [OF e(1), of ?last d'] e(2) files(2)
    by (auto simp: sr_read_all_end Let_def nth_append)
  ultimately show ?thesis
    using *(6,8) e(3) by auto
qed

section \<open>Properties\<close>

text \<open>
  C7. The log survives in its segment files: after a writer was opened on a directory that holds
  the records \<open>recs\<close> (or on an empty one) and a list of records was logged, every call
  reporting success, a reader of the directory returns \<open>recs\<close> followed by the new records and
  then the end of the stream. Short writes and interrupted calls may happen on the way, and the
  records may be spread over any number of segments. The hypothesis on positions excludes the
  page position at which the framing breaks, and a segment number beyond eight digits.
\<close>

theorem segment_log_roundtrip:
  assumes "wal_holds d recs \<or> dk_files d = [] \<and> recs = []" and "next_index (dk_files d) < 10 ^ 8"
    and "SegmentWriter_open seg_size d = (Inr w, d1)"
    and "positions_ok bodies w d1" and "sw_log_all bodies w d1 = (Inr (), w', d2)"
  shows "\<exists>r. SegmentReader_open (d2\<lparr>dk_faults := []\<rparr>) = (Inr r, d2\<lparr>dk_faults := []\<rparr>) \<and>
     sr_read_all r (d2\<lparr>dk_faults := []\<rparr>) = (recs @ bodies, SegEndOfStream)"
proof -
  have "writer_holds w d1 recs"
    using SegmentWriter_open_ok [OF assms(1,3,2)] by simp
  then have "writer_holds w' d2 (recs @ bodies)"
    using sw_log_all_ok assms(4,5) by blast
  then have "writer_holds w' (d2\<lparr>dk_faults := []\<rparr>) (recs @ bodies)"
    by (rule writer_holds_disk) simp_all
  then show ?thesis by (intro wal_read writer_holds_wal) simp_all
qed

lemma fresh_writer_logs:
  "\<exists>w d1 w' d2. SegmentWriter_open k_default_segment_size \<lparr>dk_dir = False, dk_files = [], dk_faults = [Done, Done, Done, Interrupted, Partial 3]\<rparr> = (Inr w, d1) \<and>
     positions_ok [[1, 2, 3]] w d1 \<and> sw_log_all [[1, 2, 3]] w d1 = (Inr (), w', d2) \<and>
     sw_pw w' = log [1, 2, 3] PageWriter_init"
proof -
  let ?n = "format_segment_name 0"
  let ?w = "\<lparr>sw_segment_size = k_default_segment_size, sw_seg_index = 0, sw_fd = Some ?n,
      sw_pw = PageWriter_init, sw_flushed_bytes = 0\<rparr>"
  let ?d = "\<lparr>dk_dir = True, dk_files = [(?n, [])], dk_faults = [Interrupted, Partial 3]\<rparr>"
  have "SegmentWriter_open k_default_segment_size
      \<lparr>dk_dir = False, dk_files = [], dk_faults = [Done, Done, Done, Interrupted, Partial 3]\<rparr> = (Inr ?w, ?d)"
    by (simp add: SegmentWriter_open_def sys_simple_def syscall_def open_new_segment_def next_index_def file_create_def Let_def)
  moreover have "position_ok [1, 2, 3] ?w"
    by (simp add: position_ok_def rolls_def log_ok_def page_offset_def PageWriter_init_def
        k_page_size_def k_record_header_size_def)
  moreover have "pw_buf (log [1, 2, 3] PageWriter_init) = frame Full [1, 2, 3]"
    by (subst log_single) (simp_all add: page_offset_def PageWriter_init_def k_page_size_def k_record_header_size_def)
  then have buf: "pw_buf (log [1, 2, 3] PageWriter_init) \<noteq> []"
    by (simp add: frame_def header_bytes_def)
  have all: "\<exists>d2. write_all n data d = (Inr (), d2)" if "dk_faults d = []" for n data d
    using that by (cases "data = []") (simp_all add: write_all.simps syscall_def)
  have part: "\<exists>d2. write_all n data d = (Inr (), d2)" if "dk_faults d = [Partial 3]" "data \<noteq> []" for n data d
    using that all [of "file_append n (take (min 3 (length data)) data) (d\<lparr>dk_faults := []\<rparr>)" n "drop (min 3 (length data)) data"]
    by (subst write_all.simps) (simp add: syscall_def Let_def)
  have "\<exists>d2. write_all ?n (pw_buf (log [1, 2, 3] PageWriter_init)) ?d = (Inr (), d2)"
    using part [of "?d\<lparr>dk_faults := [Partial 3]\<rparr>", OF _ buf, of ?n] buf
    by (subst write_all.simps) (simp add: syscall_def)
  then have "\<exists>w' d2. sw_log [1, 2, 3] ?w ?d = (Inr (), w', d2) \<and> sw_pw w' = log [1, 2, 3] PageWriter_init"
    using buf by (auto simp: sw_log_def PageWriter_init_def flush_pending_def Let_def split: prod.splits)
  ultimately show ?thesis by auto
qed

theorem segment_log_roundtrip_witness:
  "\<exists>d2 r. sr_read_all r d2 = ([[1, 2, 3]], SegEndOfStream)"
proof -
  obtain w d1 w' d2 where *: "SegmentWriter_open k_default_segment_size
      \<lparr>dk_dir = False, dk_files = [], dk_faults = [Done, Done, Done, Interrupted, Partial 3]\<rparr> = (Inr w, d1)"
    "positions_ok [[1, 2, 3]] w d1" "sw_log_all [[1, 2, 3]] w d1 = (Inr (), w', d2)"
    using fresh_writer_logs by blast
  show ?thesis
    using segment_log_roundtrip [OF _ _ *, of "[]"] by (auto simp: next_index_def)
qed



text \<open>
  C40. When a torn tail is fatal. Take the directory of a writer whose calls succeeded, with any number of
  segments and records, none of them at the page position with exactly seven bytes left, and cut the last
  segment at any byte. If the cut lies inside a fragment, in its header or its data, the reader reports
  invalid framing, a fatal error, after the records that are complete; if it lies between fragments
  or in the padding of a page, even in the middle of a record, the reader ends normally after the
  same records.
\<close>

theorem segment_torn_fragment_fatal:
  assumes "writer_holds w d recs"
  shows "let d' = d\<lparr>dk_files := AList.update (format_segment_name (sw_seg_index w))
                     (take m (pw_buf (sw_pw w))) (dk_files d), dk_faults := []\<rparr> in
     \<exists>r old cur. SegmentReader_open d' = (Inr r, d') \<and> recs = old @ cur \<and>
       sw_pw w = log_all cur PageWriter_init \<and>
       sr_read_all r d' = (old @ durable m cur PageWriter_init,
         if inside m (record_spans cur PageWriter_init) then InvalidFraming else SegEndOfStream)"
  unfolding Let_def by (rule sr_read_all_cut [OF assms refl refl])

lemma spans_example: "record_spans [[1, 2, 3]] PageWriter_init = [(0, 10)]"
proof -
  obtain n w' where frag: "log_fragment [1, 2, 3] 0 PageWriter_init = (n, w')" by fastforce
  have start: "page_offset PageWriter_init = 0" "length (pw_buf PageWriter_init) = 0"
    by (simp_all add: page_offset_def PageWriter_init_def)
  then have pad: "pad_page PageWriter_init = PageWriter_init" "pad_len PageWriter_init = 0"
    by (simp_all add: pad_page_def pad_len_def k_page_size_def k_record_header_size_def)
  have n: "n = 3"
    using frag start by (auto simp: log_fragment_def Let_def pad page_room_for_header_def k_page_size_def k_record_header_size_def)
  have "length (pw_buf w') = 10"
    using arg_cong [OF log_fragment_layout(1) [OF frag], of length] n start pad by (simp add: k_record_header_size_def)
  then show ?thesis
    using frag n pad start by (simp add: fragment_spans.simps [of _ 0] fragment_spans.simps [of _ 3])
qed

theorem segment_torn_fragment_fatal_witness:
  "\<exists>w d. writer_holds w d [[1, 2, 3]] \<and>
     (\<forall>m. \<exists>r. sr_read_all r (d\<lparr>dk_files := AList.update (format_segment_name (sw_seg_index w))
         (take m (pw_buf (sw_pw w))) (dk_files d), dk_faults := []\<rparr>) =
       (if 10 \<le> m then [[1, 2, 3]] else [], if 0 < m \<and> m < 10 then InvalidFraming else SegEndOfStream))"
proof -
  obtain w d1 w' d2 where *: "SegmentWriter_open k_default_segment_size
      \<lparr>dk_dir = False, dk_files = [], dk_faults = [Done, Done, Done, Interrupted, Partial 3]\<rparr> = (Inr w, d1)"
    "positions_ok [[1, 2, 3]] w d1" "sw_log_all [[1, 2, 3]] w d1 = (Inr (), w', d2)"
    and pw: "sw_pw w' = log [1, 2, 3] PageWriter_init"
    using fresh_writer_logs by blast
  have "writer_holds w d1 []"
    using SegmentWriter_open_ok [OF _ *(1), of "[]"] by (simp add: next_index_def)
  then have w': "writer_holds w' d2 [[1, 2, 3]]"
    using sw_log_all_ok [OF _ *(2,3)] by fastforce
  have len: "length (pw_buf (log [1, 2, 3] PageWriter_init)) = 10"
    by (subst log_single) (simp_all add: page_offset_def PageWriter_init_def k_page_size_def k_record_header_size_def)
  have "\<exists>r. sr_read_all r (d2\<lparr>dk_files := AList.update (format_segment_name (sw_seg_index w'))
         (take m (pw_buf (sw_pw w'))) (dk_files d2), dk_faults := []\<rparr>) =
       (if 10 \<le> m then [[1, 2, 3]] else [], if 0 < m \<and> m < 10 then InvalidFraming else SegEndOfStream)" for m
  proof -
    obtain r old cur where r: "[[1, 2, 3]] = old @ cur" "sw_pw w' = log_all cur PageWriter_init"
      "sr_read_all r (d2\<lparr>dk_files := AList.update (format_segment_name (sw_seg_index w'))
         (take m (pw_buf (sw_pw w'))) (dk_files d2), dk_faults := []\<rparr>) = (old @ durable m cur PageWriter_init,
         if inside m (record_spans cur PageWriter_init) then InvalidFraming else SegEndOfStream)"
      using segment_torn_fragment_fatal [OF w', of m] unfolding Let_def by blast
    have "cur \<noteq> []" using r(2) pw len by (auto simp: PageWriter_init_def)
    then have cur: "cur = [[1, 2, 3]]" "old = []" using r(1) by (auto simp: Cons_eq_append_conv)
    show ?thesis using r(3) len unfolding cur spans_example by (intro exI [of _ r]) simp
  qed
  then show ?thesis using w' by blast
qed

text \<open>
  After the log was rolled over but the next segment file could not be created, the writer
  has no open file; every later \<open>log\<close> and \<open>sync\<close> then reports success and writes nothing.
\<close>

theorem segment_writer_without_file_drops_records:
  assumes "sw_fd w = None"
  shows "\<exists>w'. sw_log body w d = (Inr (), w', d) \<and> sw_fd w' = None \<and> sw_sync w' d = (Inr (), w', d)"
  using assms by (simp add: sw_log_def cut_def flush_pending_def sw_sync_def Let_def)

theorem segment_writer_without_file_drops_records_witness:
  "\<exists>w'. sw_log [1] \<lparr>sw_segment_size = 100, sw_seg_index = 1, sw_fd = None, sw_pw = PageWriter_init, sw_flushed_bytes = 0\<rparr>
       \<lparr>dk_dir = True, dk_files = [], dk_faults = []\<rparr> = (Inr (), w', \<lparr>dk_dir = True, dk_files = [], dk_faults = []\<rparr>)"
  using segment_writer_without_file_drops_records
    [of "\<lparr>sw_segment_size = 100, sw_seg_index = 1, sw_fd = None, sw_pw = PageWriter_init, sw_flushed_bytes = 0\<rparr>"
        "[1]" "\<lparr>dk_dir = True, dk_files = [], dk_faults = []\<rparr>"] by auto

text \<open>
  A write that fails after a part of the data was written leaves the count of flushed bytes
  where it was; the next flush writes the same bytes again behind that part, so the file no
  longer holds what the page writer holds.
\<close>

theorem segment_flush_retry_duplicates:
  assumes "sw_fd w = Some fd" and "map_of (dk_files d) fd = Some (take (sw_flushed_bytes w) (pw_buf (sw_pw w)))"
    and "dk_faults d = [Partial k, Failed e]" and "0 < k"
    and "sw_flushed_bytes w + k < length (pw_buf (sw_pw w))"
  shows "\<exists>d1 w' d2. flush_pending w d = (Inl (Os e), w, d1) \<and> flush_pending w d1 = (Inr (), w', d2) \<and>
     map_of (dk_files d2) fd = Some (take (sw_flushed_bytes w + k) (pw_buf (sw_pw w))
       @ drop (sw_flushed_bytes w) (pw_buf (sw_pw w))) \<and>
     map_of (dk_files d2) fd \<noteq> Some (pw_buf (sw_pw w'))"
proof -
  let ?buf = "pw_buf (sw_pw w)" and ?n = "sw_flushed_bytes w"
  let ?part = "file_append fd (take k (drop ?n ?buf)) (d\<lparr>dk_faults := [Failed e]\<rparr>)"
  let ?d1 = "?part\<lparr>dk_faults := []\<rparr>"
  have old: "map_of (dk_files ?d1) fd = Some (take (?n + k) ?buf)"
    using assms(2) map_of_file_append [of "d\<lparr>dk_faults := [Failed e]\<rparr>" fd "take ?n ?buf" "take k (drop ?n ?buf)"]
    by (simp add: take_add)
  have "write_all fd (drop k (drop ?n ?buf)) ?part = (Inl (Os e), ?d1)"
    using assms(5) by (simp add: write_all.simps syscall_def)
  then have "write_all fd (drop ?n ?buf) d = (Inl (Os e), ?d1)"
    using assms(3-5) by (simp add: write_all.simps [of fd "drop ?n ?buf" d] syscall_def min_def)
  then have fail: "flush_pending w d = (Inl (Os e), w, ?d1)"
    using assms(1,5) by (simp add: flush_pending_def)
  obtain d2 where d2: "write_all fd (drop ?n ?buf) ?d1 = (Inr (), d2)"
    using assms(5) by (simp add: write_all.simps [of fd "drop ?n ?buf"] syscall_def)
  then have "flush_pending w ?d1 = (Inr (), w\<lparr>sw_flushed_bytes := length ?buf\<rparr>, d2)"
    using assms(1,5) by (simp add: flush_pending_def)
  moreover have "map_of (dk_files d2) fd = Some (take (?n + k) ?buf @ drop ?n ?buf)"
    using write_all_ok [OF d2 old] by simp
  moreover have "take (?n + k) ?buf @ drop ?n ?buf \<noteq> ?buf"
    using assms(4,5) by (auto dest: arg_cong [of _ _ length])
  ultimately show ?thesis using fail by fastforce
qed

theorem segment_flush_retry_duplicates_witness:
  "\<exists>d2. map_of (dk_files d2) ''00000000'' = Some [1, 1, 2, 3] \<and>
     (\<exists>d1 w'. flush_pending \<lparr>sw_segment_size = 100, sw_seg_index = 0, sw_fd = Some ''00000000'',
         sw_pw = \<lparr>pw_buf = [1, 2, 3]\<rparr>, sw_flushed_bytes = 0\<rparr> d1 = (Inr (), w', d2))"
  using segment_flush_retry_duplicates
    [of "\<lparr>sw_segment_size = 100, sw_seg_index = 0, sw_fd = Some ''00000000'',
          sw_pw = \<lparr>pw_buf = [1, 2, 3]\<rparr>, sw_flushed_bytes = 0\<rparr>" "''00000000''"
        "\<lparr>dk_dir = True, dk_files = [(''00000000'', [])], dk_faults = [Partial 1, Failed 28]\<rparr>" 1 28]
  by auto

text \<open>
  The bound on the framed size that decides when to roll over is not an upper bound: at page
  offset 32760 a record of 32761 bytes needs one byte more.
\<close>

theorem framed_size_bound_exceeded:
  assumes "page_offset w = 32760" and "length body = 32761"
  shows "length (pw_buf (log body w)) = length (pw_buf w) + framed_size_upper_bound (length body) + 1"
proof -
  obtain n1 w1 where f1: "log_fragment body 0 w = (n1, w1)" by fastforce
  have n1: "n1 = 1"
    using f1 assms by (auto simp: log_fragment_def Let_def page_room_for_header_def page_offset_pad
        k_page_size_def k_record_header_size_def)
  have w1: "page_offset w1 = 0"
    using log_fragment_progress(2) [OF f1] n1 assms(2) by simp
  obtain n2 w2 where f2: "log_fragment body 1 w1 = (n2, w2)" by fastforce
  have n2: "n2 = 32760"
    using f2 assms(2) w1 by (auto simp: log_fragment_def Let_def page_room_for_header_def page_offset_pad
        k_page_size_def k_record_header_size_def)
  have "body \<noteq> []" using assms(2) by auto
  then have "log body w = log_loop body 32761 w2"
    using f1 f2 n1 n2 assms(2) by (simp add: log_def log_loop.simps [of body 0 w] log_loop.simps [of body "Suc 0" w1])
  then have "log body w = w2"
    using assms(2) \<open>body \<noteq> []\<close> by (simp add: log_loop_end)
  moreover have "pad_len w = 0" "pad_len w1 = 0"
    using assms(1) w1 by (simp_all add: pad_len_def k_page_size_def k_record_header_size_def)
  ultimately show ?thesis
    using log_fragment_layout(1) [OF f1] log_fragment_layout(1) [OF f2] n1 n2 assms(2)
    by (simp add: framed_size_upper_bound_def Let_def k_page_size_def k_record_header_size_def)
qed

theorem framed_size_bound_exceeded_witness:
  "length (pw_buf (log (replicate 32761 0) \<lparr>pw_buf = replicate 32760 0\<rparr>)) = 32760 + framed_size_upper_bound 32761 + 1"
  using framed_size_bound_exceeded [of "\<lparr>pw_buf = replicate 32760 0\<rparr>" "replicate 32761 0"]
  by (simp add: page_offset_def k_page_size_def)

end
