(* ===== verification/HeadRecovery.thy ===== *)
theory HeadRecovery
  imports Head
begin

text \<open>
  What the head recovers and what it returns. The content of a series store is described by
  the labels and samples of every reference; replaying a record changes this content as
  \<open>apply_record\<close> says. The invariant of a running head: the records of the log, applied to
  the empty content, give the committed content, and the pending records lead from there to the
  content in memory.
\<close>

type_synonym content = "u64 \<Rightarrow> (Labels \<times> sample list) option"

abbreviation no_series :: content where
  "no_series \<equiv> (\<lambda>r. None)"

section \<open>Replay on contents\<close>

definition labels_used :: "content \<Rightarrow> Labels \<Rightarrow> bool" where
  "labels_used f l \<longleftrightarrow> (\<exists>r xs. f r = Some (l, xs))"

fun apply_series :: "RefSeries list \<Rightarrow> content \<Rightarrow> content option" where
  "apply_series [] f = Some f"
| "apply_series (s # ss) f =
     (let l = to_model_labels (rs_labels s) in
      if rs_ref s = 0 \<or> max_slots < unat (rs_ref s) \<or> f (rs_ref s) \<noteq> None \<or> labels_used f l then None
      else apply_series ss (f(rs_ref s \<mapsto> (l, []))))"

fun apply_samples :: "RefSample list \<Rightarrow> content \<Rightarrow> content option" where
  "apply_samples [] f = Some f"
| "apply_samples (s # ss) f =
     (case f (sm_ref s) of
        None \<Rightarrow> None
      | Some (l, xs) \<Rightarrow>
          if accepts xs (sm_t s) then apply_samples ss (f(sm_ref s \<mapsto> (l, xs @ [(sm_t s, sm_v s)]))) else None)"

definition apply_record :: "bytes \<Rightarrow> content \<Rightarrow> content option" where
  "apply_record rec f =
     (if peek_type rec = type_code Series then
        (case decode_series rec of Inl e \<Rightarrow> None | Inr ss \<Rightarrow> apply_series ss f)
      else if peek_type rec = type_code SamplesV2 then
        (case decode_samples_v2 rec of Inl e \<Rightarrow> None | Inr ss \<Rightarrow> apply_samples ss f)
      else Some f)"

fun apply_records :: "bytes list \<Rightarrow> content \<Rightarrow> content option" where
  "apply_records [] f = Some f"
| "apply_records (r # rs) f = (case apply_record r f of None \<Rightarrow> None | Some g \<Rightarrow> apply_records rs g)"

lemma apply_series_append:
  "apply_series (xs @ ys) f = Option.bind (apply_series xs f) (apply_series ys)"
  by (induction xs f rule: apply_series.induct) (simp_all add: Let_def del: fun_upd_apply)

lemma apply_samples_append:
  "apply_samples (xs @ ys) f = Option.bind (apply_samples xs f) (apply_samples ys)"
  by (induction xs f rule: apply_samples.induct) (simp_all split: option.split del: fun_upd_apply)

lemma apply_records_append:
  "apply_records (xs @ ys) f = Option.bind (apply_records xs f) (apply_records ys)"
  by (induction xs f rule: apply_records.induct) (simp_all split: option.split del: fun_upd_apply)

lemma replay_series_ok:
  "store.holds s f \<Longrightarrow> apply_series ss f = Some g \<Longrightarrow>
     \<exists>s'. replay_series ss s = (Inr (), s') \<and> store.holds s' g"
proof (induction ss f arbitrary: s rule: apply_series.induct)
  case (2 x ss f)
  let ?l = "to_model_labels (rs_labels x)"
  have *: "rs_ref x \<noteq> 0" "unat (rs_ref x) \<le> max_slots" "f (rs_ref x) = None" "\<forall>r xs. f r \<noteq> Some (?l, xs)"
    "apply_series ss (f(rs_ref x \<mapsto> (?l, []))) = Some g"
    using "2.prems"(2) by (simp_all add: Let_def labels_used_def del: not_None_eq split: if_splits)
  obtain s1 where s1: "insert_with_ref (rs_ref x) ?l s = (Inr True, s1)"
    "store.holds s1 (f(rs_ref x \<mapsto> (?l, [])))"
    using insert_with_ref_holds [OF "2.prems"(1) *(4,3,1,2)] by blast
  show ?case
    using "2.IH" [OF refl _ s1(2) *(5)] * s1(1) by (auto simp: labels_used_def)
qed simp

lemma replay_samples_ok:
  "store.holds s f \<Longrightarrow> apply_samples ss f = Some g \<Longrightarrow>
     \<exists>s'. replay_samples ss s = (Inr (), s') \<and> store.holds s' g"
proof (induction ss f arbitrary: s rule: apply_samples.induct)
  case (2 x ss f)
  obtain l xs where f: "f (sm_ref x) = Some (l, xs)" "accepts xs (sm_t x)"
    "apply_samples ss (f(sm_ref x \<mapsto> (l, xs @ [(sm_t x, sm_v x)]))) = Some g"
    using "2.prems"(2) by (auto split: option.splits if_splits)
  obtain ms where ms: "store_get (sm_ref x) s = Some ms"
    using store.holds_lookup [OF "2.prems"(1) f(1)] by blast
  obtain ms' where ms': "ms_append (sm_t x) (sm_v x) ms = (Appended, ms')"
    "store.holds (store_put (sm_ref x) ms' s) (f(sm_ref x \<mapsto> (l, xs @ [(sm_t x, sm_v x)])))"
    using store.holds_append [OF "2.prems"(1) f(1) ms, of "sm_t x" "sm_v x"] f(2) by auto
  show ?case
    using "2.IH" [OF f(1) refl f(2) ms'(2) f(3)] ms ms'(1) by simp
qed simp

lemma replay_record_ok:
  "store.holds s f \<Longrightarrow> apply_record rec f = Some g \<Longrightarrow>
     \<exists>s'. replay_record rec s = (Inr (), s') \<and> store.holds s' g"
  using replay_series_ok [of s f] replay_samples_ok [of s f]
  by (auto simp: apply_record_def replay_record_def split: if_splits sum.splits)

lemma load_current_disk: "dk_faults d = [] \<Longrightarrow> sr_page r d = (res, d') \<Longrightarrow> d' = d"
  by (auto simp: sr_page_def load_current_segment_def sys_simple_ok split: option.splits)

lemma sr_next_disk: "dk_faults d = [] \<Longrightarrow> sr_next r d = (res, r', d') \<Longrightarrow> d' = d"
proof (induction "length (sr_paths r) - sr_current_index r" arbitrary: r rule: less_induct)
  case less
  show ?case
  proof (cases "sr_current_index r < length (sr_paths r)")
    case True
    let ?adv = "r\<lparr>sr_page_reader := None, sr_current_index := sr_current_index r + 1\<rparr>"
    obtain pres where page: "sr_page r d = (pres, d)"
      using load_current_disk [OF less.prems(1)] by (metis surj_pair)
    have "sr_next ?adv d = (res, r', d') \<Longrightarrow> d' = d"
      using less.hyps [of ?adv] less.prems(1) True by simp
    then show ?thesis
      using less.prems(2) page True
      by (subst (asm) (2) sr_next.simps) (auto simp: Let_def split: if_splits prod.splits sum.splits)
  next
    case False
    then show ?thesis using less.prems(2) by (simp add: sr_next.simps)
  qed
qed

lemma replay_loop_ok:
  "sr_read_all rdr d = (recs, SegEndOfStream) \<Longrightarrow> store.holds s f \<Longrightarrow> apply_records recs f = Some g \<Longrightarrow>
     dk_faults d = [] \<Longrightarrow> \<exists>s'. replay_loop rdr d s = (Inr (), s', d) \<and> store.holds s' g"
proof (induction rdr d arbitrary: recs s f rule: sr_read_all.induct)
  case (1 rdr d)
  obtain res rdr' where nx: "sr_next rdr d = (res, rdr', d)"
    using sr_next_disk [OF "1.prems"(4)] by (metis surj_pair)
  show ?case
  proof (cases res)
    case (Inl e)
    then show ?thesis
      using "1.prems" nx by (auto simp: sr_read_all.simps [of rdr d] replay_loop.simps [of rdr d])
  next
    case (Inr rec)
    obtain recs' where recs: "recs = rec # recs'" "sr_read_all rdr' d = (recs', SegEndOfStream)"
      using "1.prems"(1) nx Inr by (auto simp: sr_read_all.simps [of rdr d] split: prod.splits)
    obtain g1 where g1: "apply_record rec f = Some g1" "apply_records recs' g1 = Some g"
      using "1.prems"(3) recs(1) by (auto split: option.splits)
    obtain s1 where s1: "replay_record rec s = (Inr (), s1)" "store.holds s1 g1"
      using replay_record_ok [OF "1.prems"(2) g1(1)] by blast
    show ?thesis
      using "1.IH" [OF nx [symmetric] Inr refl recs(2) s1(2) g1(2) "1.prems"(4)] nx Inr s1(1)
      by (simp add: replay_loop.simps [of rdr d])
  qed
qed

section \<open>Pending records\<close>

lemma apply_samples_keeps:
  "apply_samples ss f = Some g \<Longrightarrow> map_option fst (g r) = map_option fst (f r)"
  by (induction ss f rule: apply_samples.induct) (auto split: option.splits if_splits)

lemma apply_samples_labels_used: "apply_samples ss f = Some g \<Longrightarrow> labels_used g l = labels_used f l"
proof -
  assume ap: "apply_samples ss f = Some g"
  have "(\<exists>xs. g r = Some (l, xs)) = (\<exists>xs. f r = Some (l, xs))" for r
    using apply_samples_keeps [OF ap, of r] by (cases "f r"; cases "g r") auto
  then show ?thesis unfolding labels_used_def by blast
qed

lemma apply_samples_fresh:
  "apply_samples ss f = Some g \<Longrightarrow> f r = None \<Longrightarrow> apply_samples ss (f(r \<mapsto> x)) = Some (g(r \<mapsto> x))"
proof (induction ss f rule: apply_samples.induct)
  case (2 s ss f)
  obtain l xs where f: "f (sm_ref s) = Some (l, xs)" "accepts xs (sm_t s)"
    "apply_samples ss (f(sm_ref s \<mapsto> (l, xs @ [(sm_t s, sm_v s)]))) = Some g"
    using "2.prems"(1) by (auto split: option.splits if_splits)
  have ne: "sm_ref s \<noteq> r" using f(1) "2.prems"(2) by auto
  then have "(f(sm_ref s \<mapsto> (l, xs @ [(sm_t s, sm_v s)]))) r = None"
    using "2.prems"(2) by simp
  from "2.IH" [OF f(1) refl f(2,3) this]
  have "apply_samples ss ((f(sm_ref s \<mapsto> (l, xs @ [(sm_t s, sm_v s)])))(r \<mapsto> x)) = Some (g(r \<mapsto> x))" .
  then have "apply_samples (s # ss) (f(r \<mapsto> x)) = Some (g(r \<mapsto> x))"
    using f(1,2) ne by (simp add: fun_upd_twist)
  then show ?case .
qed simp

text \<open>Pending records of a head: those of the series first, then those of the samples.\<close>

definition apply_pending :: "Head \<Rightarrow> content \<Rightarrow> content option" where
  "apply_pending h g = Option.bind (apply_series (h_pending_series h) g) (apply_samples (h_pending_samples h))"

lemma apply_pending_series:
  assumes pend: "apply_pending h g = Some f" and new: "f r = None" "\<not> labels_used f l"
    and ref: "r \<noteq> 0" "unat r \<le> max_slots" and l: "to_model_labels ws = l"
  shows "apply_pending (h\<lparr>h_pending_series := h_pending_series h @ [\<lparr>rs_ref = r, rs_labels = ws\<rparr>]\<rparr>) g = Some (f(r \<mapsto> (l, [])))"
proof -
  obtain g1 where g1: "apply_series (h_pending_series h) g = Some g1" "apply_samples (h_pending_samples h) g1 = Some f"
    using pend by (auto simp: apply_pending_def bind_eq_Some_conv)
  have "g1 r = None"
    using apply_samples_keeps [OF g1(2), of r] new(1) by (cases "g1 r") auto
  moreover have "\<not> labels_used g1 l"
    using apply_samples_labels_used [OF g1(2)] new(2) by simp
  ultimately show ?thesis
    using apply_samples_fresh [OF g1(2)] g1(1) ref l
    by (simp add: apply_pending_def apply_series_append Let_def not_less)
qed

lemma apply_pending_sample:
  assumes "apply_pending h g = Some f" "f r = Some (l, xs)" "accepts xs t"
  shows "apply_pending (h\<lparr>h_pending_samples := h_pending_samples h @ [\<lparr>sm_ref = r, sm_t = t, sm_st = st, sm_v = v\<rparr>]\<rparr>) g =
     Some (f(r \<mapsto> (l, xs @ [(t, v)])))"
  using assms by (auto simp: apply_pending_def apply_samples_append bind_eq_Some_conv)

lemma apply_pending_cong:
  "h_pending_series h' = h_pending_series h \<Longrightarrow> h_pending_samples h' = h_pending_samples h \<Longrightarrow>
     apply_pending h' = apply_pending h"
  by (simp add: apply_pending_def fun_eq_iff)

lemma to_model_to_wal: "labels_wf l \<Longrightarrow> to_model_labels (to_wal_labels l) = l"
proof -
  assume "labels_wf l"
  moreover have "map (\<lambda>x. Label (l_name x) (l_value x)) (entries l) = entries l"
    by (simp add: map_idI)
  ultimately show ?thesis
    by (simp add: to_model_labels_def to_wal_labels_def comp_def mk_labels_idem)
qed

section \<open>Appends\<close>

text \<open>What an append does to the content in memory: the series is found or created, and the sample added if it is not older than the last one.\<close>

definition series_of :: "content \<Rightarrow> Labels \<Rightarrow> u64 \<Rightarrow> sample list \<Rightarrow> bool" where
  "series_of f l r xs \<longleftrightarrow> f r = Some (l, xs) \<or> (f r = None \<and> \<not> labels_used f l \<and> xs = [])"

lemma head_append_ok:
  assumes open_head: "\<not> h_closed h" and holds: "store.holds (h_series h) f" and pend: "apply_pending h g = Some f"
    and wf: "labels_wf l" and res: "head_append l t v h = (res, h')" "res \<noteq> Inl Thrown"
  shows "\<exists>r xs. series_of f l r xs \<and> res = (if accepts xs t then Inr r else Inl Bad_argument) \<and>
     (let f' = f(r \<mapsto> (l, if accepts xs t then xs @ [(t, v)] else xs)) in
      store.holds (h_series h') f' \<and> apply_pending h' g = Some f') \<and>
     h_wal h' = h_wal h \<and> \<not> h_closed h'"
proof -
  obtain r fresh s where goc: "get_or_create l (h_series h) = (Inr (r, fresh), s)"
    using open_head res by (auto simp: head_append_def split: prod.splits sum.splits)
  note store = get_or_create_holds [OF holds goc]
  define h1 where "h1 = h\<lparr>h_series := s, h_pending_series := (if fresh
      then h_pending_series h @ [\<lparr>rs_ref = r, rs_labels = to_wal_labels l\<rparr>] else h_pending_series h)\<rparr>"
  have "\<exists>f1 xs. series_of f l r xs \<and> store.holds s f1 \<and> f1 = f(r \<mapsto> (l, xs)) \<and> apply_pending h1 g = Some f1"
  proof (cases fresh)
    case True
    then have new: "f r = None" "\<not> labels_used f l" "r \<noteq> 0" "store.holds s (f(r \<mapsto> (l, [])))"
      using store by (auto simp: labels_used_def)
    obtain ms where "store_get r s = Some ms"
      using store.holds_lookup [OF new(4), of r] by auto
    then have "unat r \<le> max_slots"
      using new(4) by (auto simp: store.holds_def store_inv_def store_get_Some)
    from apply_pending_series [OF pend new(1,2,3) this to_model_to_wal [OF wf]]
    have "apply_pending h1 g = Some (f(r \<mapsto> (l, [])))"
      using True by (simp add: h1_def apply_pending_def)
    then show ?thesis
      using new by (intro exI [of _ "f(r \<mapsto> (l, []))"] exI [of _ "[]"]) (simp add: series_of_def)
  next
    case False
    then obtain xs where xs: "f r = Some (l, xs)" "s = h_series h" using store by auto
    moreover have "apply_pending h1 g = Some f"
      using pend False by (simp add: h1_def apply_pending_def)
    ultimately show ?thesis
      using holds by (intro exI [of _ f] exI [of _ xs]) (auto simp: series_of_def fun_upd_idem)
  qed
  then obtain f1 xs where f1: "series_of f l r xs" "store.holds s f1" "f1 = f(r \<mapsto> (l, xs))"
    "apply_pending h1 g = Some f1" by blast
  obtain ms where ms: "store_get r s = Some ms" "ms_ref ms = r"
    using store.holds_lookup [OF f1(2), of r] f1(3) by auto
  obtain ms' where ms': "ms_append t v ms = (if accepts xs t then Appended else Refused, ms')"
    "store.holds (store_put r ms' s) (f1(r \<mapsto> (l, if accepts xs t then xs @ [(t, v)] else xs)))"
    using store.holds_append [OF f1(2) _ ms(1), of l xs t v] f1(3) by auto
  have "ms_ref ms' = r"
    using store.holds_lookup [OF ms'(2), of r] store_put_get [of r s r ms'] ms(1) by auto
  then have h': "h' = (if accepts xs t then h1\<lparr>h_series := store_put r ms' s, h_pending_samples := h_pending_samples h1 @
        [\<lparr>sm_ref = r, sm_t = t, sm_st = 0, sm_v = v\<rparr>]\<rparr> else h1\<lparr>h_series := store_put r ms' s\<rparr>)"
    "res = (if accepts xs t then Inr r else Inl Bad_argument)"
    using res(1) open_head goc ms ms'(1) by (auto simp: head_append_def h1_def Let_def split: if_splits)
  moreover have "h_wal h' = h_wal h \<and> \<not> h_closed h'"
    using open_head by (simp add: h'(1) h1_def)
  moreover have "apply_pending h' g = Some (f(r \<mapsto> (l, if accepts xs t then xs @ [(t, v)] else xs)))"
    using f1(3,4) apply_pending_sample [OF f1(4), of r l xs t 0 v] apply_pending_cong [of h' h1]
    by (auto simp: h'(1) apply_pending_def)
  moreover have "store.holds (h_series h') (f(r \<mapsto> (l, if accepts xs t then xs @ [(t, v)] else xs)))"
    using ms'(2) f1(3) by (cases "accepts xs t") (simp_all add: h'(1))
  ultimately show ?thesis
    unfolding Let_def using f1(1) by blast
qed

section \<open>Commits\<close>

definition commit_records :: "Head \<Rightarrow> bytes list" where
  "commit_records h =
     (if h_pending_series h = [] then [] else [encode_series (h_pending_series h)]) @
     (if h_pending_samples h = [] then [] else [encode_samples_v2 (h_pending_samples h)])"

text \<open>
  The records fit: their sizes are below the limits of the decoder, and the log takes each of them at
  a position where the framing works (not with exactly seven bytes left in the page) and in a
  segment whose number has at most eight digits.
\<close>

definition commit_fits :: "Head \<Rightarrow> Disk \<Rightarrow> bool" where
  "commit_fits h d \<longleftrightarrow> series_wf (h_pending_series h) \<and> samples_wf (h_pending_samples h) \<and>
     positions_ok (commit_records h) (h_wal h) d"

lemma peek_encoded:
  "peek_type (encode_series ss) = type_code Series" "peek_type (encode_samples_v2 xs) = type_code SamplesV2"
  by (simp add: encode_series_bytes peek_type_def)
    (cases xs; simp add: encode_samples_bytes peek_type_def del: encode_samples_v2.simps(2))

lemma apply_encoded:
  "series_wf ss \<Longrightarrow> apply_record (encode_series ss) f = apply_series ss f"
  "samples_wf xs \<Longrightarrow> apply_record (encode_samples_v2 xs) f = apply_samples xs f"
  using series_record.dec_enc [of ss] samples_record.dec_enc [of xs]
  by (simp_all add: apply_record_def peek_encoded)

lemma apply_commit_records:
  "series_wf (h_pending_series h) \<Longrightarrow> samples_wf (h_pending_samples h) \<Longrightarrow>
     apply_records (commit_records h) g = apply_pending h g"
  by (auto simp: commit_records_def apply_pending_def apply_encoded split: option.splits)

lemma sw_log_all_append:
  "sw_log_all (xs @ ys) w d =
     (case sw_log_all xs w d of (Inl e, w', d') \<Rightarrow> (Inl e, w', d') | (Inr _, w', d') \<Rightarrow> sw_log_all ys w' d')"
  by (induction xs arbitrary: w d) (auto split: prod.splits sum.splits)

lemma head_commit_log:
  assumes res: "head_commit h d = (Inr (), h', d')"
  shows "\<exists>w d1 w'. sw_log_all (commit_records h) (h_wal h) d = (Inr (), w, d1) \<and> sw_sync w d1 = (Inr (), w', d') \<and>
     h' = h\<lparr>h_wal := w', h_pending_series := [], h_pending_samples := []\<rparr> \<and> \<not> h_closed h"
proof -
  obtain h1 d1 h2 d2 w' where *: "\<not> h_closed h" "commit_series h d = (Inr (), h1, d1)"
    "commit_samples h1 d1 = (Inr (), h2, d2)" "sw_sync (h_wal h2) d2 = (Inr (), w', d')" "h' = h2\<lparr>h_wal := w'\<rparr>"
    using res unfolding head_commit_def by (auto split: if_splits prod.splits sum.splits)
  obtain w1 where w1: "h1 = h\<lparr>h_wal := w1, h_pending_series := []\<rparr>"
    "sw_log_all (if h_pending_series h = [] then [] else [encode_series (h_pending_series h)]) (h_wal h) d = (Inr (), w1, d1)"
    using *(2) that [of "h_wal h"] that
    by (cases "h_pending_series h = []") (auto simp: commit_series_def split: prod.splits sum.splits)
  moreover obtain w2 where "h2 = h1\<lparr>h_wal := w2, h_pending_samples := []\<rparr>"
    "sw_log_all (if h_pending_samples h = [] then [] else [encode_samples_v2 (h_pending_samples h)]) w1 d1 = (Inr (), w2, d2)"
    using *(3) that [of w1] that
    by (cases "h_pending_samples h = []") (auto simp: w1(1) commit_samples_def split: prod.splits sum.splits)
  ultimately show ?thesis
    using *(1,4,5) by (simp add: commit_records_def sw_log_all_append)
qed

lemma head_commit_ok:
  assumes holds: "writer_holds (h_wal h) d recs" and recs: "apply_records recs no_series = Some g"
    and pend: "apply_pending h g = Some f" and fits: "commit_fits h d" and res: "head_commit h d = (Inr (), h', d')"
  shows "\<exists>recs'. writer_holds (h_wal h') d' recs' \<and> apply_records recs' no_series = Some f \<and>
     apply_pending h' f = Some f \<and> h_series h' = h_series h \<and> \<not> h_closed h'"
proof -
  obtain w d1 w' where c: "sw_log_all (commit_records h) (h_wal h) d = (Inr (), w, d1)"
    "sw_sync w d1 = (Inr (), w', d')" "h' = h\<lparr>h_wal := w', h_pending_series := [], h_pending_samples := []\<rparr>" "\<not> h_closed h"
    using head_commit_log [OF res] by blast
  have "writer_holds w d1 (recs @ commit_records h)"
    using sw_log_all_ok [OF holds _ c(1)] fits by (simp add: commit_fits_def)
  then have "writer_holds w' d' (recs @ commit_records h)"
    using sw_sync_ok c(2) by blast
  moreover have "apply_records (recs @ commit_records h) no_series = Some f"
    using recs pend fits by (simp add: apply_records_append apply_commit_records commit_fits_def)
  ultimately show ?thesis
    using c(3,4) by (auto simp: apply_pending_def)
qed

section \<open>Opening\<close>

lemma replay_wal_ok:
  assumes wal: "wal_holds d recs \<or> dk_files d = [] \<and> recs = []" and faults: "dk_faults d = []"
    and recs: "apply_records recs no_series = Some g"
  shows "\<exists>s. replay_wal_into d SeriesStore_init = (Inr (), s, d) \<and> store.holds s g"
proof (cases "dk_dir d")
  case True
  have "wal_holds d recs"
    using wal True by (auto simp: wal_holds_def files_hold_def indexed_def map_filter_simps)
  then obtain r where "SegmentReader_open d = (Inr r, d)" "sr_read_all r d = (recs, SegEndOfStream)"
    using wal_read faults by blast
  then show ?thesis
    using replay_loop_ok [OF _ store_holds_init recs faults] by (simp add: replay_wal_into_def)
next
  case False
  then have "recs = []" using wal by (auto simp: wal_holds_def)
  then show ?thesis
    using False recs store_holds_init by (simp add: replay_wal_into_def SegmentReader_open_def)
qed

lemma Head_open_ok:
  assumes wal: "wal_holds d recs \<or> dk_files d = [] \<and> recs = []" and faults: "dk_faults d = []"
    and recs: "apply_records recs no_series = Some g" and idx: "next_index (dk_files d) < 10 ^ 8"
  shows "\<exists>h d'. Head_open d = (Inr h, d') \<and> store.holds (h_series h) g \<and> writer_holds (h_wal h) d' recs \<and>
     h_pending_series h = [] \<and> h_pending_samples h = [] \<and> \<not> h_closed h"
proof -
  obtain s where s: "replay_wal_into d SeriesStore_init = (Inr (), s, d)" "store.holds s g"
    using replay_wal_ok [OF wal faults recs] by blast
  obtain w d' where w: "SegmentWriter_open k_default_segment_size d = (Inr w, d')"
    using faults by (simp add: SegmentWriter_open_def sys_simple_ok open_new_segment_def Let_def)
  have "writer_holds w d' recs"
    using SegmentWriter_open_ok [OF wal w idx] by simp
  then show ?thesis
    using s w faults by (simp add: Head_open_def sys_simple_ok)
qed

section \<open>Runs of a head\<close>

text \<open>What a store contains: the labels of every reference and the samples its chunks decode to.\<close>

type_synonym stored = "u64 \<Rightarrow> (Labels \<times> (ReadError + sample list)) option"

definition store_content :: "SeriesStore \<Rightarrow> stored" where
  "store_content s r = map_option (\<lambda>ms. (ms_labels ms, chunks_samples (ms_chunks ms))) (store_get r s)"

definition as_stored :: "content \<Rightarrow> stored" where
  "as_stored f r = map_option (\<lambda>(l, xs). (l, Inr xs)) (f r)"

lemma as_stored_simps [simp]:
  "as_stored f r = None \<longleftrightarrow> f r = None" "as_stored f r = Some (l, y) \<longleftrightarrow> (\<exists>xs. f r = Some (l, xs) \<and> y = Inr xs)"
  "as_stored (f(r \<mapsto> (l, xs))) = (as_stored f)(r \<mapsto> (l, Inr xs))"
  by (auto simp: as_stored_def fun_eq_iff)

lemma holds_content: "store.holds s f \<Longrightarrow> store_content s = as_stored f"
proof
  fix r
  assume h: "store.holds s f"
  show "store_content s r = as_stored f r"
  proof (cases "f r")
    case None
    then show ?thesis
      using store.holds_None [OF h, of r] by (simp add: store_content_def as_stored_def)
  next
    case (Some lxs)
    obtain l xs where lxs: "lxs = (l, xs)" by fastforce
    obtain ms where "store_get r s = Some ms" "ms_labels ms = l" "ms_inv ms xs"
      using store.holds_lookup [OF h, of r l xs] Some lxs by blast
    then show ?thesis
      using Some lxs ms_inv_samples by (simp add: store_content_def as_stored_def)
  qed
qed

text \<open>
  A log whose reading ends in an error is refused, whatever the records before it do: in particular
  one whose last segment was cut inside a fragment.
\<close>

lemma replay_loop_refuses:
  "sr_read_all rdr d = (recs, e) \<Longrightarrow> e \<noteq> SegEndOfStream \<Longrightarrow> dk_faults d = [] \<Longrightarrow>
     \<exists>err s'. replay_loop rdr d s = (Inl err, s', d)"
proof (induction rdr d arbitrary: recs s rule: sr_read_all.induct)
  case (1 rdr d)
  obtain res rdr' where nx: "sr_next rdr d = (res, rdr', d)"
    using sr_next_disk [OF "1.prems"(3)] by (metis surj_pair)
  show ?case
  proof (cases res)
    case (Inl e')
    then show ?thesis using "1.prems" nx by (simp add: sr_read_all.simps [of rdr d] replay_loop.simps [of rdr d])
  next
    case (Inr rec)
    obtain recs' where recs: "sr_read_all rdr' d = (recs', e)"
      using "1.prems"(1) nx Inr by (auto simp: sr_read_all.simps [of rdr d] split: prod.splits)
    obtain q s1 where "replay_record rec s = (q, s1)" by fastforce
    then show ?thesis
      using "1.IH" [OF nx [symmetric] Inr refl recs "1.prems"(2,3), of s1] nx Inr
      by (cases q) (simp_all add: replay_loop.simps [of rdr d])
  qed
qed

lemma torn_log_refused:
  assumes "writer_holds w d recs"
    and "d' = d\<lparr>dk_files := AList.update (format_segment_name (sw_seg_index w)) (take m (pw_buf (sw_pw w))) (dk_files d), dk_faults := []\<rparr>"
  shows "\<exists>cur. sw_pw w = log_all cur PageWriter_init \<and>
    (inside m (record_spans cur PageWriter_init) \<longrightarrow> (\<exists>err. Head_open d' = (Inl err, d')))"
proof -
  obtain r old cur where r: "SegmentReader_open d' = (Inr r, d')" "sw_pw w = log_all cur PageWriter_init"
    "sr_read_all r d' = (old @ durable m cur PageWriter_init,
       if inside m (record_spans cur PageWriter_init) then InvalidFraming else SegEndOfStream)"
    using sr_read_all_cut [OF assms(1) refl assms(2)] by blast
  have "\<exists>err. Head_open d' = (Inl err, d')" if "inside m (record_spans cur PageWriter_init)"
  proof -
    have d': "dk_faults d' = []" by (simp add: assms(2))
    have "\<exists>err s'. replay_loop r d' SeriesStore_init = (Inl err, s', d')"
      using replay_loop_refuses [OF r(3) _ d'] that by simp
    then show ?thesis using r(1) sys_simple_ok [OF d'] by (auto simp: Head_open_def replay_wal_into_def)
  qed
  then show ?thesis using r(2) by blast
qed

text \<open>
  The states a head goes through, with the content at its last successful commit: opened on an
  empty directory; samples appended, accepted or refused; pending records committed; opened again
  on the files a previous head left (a crash loses the memory); and the fault plan of the coming
  system calls may change at any time. This is a relation for the theorems and not code: it contains the
  operations of the code under side conditions that the code does not check. A commit is a step if it returns
  success and its records fit (\<open>commit_fits\<close>, which excludes the page position with exactly seven
  bytes left); an append if it does not throw for want of room in the vector of series; opening
  again if the segment numbers have at most eight digits. \<open>HeadLog\<close> has a relation without them.
\<close>

inductive head_run :: "Head \<Rightarrow> Disk \<Rightarrow> stored \<Rightarrow> bool" where
  run_open: "head_run h d' (store_content (h_series h))"
    if "dk_files d = []" "dk_faults d = []" "Head_open d = (Inr h, d')"
| run_append: "head_run h' d g"
    if "head_run h d g" "labels_wf l" "head_append l t v h = (res, h')" "res \<noteq> Inl Thrown"
| run_commit: "head_run h' d' (store_content (h_series h'))"
    if "head_run h d g" "commit_fits h d" "head_commit h d = (Inr (), h', d')"
| run_reopen: "head_run h' d' (store_content (h_series h'))"
    if "head_run h d g" "next_index (dk_files d) < 10 ^ 8" "Head_open (d\<lparr>dk_faults := []\<rparr>) = (Inr h', d')"
| run_faults: "head_run h (d\<lparr>dk_faults := fs\<rparr>) g" if "head_run h d g"

definition head_inv :: "Head \<Rightarrow> Disk \<Rightarrow> content \<Rightarrow> content \<Rightarrow> bool" where
  "head_inv h d f g \<longleftrightarrow> \<not> h_closed h \<and> store.holds (h_series h) f \<and> apply_pending h g = Some f \<and>
     (\<exists>recs. writer_holds (h_wal h) d recs \<and> apply_records recs no_series = Some g)"

lemma head_inv_reopen:
  assumes "head_inv h d f g" "next_index (dk_files d) < 10 ^ 8"
  shows "\<exists>h' d'. Head_open (d\<lparr>dk_faults := []\<rparr>) = (Inr h', d') \<and> head_inv h' d' g g \<and>
     h_pending_series h' = [] \<and> h_pending_samples h' = []"
proof -
  obtain recs where recs: "writer_holds (h_wal h) d recs" "apply_records recs no_series = Some g"
    using assms(1) by (auto simp: head_inv_def)
  have "wal_holds (d\<lparr>dk_faults := []\<rparr>) recs"
    using writer_holds_wal [OF writer_holds_disk [OF recs(1)]] by simp
  then obtain h' d' where "Head_open (d\<lparr>dk_faults := []\<rparr>) = (Inr h', d')" "store.holds (h_series h') g"
    "writer_holds (h_wal h') d' recs" "h_pending_series h' = []" "h_pending_samples h' = []" "\<not> h_closed h'"
    using Head_open_ok [OF _ _ recs(2), of "d\<lparr>dk_faults := []\<rparr>"] assms(2) by auto
  then show ?thesis
    using recs(2) by (auto simp: head_inv_def apply_pending_def)
qed

lemma head_inv_open:
  assumes "dk_files d = []" "dk_faults d = []" "Head_open d = (Inr h, d')"
  shows "head_inv h d' no_series no_series"
  using Head_open_ok [of d "[]" no_series] assms by (auto simp: head_inv_def next_index_def apply_pending_def)

lemma head_inv_commit:
  assumes inv: "head_inv h d f g" and com: "commit_fits h d" "head_commit h d = (Inr (), h', d')"
  shows "head_inv h' d' f f"
proof -
  obtain recs where "writer_holds (h_wal h) d recs" "apply_records recs no_series = Some g" "apply_pending h g = Some f"
    using inv by (auto simp: head_inv_def)
  from head_commit_ok [OF this com] inv show ?thesis by (auto simp: head_inv_def)
qed

lemma head_run_inv: "head_run h d g \<Longrightarrow> \<exists>f fg. head_inv h d f fg \<and> g = as_stored fg"
proof (induction rule: head_run.induct)
  case (run_open d h d')
  then show ?case
    using head_inv_open [OF run_open] holds_content by (auto simp: head_inv_def)
next
  case (run_append h d g l t v res h')
  then obtain f fg where inv: "head_inv h d f fg" "g = as_stored fg" by blast
  then obtain f' where "store.holds (h_series h') f'" "apply_pending h' fg = Some f'" "h_wal h' = h_wal h" "\<not> h_closed h'"
    using head_append_ok [OF _ _ _ run_append.hyps(2-4), of f fg] by (auto simp: head_inv_def Let_def)
  then have "head_inv h' d f' fg"
    using inv by (auto simp: head_inv_def)
  then show ?case using inv(2) by blast
next
  case (run_commit h d g h' d')
  then obtain f fg where inv: "head_inv h d f fg" by blast
  then have "head_inv h' d' f f"
    using head_inv_commit run_commit.hyps(2,3) by blast
  then show ?case
    using holds_content by (auto simp: head_inv_def)
next
  case (run_reopen h d g h' d')
  then obtain f fg where inv: "head_inv h d f fg" by blast
  then have "head_inv h' d' fg fg"
    using head_inv_reopen [OF inv run_reopen.hyps(2)] run_reopen.hyps(3) by auto
  then show ?case
    using holds_content by (auto simp: head_inv_def)
next
  case (run_faults h d g fs)
  then obtain f fg where inv: "head_inv h d f fg" "g = as_stored fg" by blast
  then have "head_inv h (d\<lparr>dk_faults := fs\<rparr>) f fg"
    using writer_holds_disk [of "h_wal h" d _ "d\<lparr>dk_faults := fs\<rparr>"] by (auto simp: head_inv_def)
  then show ?case using inv(2) by blast
qed

section \<open>Without failing system calls\<close>

lemma write_all_done: "dk_faults d = [] \<Longrightarrow> \<exists>d'. write_all n bs d = (Inr (), d') \<and> dk_faults d' = []"
  by (cases "bs = []") (simp_all add: write_all.simps syscall_def)

lemma flush_pending_done:
  "dk_faults d = [] \<Longrightarrow> \<exists>w' d'. flush_pending w d = (Inr (), w', d') \<and> dk_faults d' = [] \<and>
     sw_pw w' = sw_pw w \<and> sw_segment_size w' = sw_segment_size w"
  using write_all_done [of d "the (sw_fd w)" "drop (sw_flushed_bytes w) (pw_buf (sw_pw w))"]
  by (cases "sw_fd w") (auto simp: flush_pending_def Let_def)

lemma cut_done: "dk_faults d = [] \<Longrightarrow> \<exists>w' d'. cut w d = (Inr (), w', d') \<and> dk_faults d' = []"
  using flush_pending_done [of d "w\<lparr>sw_pw := close_page (sw_pw w)\<rparr>"]
  by (auto simp: cut_def Let_def sys_simple_ok open_new_segment_def file_create_def)

lemma sw_log_done:
  assumes "dk_faults d = []"
  shows "\<exists>w' d'. sw_log body w d = (Inr (), w', d') \<and> dk_faults d' = [] \<and>
     (pw_buf (sw_pw w) = [] \<longrightarrow> sw_flushed_bytes w = 0 \<longrightarrow> sw_pw w' = log body (sw_pw w) \<and> sw_segment_size w' = sw_segment_size w)"
proof -
  define already where "already = sw_flushed_bytes w + (length (pw_buf (sw_pw w)) - sw_flushed_bytes w)"
  define rolled where "rolled \<longleftrightarrow> already > 0 \<and> already + framed_size_upper_bound (length body) > sw_segment_size w"
  obtain w1 d1 where w1: "(if rolled then cut w d else (Inr (), w, d)) = (Inr (), w1, d1)" "dk_faults d1 = []"
    "\<not> rolled \<longrightarrow> w1 = w"
    using cut_done [OF assms, of w] assms by (cases rolled) auto
  obtain w2 d2 where w2: "flush_pending (w1\<lparr>sw_pw := log body (sw_pw w1)\<rparr>) d1 = (Inr (), w2, d2)" "dk_faults d2 = []"
    "sw_pw w2 = log body (sw_pw w1)" "sw_segment_size w2 = sw_segment_size w1"
    using flush_pending_done [OF w1(2), of "w1\<lparr>sw_pw := log body (sw_pw w1)\<rparr>"] by auto
  have "sw_log body w d = (Inr (), w2, d2)"
    unfolding sw_log_def already_def [symmetric] Let_def rolled_def [symmetric] w1(1) using w2(1) by simp
  moreover have "pw_buf (sw_pw w) = [] \<longrightarrow> sw_flushed_bytes w = 0 \<longrightarrow> w1 = w"
    using w1(3) by (simp add: rolled_def already_def)
  ultimately show ?thesis using w2 by auto
qed

lemma sw_sync_done: "dk_faults d = [] \<Longrightarrow> \<exists>w' d'. sw_sync w d = (Inr (), w', d') \<and> dk_faults d' = []"
  using flush_pending_done [of d w] by (auto simp: sw_sync_def sys_simple_ok)

lemma commit_steps_done:
  assumes "dk_faults d = []"
  shows "\<exists>h' d'. commit_series h d = (Inr (), h', d') \<and> dk_faults d' = [] \<and> h_closed h' = h_closed h"
    "\<exists>h' d'. commit_samples h d = (Inr (), h', d') \<and> dk_faults d' = [] \<and> h_closed h' = h_closed h"
  using sw_log_done [OF assms, of "encode_series (h_pending_series h)" "h_wal h"]
    sw_log_done [OF assms, of "encode_samples_v2 (h_pending_samples h)" "h_wal h"] assms
  by (auto simp: commit_series_def commit_samples_def)

lemma head_commit_done:
  assumes "dk_faults d = []" "\<not> h_closed h"
  shows "\<exists>h' d'. head_commit h d = (Inr (), h', d') \<and> dk_faults d' = []"
proof -
  obtain h1 d1 where "commit_series h d = (Inr (), h1, d1)" and d1: "dk_faults d1 = []"
    using commit_steps_done(1) [OF assms(1)] by blast
  moreover obtain h2 d2 where "commit_samples h1 d1 = (Inr (), h2, d2)" and d2: "dk_faults d2 = []"
    using commit_steps_done(2) [OF d1] by blast
  ultimately show ?thesis
    using sw_sync_done [OF d2, of "h_wal h2"] assms(2) by (auto simp: head_commit_def)
qed

lemma flush_pending_index: "flush_pending w d = (r, w', d') \<Longrightarrow> sw_seg_index w' = sw_seg_index w"
  by (auto simp: flush_pending_def Let_def split: option.splits if_splits prod.splits sum.splits)

lemma sw_sync_index: "sw_sync w d = (r, w', d') \<Longrightarrow> sw_seg_index w' = sw_seg_index w"
  using flush_pending_index [of w d] by (auto simp: sw_sync_def split: if_splits prod.splits sum.splits)

lemma cut_index: "cut w d = (Inr (), w', d') \<Longrightarrow> sw_fd w \<noteq> None \<Longrightarrow> sw_seg_index w' = sw_seg_index w + 1"
  using flush_pending_index [of "w\<lparr>sw_pw := close_page (sw_pw w)\<rparr>" d]
  by (auto simp: cut_def Let_def open_new_segment_def split: prod.splits sum.splits)

section \<open>A run\<close>

lemma sw_log_in_place:
  assumes holds: "writer_holds w d recs" and pos: "\<not> rolls body w" "log_ok body (sw_pw w)"
    and res: "sw_log body w d = (Inr (), w', d')"
  shows "writer_holds w' d' (recs @ [body])" "sw_pw w' = log body (sw_pw w)"
    "sw_segment_size w' = sw_segment_size w" "sw_seg_index w' = sw_seg_index w"
proof -
  have "flush_pending (w\<lparr>sw_pw := log body (sw_pw w)\<rparr>) d = (Inr (), w', d')"
    using res pos(1) holds by (auto simp: sw_log_def rolls_def writer_holds_def Let_def split: if_splits)
  from writer_grow [OF holds pos(2) this]
  show "writer_holds w' d' (recs @ [body])" "sw_pw w' = log body (sw_pw w)"
    "sw_segment_size w' = sw_segment_size w" "sw_seg_index w' = sw_seg_index w" by simp_all
qed

text \<open>Two short records go to the first page of a fresh segment.\<close>

lemma fresh_segment_two:
  assumes holds: "writer_holds w d recs" and fresh: "sw_pw w = PageWriter_init" "sw_segment_size w = k_default_segment_size"
    and short: "length a < 1000" "length b < 1000"
  shows "positions_ok [a, b] w d"
    "sw_log_all [a, b] w d = (Inr (), w', d') \<Longrightarrow> sw_seg_index w' = sw_seg_index w"
proof -
  have a: "\<not> rolls a w" "log_ok a (sw_pw w)"
    using fresh by (simp_all add: rolls_def PageWriter_init_def log_ok_def page_offset_def k_page_size_def k_record_header_size_def)
  have b: "\<not> rolls b w1 \<and> log_ok b (sw_pw w1) \<and> writer_holds w1 d1 (recs @ [a]) \<and> sw_seg_index w1 = sw_seg_index w"
    if log: "sw_log a w d = (Inr (), w1, d1)" for w1 d1
  proof -
    note w1 = sw_log_in_place [OF holds a log]
    have "pw_buf (sw_pw w1) = frame Full a"
      using w1(2) log_single [of "sw_pw w" a] fresh(1) short(1)
      by (simp add: PageWriter_init_def page_offset_def k_page_size_def k_record_header_size_def)
    then have "length (pw_buf (sw_pw w1)) = 7 + length a"
      by (simp add: frame_def header_bytes_def)
    moreover have "framed_size_upper_bound (length b) \<le> 2000"
      using short(2) by (auto simp: framed_size_upper_bound_def Let_def k_page_size_def k_record_header_size_def div_le_mono)
    ultimately show ?thesis
      using w1 fresh(2) short by (simp add: rolls_def log_ok_def page_offset_def k_page_size_def
          k_record_header_size_def k_default_segment_size_def)
  qed
  show "positions_ok [a, b] w d"
    using a b by (auto simp: position_ok_def split: prod.splits sum.splits)
  assume "sw_log_all [a, b] w d = (Inr (), w', d')"
  then obtain w1 d1 where w1: "sw_log a w d = (Inr (), w1, d1)" "sw_log b w1 d1 = (Inr (), w', d')"
    by (auto split: prod.splits sum.splits)
  then show "sw_seg_index w' = sw_seg_index w"
    using b [OF w1(1)] sw_log_in_place(4) [of w1 d1 "recs @ [a]" b w' d'] by simp
qed

lemma next_index_bound:
  "\<forall>(n, c) \<in> set files. \<forall>i. parse_segment_name n = Some i \<longrightarrow> i \<le> m \<Longrightarrow>
   fold (\<lambda>(name, _) idx. case parse_segment_name name of None \<Rightarrow> idx | Some i \<Rightarrow> max idx (i + 1)) files k \<le> max k (m + 1)"
proof (induction files arbitrary: k)
  case (Cons f files)
  obtain name c where f: "f = (name, c)" by fastforce
  show ?case
    using Cons.IH [of "case parse_segment_name name of None \<Rightarrow> k | Some i \<Rightarrow> max k (i + 1)"] Cons.prems
    by (auto simp: f split: option.splits)
qed simp

lemma next_index_writer: "writer_holds w d recs \<Longrightarrow> next_index (dk_files d) \<le> sw_seg_index w + 1"
proof -
  assume "writer_holds w d recs"
  then have "\<forall>(n, c) \<in> set (dk_files d). \<forall>i. parse_segment_name n = Some i \<longrightarrow> i \<le> sw_seg_index w"
    unfolding writer_holds_def by blast
  from next_index_bound [OF this, of 0] show ?thesis by (simp add: next_index_def)
qed

abbreviation empty_disk :: Disk where
  "empty_disk \<equiv> \<lparr>dk_dir = False, dk_files = [], dk_faults = []\<rparr>"

abbreviation demo_labels :: Labels where
  "demo_labels \<equiv> mk_labels [Label ''job'' ''api'']"

lemma demo_open:
  "\<exists>h d. Head_open empty_disk = (Inr h, d) \<and> head_run h d (store_content (h_series h)) \<and> dk_faults d = [] \<and>
     h_series h = SeriesStore_init \<and> h_pending_series h = [] \<and> h_pending_samples h = [] \<and> \<not> h_closed h \<and>
     writer_holds (h_wal h) d [] \<and> sw_pw (h_wal h) = PageWriter_init \<and>
     sw_segment_size (h_wal h) = k_default_segment_size \<and> sw_seg_index (h_wal h) = 0"
proof -
  let ?n = "format_segment_name 0"
  let ?w = "\<lparr>sw_segment_size = k_default_segment_size, sw_seg_index = 0, sw_fd = Some ?n,
      sw_pw = PageWriter_init, sw_flushed_bytes = 0\<rparr>"
  let ?d = "\<lparr>dk_dir = True, dk_files = [(?n, [])], dk_faults = []\<rparr>"
  let ?h = "\<lparr>h_wal = ?w, h_series = SeriesStore_init, h_pending_series = [], h_pending_samples = [], h_closed = False\<rparr>"
  have w: "SegmentWriter_open k_default_segment_size empty_disk = (Inr ?w, ?d)"
    by (simp add: SegmentWriter_open_def sys_simple_ok open_new_segment_def next_index_def file_create_def Let_def)
  then have h: "Head_open empty_disk = (Inr ?h, ?d)"
    by (simp add: Head_open_def sys_simple_ok replay_wal_into_def SegmentReader_open_def)
  have "writer_holds ?w ?d []"
    using SegmentWriter_open_ok [OF _ w, of "[]"] by (simp add: next_index_def)
  then show ?thesis
    using run_open [OF _ _ h] h by simp
qed

lemma demo_append:
  assumes "h_series h = SeriesStore_init" "\<not> h_closed h" "h_pending_series h = []" "h_pending_samples h = []"
  shows "\<exists>h'. head_append demo_labels 5 7 h = (Inr 1, h') \<and>
     h_pending_series h' = [\<lparr>rs_ref = 1, rs_labels = [\<lparr>wl_name = ''job'', wl_value = ''api''\<rparr>]\<rparr>] \<and>
     h_pending_samples h' = [\<lparr>sm_ref = 1, sm_t = 5, sm_st = 0, sm_v = 7\<rparr>] \<and> h_wal h' = h_wal h \<and>
     store.holds (h_series h') [1 \<mapsto> (demo_labels, [(5, 7)])] \<and>
     all_series (h_series h') = [snd (ms_append 5 7 (MemSeries_init 1 demo_labels))]"
proof -
  let ?s = "\<lparr>ss_by_ref = [Some (MemSeries_init 1 demo_labels)], ss_by_labels = [demo_labels \<mapsto> 1], ss_next_ref = 2\<rparr>"
  have goc: "get_or_create demo_labels SeriesStore_init = (Inr (1, True), ?s)"
    by (simp add: get_or_create_def SeriesStore_init_def ensure_ref_slot_def max_slots_def)
  have holds: "store.holds ?s [1 \<mapsto> (demo_labels, [])]"
    using get_or_create_holds [OF store_holds_init goc] by simp
  have get: "store_get 1 ?s = Some (MemSeries_init 1 demo_labels)"
    by (simp add: store_get_def slot_get_def)
  obtain ms where ms: "ms_append 5 7 (MemSeries_init 1 demo_labels) = (Appended, ms)"
    "store.holds (store_put 1 ms ?s) [1 \<mapsto> (demo_labels, [(5, 7)])]"
    using store.holds_append [OF holds _ get, of demo_labels "[]" 5 7] by (auto simp: accepts_def)
  have "store_get 1 (store_put 1 ms ?s) = Some ms"
    using store_put_get [of 1 ?s 1 ms] get by simp
  then have "ms_ref ms = 1"
    using store.holds_lookup [OF ms(2), of 1] by auto
  moreover have "all_series (store_put 1 ms ?s) = [ms]"
    by (simp add: all_series_def store_put_def map_filter_simps)
  moreover have "to_wal_labels demo_labels = [\<lparr>wl_name = ''job'', wl_value = ''api''\<rparr>]"
    by (simp add: to_wal_labels_def mk_labels_def canonicalize_def)
  ultimately show ?thesis
    using assms goc get ms by (simp add: head_append_def MemSeries_init_def)
qed

lemma demo_run:
  "\<exists>h d. head_run h d [1 \<mapsto> (demo_labels, Inr [(5, 7)])] \<and> next_index (dk_files d) < 10 ^ 8 \<and> dk_faults d = [] \<and>
     \<not> h_closed h \<and> h_pending_series h = [] \<and> h_pending_samples h = [] \<and> sw_seg_index (h_wal h) = 0 \<and>
     store.holds (h_series h) [1 \<mapsto> (demo_labels, [(5, 7)])]"
proof -
  obtain h0 d0 where h0: "head_run h0 d0 (store_content (h_series h0))" "dk_faults d0 = []" "h_series h0 = SeriesStore_init"
    "h_pending_series h0 = []" "h_pending_samples h0 = []" "\<not> h_closed h0" "writer_holds (h_wal h0) d0 []"
    "sw_pw (h_wal h0) = PageWriter_init" "sw_segment_size (h_wal h0) = k_default_segment_size" "sw_seg_index (h_wal h0) = 0"
    using demo_open by blast
  let ?ss = "[\<lparr>rs_ref = 1, rs_labels = [\<lparr>wl_name = ''job'', wl_value = ''api''\<rparr>]\<rparr>]"
  let ?xs = "[\<lparr>sm_ref = 1, sm_t = 5, sm_st = 0, sm_v = 7\<rparr>]"
  obtain h1 where h1: "head_append demo_labels 5 7 h0 = (Inr 1, h1)" "h_pending_series h1 = ?ss" "h_pending_samples h1 = ?xs"
    "h_wal h1 = h_wal h0" "store.holds (h_series h1) [1 \<mapsto> (demo_labels, [(5, 7)])]"
    using demo_append [OF h0(3,6,4,5)] by blast
  have run1: "head_run h1 d0 (store_content (h_series h0))"
    using run_append [OF h0(1) mk_labels_wf h1(1)] by simp
  have "\<not> h_closed h1" using head_run_inv [OF run1] by (auto simp: head_inv_def)
  then obtain h2 d2 where c: "head_commit h1 d0 = (Inr (), h2, d2)" "dk_faults d2 = []"
    using head_commit_done [OF h0(2)] by blast
  have varint: "length (put_varint x) \<le> 10" for x
    using length_put_uvarint [of "zigzag x"] by (simp add: put_varint_def max_varint_len64_def)
  have len: "length (encode_series ?ss) < 1000" "length (encode_samples_v2 ?xs) < 1000"
    using varint [of 1] varint [of 5] varint [of 0] unfolding encode_samples_bytes
    by (simp_all add: encode_series_bytes series_bytes_def label_bytes_def str_bytes_def put_uvarint_small first_bytes_def)
  have recs: "commit_records h1 = [encode_series ?ss, encode_samples_v2 ?xs]"
    by (simp add: commit_records_def h1 del: encode_samples_v2.simps)
  note two = fresh_segment_two [OF h0(7-9) len]
  have "commit_fits h1 d0"
    using two(1) len recs h1 by (simp add: commit_fits_def series_wf_def samples_wf_def max_labels_def del: encode_samples_v2.simps)
  from run_commit [OF run1 this c(1)] have run2: "head_run h2 d2 (store_content (h_series h2))" .
  obtain w d1 w' where l: "sw_log_all (commit_records h1) (h_wal h1) d0 = (Inr (), w, d1)" "sw_sync w d1 = (Inr (), w', d2)"
    "h2 = h1\<lparr>h_wal := w', h_pending_series := [], h_pending_samples := []\<rparr>"
    using head_commit_log [OF c(1)] by blast
  have "writer_holds w d1 ([] @ [encode_series ?ss, encode_samples_v2 ?xs])" "sw_seg_index w = 0"
    using sw_log_all_ok [OF h0(7) two(1)] two(2) l(1) recs h1(4) h0(10) by auto
  then have w': "writer_holds w' d2 ([] @ [encode_series ?ss, encode_samples_v2 ?xs])" "sw_seg_index w' = 0"
    using sw_sync_ok [OF _ l(2)] by auto
  then have "next_index (dk_files d2) < 10 ^ 8"
    using next_index_writer [OF w'(1)] by simp
  moreover have "store_content (h_series h2) = [1 \<mapsto> (demo_labels, Inr [(5, 7)])]"
    using holds_content [OF h1(5)] l(3) by (simp add: fun_eq_iff as_stored_def)
  ultimately show ?thesis
    using run2 c(2) l(3) w'(2) h1(5) \<open>\<not> h_closed h1\<close>
    by (intro exI [of _ h2] exI [of _ d2]) simp
qed

section \<open>Properties\<close>

text \<open>
  C2. Durability: after a run (\<open>head_run\<close>), whenever the head dies, opening the directory again
  succeeds and the new head contains exactly the series, references and samples of the last
  commit, bit for bit, with nothing pending; right after a commit this is all that was in memory.
  A run interleaves appends (accepted or refused, but not thrown out of for want of room in the
  vector of series), commits, crashes with reopening, and interrupted or short system calls in any
  order, under two conditions on its commits. Each returned success; a
  head whose commit failed is not covered. And each satisfied \<open>commit_fits\<close>: its records can be
  decoded by their sizes, no segment number has nine digits, and no record starts where exactly seven
  bytes are left in a page. The code does not check the last point: a commit there succeeds, and the
  log cannot be opened again, as an error theorem of \<open>WalPage\<close> shows.
\<close>

theorem head_recovers_committed:
  assumes "head_run h d g" and "next_index (dk_files d) < 10 ^ 8"
  shows "\<exists>h' d'. Head_open (d\<lparr>dk_faults := []\<rparr>) = (Inr h', d') \<and> store_content (h_series h') = g \<and>
     h_pending_series h' = [] \<and> h_pending_samples h' = [] \<and>
     (h_pending_series h = [] \<longrightarrow> h_pending_samples h = [] \<longrightarrow> g = store_content (h_series h))"
proof -
  obtain f fg where inv: "head_inv h d f fg" and g: "g = as_stored fg"
    using head_run_inv [OF assms(1)] by blast
  have "fg = f" if "h_pending_series h = []" "h_pending_samples h = []"
    using inv that by (simp add: head_inv_def apply_pending_def)
  then show ?thesis
    using head_inv_reopen [OF inv assms(2)] g inv holds_content by (auto simp: head_inv_def)
qed

theorem head_recovers_committed_witness:
  "\<exists>h d h' d'. head_run h d [1 \<mapsto> (demo_labels, Inr [(5, 7)])] \<and> Head_open (d\<lparr>dk_faults := []\<rparr>) = (Inr h', d') \<and>
     store_content (h_series h') = [1 \<mapsto> (demo_labels, Inr [(5, 7)])]"
proof -
  obtain h d where "head_run h d [1 \<mapsto> (demo_labels, Inr [(5, 7)])]" "next_index (dk_files d) < 10 ^ 8"
    using demo_run by blast
  then show ?thesis using head_recovers_committed by blast
qed

text \<open>
  C24. What an append does in any state of \<open>head_run\<close>: it finds the series of the label set or creates
  one under a new reference, adds the sample there if it is not older than the last one of the
  series and refuses it otherwise, and changes nothing else in memory. Errors other than the
  refusal of an old sample do not occur, except the exception of a full vector.
\<close>

theorem head_append_functional:
  assumes "head_run h d g" and "labels_wf l" and "head_append l t v h = (res, h')" and "res \<noteq> Inl Thrown"
  shows "\<exists>r xs. (store_content (h_series h) r = Some (l, Inr xs) \<or>
       store_content (h_series h) r = None \<and> (\<forall>r' y. store_content (h_series h) r' \<noteq> Some (l, y)) \<and> xs = []) \<and>
     res = (if accepts xs t then Inr r else Inl Bad_argument) \<and>
     store_content (h_series h') = (store_content (h_series h))(r \<mapsto> (l, Inr (if accepts xs t then xs @ [(t, v)] else xs)))"
proof -
  obtain f fg where inv: "\<not> h_closed h" "store.holds (h_series h) f" "apply_pending h fg = Some f"
    using head_run_inv [OF assms(1)] by (auto simp: head_inv_def)
  obtain r xs where r: "series_of f l r xs" "res = (if accepts xs t then Inr r else Inl Bad_argument)"
    "store.holds (h_series h') (f(r \<mapsto> (l, if accepts xs t then xs @ [(t, v)] else xs)))"
    using head_append_ok [OF inv assms(2-4)] unfolding Let_def by blast
  show ?thesis
    using r holds_content [OF inv(2)] holds_content [OF r(3)]
    by (intro exI [of _ r] exI [of _ xs]) (auto simp: series_of_def labels_used_def)
qed

theorem head_append_functional_witness:
  "\<exists>h d h' r. head_run h d [1 \<mapsto> (demo_labels, Inr [(5, 7)])] \<and> head_append demo_labels 3 9 h = (Inl Bad_argument, h') \<and>
     store_content (h_series h') = store_content (h_series h)"
proof -
  obtain h d where run: "head_run h d [1 \<mapsto> (demo_labels, Inr [(5, 7)])]"
    and holds: "store.holds (h_series h) [1 \<mapsto> (demo_labels, [(5, 7)])]" "\<not> h_closed h"
    using demo_run by blast
  have content: "store_content (h_series h) = [1 \<mapsto> (demo_labels, Inr [(5, 7)])]"
    using holds_content [OF holds(1)] by (simp add: as_stored_def fun_eq_iff)
  have "ss_by_labels (h_series h) demo_labels = Some 1"
    using store.holds_ref_of [OF holds(1)] by simp
  then have "get_or_create demo_labels (h_series h) = (Inr (1, False), h_series h)"
    by (rule get_or_create_found)
  then obtain res h' where ap: "head_append demo_labels 3 9 h = (res, h')" "res \<noteq> Inl Thrown"
    using holds(2) by (cases "head_append demo_labels 3 9 h")
      (auto simp: head_append_def Let_def split: option.splits append_result.splits prod.splits)
  then show ?thesis
    using head_append_functional [OF run mk_labels_wf ap] run content
    by (intro exI [of _ h] exI [of _ d] exI [of _ h']) (auto simp: accepts_def fun_upd_idem split: if_splits)
qed

text \<open>
  C25. Closing: if \<open>close\<close> reports success, the head is closed, a new head on the directory
  contains everything the closed one had in memory, and every later append and commit is refused
  without an effect. Destroying the head, before or after it was closed, keeps that content. The
  records that closing commits must fit (\<open>commit_fits\<close>): none of them starts where exactly seven
  bytes are left in a page, the position at which the framing breaks.
\<close>

theorem head_close_durable:
  assumes "head_run h d g" and "commit_fits h d" and "head_close h d = (Inr (), h', d')"
    and "sw_seg_index (h_wal h') + 1 < 10 ^ 8"
  shows "h_closed h' \<and>
     (\<forall>dx \<in> {d', Head_destroy h d, Head_destroy h' d'}. \<exists>h2 d2. Head_open (dx\<lparr>dk_faults := []\<rparr>) = (Inr h2, d2) \<and>
        store_content (h_series h2) = store_content (h_series h)) \<and>
     head_append l t v h' = (Inl Operation_not_permitted, h') \<and>
     head_commit h' dx = (Inl Operation_not_permitted, h', dx) \<and> head_close h' dx = (Inr (), h', dx)"
proof -
  obtain f fg where inv: "head_inv h d f fg"
    using head_run_inv [OF assms(1)] by blast
  obtain h1 d1 w where c: "head_commit h d = (Inr (), h1, d1)" "cut (h_wal h1) d1 = (Inr (), w, d')"
    "h' = h1\<lparr>h_wal := w, h_closed := True\<rparr>"
    using assms(3) inv by (auto simp: head_close_def head_inv_def split: prod.splits sum.splits)
  obtain recs where recs: "writer_holds (h_wal h1) d1 recs" "apply_records recs no_series = Some f"
    using head_inv_commit [OF inv assms(2) c(1)] by (auto simp: head_inv_def)
  have "sw_seg_index w = sw_seg_index (h_wal h1) + 1"
    using cut_index [OF c(2)] recs(1) by (auto simp: writer_holds_def)
  then have w: "writer_holds w d' recs"
    using cut_ok [OF recs(1) c(2)] assms(4) c(3) by simp
  have opens: "\<exists>h2 d2. Head_open (dx\<lparr>dk_faults := []\<rparr>) = (Inr h2, d2) \<and> store_content (h_series h2) = store_content (h_series h)"
    if dx: "writer_holds w dx recs" for dx
  proof -
    have "wal_holds (dx\<lparr>dk_faults := []\<rparr>) recs" using writer_holds_wal [OF writer_holds_disk [OF dx]] by simp
    then obtain h2 d2 where h2: "Head_open (dx\<lparr>dk_faults := []\<rparr>) = (Inr h2, d2)" "store.holds (h_series h2) f"
      using Head_open_ok [OF _ _ recs(2), of "dx\<lparr>dk_faults := []\<rparr>"] next_index_writer [OF dx] assms(4) c(3) by auto
    then show ?thesis
      using holds_content [OF h2(2)] inv holds_content [of "h_series h" f] by (simp add: head_inv_def)
  qed
  have "Head_destroy h' d' = SegmentWriter_destroy w d'" "Head_destroy h d = SegmentWriter_destroy w d'"
    using assms(3) c(3) inv by (simp_all add: Head_destroy_def head_inv_def)
  then show ?thesis
    using opens [OF w] opens [OF destroy_holds [OF w]] by (simp add: c(3) head_append_def head_commit_def head_close_def)
qed

theorem head_close_durable_witness:
  "\<exists>h d h' d' h2 d2. head_run h d [1 \<mapsto> (demo_labels, Inr [(5, 7)])] \<and> head_close h d = (Inr (), h', d') \<and> h_closed h' \<and>
     Head_open (d'\<lparr>dk_faults := []\<rparr>) = (Inr h2, d2) \<and> store_content (h_series h2) = store_content (h_series h)"
proof -
  obtain h d where run: "head_run h d [1 \<mapsto> (demo_labels, Inr [(5, 7)])]" and d: "dk_faults d = []" "\<not> h_closed h"
    and pend: "h_pending_series h = []" "h_pending_samples h = []" "sw_seg_index (h_wal h) = 0"
    using demo_run by blast
  have fits: "commit_fits h d"
    using pend by (simp add: commit_fits_def commit_records_def series_wf_def samples_wf_def encode_series_bytes)
  obtain h1 d1 where h1: "head_commit h d = (Inr (), h1, d1)" "dk_faults d1 = []"
    using head_commit_done [OF d] by blast
  obtain w d' where w: "cut (h_wal h1) d1 = (Inr (), w, d')"
    using cut_done [OF h1(2)] by blast
  have "sw_seg_index (h_wal h1) = 0"
    using head_commit_log [OF h1(1)] pend sw_sync_index by (fastforce simp: commit_records_def)
  then have idx: "sw_seg_index (h_wal (h1\<lparr>h_wal := w, h_closed := True\<rparr>)) + 1 < 10 ^ 8"
    using cut_index [OF w] by (cases "sw_fd (h_wal h1)") (use w in \<open>auto simp: cut_def\<close>)
  have close: "head_close h d = (Inr (), h1\<lparr>h_wal := w, h_closed := True\<rparr>, d')"
    using h1 w d(2) by (simp add: head_close_def)
  show ?thesis
    using head_close_durable [OF run fits close idx] run close by blast
qed

text \<open>
  C29. Progress: on an open head with no failing system call, \<open>commit\<close> succeeds and leaves nothing
  pending, whatever is pending and wherever the log stands.
\<close>

theorem head_commit_progress:
  assumes "dk_faults d = []" and "\<not> h_closed h"
  shows "\<exists>h' d'. head_commit h d = (Inr (), h', d') \<and> h_pending_series h' = [] \<and> h_pending_samples h' = [] \<and>
     h_series h' = h_series h"
proof -
  obtain h' d' where c: "head_commit h d = (Inr (), h', d')"
    using head_commit_done [OF assms] by blast
  then show ?thesis using head_commit_log [OF c] by auto
qed

theorem head_commit_progress_witness:
  "\<exists>h d h' d'. Head_open empty_disk = (Inr h, d) \<and> head_commit h d = (Inr (), h', d')"
proof -
  obtain h d where "Head_open empty_disk = (Inr h, d)" "dk_faults d = []" "\<not> h_closed h"
    using demo_open by blast
  then show ?thesis using head_commit_progress by blast
qed

end
