(* ===== verification/HeadSelect.thy ===== *)
theory HeadSelect
  imports HeadRecovery
begin

text \<open>
  Queries on the head (\<open>Head::select\<close> in src/head/head.cpp). The chunks of a series are returned as
  copies if their time range meets the query range. Shown: in every reachable state the query
  returns, for each series that satisfies all matchers, every sample in the range, and nothing
  from other series; the time ranges of the returned chunks are those of their samples.
\<close>

definition in_range :: "i64 \<Rightarrow> i64 \<Rightarrow> sample \<Rightarrow> bool" where
  "in_range mint maxt x \<longleftrightarrow> sint mint \<le> sint (fst x) \<and> sint (fst x) \<le> sint maxt"

definition meta_ok :: "XORChunk \<Rightarrow> ChunkMeta \<Rightarrow> bool" where
  "meta_ok c m \<longleftrightarrow> (\<exists>zs. chunk_samples c = Inr zs \<and> zs \<noteq> [] \<and> cm_min_time m = fst (hd zs) \<and> cm_max_time m = fst (last zs))"

lemma chunk_samples_copy: "chunk_samples (from_bytes (chunk_bytes c)) = chunk_samples c"
  by (simp add: chunk_samples_def iterator_def from_bytes_def chunk_bytes_def BitWriter_init_def)

text \<open>The walk over a chunk that the loops over its samples make.\<close>

lemma chunk_ok_walk:
  assumes "chunk_ok c xs"
  obtains it rest it' where "iter_next (iterator c) = (True, it)" "iter_drain it = (rest, it')" "it_err it' = None"
    "it_t it = fst (hd xs)" "(if rest = [] then it_t it else fst (last rest)) = fst (last xs)" "num_samples c \<noteq> 0"
    "chunk_samples c = Inr xs"
proof -
  obtain a where holds: "chunk_holds c xs a" and ne: "xs \<noteq> []"
    using assms chunk_run_holds by (auto simp: chunk_ok_def)
  obtain it where it: "iter_drain (iterator c) = (xs, it)" "it_err it = None"
    using chunk_holds_drain [OF holds] by (auto simp: tracks_def)
  then obtain it1 rest where it1: "iter_next (iterator c) = (True, it1)" "iter_drain it1 = (rest, it)"
    "xs = (it_t it1, it_v it1) # rest"
    using ne by (subst (asm) iter_drain.simps) (auto split: prod.splits bool.splits)
  have "num_samples c \<noteq> 0"
    using chunk_holds_samples(2) [OF holds] ne by auto
  then show thesis
    using that [OF it1(1,2) it(2)] it1(3) chunk_holds_samples(1) [OF holds] by simp
qed

lemma select_chunk_ok:
  assumes "chunk_ok c xs"
  shows "chunk_samples c = Inr xs" "select_chunk mint maxt c = Inr
     (if sint (fst (hd xs)) > sint maxt \<or> sint (fst (last xs)) < sint mint then None
      else Some (from_bytes (chunk_bytes c), \<lparr>cm_ref = 0, cm_min_time = fst (hd xs), cm_max_time = fst (last xs)\<rparr>))"
  by (rule chunk_ok_walk [OF assms], simp add: select_chunk_def Let_def)+

lemma out_of_range:
  assumes "sorted (map (sint \<circ> fst) xs)" "xs \<noteq> []"
    and "sint (fst (hd xs)) > sint maxt \<or> sint (fst (last xs)) < sint mint"
  shows "filter (in_range mint maxt) xs = []"
proof -
  have "sint (fst (hd xs)) \<le> sint (fst x) \<and> sint (fst x) \<le> sint (fst (last xs))" if "x \<in> set xs" for x
  proof -
    obtain i where i: "i < length xs" "x = xs ! i" using \<open>x \<in> set xs\<close> by (metis in_set_conv_nth)
    have "map (sint \<circ> fst) xs ! 0 \<le> map (sint \<circ> fst) xs ! i" "map (sint \<circ> fst) xs ! i \<le> map (sint \<circ> fst) xs ! (length xs - 1)"
      using sorted_nth_mono [OF assms(1), of 0 i] sorted_nth_mono [OF assms(1), of i "length xs - 1"] i by simp_all
    then show ?thesis
      using i assms(2) by (simp add: hd_conv_nth last_conv_nth)
  qed
  then show ?thesis
    using assms(3) by (fastforce simp: filter_empty_conv in_range_def)
qed

lemma select_chunks_ok:
  "list_all2 chunk_ok cs parts \<Longrightarrow> sorted (map (sint \<circ> fst) (concat parts)) \<Longrightarrow>
   \<exists>out ys. select_chunks mint maxt cs = Inr out \<and> chunks_samples (map fst out) = Inr ys \<and>
     set ys \<subseteq> set (concat parts) \<and> filter (in_range mint maxt) ys = filter (in_range mint maxt) (concat parts) \<and>
     list_all (\<lambda>(c, m). meta_ok c m) out"
proof (induction cs parts rule: list_all2_induct)
  case (Cons c cs xs parts)
  obtain out ys where IH: "select_chunks mint maxt cs = Inr out" "chunks_samples (map fst out) = Inr ys"
    "set ys \<subseteq> set (concat parts)" "filter (in_range mint maxt) ys = filter (in_range mint maxt) (concat parts)"
    "list_all (\<lambda>(c, m). meta_ok c m) out"
    using Cons.IH Cons.prems by (auto simp: sorted_append)
  note c = select_chunk_ok [OF Cons.hyps(1)]
  have ne: "xs \<noteq> []" and xs: "sorted (map (sint \<circ> fst) xs)"
    using Cons.hyps(1) Cons.prems by (simp_all add: chunk_ok_def sorted_append comp_def)
  show ?case
  proof (cases "sint (fst (hd xs)) > sint maxt \<or> sint (fst (last xs)) < sint mint")
    case True
    then show ?thesis
      using IH c(2) [of mint maxt] out_of_range [OF xs ne True] by (intro exI [of _ out] exI [of _ ys]) auto
  next
    case False
    let ?y = "(from_bytes (chunk_bytes c), \<lparr>cm_ref = 0, cm_min_time = fst (hd xs), cm_max_time = fst (last xs)\<rparr>)"
    have "meta_ok (fst ?y) (snd ?y)"
      using c(1) ne by (simp add: meta_ok_def chunk_samples_copy)
    then show ?thesis
      using IH c False by (intro exI [of _ "?y # out"] exI [of _ "xs @ ys"]) (auto simp: chunk_samples_copy)
  qed
qed simp

text \<open>What one series contributes to the result.\<close>

definition answers :: "i64 \<Rightarrow> i64 \<Rightarrow> sample list \<Rightarrow> QueryResult \<Rightarrow> bool" where
  "answers mint maxt xs q \<longleftrightarrow> (\<exists>ys. chunks_samples (qr_chunks q) = Inr ys \<and> set ys \<subseteq> set xs \<and>
     filter (in_range mint maxt) ys = filter (in_range mint maxt) xs) \<and>
     list_all2 meta_ok (qr_chunks q) (qr_chunk_metas q)"

lemma select_series_ok:
  assumes "list_all2 (\<lambda>s xs. ms_inv s xs \<and> length xs < 2 ^ 64) ss xss"
  shows "\<exists>out. select_series rm ms mint maxt ss = Inr out \<and>
     (\<forall>q \<in> set out. labels_match_all rm (qr_labels q) ms \<and>
        (\<exists>(s, xs) \<in> set (zip ss xss). ms_labels s = qr_labels q \<and> answers mint maxt xs q)) \<and>
     (\<forall>(s, xs) \<in> set (zip ss xss). labels_match_all rm (ms_labels s) ms \<longrightarrow> filter (in_range mint maxt) xs \<noteq> [] \<longrightarrow>
        ms_labels s \<in> qr_labels ` set out) \<and>
     (distinct (map ms_labels ss) \<longrightarrow> distinct (map qr_labels out)) \<and> set (map qr_labels out) \<subseteq> set (map ms_labels ss)"
  using assms
proof (induction ss xss rule: list_all2_induct)
  case (Cons s ss xs xss)
  obtain out where IH: "select_series rm ms mint maxt ss = Inr out"
    "\<forall>q \<in> set out. labels_match_all rm (qr_labels q) ms \<and>
        (\<exists>(s, xs) \<in> set (zip ss xss). ms_labels s = qr_labels q \<and> answers mint maxt xs q)"
    "\<forall>(s, xs) \<in> set (zip ss xss). labels_match_all rm (ms_labels s) ms \<longrightarrow> filter (in_range mint maxt) xs \<noteq> [] \<longrightarrow>
        ms_labels s \<in> qr_labels ` set out"
    "distinct (map ms_labels ss) \<longrightarrow> distinct (map qr_labels out)" "set (map qr_labels out) \<subseteq> set (map ms_labels ss)"
    using Cons.IH by blast
  have "(of_nat (length xs) = (0 :: u64)) = (xs = [])"
    using Cons.hyps(1) by (simp add: word_unat_eq_iff unat_of_nat)
  then have skip: "ms_num_samples s = 0 \<longleftrightarrow> xs = []"
    using Cons.hyps(1) by (simp add: ms_inv_def)
  obtain parts where parts: "list_all2 chunk_ok (ms_chunks s) parts" "concat parts = xs" "sorted (map (sint \<circ> fst) xs)"
    using Cons.hyps(1) by (auto simp: ms_inv_def ms_parts_def)
  obtain cs ys where cs: "select_chunks mint maxt (ms_chunks s) = Inr cs" "chunks_samples (map fst cs) = Inr ys"
    "set ys \<subseteq> set xs" "filter (in_range mint maxt) ys = filter (in_range mint maxt) xs" "list_all (\<lambda>(c, m). meta_ok c m) cs"
    using select_chunks_ok [OF parts(1), of mint maxt] parts(2,3) by auto
  let ?q = "\<lparr>qr_labels = ms_labels s, qr_chunks = map fst cs, qr_chunk_metas = map snd cs\<rparr>"
  have q: "answers mint maxt xs ?q"
    using cs by (auto simp: answers_def list_all2_map1 list_all2_map2 list_all_iff list_all2_same)
  show ?case
  proof (cases "ms_num_samples s = 0 \<or> \<not> labels_match_all rm (ms_labels s) ms \<or> cs = []")
    case True
    then have "select_series rm ms mint maxt (s # ss) = Inr out"
      using IH(1) cs(1) by auto
    moreover have "\<not> labels_match_all rm (ms_labels s) ms \<or> filter (in_range mint maxt) xs = []"
      using True skip cs(2,4) by auto
    ultimately show ?thesis
      using IH by (intro exI [of _ out]) auto
  next
    case False
    then have "select_series rm ms mint maxt (s # ss) = Inr (?q # out)"
      using IH(1) cs(1) by auto
    then show ?thesis
      using IH q False by (intro exI [of _ "?q # out"]) auto
  qed
qed simp

text \<open>The series of a store, with their samples.\<close>

lemma all_series_samples:
  assumes holds: "store.holds s f" and len: "\<And>r l xs. f r = Some (l, xs) \<Longrightarrow> length xs < 2 ^ 64"
  shows "\<exists>xss. list_all2 (\<lambda>s xs. ms_inv s xs \<and> length xs < 2 ^ 64) (all_series s) xss \<and>
     (\<forall>r l xs. f r = Some (l, xs) \<longrightarrow> (\<exists>ms. (ms, xs) \<in> set (zip (all_series s) xss) \<and> ms_labels ms = l)) \<and>
     (\<forall>(ms, xs) \<in> set (zip (all_series s) xss). \<exists>r. f r = Some (ms_labels ms, xs))"
proof -
  have inv: "store_inv s" using holds by (simp add: store.holds_def)
  let ?samples = "\<lambda>ms. snd (the (f (ms_ref ms)))"
  have get: "\<exists>l xs. f r = Some (l, xs) \<and> ms_ref ms = r \<and> ms_labels ms = l \<and> ms_inv ms xs" if "store_get r s = Some ms" for r ms
  proof -
    have "f r \<noteq> None" using store.holds_None [OF holds, of r] that by simp
    then obtain l xs where f: "f r = Some (l, xs)" by auto
    then show ?thesis using store.holds_lookup [OF holds f] that by auto
  qed
  have "list_all2 (\<lambda>s xs. ms_inv s xs \<and> length xs < 2 ^ 64) (all_series s) (map ?samples (all_series s))"
    using get len all_series_set [OF inv] by (fastforce simp: list_all2_map2 list_all2_same)
  moreover have "\<exists>ms. (ms, xs) \<in> set (zip (all_series s) (map ?samples (all_series s))) \<and> ms_labels ms = l"
    if f: "f r = Some (l, xs)" for r l xs
  proof -
    obtain ms where ms: "store_get r s = Some ms" "ms_labels ms = l" "ms_ref ms = r"
      using store.holds_lookup [OF holds f] by blast
    then have "ms \<in> set (all_series s)" using all_series_set [OF inv] by blast
    then show ?thesis using ms f by (intro exI [of _ ms]) (force simp: zip_map2 zip_same_conv_map)
  qed
  moreover have "\<exists>r. f r = Some (ms_labels ms, xs)" if "(ms, xs) \<in> set (zip (all_series s) (map ?samples (all_series s)))" for ms xs
    using that all_series_set [OF inv] get by (fastforce simp: zip_map2 zip_same_conv_map)
  ultimately show ?thesis by blast
qed

lemma distinct_map_filter:
  assumes "\<And>i j a b. i < j \<Longrightarrow> j < length xs \<Longrightarrow> xs ! i = Some a \<Longrightarrow> xs ! j = Some b \<Longrightarrow> g a \<noteq> g b"
  shows "distinct (map g (List.map_filter (\<lambda>x. x) xs))"
  using assms
proof (induction xs)
  case (Cons x xs)
  have "g a \<noteq> g b" if "x = Some a" "b \<in> set (List.map_filter (\<lambda>x. x) xs)" for a b
    using that Cons.prems [of 0] by (fastforce simp: map_filter_nth)
  moreover have "distinct (map g (List.map_filter (\<lambda>x. x) xs))"
    using Cons.prems [of "Suc _" "Suc _"] by (intro Cons.IH) simp
  ultimately show ?case
    by (cases x) (auto simp: map_filter_simps)
qed (simp add: map_filter_simps)

lemma store_get_nth:
  assumes "store_inv s" "k < length (ss_by_ref s)" "ss_by_ref s ! k = Some ms"
  shows "unat (of_nat (k + 1) :: u64) = k + 1" "store_get (of_nat (k + 1)) s = Some ms"
proof -
  have "k + 1 < 2 ^ 64" using assms(1,2) by (simp add: store_inv_def max_slots_def)
  then show *: "unat (of_nat (k + 1) :: u64) = k + 1" by (simp only: unat_of_nat) simp
  then have "(of_nat (k + 1) :: u64) \<noteq> 0" by (metis add_is_0 one_neq_zero unat_0)
  then show "store_get (of_nat (k + 1)) s = Some ms"
    using assms(2,3) * by (simp only: store_get_Some) simp
qed

lemma all_series_distinct:
  assumes "store_inv s"
  shows "distinct (map ms_labels (all_series s))"
  unfolding all_series_def
proof (rule distinct_map_filter)
  fix i j a b
  assume ij: "i < j" "j < length (ss_by_ref s)" "ss_by_ref s ! i = Some a" "ss_by_ref s ! j = Some b"
  note i = store_get_nth [OF assms _ ij(3)] and j = store_get_nth [OF assms ij(2,4)]
  show "ms_labels a \<noteq> ms_labels b"
  proof
    assume "ms_labels a = ms_labels b"
    then have "(of_nat (i + 1) :: u64) = of_nat (j + 1)"
      using store.labels_unique [OF assms i(2) j(2)] ij(1,2) by simp
    then have "i + 1 = j + 1" using i(1) j(1) ij(1,2) by simp
    then show False using ij(1) by simp
  qed
qed

section \<open>The query\<close>

lemma head_select_spec:
  assumes "head_run h d g" and "matchers \<noteq> []"
    and "\<forall>r l xs. store_content (h_series h) r = Some (l, Inr xs) \<longrightarrow> length xs < 2 ^ 64"
  shows "\<exists>out. head_select rm matchers mint maxt h = Inr out \<and> distinct (map qr_labels out) \<and>
     (\<forall>q \<in> set out. labels_match_all rm (qr_labels q) matchers \<and>
        (\<exists>r xs ys. store_content (h_series h) r = Some (qr_labels q, Inr xs) \<and>
           chunks_samples (qr_chunks q) = Inr ys \<and> set ys \<subseteq> set xs \<and>
           filter (in_range mint maxt) ys = filter (in_range mint maxt) xs) \<and>
        list_all2 meta_ok (qr_chunks q) (qr_chunk_metas q)) \<and>
     (\<forall>r l xs. store_content (h_series h) r = Some (l, Inr xs) \<longrightarrow> labels_match_all rm l matchers \<longrightarrow>
        (\<exists>x \<in> set xs. in_range mint maxt x) \<longrightarrow> l \<in> qr_labels ` set out)"
proof -
  obtain f where f: "store.holds (h_series h) f"
    using head_run_inv [OF assms(1)] by (auto simp: head_inv_def)
  note content = holds_content [OF f]
  obtain xss where xss: "list_all2 (\<lambda>s xs. ms_inv s xs \<and> length xs < 2 ^ 64) (all_series (h_series h)) xss"
    "\<forall>r l xs. f r = Some (l, xs) \<longrightarrow> (\<exists>ms. (ms, xs) \<in> set (zip (all_series (h_series h)) xss) \<and> ms_labels ms = l)"
    "\<forall>(ms, xs) \<in> set (zip (all_series (h_series h)) xss). \<exists>r. f r = Some (ms_labels ms, xs)"
    using all_series_samples [OF f] assms(3) by (auto simp: content)
  have "distinct (map ms_labels (all_series (h_series h)))"
    using all_series_distinct f by (simp add: store.holds_def)
  then obtain out where out: "select_series rm matchers mint maxt (all_series (h_series h)) = Inr out"
     "\<forall>q \<in> set out. labels_match_all rm (qr_labels q) matchers \<and>
        (\<exists>(s, xs) \<in> set (zip (all_series (h_series h)) xss). ms_labels s = qr_labels q \<and> answers mint maxt xs q)"
     "\<forall>(s, xs) \<in> set (zip (all_series (h_series h)) xss). labels_match_all rm (ms_labels s) matchers \<longrightarrow>
        filter (in_range mint maxt) xs \<noteq> [] \<longrightarrow> ms_labels s \<in> qr_labels ` set out"
     "distinct (map qr_labels out)"
    using select_series_ok [OF xss(1), of rm matchers mint maxt] by blast
  have "l \<in> qr_labels ` set out" if "f r = Some (l, xs)" "labels_match_all rm l matchers" "x \<in> set xs" "in_range mint maxt x" for r l xs x
    using xss(2) out(3) that by (fastforce simp: filter_empty_conv)
  moreover have "\<exists>r xs ys. f r = Some (qr_labels q, xs) \<and> chunks_samples (qr_chunks q) = Inr ys \<and> set ys \<subseteq> set xs \<and>
      filter (in_range mint maxt) ys = filter (in_range mint maxt) xs" and "list_all2 meta_ok (qr_chunks q) (qr_chunk_metas q)"
    if "q \<in> set out" for q
    using out(2) xss(3) that by (fastforce simp: answers_def)+
  ultimately show ?thesis
    using assms(2) out by (auto simp: head_select_def content)
qed

text \<open>References in a reachable head belong to different label sets.\<close>

lemma head_content_unique:
  assumes "head_run h d g" "store_content (h_series h) r = Some (l, x)" "store_content (h_series h) r' = Some (l, y)"
  shows "r = r'"
proof -
  obtain f where "store.holds (h_series h) f" using head_run_inv [OF assms(1)] by (auto simp: head_inv_def)
  then have "store_inv (h_series h)" by (simp add: store.holds_def)
  then show ?thesis
    using assms(2,3) store.labels_unique [of "h_series h" r _ r'] by (auto simp: store_content_def)
qed

section \<open>Properties\<close>

text \<open>
  C3. A query on a head in a state of \<open>head_run\<close> is sound and complete: with at least one matcher it succeeds; each
  returned series satisfies all matchers and appears once; the chunks returned for it decode to
  samples of that series and contain every sample in the inclusive time range, in order; a
  matching series with a sample in range is never missing; and the recorded time range of each
  chunk is that of its first and last sample.
\<close>

theorem head_select_complete:
  assumes "head_run h d g" and "matchers \<noteq> []"
    and "\<forall>r l xs. store_content (h_series h) r = Some (l, Inr xs) \<longrightarrow> length xs < 2 ^ 64"
  shows "\<exists>out. head_select rm matchers mint maxt h = Inr out \<and> distinct (map qr_labels out) \<and>
     (\<forall>q \<in> set out. labels_match_all rm (qr_labels q) matchers \<and>
        (\<exists>r xs ys. store_content (h_series h) r = Some (qr_labels q, Inr xs) \<and>
           chunks_samples (qr_chunks q) = Inr ys \<and> set ys \<subseteq> set xs \<and>
           filter (in_range mint maxt) ys = filter (in_range mint maxt) xs) \<and>
        list_all2 meta_ok (qr_chunks q) (qr_chunk_metas q)) \<and>
     (\<forall>r l xs. store_content (h_series h) r = Some (l, Inr xs) \<longrightarrow> labels_match_all rm l matchers \<longrightarrow>
        (\<exists>x \<in> set xs. in_range mint maxt x) \<longrightarrow> l \<in> qr_labels ` set out)"
  by (rule head_select_spec [OF assms])

theorem head_select_complete_witness:
  "\<exists>h d out q. head_run h d [1 \<mapsto> (demo_labels, Inr [(5, 7)])] \<and>
     head_select (\<lambda>(re :: unit) s. False) [equal ''job'' ''api''] 0 9 h = Inr out \<and> q \<in> set out \<and> qr_labels q = demo_labels"
proof -
  obtain h d where run: "head_run h d [1 \<mapsto> (demo_labels, Inr [(5, 7)])]"
    and holds: "store.holds (h_series h) [1 \<mapsto> (demo_labels, [(5, 7)])]"
    using demo_run by blast
  have content: "store_content (h_series h) = [1 \<mapsto> (demo_labels, Inr [(5, 7)])]"
    using holds_content [OF holds] by (simp add: as_stored_def fun_eq_iff)
  have "labels_match_all (\<lambda>(re :: unit) s. False) demo_labels [equal ''job'' ''api'']"
    by (simp add: get_mk_labels last_value_def value_or_empty_def)
  moreover have "in_range 0 9 (5, 7)" by (simp add: in_range_def)
  ultimately show ?thesis
    using head_select_complete [OF run, of "[equal ''job'' ''api'']" "\<lambda>(re :: unit) s. False" 0 9] run content
    by (fastforce split: if_splits)
qed

end
