(* ===== verification/HeadLog.thy ===== *)
theory HeadLog
  imports HeadRecovery
begin

text \<open>
  The write-ahead log only grows. Whatever sequence of openings, appends, commits, closings,
  destructions and crashes a directory sees, and whatever system calls fail or write short in any of
  them, no byte that once reached a file is changed or lost, and every new segment has a higher number
  than all files before it. Where \<open>HeadRecovery\<close> follows the runs whose commits succeed, this theory
  follows all of them.
\<close>

section \<open>Growing directories\<close>

abbreviation names :: "Disk \<Rightarrow> string set" where
  "names d \<equiv> set (map fst (dk_files d))"

definition extends :: "Disk \<Rightarrow> Disk \<Rightarrow> bool" where
  "extends d d' \<longleftrightarrow>
     (\<forall>f c. map_of (dk_files d) f = Some c \<longrightarrow> (\<exists>ys. map_of (dk_files d') f = Some (c @ ys))) \<and>
     (\<forall>f \<in> names d' - names d. \<exists>i. parse_segment_name f = Some i \<and> next_index (dk_files d) \<le> i)"

lemma map_of_names: "f \<in> names d \<longleftrightarrow> (\<exists>c. map_of (dk_files d) f = Some c)"
  using map_of_eq_None_iff [of "dk_files d" f] by (metis not_None_eq set_map)

lemma extends_names: "extends d d' \<Longrightarrow> names d \<subseteq> names d'"
  unfolding extends_def map_of_names subset_iff by blast

lemma next_index_least:
  assumes "\<And>f i. f \<in> set (map fst files) \<Longrightarrow> parse_segment_name f = Some i \<Longrightarrow> i < m"
  shows "next_index files \<le> m"
proof -
  have "fold (\<lambda>(name, _) idx. case parse_segment_name name of None \<Rightarrow> idx | Some i \<Rightarrow> max idx (i + 1)) files k \<le> m"
    if "k \<le> m" for k using assms that
  proof (induction files arbitrary: k)
    case (Cons x files)
    then show ?case by (cases x) (force split: option.splits intro!: Cons.IH)
  qed simp
  from this [of 0] show ?thesis by (simp add: next_index_def)
qed

lemma next_index_above: "f \<in> set (map fst files) \<Longrightarrow> parse_segment_name f = Some i \<Longrightarrow> i < next_index files"
  using next_index_fresh by force

lemma next_index_mono: "set (map fst files) \<subseteq> set (map fst files') \<Longrightarrow> next_index files \<le> next_index files'"
  by (rule next_index_least) (meson next_index_above subsetD)

lemma extends_files: "dk_files d' = dk_files d \<Longrightarrow> extends d d'"
  by (simp add: extends_def)

lemma extends_trans:
  assumes "extends d d1" "extends d1 d2"
  shows "extends d d2"
proof -
  have "next_index (dk_files d) \<le> next_index (dk_files d1)"
    by (rule next_index_mono [OF extends_names [OF assms(1)]])
  then have "\<exists>i. parse_segment_name f = Some i \<and> next_index (dk_files d) \<le> i" if "f \<in> names d2 - names d" for f
    using assms that unfolding extends_def by (cases "f \<in> names d1") (blast, meson DiffD1 DiffI le_trans)
  moreover have "\<exists>ys. map_of (dk_files d2) f = Some (c @ ys)" if "map_of (dk_files d) f = Some c" for f c
    using assms that unfolding extends_def by (metis append.assoc)
  ultimately show ?thesis unfolding extends_def by blast
qed

section \<open>Writes\<close>

definition same_names :: "Disk \<Rightarrow> Disk \<Rightarrow> bool" where
  "same_names d d' \<longleftrightarrow> names d' = names d \<and> extends d d'"

lemma same_names_files: "dk_files d' = dk_files d \<Longrightarrow> same_names d d'"
  by (simp add: same_names_def extends_files)

lemma same_names_trans: "same_names d d1 \<Longrightarrow> same_names d1 d2 \<Longrightarrow> same_names d d2"
  unfolding same_names_def using extends_trans by blast

lemma same_names_append: "same_names d (file_append fd bs d)"
proof (cases "map_of (dk_files d) fd")
  case None
  then show ?thesis by (simp add: file_append_def same_names_files)
next
  case (Some old)
  from map_of_file_append [OF Some, of bs] have "names (file_append fd bs d) = names d"
    by (metis set_map)
  then show ?thesis
    using map_of_file_append [OF Some, of bs] Some by (simp add: same_names_def extends_def)
qed

lemma sys_simple_same: "sys_simple d = (r, d') \<Longrightarrow> same_names d d'"
  by (simp add: same_names_files sys_simple_disk)

lemma write_all_same: "write_all fd data d = (r, d') \<Longrightarrow> same_names d d'"
proof (induction fd data d rule: write_all.induct)
  case (1 fd data d)
  obtain q d1 where sys: "syscall d = (q, d1)" by fastforce
  then have d1: "same_names d d1" by (simp add: same_names_files syscall_disk)
  show ?case
  proof (cases "data = []")
    case ne: False
    let ?k = "\<lambda>n. min n (length data)"
    have part: "same_names d (file_append fd bs d1)" for bs
      by (rule same_names_trans [OF d1 same_names_append])
    show ?thesis
    proof (cases q)
      case (Partial n)
      have "same_names (file_append fd (take (?k n) data) d1) d'" if "?k n \<noteq> 0"
        using "1.IH"(1) [OF ne sys [symmetric] Partial refl that] "1.prems" ne sys Partial that
        by (simp add: write_all.simps [of fd data d] Let_def)
      then show ?thesis
        using "1.prems" ne sys Partial d1 same_names_trans [OF part]
        by (auto simp: write_all.simps [of fd data d] Let_def split: if_splits)
    next
      case Interrupted
      then show ?thesis
        using "1.IH"(2) [OF ne sys [symmetric] Interrupted] "1.prems" ne sys same_names_trans [OF d1]
        by (simp add: write_all.simps [of fd data d])
    qed (use "1.prems" ne sys d1 part in \<open>auto simp: write_all.simps [of fd data d]\<close>)
  qed (use "1.prems" in \<open>auto simp: write_all.simps [of fd "[]" d] same_names_files\<close>)
qed

lemma flush_pending_same:
  "flush_pending w d = (r, w', d') \<Longrightarrow> same_names d d' \<and> sw_fd w' = sw_fd w \<and> sw_seg_index w' = sw_seg_index w"
  by (auto simp: flush_pending_def Let_def same_names_files split: option.splits if_splits prod.splits sum.splits
      dest: write_all_same)

section \<open>The writer\<close>

text \<open>
  The number of the segment a writer has open, and what holds of it: it is the last number of the
  directory. A writer whose last attempt to open a segment failed has none.
\<close>

definition cursor :: "SegmentWriter \<Rightarrow> nat option" where
  "cursor w = (if sw_fd w = None then None else Some (sw_seg_index w))"

lemma cursor_pw [simp]: "cursor (w\<lparr>sw_pw := p\<rparr>) = cursor w"
  by (simp add: cursor_def)

definition log_inv :: "nat option \<Rightarrow> Disk \<Rightarrow> bool" where
  "log_inv c d \<longleftrightarrow> (\<forall>i. c = Some i \<longrightarrow> i + 1 = next_index (dk_files d))"

text \<open>
  What every operation does: names only come in, and as long as the numbers have at most eight
  digits, the files are extended and the invariant is kept.
\<close>

definition grows :: "nat option \<times> Disk \<Rightarrow> nat option \<times> Disk \<Rightarrow> bool" where
  "grows s s' \<longleftrightarrow> names (snd s) \<subseteq> names (snd s') \<and>
     (case_prod log_inv s \<longrightarrow> next_index (dk_files (snd s')) < 10 ^ 8 \<longrightarrow>
        extends (snd s) (snd s') \<and> case_prod log_inv s')"

lemma grows_trans:
  assumes "grows s s1" "grows s1 s2"
  shows "grows s s2"
proof -
  have "next_index (dk_files (snd s1)) \<le> next_index (dk_files (snd s2))"
    using assms(2) by (intro next_index_mono) (simp add: grows_def)
  then show ?thesis
    using assms extends_trans unfolding grows_def by (meson order_trans le_less_trans)
qed

lemma grows_same: "same_names d d' \<Longrightarrow> c' = c \<or> c' = None \<Longrightarrow> grows (c, d) (c', d')"
proof -
  assume same: "same_names d d'" and c: "c' = c \<or> c' = None"
  then have "next_index (dk_files d') = next_index (dk_files d)"
    by (intro antisym next_index_mono) (simp_all add: same_names_def)
  then show ?thesis
    using same c by (auto simp: grows_def same_names_def log_inv_def)
qed

lemma file_create_names: "names (file_create f d) = insert f (names d)"
  by (simp add: file_create_def dom_map_of_conv_image_fst [symmetric] AList.update_conv')

text \<open>Creating the next segment does not meet an old file.\<close>

lemma create_extends:
  assumes "n = next_index (dk_files d)" "n < 10 ^ 8"
  shows "extends d (file_create (format_segment_name n) d)" and "log_inv (Some n) (file_create (format_segment_name n) d)"
proof -
  let ?f = "format_segment_name n" and ?d = "file_create (format_segment_name n) d"
  note parse = parse_format [OF assms(2)]
  have fresh: "?f \<notin> names d"
    using next_index_above [of ?f "dk_files d" n] parse assms(1) by auto
  have files: "map_of (dk_files ?d) = (map_of (dk_files d))(?f \<mapsto> [])"
    by (simp add: file_create_def AList.update_conv')
  show "extends d ?d"
    using fresh parse by (auto simp: extends_def files file_create_names map_of_names assms(1) [symmetric] simp del: set_map)
  have "next_index (dk_files ?d) \<le> n + 1"
  proof (rule next_index_least)
    fix f i assume f: "f \<in> names ?d" "parse_segment_name f = Some i"
    have "i < n" if "f \<in> names d" using next_index_above [OF that f(2)] assms(1) by simp
    then show "i < n + 1" using f parse unfolding file_create_names by fastforce
  qed
  moreover have "n < next_index (dk_files ?d)"
    using parse by (intro next_index_above [of ?f]) (simp_all add: file_create_names del: set_map)
  ultimately show "log_inv (Some n) ?d" by (simp add: log_inv_def)
qed

lemma open_new_segment_grows:
  assumes "open_new_segment w d = (r, w', d')" and "sw_fd w = None"
    and "c \<noteq> None \<Longrightarrow> c = Some (sw_seg_index w - 1) \<and> 0 < sw_seg_index w"
    and "c = None \<Longrightarrow> sw_seg_index w = next_index (dk_files d)"
  shows "grows (c, d) (cursor w', d')"
proof -
  let ?f = "format_segment_name (sw_seg_index w)"
  obtain q d1 where sys: "sys_simple d = (q, d1)" by fastforce
  note same = sys_simple_same [OF sys]
  show ?thesis
  proof (cases q)
    case (Inl e)
    then have "cursor w' = None" "d' = d1"
      using assms(1,2) sys by (auto simp: open_new_segment_def cursor_def Let_def)
    then show ?thesis using grows_same [OF same] by simp
  next
    case (Inr u)
    then have d': "cursor w' = Some (sw_seg_index w)" "d' = file_create ?f d1"
      using assms(1) sys by (auto simp: open_new_segment_def cursor_def Let_def)
    have files: "dk_files d1 = dk_files d" using sys_simple_disk [OF sys] by simp
    have "extends d d' \<and> log_inv (cursor w') d'" if inv: "log_inv c d" "next_index (dk_files d') < 10 ^ 8"
    proof -
      have n: "sw_seg_index w = next_index (dk_files d1)"
        using inv(1) assms(3,4) files by (cases c) (auto simp: log_inv_def)
      moreover have "next_index (dk_files d1) \<le> next_index (dk_files d')"
        unfolding d' by (rule next_index_mono) (simp add: file_create_names subset_insertI del: set_map)
      ultimately show ?thesis
        using create_extends [of "sw_seg_index w" d1] inv(2) extends_trans [OF extends_files [OF files]] d' by simp
    qed
    then show ?thesis
      using files by (simp add: grows_def d' file_create_names subset_insertI del: set_map)
  qed
qed

lemma SegmentWriter_open_grows:
  "SegmentWriter_open sz d = (r, d') \<Longrightarrow> grows (None, d) (case r of Inl e \<Rightarrow> None | Inr w \<Rightarrow> cursor w, d')"
proof -
  assume run: "SegmentWriter_open sz d = (r, d')"
  obtain q d1 where s1: "sys_simple d = (q, d1)" by fastforce
  note g1 = grows_same [OF sys_simple_same [OF s1], of None None]
  have g2: "grows (None, d1) (None, d1\<lparr>dk_dir := True\<rparr>)" by (rule grows_same) (simp_all add: same_names_files)
  obtain q3 d3 where s3: "sys_simple (d1\<lparr>dk_dir := True\<rparr>) = (q3, d3)" by fastforce
  have g3: "grows (None, d) (None, d3)"
    by (rule grows_trans [OF grows_trans [OF g1 g2]]) (simp_all add: grows_same sys_simple_same [OF s3])
  let ?w = "\<lparr>sw_segment_size = sz, sw_seg_index = next_index (dk_files d3), sw_fd = None, sw_pw = PageWriter_init, sw_flushed_bytes = 0\<rparr>"
  obtain q4 w4 d4 where o4: "open_new_segment ?w d3 = (q4, w4, d4)" by (metis prod_cases3)
  have "grows (None, d3) (cursor w4, d4)" by (rule open_new_segment_grows [OF o4]) simp_all
  moreover have "cursor w4 = None" if "q4 = Inl e" for e
    using o4 that by (auto simp: open_new_segment_def cursor_def Let_def split: prod.splits sum.splits)
  ultimately show ?thesis
    using run s1 s3 o4 g1 g3 grows_trans [OF g3] by (auto simp: SegmentWriter_open_def Let_def split: sum.splits)
qed

lemma flush_pending_grows: "flush_pending w d = (r, w', d') \<Longrightarrow> grows (cursor w, d) (cursor w', d')"
  using flush_pending_same [of w d r w' d'] by (simp add: grows_same cursor_def)

lemma sys_simple_grows: "sys_simple d = (r, d') \<Longrightarrow> grows (c, d) (c, d')"
  by (simp add: grows_same sys_simple_same)

lemma sw_sync_grows: "sw_sync w d = (r, w', d') \<Longrightarrow> grows (cursor w, d) (cursor w', d')"
  by (auto simp: sw_sync_def grows_same same_names_files split: if_splits prod.splits sum.splits
      dest!: flush_pending_grows dest: grows_trans [OF _ sys_simple_grows])

lemma cut_grows:
  assumes "cut w d = (r, w', d')"
  shows "grows (cursor w, d) (cursor w', d')"
proof (cases "sw_fd w")
  case None
  then show ?thesis using assms by (simp add: cut_def grows_same same_names_files)
next
  case (Some fd)
  obtain q2 w2 d2 where f: "flush_pending (w\<lparr>sw_pw := close_page (sw_pw w)\<rparr>) d = (q2, w2, d2)" by (metis prod_cases3)
  have w2: "sw_fd w2 = Some fd" "sw_seg_index w2 = sw_seg_index w"
    using flush_pending_same [OF f] Some by simp_all
  have g2: "grows (cursor w, d) (cursor w2, d2)"
    using flush_pending_grows [OF f] by simp
  obtain q3 d3 q4 d4 where s: "sys_simple d2 = (q3, d3)" "sys_simple d3 = (q4, d4)" by fastforce
  note g3 = grows_trans [OF g2 sys_simple_grows [OF s(1)]]
  note g4 = grows_trans [OF g3 sys_simple_grows [OF s(2)]]
  have "grows (cursor w2, d4) (cursor w', d')"
    if "open_new_segment (w2\<lparr>sw_fd := None, sw_seg_index := sw_seg_index w2 + 1\<rparr>) d4 = (r, w', d')"
    by (rule open_new_segment_grows [OF that]) (simp_all add: cursor_def w2)
  then show ?thesis
    using assms Some f s g2 g3 g4 grows_trans [OF g4] by (auto simp: cut_def split: sum.splits)
qed

lemma sw_log_grows:
  assumes "sw_log body w d = (r, w', d')"
  shows "grows (cursor w, d) (cursor w', d')"
proof -
  let ?full = "sw_flushed_bytes w + (length (pw_buf (sw_pw w)) - sw_flushed_bytes w) > 0 \<and>
     sw_flushed_bytes w + (length (pw_buf (sw_pw w)) - sw_flushed_bytes w) + framed_size_upper_bound (length body) > sw_segment_size w"
  obtain q w1 d1 where c: "(if ?full then cut w d else (Inr (), w, d)) = (q, w1, d1)" by (metis prod_cases3)
  then have g1: "grows (cursor w, d) (cursor w1, d1)"
    using cut_grows [of w d q w1 d1] by (simp add: grows_same same_names_files split: if_splits)
  show ?thesis
    using assms g1 c flush_pending_grows [of "w1\<lparr>sw_pw := log body (sw_pw w1)\<rparr>" d1 r w' d'] grows_trans [OF g1]
    by (auto simp: sw_log_def Let_def split: sum.splits simp del: neq0_conv)
qed

section \<open>The head\<close>

abbreviation head_cursor :: "Head \<Rightarrow> nat option" where
  "head_cursor h \<equiv> cursor (h_wal h)"

lemma sr_next_files: "sr_next r d = (res, r', d') \<Longrightarrow> dk_files d' = dk_files d"
proof (induction r d arbitrary: res r' d' rule: sr_next.induct)
  case (1 r d)
  obtain q d1 where page: "sr_page r d = (q, d1)" by fastforce
  then have d1: "dk_files d1 = dk_files d"
    by (auto simp: sr_page_def load_current_segment_def split: option.splits prod.splits sum.splits dest: sys_simple_disk)
  show ?case
  proof (cases "sr_current_index r \<ge> length (sr_paths r)")
    case in_range: False
    show ?thesis
    proof (cases q)
      case (Inr p)
      obtain x p' where nx: "page_next p = (x, p')" by fastforce
      let ?adv = "r\<lparr>sr_page_reader := None, sr_current_index := sr_current_index r + 1\<rparr>"
      note run = "1.prems" [unfolded sr_next.simps [of r d]]
      show ?thesis
        using "1.IH"(1,2) [OF in_range page [symmetric] Inr nx [symmetric]] run in_range page Inr nx d1
        by (auto simp: Let_def split: sum.splits if_splits)
    qed (use "1.prems" in_range page d1 in \<open>auto simp: sr_next.simps [of r d]\<close>)
  qed (use "1.prems" in \<open>auto simp: sr_next.simps [of r d]\<close>)
qed

lemma replay_loop_files: "replay_loop rdr d store = (res, store', d') \<Longrightarrow> dk_files d' = dk_files d"
proof (induction rdr d store rule: replay_loop.induct)
  case (1 rdr d store)
  obtain q rdr1 d1 where nx: "sr_next rdr d = (q, rdr1, d1)" by (metis prod_cases3)
  note files = sr_next_files [OF nx]
  show ?case
  proof (cases q)
    case (Inr rec)
    obtain x store1 where rec: "replay_record rec store = (x, store1)" by fastforce
    show ?thesis
      using "1.IH" [OF nx [symmetric] Inr refl rec [symmetric]] "1.prems" nx Inr rec files
      by (cases x) (simp_all add: replay_loop.simps [of rdr d])
  qed (use "1.prems" nx files in \<open>auto simp: replay_loop.simps [of rdr d] split: if_splits\<close>)
qed

lemma replay_wal_files: "replay_wal_into d store = (res, store', d') \<Longrightarrow> dk_files d' = dk_files d"
  by (auto simp: replay_wal_into_def SegmentReader_open_def split: if_splits prod.splits sum.splits
      dest!: sys_simple_disk replay_loop_files)

lemma Head_open_grows:
  assumes "Head_open d = (r, d')"
  shows "grows (None, d) (case r of Inl e \<Rightarrow> None | Inr h \<Rightarrow> head_cursor h, d')"
proof -
  obtain q1 d1 q2 store d2 q3 d3 where run: "sys_simple d = (q1, d1)" "replay_wal_into d1 SeriesStore_init = (q2, store, d2)"
    "SegmentWriter_open k_default_segment_size d2 = (q3, d3)"
    by (metis prod_cases3 surj_pair)
  have same: "same_names d d1" "same_names d d2"
    using sys_simple_disk [OF run(1)] replay_wal_files [OF run(2)] by (simp_all add: same_names_files)
  then have g: "grows (None, d) (None, d1)" "grows (None, d) (None, d2)" by (simp_all add: grows_same)
  show ?thesis
    using assms run g grows_trans [OF g(2) SegmentWriter_open_grows [OF run(3)]]
    by (auto simp: Head_open_def split: sum.splits)
qed

lemma head_commit_grows:
  assumes "head_commit h d = (r, h', d')"
  shows "grows (head_cursor h, d) (head_cursor h', d')"
proof -
  have refl: "grows s s" for s by (cases s) (simp add: grows_same same_names_files)
  obtain q1 h1 d1 q2 h2 d2 q3 w d3 where run: "commit_series h d = (q1, h1, d1)" "commit_samples h1 d1 = (q2, h2, d2)"
    "sw_sync (h_wal h2) d2 = (q3, w, d3)"
    by (metis prod_cases3)
  have g1: "grows (head_cursor h, d) (head_cursor h1, d1)"
    using run(1) refl by (auto simp: commit_series_def split: if_splits prod.splits sum.splits dest!: sw_log_grows)
  have "grows (head_cursor h1, d1) (head_cursor h2, d2)"
    using run(2) refl by (auto simp: commit_samples_def split: if_splits prod.splits sum.splits dest!: sw_log_grows)
  note g2 = grows_trans [OF g1 this]
  show ?thesis
    using assms run g1 g2 refl grows_trans [OF g2 sw_sync_grows [OF run(3)]]
    by (auto simp: head_commit_def split: if_splits sum.splits)
qed

lemma head_append_wal: "head_append l t v h = (r, h') \<Longrightarrow> h_wal h' = h_wal h"
  by (auto simp: head_append_def Let_def split: if_splits prod.splits sum.splits option.splits append_result.splits)

lemma head_close_grows:
  assumes "head_close h d = (r, h', d')"
  shows "grows (head_cursor h, d) (head_cursor h', d')"
proof -
  obtain q1 h1 d1 q2 w d2 where run: "head_commit h d = (q1, h1, d1)" "cut (h_wal h1) d1 = (q2, w, d2)"
    by (metis prod_cases3)
  note g = head_commit_grows [OF run(1)]
  show ?thesis
    using assms run g grows_trans [OF g cut_grows [OF run(2)]]
    by (auto simp: head_close_def grows_same same_names_files split: if_splits sum.splits)
qed

lemma SegmentWriter_destroy_grows: "grows (cursor w, d) (None, SegmentWriter_destroy w d)"
proof -
  obtain q w1 d1 where f: "flush_pending w d = (q, w1, d1)" by (metis prod_cases3)
  obtain q2 d2 q3 d3 where s: "sys_simple d1 = (q2, d2)" "sys_simple d2 = (q3, d3)" by fastforce
  have "same_names d d1" using flush_pending_same [OF f] by blast
  then have "same_names d d3" using same_names_trans sys_simple_same [OF s(1)] sys_simple_same [OF s(2)] by blast
  then show ?thesis using f s by (simp add: SegmentWriter_destroy_def grows_same same_names_files)
qed

lemma Head_destroy_grows: "grows (head_cursor h, d) (None, Head_destroy h d)"
proof -
  obtain q h1 d1 where run: "head_close h d = (q, h1, d1)" by (metis prod_cases3)
  show ?thesis
    using grows_trans [OF head_close_grows [OF run] SegmentWriter_destroy_grows [of "h_wal h1" d1]]
      SegmentWriter_destroy_grows [of "h_wal h" d] run
    by (simp add: Head_destroy_def)
qed

section \<open>All runs\<close>

text \<open>
  What can happen to a directory and the head on it, if there is one. No operation is required to
  succeed, and the outcomes of the coming system calls may change at any time. A crash loses the
  memory and leaves the files.
\<close>

inductive log_step :: "Head option \<times> Disk \<Rightarrow> Head option \<times> Disk \<Rightarrow> bool" where
  step_open: "log_step (None, d) (Some h, d')" if "Head_open d = (Inr h, d')"
| step_refuse: "log_step (None, d) (None, d')" if "Head_open d = (Inl e, d')"
| step_append: "log_step (Some h, d) (Some h', d)" if "head_append l t v h = (r, h')"
| step_commit: "log_step (Some h, d) (Some h', d')" if "head_commit h d = (r, h', d')"
| step_close: "log_step (Some h, d) (Some h', d')" if "head_close h d = (r, h', d')"
| step_destroy: "log_step (Some h, d) (None, Head_destroy h d)"
| step_crash: "log_step (Some h, d) (None, d)"
| step_faults: "log_step (x, d) (x, d\<lparr>dk_faults := fs\<rparr>)"

abbreviation at_log :: "Head option \<times> Disk \<Rightarrow> nat option \<times> Disk" where
  "at_log s \<equiv> (Option.bind (fst s) head_cursor, snd s)"

lemma log_step_grows: "log_step s s' \<Longrightarrow> grows (at_log s) (at_log s')"
proof (induction rule: log_step.induct)
  case (step_open d h d')
  then show ?case using Head_open_grows [of d "Inr h" d'] by simp
next
  case (step_refuse d e d')
  then show ?case using Head_open_grows [of d "Inl e" d'] by simp
next
  case (step_append l t v h r h' d)
  then show ?case by (simp add: head_append_wal grows_same same_names_files)
qed (simp_all add: head_commit_grows head_close_grows Head_destroy_grows grows_same same_names_files)

lemma log_steps_grow: "log_step\<^sup>*\<^sup>* s s' \<Longrightarrow> grows (at_log s) (at_log s')"
proof (induction rule: rtranclp_induct)
  case base
  show ?case by (simp add: grows_same same_names_files)
next
  case (step s1 s2)
  then show ?case using grows_trans log_step_grows by blast
qed

text \<open>
  C9. The log is append-only. Take any directory and any sequence of steps on it, whatever calls
  fail on the way: between any two moments of the run, every file of the earlier moment is still
  there with its bytes as a prefix, and every file that was added has a number above all numbers of
  the earlier moment, as long as eight digits suffice.
\<close>

theorem log_append_only:
  assumes "log_step\<^sup>*\<^sup>* (None, d0) (x, d)" and "log_step\<^sup>*\<^sup>* (x, d) (y, d')" and "next_index (dk_files d') < 10 ^ 8"
  shows "(map_of (dk_files d) f = Some c \<longrightarrow> (\<exists>ys. map_of (dk_files d') f = Some (c @ ys))) \<and>
    (map_of (dk_files d) f = None \<longrightarrow> map_of (dk_files d') f \<noteq> None \<longrightarrow>
       (\<exists>i. parse_segment_name f = Some i \<and> (\<forall>g j. map_of (dk_files d) g \<noteq> None \<longrightarrow> parse_segment_name g = Some j \<longrightarrow> j < i)))"
proof -
  note g = log_steps_grow [OF assms(1)] log_steps_grow [OF assms(2)]
  have "next_index (dk_files d) \<le> next_index (dk_files d')"
    using g(2) by (intro next_index_mono) (simp add: grows_def)
  then have "log_inv (Option.bind x head_cursor) d"
    using g(1) assms(3) by (simp add: grows_def log_inv_def)
  then have ext: "extends d d'" using g(2) assms(3) by (simp add: grows_def)
  have above: "j < i" if "map_of (dk_files d) g \<noteq> None" "parse_segment_name g = Some j" "next_index (dk_files d) \<le> i" for g i j
    using next_index_above [of g "dk_files d" j] that map_of_names [of g d] by force
  have "\<exists>i. parse_segment_name f = Some i \<and> next_index (dk_files d) \<le> i"
    if "map_of (dk_files d) f = None" "map_of (dk_files d') f \<noteq> None"
    using ext that map_of_names [of f d] map_of_names [of f d'] by (auto simp: extends_def simp del: set_map)
  then show ?thesis using ext above unfolding extends_def by blast
qed

text \<open>The runs with successful commits are among these runs.\<close>

lemma head_run_steps: "head_run h d g \<Longrightarrow> \<exists>d0. dk_files d0 = [] \<and> log_step\<^sup>*\<^sup>* (None, d0) (Some h, d)"
proof (induction rule: head_run.induct)
  case (run_open d h d')
  then show ?case using step_open by blast
next
  case (run_reopen h d g h' d')
  have "log_step\<^sup>*\<^sup>* (Some h, d) (Some h', d')"
    using step_crash step_faults step_open [OF run_reopen(3)] by (meson r_into_rtranclp rtranclp.rtrancl_into_rtrancl)
  then show ?case using run_reopen.IH by (meson rtranclp_trans)
next
  case (run_faults h d g fs)
  then show ?case using step_faults [of "Some h" d fs] by (meson rtranclp.rtrancl_into_rtrancl)
qed (meson step_append step_commit rtranclp.rtrancl_into_rtrancl)+

lemma SegmentWriter_open_names:
  "SegmentWriter_open sz d = (Inr w, d') \<Longrightarrow> names d' = insert (format_segment_name (next_index (dk_files d))) (names d)"
proof -
  assume run: "SegmentWriter_open sz d = (Inr w, d')"
  let ?w = "\<lambda>d. \<lparr>sw_segment_size = sz, sw_seg_index = next_index (dk_files d), sw_fd = None, sw_pw = PageWriter_init, sw_flushed_bytes = 0\<rparr>"
  obtain d1 d3 where st: "sys_simple d = (Inr (), d1)" "sys_simple (d1\<lparr>dk_dir := True\<rparr>) = (Inr (), d3)"
    "open_new_segment (?w d3) d3 = (Inr (), w, d')"
    using run by (auto simp: SegmentWriter_open_def Let_def split: prod.splits sum.splits)
  have d3: "dk_files d3 = dk_files d" using sys_simple_disk [OF st(1)] sys_simple_disk [OF st(2)] by simp
  obtain d4 where d4: "sys_simple d3 = (Inr (), d4)" "d' = file_create (format_segment_name (next_index (dk_files d3))) d4"
    using st(3) by (auto simp: open_new_segment_def Let_def split: prod.splits sum.splits)
  have "dk_files d4 = dk_files d" using sys_simple_disk [OF d4(1)] d3 by simp
  then show ?thesis unfolding d4(2) file_create_names d3 by simp
qed

lemma Head_open_names: "Head_open d = (Inr h, d') \<Longrightarrow> names d' = insert (format_segment_name (next_index (dk_files d))) (names d)"
proof -
  assume run: "Head_open d = (Inr h, d')"
  obtain u d1 v store d2 w where steps: "sys_simple d = (u, d1)" "replay_wal_into d1 SeriesStore_init = (v, store, d2)"
    "SegmentWriter_open k_default_segment_size d2 = (Inr w, d')"
    using run by (auto simp: Head_open_def split: prod.splits sum.splits)
  have "dk_files d2 = dk_files d" using sys_simple_disk [OF steps(1)] replay_wal_files [OF steps(2)] by simp
  then show ?thesis using SegmentWriter_open_names [OF steps(3)] by simp
qed

theorem log_append_only_witness:
  "\<exists>d0 h d h' d' i. log_step\<^sup>*\<^sup>* (None, d0) (Some h, d) \<and> log_step\<^sup>*\<^sup>* (Some h, d) (Some h', d') \<and>
     store_content (h_series h) = [1 \<mapsto> (demo_labels, Inr [(5, 7)])] \<and> parse_segment_name (format_segment_name i) = Some i \<and>
     map_of (dk_files d) (format_segment_name i) = None \<and> map_of (dk_files d') (format_segment_name i) \<noteq> None \<and>
     (\<forall>f c. map_of (dk_files d) f = Some c \<longrightarrow> (\<exists>ys. map_of (dk_files d') f = Some (c @ ys)))"
proof -
  obtain h d where run: "head_run h d [1 \<mapsto> (demo_labels, Inr [(5, 7)])]" and bound: "next_index (dk_files d) < 10 ^ 8"
    and idx: "sw_seg_index (h_wal h) = 0" and holds: "store.holds (h_series h) [1 \<mapsto> (demo_labels, [(5, 7)])]"
    using demo_run by blast
  obtain f g where inv: "head_inv h d f g" using head_run_inv [OF run] by blast
  obtain h' d' where opened: "Head_open (d\<lparr>dk_faults := []\<rparr>) = (Inr h', d')" using head_inv_reopen [OF inv bound] by blast
  obtain d0 where first: "log_step\<^sup>*\<^sup>* (None, d0) (Some h, d)" using head_run_steps [OF run] by blast
  have then_open: "log_step\<^sup>*\<^sup>* (Some h, d) (Some h', d')"
    using step_crash step_faults step_open [OF opened] by (meson r_into_rtranclp rtranclp.rtrancl_into_rtrancl)
  let ?i = "next_index (dk_files d)"
  have new: "names d' = insert (format_segment_name ?i) (names d)" using Head_open_names [OF opened] by simp
  have parse: "parse_segment_name (format_segment_name ?i) = Some ?i" by (rule parse_format [OF bound])
  have "?i \<le> 1" using next_index_writer inv idx by (force simp: head_inv_def)
  moreover have "next_index (dk_files d') \<le> ?i + 1"
    using new parse next_index_above [of _ "dk_files d"] by (intro next_index_least) (force simp del: set_map)
  ultimately have small: "next_index (dk_files d') < 10 ^ 8" by simp
  have "format_segment_name ?i \<notin> names d" using next_index_above [of "format_segment_name ?i" "dk_files d" ?i] parse by blast
  then have fresh: "map_of (dk_files d) (format_segment_name ?i) = None" "map_of (dk_files d') (format_segment_name ?i) \<noteq> None"
    using map_of_names [of "format_segment_name ?i" d] map_of_names [of "format_segment_name ?i" d'] new by auto
  have content: "store_content (h_series h) = [1 \<mapsto> (demo_labels, Inr [(5, 7)])]"
    using holds_content [OF holds] by (simp add: as_stored_def fun_eq_iff)
  show ?thesis
    using log_append_only [OF first then_open small] first then_open content parse fresh by blast
qed

end
