(* ===== verification/BlockChunks.thy ===== *)
theory BlockChunks
  imports Segment Varint
begin

text \<open>
  The chunk segment files of a persistent block (src/block/chunks.cpp, block/chunks.hpp): a
  writer that frames chunks into numbered files and hands out references, and a caching reader.
  Offsets of the reader are computed in 64-bit words as the source does, so the wrap-around of a
  malformed length is visible; accesses outside a span are the error \<open>Undefined_access\<close>. The
  directory and its faults are those of the log segments. Shown: every reference the writer
  returned reads back its chunk, and the iteration of a segment lists exactly its chunks.
\<close>

section \<open>Errors and constants\<close>

text \<open>The error codes of the block layer; exceptions and undefined behaviour are values too.\<close>

datatype block_error = Errc errc | File_exists | Not_permitted | Illegal_byte_sequence
  | No_such_file | Not_supported | Invalid_arg | Result_out_of_range | Throws | Undefined_access

type_synonym Encoding = u8

definition Encoding_None :: Encoding where
  "Encoding_None = 0"

definition Encoding_XOR :: Encoding where
  "Encoding_XOR = 1"

definition Encoding_Histogram :: Encoding where
  "Encoding_Histogram = 2"

definition Encoding_FloatHistogram :: Encoding where
  "Encoding_FloatHistogram = 3"

definition Encoding_XOR2 :: Encoding where
  "Encoding_XOR2 = 4"

text \<open>The name of an encoding; any byte of a file can be cast to the enumeration.\<close>

definition encoding_to_string :: "Encoding \<Rightarrow> string" where
  "encoding_to_string e =
     (if e = Encoding_None then ''none''
      else if e = Encoding_XOR then ''XOR''
      else if e = Encoding_Histogram then ''histogram''
      else if e = Encoding_FloatHistogram then ''floathistogram''
      else if e = Encoding_XOR2 then ''XOR2''
      else ''<unknown>'')"

definition k_magic_chunks :: u32 where
  "k_magic_chunks = 0x85BD40DD"

definition k_chunks_format_v1 :: u8 where
  "k_chunks_format_v1 = 1"

definition k_chunks_segment_header_size :: nat where
  "k_chunks_segment_header_size = 8"

definition k_chunk_encoding_size :: nat where
  "k_chunk_encoding_size = 1"

definition k_chunk_crc_size :: nat where
  "k_chunk_crc_size = 4"

definition k_chunks_segment_filename_width :: nat where
  "k_chunks_segment_filename_width = 6"

definition k_default_chunks_segment_size :: nat where
  "k_default_chunks_segment_size = 512 * 1024 * 1024"

record BlockChunkRef =
  cr_seq :: u32
  cr_offset :: u32

definition from_u64 :: "u64 \<Rightarrow> BlockChunkRef" where
  "from_u64 v = \<lparr>cr_seq = ucast (drop_bit 32 v), cr_offset = ucast (v AND 0xFFFFFFFF)\<rparr>"

definition to_u64 :: "BlockChunkRef \<Rightarrow> u64" where
  "to_u64 r = push_bit 32 (ucast (cr_seq r)) OR ucast (cr_offset r)"

record ChunkPayload =
  cp_encoding :: Encoding
  cp_data :: bytes

definition format_chunk_name :: "nat \<Rightarrow> string" where
  "format_chunk_name seq =
     replicate (k_chunks_segment_filename_width - length (decimal seq)) (digit 0) @ decimal seq"

definition parse_chunk_name :: "string \<Rightarrow> nat option" where
  "parse_chunk_name name =
     (if length name \<noteq> k_chunks_segment_filename_width then None else parse_digits name 0)"

section \<open>The writer\<close>

record ChunkWriter =
  cw_segment_size :: nat
  cw_fd :: "string option"
  cw_seq :: u32
  cw_seg_offset :: nat
  cw_closed :: bool

definition k_EBADF :: nat where
  "k_EBADF = 9"

text \<open>\<open>write\<close> on the descriptor \<open>-1\<close> fails.\<close>

definition cw_write_all :: "bytes \<Rightarrow> ChunkWriter \<Rightarrow> Disk \<Rightarrow> (block_error + unit) \<times> Disk" where
  "cw_write_all data w d =
     (case cw_fd w of
        None \<Rightarrow> if data = [] then (Inr (), d) else (Inl (Errc (Os k_EBADF)), d)
      | Some fd \<Rightarrow>
          (case write_all fd data d of
             (Inl e, d') \<Rightarrow> (Inl (Errc e), d')
           | (Inr _, d') \<Rightarrow> (Inr (), d')))"

definition segment_header :: bytes where
  "segment_header =
     [ucast (drop_bit 24 k_magic_chunks), ucast (drop_bit 16 k_magic_chunks),
      ucast (drop_bit 8 k_magic_chunks), ucast k_magic_chunks, k_chunks_format_v1, 0, 0, 0]"

text \<open>Closing the segment that is open, if any.\<close>

definition end_segment :: "ChunkWriter \<Rightarrow> Disk \<Rightarrow> (block_error + unit) \<times> ChunkWriter \<times> Disk" where
  "end_segment w d =
     (if cw_fd w = None then (Inr (), w, d)
      else case sys_simple d of
        (Inl e, d1) \<Rightarrow> (Inl (Errc e), w, d1)
      | (Inr _, d1) \<Rightarrow>
          (case sys_simple d1 of
             (Inl e, d2) \<Rightarrow> (Inl (Errc e), w, d2)
           | (Inr _, d2) \<Rightarrow> (Inr (), w\<lparr>cw_fd := None, cw_seq := cw_seq w + 1\<rparr>, d2)))"

definition cut_new_segment :: "ChunkWriter \<Rightarrow> Disk \<Rightarrow> (block_error + unit) \<times> ChunkWriter \<times> Disk" where
  "cut_new_segment w d =
     (case end_segment w d of
        (Inl e, w1, d1) \<Rightarrow> (Inl e, w1, d1)
      | (Inr _, w1, d1) \<Rightarrow>
          let path = format_chunk_name (unat (cw_seq w1 + 1)) in
          case sys_simple d1 of
            (Inl e, d2) \<Rightarrow> (Inl (Errc e), w1\<lparr>cw_fd := None\<rparr>, d2)
          | (Inr _, d2) \<Rightarrow>
              let w2 = w1\<lparr>cw_fd := Some path\<rparr> in
              (case cw_write_all segment_header w2 (file_create path d2) of
                 (Inl e, d3) \<Rightarrow> (Inl e, w2, d3)
               | (Inr _, d3) \<Rightarrow> (Inr (), w2\<lparr>cw_seg_offset := k_chunks_segment_header_size\<rparr>, d3)))"

definition ChunkWriter_open :: "nat \<Rightarrow> Disk \<Rightarrow> (block_error + ChunkWriter) \<times> Disk" where
  "ChunkWriter_open segment_size d =
     (case sys_simple d of
        (Inl e, d1) \<Rightarrow> (Inl (Errc e), d1)
      | (Inr _, d1) \<Rightarrow>
          let d2 = d1\<lparr>dk_dir := True\<rparr> in
          case sys_simple d2 of
            (Inl e, d3) \<Rightarrow> (Inl (Errc e), d3)
          | (Inr _, d3) \<Rightarrow>
              if list_ex (\<lambda>(name, _). parse_chunk_name name \<noteq> None) (dk_files d3) then (Inl File_exists, d3)
              else
                let w = \<lparr>cw_segment_size = segment_size, cw_fd = None, cw_seq = 0, cw_seg_offset = 0,
                         cw_closed = False\<rparr>
                in case cut_new_segment w d3 of
                     (Inl e, _, d4) \<Rightarrow> (Inl e, d4)
                   | (Inr _, w', d4) \<Rightarrow> (Inr w', d4))"

text \<open>The bytes of one chunk: length, encoding, data, checksum of encoding and data.\<close>

definition chunk_frame :: "Encoding \<Rightarrow> bytes \<Rightarrow> bytes" where
  "chunk_frame enc data =
     put_uvarint (of_nat (length data)) @ [enc] @ data @ be32 (finalize (update (update k_init [enc]) data))"

definition cw_write ::
  "Encoding \<Rightarrow> bytes \<Rightarrow> ChunkWriter \<Rightarrow> Disk \<Rightarrow> (block_error + BlockChunkRef) \<times> ChunkWriter \<times> Disk" where
  "cw_write enc data w d =
     (if cw_closed w then (Inl Not_permitted, w, d)
      else
        let worst_case = max_varint_len64 + k_chunk_encoding_size + length data + k_chunk_crc_size;
            (r, w1, d1) = (if cw_seg_offset w > k_chunks_segment_header_size \<and>
                              cw_seg_offset w + worst_case > cw_segment_size w
                           then cut_new_segment w d else (Inr (), w, d))
        in case r of
             Inl e \<Rightarrow> (Inl e, w1, d1)
           | Inr _ \<Rightarrow>
               let ref = \<lparr>cr_seq = cw_seq w1, cr_offset = of_nat (cw_seg_offset w1)\<rparr>;
                   buf = chunk_frame enc data
               in case cw_write_all buf w1 d1 of
                    (Inl e, d2) \<Rightarrow> (Inl e, w1, d2)
                  | (Inr _, d2) \<Rightarrow> (Inr ref, w1\<lparr>cw_seg_offset := cw_seg_offset w1 + length buf\<rparr>, d2))"

definition cw_close :: "ChunkWriter \<Rightarrow> Disk \<Rightarrow> (block_error + unit) \<times> ChunkWriter \<times> Disk" where
  "cw_close w d =
     (if cw_closed w then (Inr (), w, d)
      else
        let w1 = w\<lparr>cw_closed := True\<rparr> in
        if cw_fd w1 = None then (Inr (), w1, d)
        else case sys_simple d of
          (Inl e, d1) \<Rightarrow> (Inl (Errc e), w1, d1)
        | (Inr _, d1) \<Rightarrow>
            (case sys_simple d1 of
               (Inl e, d2) \<Rightarrow> (Inl (Errc e), w1, d2)
             | (Inr _, d2) \<Rightarrow> (Inr (), w1\<lparr>cw_fd := None\<rparr>, d2)))"

text \<open>The destructor, and what the move operations leave behind in both objects.\<close>

definition ChunkWriter_destroy :: "ChunkWriter \<Rightarrow> Disk \<Rightarrow> Disk" where
  "ChunkWriter_destroy w d =
     (if \<not> cw_closed w \<and> cw_fd w \<noteq> None then snd (sys_simple (snd (sys_simple d))) else d)"

definition ChunkWriter_move :: "ChunkWriter \<Rightarrow> ChunkWriter \<times> ChunkWriter" where
  "ChunkWriter_move other = (other, other\<lparr>cw_fd := None, cw_closed := True\<rparr>)"

definition ChunkWriter_assign :: "ChunkWriter \<Rightarrow> ChunkWriter \<Rightarrow> Disk \<Rightarrow> (ChunkWriter \<times> ChunkWriter) \<times> Disk" where
  "ChunkWriter_assign self other d =
     (ChunkWriter_move other, if cw_fd self \<noteq> None then snd (sys_simple (snd (sys_simple d))) else d)"

section \<open>The reader\<close>

record ChunkReader =
  rd_segments :: "string list"
  rd_cache :: "bytes list"

definition chunk_indexed :: "(string \<times> bytes) list \<Rightarrow> (nat \<times> string) list" where
  "chunk_indexed files =
     sort_key fst (List.map_filter (\<lambda>(name, _). map_option (\<lambda>i. (i, name)) (parse_chunk_name name)) files)"

definition ChunkReader_open :: "Disk \<Rightarrow> (block_error + ChunkReader) \<times> Disk" where
  "ChunkReader_open d =
     (if \<not> dk_dir d then (Inl (Errc Not_a_directory), d)
      else case sys_simple d of
        (Inl e, d1) \<Rightarrow> (Inl (Errc e), d1)
      | (Inr _, d1) \<Rightarrow>
          let segs = map snd (chunk_indexed (dk_files d1))
          in (Inr \<lparr>rd_segments = segs, rd_cache = replicate (length segs) []\<rparr>, d1))"

definition segment_seqs :: "ChunkReader \<Rightarrow> nat list" where
  "segment_seqs r = [0..<length (rd_segments r)]"

text \<open>
  Loading a segment: the file is opened, then read into the cache; a read that breaks off leaves
  in the cache what was read. The header is checked after the cache was filled.
\<close>

definition check_header :: "bytes \<Rightarrow> block_error + bytes" where
  "check_header cached =
     (if length cached < k_chunks_segment_header_size then Inl Illegal_byte_sequence
      else if read_be32 cached \<noteq> k_magic_chunks then Inl Illegal_byte_sequence
      else if cached ! 4 \<noteq> k_chunks_format_v1 then Inl Illegal_byte_sequence
      else Inr cached)"

definition load_segment :: "nat \<Rightarrow> ChunkReader \<Rightarrow> Disk \<Rightarrow> (block_error + bytes) \<times> ChunkReader \<times> Disk" where
  "load_segment i r d =
     (case sys_simple d of
        (Inl e, d1) \<Rightarrow> (Inl (Errc e), r, d1)
      | (Inr _, d1) \<Rightarrow>
          (case map_of (dk_files d1) (rd_segments r ! i) of
             None \<Rightarrow> (Inl (Errc (Os 2)), r, d1)
           | Some content \<Rightarrow>
               (case syscall d1 of
                  (Done, d2) \<Rightarrow> (check_header content, r\<lparr>rd_cache := (rd_cache r)[i := content]\<rparr>, d2)
                | (Partial n, d2) \<Rightarrow> (Inl (Errc Io_error), r\<lparr>rd_cache := (rd_cache r)[i := take n content]\<rparr>, d2)
                | (_, d2) \<Rightarrow> (Inl (Errc Io_error), r\<lparr>rd_cache := (rd_cache r)[i := []]\<rparr>, d2))))"

definition bytes_for :: "u32 \<Rightarrow> ChunkReader \<Rightarrow> Disk \<Rightarrow> (block_error + bytes) \<times> ChunkReader \<times> Disk" where
  "bytes_for seq r d =
     (if unat seq \<ge> length (rd_cache r) then (Inl No_such_file, r, d)
      else if rd_cache r ! unat seq \<noteq> [] then (Inr (rd_cache r ! unat seq), r, d)
      else load_segment (unat seq) r d)"

definition read_chunk_at :: "u32 \<Rightarrow> bytes \<Rightarrow> block_error + ChunkPayload" where
  "read_chunk_at offset bs =
     (if unat offset \<ge> length bs then Inl Illegal_byte_sequence
      else case read_uvarint (drop (unat offset) bs) of
        Inl _ \<Rightarrow> Inl Illegal_byte_sequence
      | Inr (len, n) \<Rightarrow>
          let enc_off = ucast offset + of_nat n :: u64;
              data_off = enc_off + of_nat k_chunk_encoding_size;
              crc_off = data_off + len;
              end_off = crc_off + of_nat k_chunk_crc_size
          in if unat end_off > length bs then Inl Illegal_byte_sequence
             else if unat enc_off \<ge> length bs \<or> unat data_off + unat len > length bs \<or>
                     unat crc_off + k_chunk_crc_size > length bs then Inl Undefined_access
             else
               let enc = bs ! unat enc_off;
                   data = take (unat len) (drop (unat data_off) bs);
                   stored = read_be32 (drop (unat crc_off) bs)
               in if finalize (update (update k_init [enc]) data) \<noteq> stored then Inl Illegal_byte_sequence
                  else Inr \<lparr>cp_encoding = enc, cp_data = data\<rparr>)"

definition chunk_read :: "BlockChunkRef \<Rightarrow> ChunkReader \<Rightarrow> Disk \<Rightarrow> (block_error + ChunkPayload) \<times> ChunkReader \<times> Disk" where
  "chunk_read ref r d =
     (case bytes_for (cr_seq ref) r d of
        (Inl e, r1, d1) \<Rightarrow> (Inl e, r1, d1)
      | (Inr bs, r1, d1) \<Rightarrow> (read_chunk_at (cr_offset ref) bs, r1, d1))"

record ChunkInfo =
  ci_ref :: BlockChunkRef
  ci_encoding :: Encoding
  ci_data_size :: u64

text \<open>
  The loop over the chunks of a segment. A malformed length can wrap the next offset back, so
  the loop need not end: it runs on fuel, and \<open>None\<close> means the fuel was used up.
\<close>

fun iterate_loop :: "nat \<Rightarrow> u32 \<Rightarrow> bytes \<Rightarrow> u64 \<Rightarrow> ChunkInfo list \<Rightarrow> (block_error + ChunkInfo list) option" where
  "iterate_loop 0 seq bs offset out = None"
| "iterate_loop (Suc fuel) seq bs offset out =
     (if unat offset < length bs then
        case read_uvarint (drop (unat offset) bs) of
          Inl _ \<Rightarrow> Some (Inl Illegal_byte_sequence)
        | Inr (len, n) \<Rightarrow>
            let enc_off = offset + of_nat n;
                end_off = enc_off + of_nat k_chunk_encoding_size + len + of_nat k_chunk_crc_size
            in if unat end_off > length bs then Some (Inl Illegal_byte_sequence)
               else if unat enc_off \<ge> length bs then Some (Inl Undefined_access)
               else iterate_loop fuel seq bs end_off
                 (out @ [\<lparr>ci_ref = \<lparr>cr_seq = seq, cr_offset = ucast offset\<rparr>, ci_encoding = bs ! unat enc_off,
                          ci_data_size = len\<rparr>])
      else Some (Inr out))"

definition iterate_segment ::
  "nat \<Rightarrow> u32 \<Rightarrow> ChunkReader \<Rightarrow> Disk \<Rightarrow> (block_error + ChunkInfo list) option \<times> ChunkReader \<times> Disk" where
  "iterate_segment fuel seq r d =
     (case bytes_for seq r d of
        (Inl e, r1, d1) \<Rightarrow> (Some (Inl e), r1, d1)
      | (Inr bs, r1, d1) \<Rightarrow> (iterate_loop fuel seq bs (of_nat k_chunks_segment_header_size) [], r1, d1))"

section \<open>File names\<close>

lemma parse_format_chunk: "n < 10 ^ 6 \<Longrightarrow> parse_chunk_name (format_chunk_name n) = Some n"
proof -
  assume n: "n < 10 ^ 6"
  then have "length (decimal n) \<le> 6" by (rule length_decimal) simp
  moreover have "parse_digits (replicate k (digit 0) @ decimal n) 0 = Some n" for k
    by (simp add: parse_digits_append parse_zeros parse_decimal)
  ultimately show ?thesis
    by (simp add: parse_chunk_name_def format_chunk_name_def k_chunks_segment_filename_width_def)
qed

lemma format_chunk_inject: "m < 10 ^ 6 \<Longrightarrow> n < 10 ^ 6 \<Longrightarrow> format_chunk_name m = format_chunk_name n \<longleftrightarrow> m = n"
  by (metis option.inject parse_format_chunk)

definition chunk_number :: "string list \<Rightarrow> (nat \<times> string) list" where
  "chunk_number names = List.map_filter (\<lambda>name. map_option (\<lambda>i. (i, name)) (parse_chunk_name name)) names"

lemma chunk_indexed_names: "chunk_indexed files = sort_key fst (chunk_number (map fst files))"
proof -
  have "List.map_filter (\<lambda>(name, _). map_option (\<lambda>i. (i, name)) (parse_chunk_name name)) files
      = chunk_number (map fst files)"
    by (induction files) (auto simp: chunk_number_def map_filter_simps split: option.splits)
  then show ?thesis by (simp add: chunk_indexed_def)
qed

lemma chunk_number_append: "chunk_number (xs @ ys) = chunk_number xs @ chunk_number ys"
  by (induction xs) (auto simp: chunk_number_def map_filter_simps split: option.splits)

lemma chunk_number_set: "(i, n) \<in> set (chunk_number names) \<longleftrightarrow> n \<in> set names \<and> parse_chunk_name n = Some i"
  by (induction names) (auto simp: chunk_number_def map_filter_simps split: option.splits)

lemma chunk_number_empty: "\<forall>n \<in> set names. parse_chunk_name n = None \<Longrightarrow> chunk_number names = []"
  by (induction names) (auto simp: chunk_number_def map_filter_simps)

section \<open>The segments of a directory\<close>

abbreviation frames :: "(Encoding \<times> bytes) list \<Rightarrow> bytes" where
  "frames cs \<equiv> concat (map (\<lambda>(e, x). chunk_frame e x) cs)"

definition seg_bytes :: "(Encoding \<times> bytes) list \<Rightarrow> bytes" where
  "seg_bytes cs = segment_header @ frames cs"

definition chunk_files :: "(string \<times> bytes) list \<Rightarrow> (Encoding \<times> bytes) list list \<Rightarrow> bool" where
  "chunk_files files segs \<longleftrightarrow>
     chunk_indexed files = map (\<lambda>i. (Suc i, format_chunk_name (Suc i))) [0..<length segs] \<and>
     (\<forall>i < length segs. map_of files (format_chunk_name (Suc i)) = Some (seg_bytes (segs ! i)))"

lemma seg_bytes_simps [simp]:
  "seg_bytes (cs @ [(e, x)]) = seg_bytes cs @ chunk_frame e x" "length (seg_bytes []) = 8"
  by (simp_all add: seg_bytes_def segment_header_def)

lemma seg_bytes_append: "seg_bytes (cs @ cs') = seg_bytes cs @ frames cs'"
  by (simp add: seg_bytes_def)

text \<open>A new, empty segment after the last one.\<close>

lemma chunk_files_create:
  assumes files: "chunk_files (dk_files d) segs" and n: "Suc (length segs) < 10 ^ 6"
    and w: "write_all (format_chunk_name (Suc (length segs))) segment_header
        (file_create (format_chunk_name (Suc (length segs))) d) = (Inr (), d')"
  shows "chunk_files (dk_files d') (segs @ [[]]) \<and> dk_dir d' = dk_dir d"
proof -
  let ?n = "format_chunk_name (Suc (length segs))"
  let ?d = "file_create ?n d"
  have parse: "parse_chunk_name ?n = Some (Suc (length segs))"
    using parse_format_chunk [OF n] .
  have nums: "i \<le> length segs" if "(i, m) \<in> set (chunk_number (map fst (dk_files d)))" for i m
  proof -
    have "(i, m) \<in> set (chunk_indexed (dk_files d))" using that by (simp add: chunk_indexed_names)
    then show ?thesis using files by (auto simp: chunk_files_def)
  qed
  then have fresh: "?n \<notin> set (map fst (dk_files d))"
    using parse chunk_number_set [of "Suc (length segs)" ?n "map fst (dk_files d)"] by fastforce
  have d: "map fst (dk_files ?d) = map fst (dk_files d) @ [?n]" "map_of (dk_files ?d) = (map_of (dk_files d))(?n \<mapsto> [])"
    "dk_dir ?d = dk_dir d"
    using fresh by (auto simp: file_create_def AList.update_keys AList.update_conv')
  have d': "map_of (dk_files d') = (map_of (dk_files d))(?n \<mapsto> segment_header)"
    "map fst (dk_files d') = map fst (dk_files d) @ [?n]" "dk_dir d' = dk_dir d"
    using write_all_ok [OF w, of "[]"] d by simp_all
  have "chunk_indexed (dk_files d') = sort_key fst (chunk_number (map fst (dk_files d)) @ [(Suc (length segs), ?n)])"
    by (simp add: chunk_indexed_names d'(2) chunk_number_append) (simp add: chunk_number_def map_filter_simps parse)
  also have "\<dots> = chunk_indexed (dk_files d) @ [(Suc (length segs), ?n)]"
    unfolding chunk_indexed_names by (rule sort_key_snoc) (use nums in \<open>fastforce intro: le_SucI\<close>)
  finally have "chunk_indexed (dk_files d') = map (\<lambda>i. (Suc i, format_chunk_name (Suc i))) [0..<length (segs @ [[]])]"
    using files by (simp add: chunk_files_def)
  moreover have "map_of (dk_files d') (format_chunk_name (Suc i)) = Some (seg_bytes ((segs @ [[]]) ! i))"
    if i: "i < length (segs @ [[]])" for i
  proof (cases "i = length segs")
    case False
    then have lt: "i < length segs" using i by simp
    then have "format_chunk_name (Suc i) \<noteq> ?n" using n by (subst format_chunk_inject) simp_all
    then show ?thesis using lt files by (simp add: d'(1) chunk_files_def nth_append)
  qed (simp add: d'(1) seg_bytes_def)
  ultimately show ?thesis using d'(3) by (simp add: chunk_files_def)
qed

text \<open>The last segment grows.\<close>

lemma chunk_files_grow:
  assumes files: "chunk_files (dk_files d) (segs @ [cs])" and n: "Suc (length segs) < 10 ^ 6"
    and w: "write_all (format_chunk_name (Suc (length segs))) (chunk_frame e x) d = (Inr (), d')"
  shows "chunk_files (dk_files d') (segs @ [cs @ [(e, x)]]) \<and> dk_dir d' = dk_dir d"
proof -
  let ?n = "format_chunk_name (Suc (length segs))"
  have "map_of (dk_files d) ?n = Some (seg_bytes cs)"
    using files by (auto simp: chunk_files_def nth_append)
  note d' = write_all_ok [OF w this]
  have "chunk_indexed (dk_files d') = chunk_indexed (dk_files d)"
    using d' by (simp add: chunk_indexed_names)
  moreover have "map_of (dk_files d') (format_chunk_name (Suc i)) = Some (seg_bytes ((segs @ [cs @ [(e, x)]]) ! i))"
    if i: "i < Suc (length segs)" for i
  proof (cases "i = length segs")
    case False
    then have lt: "i < length segs" using i by simp
    then have "format_chunk_name (Suc i) \<noteq> ?n" using n by (subst format_chunk_inject) simp_all
    then show ?thesis using lt files d' by (auto simp: chunk_files_def nth_append)
  qed (use d' in simp)
  ultimately show ?thesis using files d' by (simp add: chunk_files_def)
qed

section \<open>What the writer holds\<close>

definition cw_holds :: "ChunkWriter \<Rightarrow> Disk \<Rightarrow> (Encoding \<times> bytes) list list \<Rightarrow> bool" where
  "cw_holds w d segs \<longleftrightarrow> dk_dir d \<and> \<not> cw_closed w \<and> segs \<noteq> [] \<and> length segs < 10 ^ 6 \<and>
     Suc (unat (cw_seq w)) = length segs \<and> cw_fd w = Some (format_chunk_name (length segs)) \<and>
     cw_seg_offset w = length (seg_bytes (last segs)) \<and> chunk_files (dk_files d) segs"

lemma seq_next: "Suc (unat s) = n \<Longrightarrow> n < 10 ^ 6 \<Longrightarrow> unat (s + 1 :: u32) = n"
  by (simp add: unat_word_ariths)

lemma sys_simple_files: "sys_simple d = (Inr (), d') \<Longrightarrow> dk_files d' = dk_files d \<and> dk_dir d' = dk_dir d"
  using sys_simple_disk by blast

lemma cut_new_segment_ok:
  assumes holds: "cw_holds w d segs" and n: "Suc (length segs) < 10 ^ 6"
    and res: "cut_new_segment w d = (Inr (), w', d')"
  shows "cw_holds w' d' (segs @ [[]]) \<and> cw_segment_size w' = cw_segment_size w"
proof -
  obtain d1 d2 d3 where st: "sys_simple d = (Inr (), d1)" "sys_simple d1 = (Inr (), d2)" "sys_simple d2 = (Inr (), d3)"
    and wr: "write_all (format_chunk_name (unat (cw_seq w + 1 + 1))) segment_header
        (file_create (format_chunk_name (unat (cw_seq w + 1 + 1))) d3) = (Inr (), d')"
    and w': "w' = w\<lparr>cw_fd := Some (format_chunk_name (unat (cw_seq w + 1 + 1))), cw_seq := cw_seq w + 1,
        cw_seg_offset := k_chunks_segment_header_size\<rparr>"
    using res holds
    by (auto simp: cut_new_segment_def end_segment_def cw_holds_def cw_write_all_def Let_def split: prod.splits sum.splits)
  have seq: "unat (cw_seq w + 1) = length segs" "unat (cw_seq w + 1 + 1) = Suc (length segs)"
    using holds n seq_next [of "cw_seq w" "length segs"] seq_next [of "cw_seq w + 1" "Suc (length segs)"]
    by (simp_all add: cw_holds_def)
  have "chunk_files (dk_files d3) segs" "dk_dir d3"
    using holds sys_simple_files [OF st(1)] sys_simple_files [OF st(2)] sys_simple_files [OF st(3)]
    by (simp_all add: cw_holds_def)
  then show ?thesis
    using chunk_files_create [of d3 segs d'] wr n holds seq
    by (simp add: w' cw_holds_def k_chunks_segment_header_size_def)
qed

lemma ChunkWriter_open_ok:
  assumes none: "\<forall>(name, c) \<in> set (dk_files d). parse_chunk_name name = None"
    and res: "ChunkWriter_open sz d = (Inr w, d')"
  shows "cw_holds w d' [[]] \<and> cw_segment_size w = sz"
proof -
  obtain d1 d2 d3 where st: "sys_simple d = (Inr (), d1)" "sys_simple (d1\<lparr>dk_dir := True\<rparr>) = (Inr (), d2)" "sys_simple d2 = (Inr (), d3)"
    and wr: "write_all (format_chunk_name 1) segment_header (file_create (format_chunk_name 1) d3) = (Inr (), d')"
    and w: "w = \<lparr>cw_segment_size = sz, cw_fd = Some (format_chunk_name 1), cw_seq = 0,
        cw_seg_offset = k_chunks_segment_header_size, cw_closed = False\<rparr>"
    using res
    by (auto simp: ChunkWriter_open_def cut_new_segment_def end_segment_def cw_write_all_def Let_def
        split: prod.splits sum.splits if_splits)
  have d3: "dk_files d3 = dk_files d" "dk_dir d3"
    using sys_simple_files [OF st(1)] sys_simple_files [OF st(2)] sys_simple_files [OF st(3)] by simp_all
  have "chunk_number (map fst (dk_files d)) = []"
    using none by (intro chunk_number_empty) auto
  then have "chunk_files (dk_files d3) []"
    using d3 by (simp add: chunk_files_def chunk_indexed_names)
  from chunk_files_create [OF this, of d'] show ?thesis
    using wr d3 by (simp add: w cw_holds_def k_chunks_segment_header_size_def)
qed

text \<open>Where a chunk stands in the segments, and that it stays there.\<close>

definition placed :: "(Encoding \<times> bytes) list list \<Rightarrow> BlockChunkRef \<Rightarrow> Encoding \<times> bytes \<Rightarrow> bool" where
  "placed segs ref c \<longleftrightarrow> unat (cr_seq ref) < length segs \<and>
     (\<exists>pre post. segs ! unat (cr_seq ref) = pre @ c # post \<and> unat (cr_offset ref) = length (seg_bytes pre))"

definition seg_next :: "(Encoding \<times> bytes) list list \<Rightarrow> (Encoding \<times> bytes) \<Rightarrow> (Encoding \<times> bytes) list list \<Rightarrow> bool" where
  "seg_next segs c segs' \<longleftrightarrow> segs' = segs @ [[c]] \<or> (\<exists>front cs. segs = front @ [cs] \<and> segs' = front @ [cs @ [c]])"

lemma placed_next: "seg_next segs c segs' \<Longrightarrow> placed segs ref c' \<Longrightarrow> placed segs' ref c'"
proof -
  assume next_seg: "seg_next segs c segs'" and "placed segs ref c'"
  then obtain pre post where p: "unat (cr_seq ref) < length segs" "segs ! unat (cr_seq ref) = pre @ c' # post"
    "unat (cr_offset ref) = length (seg_bytes pre)"
    by (auto simp: placed_def)
  have "unat (cr_seq ref) < length segs' \<and> (\<exists>post'. segs' ! unat (cr_seq ref) = pre @ c' # post')"
    using next_seg p(1,2) by (auto simp: seg_next_def nth_append less_Suc_eq)
  then show ?thesis using p(3) by (auto simp: placed_def)
qed

lemma seg_next_concat: "seg_next segs c segs' \<Longrightarrow> concat segs' = concat segs @ [c] \<and> length segs' \<le> Suc (length segs)"
  by (auto simp: seg_next_def)

text \<open>The list of chunks a reader that walks a segment should see.\<close>

fun infos :: "u32 \<Rightarrow> (Encoding \<times> bytes) list \<Rightarrow> (Encoding \<times> bytes) list \<Rightarrow> ChunkInfo list" where
  "infos seq pre [] = []"
| "infos seq pre ((e, x) # cs) =
     \<lparr>ci_ref = \<lparr>cr_seq = seq, cr_offset = of_nat (length (seg_bytes pre))\<rparr>, ci_encoding = e,
      ci_data_size = of_nat (length x)\<rparr> # infos seq (pre @ [(e, x)]) cs"

abbreviation chunk_info :: "BlockChunkRef \<Rightarrow> Encoding \<times> bytes \<Rightarrow> ChunkInfo" where
  "chunk_info ref c \<equiv> \<lparr>ci_ref = ref, ci_encoding = fst c, ci_data_size = of_nat (length (snd c))\<rparr>"

definition all_infos :: "(Encoding \<times> bytes) list list \<Rightarrow> ChunkInfo list" where
  "all_infos segs = concat (map (\<lambda>i. infos (of_nat i) [] (segs ! i)) [0..<length segs])"

lemma infos_snoc: "infos seq pre (cs @ [c]) = infos seq pre cs @ infos seq (pre @ cs) [c]"
  by (induction seq pre cs rule: infos.induct) (cases c; simp)+

lemma all_infos_snoc: "all_infos (segs @ [cs]) = all_infos segs @ infos (of_nat (length segs)) [] cs"
proof -
  have "map (\<lambda>i. infos (of_nat i) [] ((segs @ [cs]) ! i)) [0..<length segs] = map (\<lambda>i. infos (of_nat i) [] (segs ! i)) [0..<length segs]"
    by (rule map_cong) (simp_all add: nth_append)
  then show ?thesis unfolding all_infos_def by (simp del: map_eq_conv)
qed

lemma all_infos_grow: "all_infos (segs @ [cs @ [c]]) = all_infos (segs @ [cs]) @ infos (of_nat (length segs)) cs [c]"
  by (simp add: all_infos_snoc infos_snoc)

lemma cw_write_placed:
  assumes holds: "cw_holds w d (front @ [cs])" and off: "cw_seg_offset w < 2 ^ 32"
    and wr: "cw_write_all (chunk_frame e x) w d = (Inr (), d')"
  defines "w' \<equiv> w\<lparr>cw_seg_offset := cw_seg_offset w + length (chunk_frame e x)\<rparr>"
  shows "cw_holds w' d' (front @ [cs @ [(e, x)]]) \<and>
     placed (front @ [cs @ [(e, x)]]) \<lparr>cr_seq = cw_seq w, cr_offset = of_nat (cw_seg_offset w)\<rparr> (e, x) \<and>
     all_infos (front @ [cs @ [(e, x)]]) = all_infos (front @ [cs]) @
       [chunk_info \<lparr>cr_seq = cw_seq w, cr_offset = of_nat (cw_seg_offset w)\<rparr> (e, x)]"
proof -
  have w: "dk_dir d" "\<not> cw_closed w" "Suc (length front) < 10 ^ 6" "unat (cw_seq w) = length front"
    "cw_fd w = Some (format_chunk_name (Suc (length front)))" "cw_seg_offset w = length (seg_bytes cs)"
    "chunk_files (dk_files d) (front @ [cs])"
    using holds by (simp_all add: cw_holds_def)
  have "write_all (format_chunk_name (Suc (length front))) (chunk_frame e x) d = (Inr (), d')"
    using wr w(5) by (auto simp: cw_write_all_def split: prod.splits sum.splits)
  from chunk_files_grow [OF w(7,3) this]
  have "cw_holds w' d' (front @ [cs @ [(e, x)]])"
    using w by (simp add: w'_def cw_holds_def)
  moreover have "unat (of_nat (cw_seg_offset w) :: u32) = length (seg_bytes cs)"
    using off w(6) by (simp add: unat_of_nat)
  moreover have "of_nat (length front) = cw_seq w" using w(4) by (metis of_nat_unat ucast_id)
  ultimately show ?thesis
    using w(4,6) by (auto simp: placed_def nth_append all_infos_grow)
qed

lemma cw_write_ok:
  assumes holds: "cw_holds w d segs" and n: "Suc (length segs) < 10 ^ 6" and size: "cw_segment_size w < 2 ^ 32"
    and res: "cw_write e x w d = (Inr ref, w', d')"
  shows "\<exists>segs'. cw_holds w' d' segs' \<and> seg_next segs (e, x) segs' \<and> placed segs' ref (e, x) \<and>
     all_infos segs' = all_infos segs @ [chunk_info ref (e, x)] \<and> cw_segment_size w' = cw_segment_size w"
proof -
  define roll where "roll \<longleftrightarrow> cw_seg_offset w > k_chunks_segment_header_size \<and>
    cw_seg_offset w + (max_varint_len64 + k_chunk_encoding_size + length x + k_chunk_crc_size) > cw_segment_size w"
  have open_w: "\<not> cw_closed w" using holds by (simp add: cw_holds_def)
  obtain w1 d1 where w1: "(if roll then cut_new_segment w d else (Inr (), w, d)) = (Inr (), w1, d1)"
    and wr: "cw_write_all (chunk_frame e x) w1 d1 = (Inr (), d')"
    and ref: "ref = \<lparr>cr_seq = cw_seq w1, cr_offset = of_nat (cw_seg_offset w1)\<rparr>"
    and w': "w' = w1\<lparr>cw_seg_offset := cw_seg_offset w1 + length (chunk_frame e x)\<rparr>"
    using res open_w unfolding cw_write_def Let_def roll_def [symmetric]
    by (auto split: prod.splits sum.splits if_splits)
  show ?thesis
  proof (cases roll)
    case True
    then have "cw_holds w1 d1 (segs @ [[]])" and sz: "cw_segment_size w1 = cw_segment_size w"
      using cut_new_segment_ok [OF holds n] w1 by simp_all
    then have "cw_holds w1 d1 (segs @ [[]])" "cw_seg_offset w1 = 8" by (simp_all add: cw_holds_def)
    from cw_write_placed [OF this(1) _ wr] this(2) show ?thesis
      using sz by (intro exI [of _ "segs @ [[(e, x)]]"]) (simp add: ref w' seg_next_def all_infos_snoc [of segs "[]"])
  next
    case False
    then have eq: "w1 = w" "d1 = d" using w1 by simp_all
    obtain front cs where segs: "segs = front @ [cs]"
      using holds by (cases segs rule: rev_cases) (auto simp: cw_holds_def)
    have "cw_seg_offset w < 2 ^ 32"
      using False size by (auto simp: roll_def k_chunks_segment_header_size_def)
    from cw_write_placed [OF _ this, of d front cs e x d'] show ?thesis
      using holds wr by (intro exI [of _ "front @ [cs @ [(e, x)]]"]) (simp add: ref w' eq segs seg_next_def)
  qed
qed

text \<open>A sequence of chunks.\<close>

fun cw_writes ::
  "(Encoding \<times> bytes) list \<Rightarrow> ChunkWriter \<Rightarrow> Disk \<Rightarrow> (block_error + BlockChunkRef list) \<times> ChunkWriter \<times> Disk" where
  "cw_writes [] w d = (Inr [], w, d)"
| "cw_writes ((e, x) # cs) w d =
     (case cw_write e x w d of
        (Inl err, w1, d1) \<Rightarrow> (Inl err, w1, d1)
      | (Inr ref, w1, d1) \<Rightarrow>
          (case cw_writes cs w1 d1 of
             (Inl err, w2, d2) \<Rightarrow> (Inl err, w2, d2)
           | (Inr refs, w2, d2) \<Rightarrow> (Inr (ref # refs), w2, d2)))"

lemma cw_writes_ok:
  "cw_holds w d segs \<Longrightarrow> length segs + length cs < 10 ^ 6 \<Longrightarrow> cw_segment_size w < 2 ^ 32 \<Longrightarrow>
   cw_writes cs w d = (Inr refs, w', d') \<Longrightarrow>
   \<exists>segs'. cw_holds w' d' segs' \<and> concat segs' = concat segs @ cs \<and> list_all2 (placed segs') refs cs \<and>
     (\<forall>ref c. placed segs ref c \<longrightarrow> placed segs' ref c) \<and> all_infos segs' = all_infos segs @ map2 chunk_info refs cs"
proof (induction cs arbitrary: w d segs refs)
  case (Cons c cs)
  obtain e x where c: "c = (e, x)" by fastforce
  obtain ref refs' w1 d1 where st: "cw_write e x w d = (Inr ref, w1, d1)" "cw_writes cs w1 d1 = (Inr refs', w', d')"
    "refs = ref # refs'"
    using Cons.prems(4) c by (auto split: prod.splits sum.splits)
  obtain segs1 where s1: "cw_holds w1 d1 segs1" "seg_next segs (e, x) segs1" "placed segs1 ref (e, x)"
    "all_infos segs1 = all_infos segs @ [chunk_info ref (e, x)]" "cw_segment_size w1 = cw_segment_size w"
    using cw_write_ok [OF Cons.prems(1) _ Cons.prems(3) st(1)] Cons.prems(2) by auto
  then obtain segs' where "cw_holds w' d' segs'" "concat segs' = concat segs1 @ cs" "list_all2 (placed segs') refs' cs"
    "\<forall>ref c. placed segs1 ref c \<longrightarrow> placed segs' ref c" "all_infos segs' = all_infos segs1 @ map2 chunk_info refs' cs"
    using Cons.IH [OF s1(1) _ _ st(2)] Cons.prems(2,3) seg_next_concat [OF s1(2)] by auto
  then show ?case
    using s1 st(3) c seg_next_concat [OF s1(2)] placed_next [OF s1(2)] by auto
qed auto

section \<open>Reading chunks back\<close>

lemma unat_of_nat64: "n < 2 ^ 64 \<Longrightarrow> unat (of_nat n :: u64) = n"
  by (simp add: unat_of_nat)

lemma length_chunk_frame:
  "length (chunk_frame e x) = length (put_uvarint (of_nat (length x))) + 5 + length x"
  "length (chunk_frame e x) \<le> length x + 15"
  using length_put_uvarint [of "of_nat (length x)"] by (simp_all add: chunk_frame_def max_varint_len64_def)

lemma read_chunk_at_ok:
  assumes bs: "bs = pre @ chunk_frame e x @ post" and off: "unat offset = length pre" and len: "length bs < 2 ^ 63"
  shows "read_chunk_at offset bs = Inr \<lparr>cp_encoding = e, cp_data = x\<rparr>"
proof -
  define n where "n = length (put_uvarint (of_nat (length x)))"
  have total: "length pre + n + 5 + length x \<le> length bs"
    using bs by (simp add: length_chunk_frame n_def)
  then have u: "unat (of_nat k :: u64) = k" if "k \<le> length pre + n + 5 + length x" for k
    using that len by (intro unat_of_nat64) simp
  have o64: "(ucast offset :: u64) = of_nat (length pre)"
    using off unat_bound [of offset] u [of "length pre"] by (simp add: word_unat_eq_iff unat_ucast)
  have rd: "read_uvarint (drop (length pre) bs) = Inr (of_nat (length x), n)"
    unfolding bs n_def by (simp add: chunk_frame_def)
  have offs: "ucast offset + of_nat n = (of_nat (length pre + n) :: u64)"
    "of_nat (length pre + n) + of_nat 1 = (of_nat (length pre + n + 1) :: u64)"
    "of_nat (length pre + n + 1) + of_nat (length x) = (of_nat (length pre + n + 1 + length x) :: u64)"
    "of_nat (length pre + n + 1 + length x) + of_nat 4 = (of_nat (length pre + n + 1 + length x + 4) :: u64)"
    by (simp_all add: o64)
  have parts: "bs ! (length pre + n) = e" "take (length x) (drop (length pre + n + 1) bs) = x"
    "read_be32 (drop (length pre + n + 1 + length x) bs) = finalize (update (update k_init [e]) x)"
    unfolding bs n_def by (simp_all add: chunk_frame_def nth_append)
  show ?thesis
    unfolding read_chunk_at_def off rd Let_def sum.case prod.case k_chunk_encoding_size_def k_chunk_crc_size_def offs
    using total parts by (simp add: u del: of_nat_add of_nat_Suc)
qed

definition cr_holds :: "ChunkReader \<Rightarrow> Disk \<Rightarrow> (Encoding \<times> bytes) list list \<Rightarrow> bool" where
  "cr_holds r d segs \<longleftrightarrow> dk_faults d = [] \<and> chunk_files (dk_files d) segs \<and>
     rd_segments r = map (\<lambda>i. format_chunk_name (Suc i)) [0..<length segs] \<and> length (rd_cache r) = length segs \<and>
     (\<forall>i < length segs. rd_cache r ! i = [] \<or> rd_cache r ! i = seg_bytes (segs ! i))"

lemma ChunkReader_open_ok:
  assumes "chunk_files (dk_files d) segs" "dk_dir d" "dk_faults d = []"
  shows "\<exists>r. ChunkReader_open d = (Inr r, d) \<and> cr_holds r d segs"
  using assms by (auto simp: ChunkReader_open_def sys_simple_ok cr_holds_def chunk_files_def comp_def)

lemma segment_header_eq: "segment_header = be32 k_magic_chunks @ [k_chunks_format_v1, 0, 0, 0]"
  by (simp add: segment_header_def be32_def)

lemma check_header_ok: "check_header (seg_bytes cs) = Inr (seg_bytes cs)"
  unfolding check_header_def seg_bytes_def segment_header_eq append_assoc
  by (simp add: nth_append k_chunks_segment_header_size_def)

lemma bytes_for_ok:
  assumes holds: "cr_holds r d segs" and seq: "unat seq < length segs"
  shows "\<exists>r'. bytes_for seq r d = (Inr (seg_bytes (segs ! unat seq)), r', d) \<and> cr_holds r' d segs"
proof (cases "rd_cache r ! unat seq = []")
  case True
  let ?i = "unat seq" and ?c = "seg_bytes (segs ! unat seq)"
  have "load_segment ?i r d = (check_header ?c, r\<lparr>rd_cache := (rd_cache r)[?i := ?c]\<rparr>, d)"
    using holds seq by (simp add: load_segment_def cr_holds_def chunk_files_def sys_simple_ok syscall_def)
  moreover have "cr_holds (r\<lparr>rd_cache := (rd_cache r)[?i := ?c]\<rparr>) d segs"
    using holds seq unfolding cr_holds_def by (simp add: nth_list_update)
  ultimately show ?thesis
    using True holds seq by (simp add: bytes_for_def cr_holds_def check_header_ok)
next
  case False
  then show ?thesis using holds seq by (auto simp: bytes_for_def cr_holds_def)
qed

lemma placed_read:
  assumes "placed segs ref (e, x)" "length (seg_bytes (segs ! unat (cr_seq ref))) < 2 ^ 63"
  shows "read_chunk_at (cr_offset ref) (seg_bytes (segs ! unat (cr_seq ref))) = Inr \<lparr>cp_encoding = e, cp_data = x\<rparr>"
proof -
  obtain pre post where p: "segs ! unat (cr_seq ref) = pre @ (e, x) # post" "unat (cr_offset ref) = length (seg_bytes pre)"
    using assms(1) by (auto simp: placed_def)
  then have "seg_bytes (segs ! unat (cr_seq ref)) = seg_bytes pre @ chunk_frame e x @ frames post"
    by (simp add: seg_bytes_def)
  from read_chunk_at_ok [OF this p(2) assms(2)] show ?thesis .
qed

fun chunk_reads :: "BlockChunkRef list \<Rightarrow> ChunkReader \<Rightarrow> Disk \<Rightarrow> (block_error + ChunkPayload list) \<times> ChunkReader \<times> Disk" where
  "chunk_reads [] r d = (Inr [], r, d)"
| "chunk_reads (ref # refs) r d =
     (case chunk_read ref r d of
        (Inl e, r1, d1) \<Rightarrow> (Inl e, r1, d1)
      | (Inr p, r1, d1) \<Rightarrow>
          (case chunk_reads refs r1 d1 of
             (Inl e, r2, d2) \<Rightarrow> (Inl e, r2, d2)
           | (Inr ps, r2, d2) \<Rightarrow> (Inr (p # ps), r2, d2)))"

abbreviation chunk_payload :: "Encoding \<times> bytes \<Rightarrow> ChunkPayload" where
  "chunk_payload c \<equiv> \<lparr>cp_encoding = fst c, cp_data = snd c\<rparr>"

lemma chunk_read_ok:
  assumes "cr_holds r d segs" "placed segs ref c" "\<forall>cs \<in> set segs. length (seg_bytes cs) < 2 ^ 63"
  shows "\<exists>r'. chunk_read ref r d = (Inr (chunk_payload c), r', d) \<and> cr_holds r' d segs"
proof -
  have seq: "unat (cr_seq ref) < length segs" using assms(2) by (simp add: placed_def)
  obtain r' where "bytes_for (cr_seq ref) r d = (Inr (seg_bytes (segs ! unat (cr_seq ref))), r', d)" "cr_holds r' d segs"
    using bytes_for_ok [OF assms(1) seq] by blast
  then show ?thesis
    using placed_read [of segs ref "fst c" "snd c"] assms(2,3) seq by (simp add: chunk_read_def)
qed

lemma chunk_reads_ok:
  "list_all2 (placed segs) refs cs \<Longrightarrow> cr_holds r d segs \<Longrightarrow> \<forall>cs \<in> set segs. length (seg_bytes cs) < 2 ^ 63 \<Longrightarrow>
   \<exists>r'. chunk_reads refs r d = (Inr (map chunk_payload cs), r', d) \<and> cr_holds r' d segs"
proof (induction refs cs arbitrary: r rule: list_all2_induct)
  case (Cons ref refs c cs)
  obtain r1 where r1: "chunk_read ref r d = (Inr (chunk_payload c), r1, d)" "cr_holds r1 d segs"
    using chunk_read_ok [OF Cons.prems(1) Cons.hyps(1) Cons.prems(2)] by blast
  then show ?case
    using Cons.IH [OF r1(2) Cons.prems(2)] by auto
qed simp

text \<open>Sizes.\<close>

abbreviation payload_size :: "(Encoding \<times> bytes) list \<Rightarrow> nat" where
  "payload_size cs \<equiv> sum_list (map (\<lambda>(e, x). length x + 15) cs)"

lemma seg_bytes_size: "length (seg_bytes cs) \<le> 8 + payload_size cs"
proof -
  have "length (frames cs) \<le> payload_size cs"
    using length_chunk_frame(2) by (induction cs) (auto intro!: add_mono)
  then show ?thesis by (simp add: seg_bytes_def segment_header_def)
qed

lemma seg_bytes_total: "cs \<in> set segs \<Longrightarrow> length (seg_bytes cs) \<le> 8 + payload_size (concat segs)"
proof -
  assume "cs \<in> set segs"
  then have "payload_size cs \<le> payload_size (concat segs)"
    by (induction segs) auto
  then show ?thesis using seg_bytes_size [of cs] by linarith
qed

lemma cw_close_ok:
  "cw_holds w d segs \<Longrightarrow> cw_close w d = (Inr (), w', d') \<Longrightarrow> chunk_files (dk_files d') segs \<and> dk_dir d' \<and> cw_closed w'"
  by (auto simp: cw_holds_def cw_close_def Let_def split: prod.splits sum.splits dest!: sys_simple_files)

section \<open>Iterating a segment\<close>

lemma iterate_loop_ok:
  "length (seg_bytes (pre @ cs)) < 2 ^ 63 \<Longrightarrow> length cs < fuel \<Longrightarrow>
   iterate_loop fuel seq (seg_bytes (pre @ cs)) (of_nat (length (seg_bytes pre))) out = Some (Inr (out @ infos seq pre cs))"
proof (induction cs arbitrary: pre fuel out)
  case Nil
  then show ?case by (cases fuel) (simp_all add: unat_of_nat64)
next
  case (Cons c cs)
  obtain e x where c: "c = (e, x)" by fastforce
  obtain k where k: "fuel = Suc k" "length cs < k" using Cons.prems(2) by (cases fuel) auto
  let ?bs = "seg_bytes (pre @ c # cs)" and ?p = "length (seg_bytes pre)"
  define n where "n = length (put_uvarint (of_nat (length x)))"
  have bs: "?bs = seg_bytes pre @ chunk_frame e x @ frames cs" by (simp add: seg_bytes_def c)
  have total: "?p + n + 5 + length x \<le> length ?bs"
    unfolding bs by (simp add: length_chunk_frame n_def)
  then have u: "unat (of_nat k :: u64) = k" if "k \<le> ?p + n + 5 + length x" for k
    using that Cons.prems(1) by (intro unat_of_nat64) simp
  have rd: "read_uvarint (drop ?p ?bs) = Inr (of_nat (length x), n)"
    unfolding bs n_def by (simp add: chunk_frame_def)
  have eo: "(of_nat ?p :: u64) + of_nat n = of_nat (?p + n)"
    "(of_nat (?p + n) :: u64) + of_nat 1 + of_nat (length x) + of_nat 4 = of_nat (?p + n + 5 + length x)"
    by simp_all
  have enc: "?bs ! (?p + n) = e"
    unfolding bs n_def by (simp add: chunk_frame_def nth_append)
  have next_off: "length (seg_bytes (pre @ [(e, x)])) = ?p + n + 5 + length x"
    by (simp add: length_chunk_frame n_def)
  have trunc: "ucast (of_nat ?p :: u64) = (of_nat ?p :: u32)"
    by (simp add: word_unat_eq_iff unat_ucast unat_of_nat mod_mod_cancel)
  have "iterate_loop fuel seq ?bs (of_nat ?p) out = iterate_loop k seq ?bs (of_nat (?p + n + 5 + length x))
      (out @ [\<lparr>ci_ref = \<lparr>cr_seq = seq, cr_offset = of_nat ?p\<rparr>, ci_encoding = e, ci_data_size = of_nat (length x)\<rparr>])"
    unfolding k(1) iterate_loop.simps Let_def k_chunk_encoding_size_def k_chunk_crc_size_def
    using total enc rd eo trunc by (simp add: u del: of_nat_add of_nat_Suc)
  also have "\<dots> = Some (Inr ((out @ [\<lparr>ci_ref = \<lparr>cr_seq = seq, cr_offset = of_nat ?p\<rparr>, ci_encoding = e,
      ci_data_size = of_nat (length x)\<rparr>]) @ infos seq (pre @ [(e, x)]) cs))"
    using Cons.IH [of "pre @ [(e, x)]" k] Cons.prems(1) k(2) by (simp add: c next_off del: of_nat_add seg_bytes_simps(1))
  finally show ?case by (simp add: c)
qed

lemma iterate_segment_ok:
  assumes holds: "cr_holds r d segs" and seq: "unat seq < length segs"
    and small: "length (seg_bytes (segs ! unat seq)) < 2 ^ 63" and fuel: "length (segs ! unat seq) < fuel"
  shows "\<exists>r'. iterate_segment fuel seq r d = (Some (Inr (infos seq [] (segs ! unat seq))), r', d) \<and> cr_holds r' d segs"
proof -
  obtain r' where "bytes_for seq r d = (Inr (seg_bytes (segs ! unat seq)), r', d)" "cr_holds r' d segs"
    using bytes_for_ok [OF holds seq] by blast
  then show ?thesis
    using iterate_loop_ok [of "[]" "segs ! unat seq" fuel seq "[]"] small fuel
    by (simp add: iterate_segment_def k_chunks_segment_header_size_def)
qed

fun iterate_all ::
  "nat \<Rightarrow> nat list \<Rightarrow> ChunkReader \<Rightarrow> Disk \<Rightarrow> (block_error + ChunkInfo list) option" where
  "iterate_all fuel [] r d = Some (Inr [])"
| "iterate_all fuel (i # is) r d =
     (case iterate_segment fuel (of_nat i) r d of
        (None, _) \<Rightarrow> None
      | (Some (Inl e), _) \<Rightarrow> Some (Inl e)
      | (Some (Inr xs), r1, d1) \<Rightarrow>
          (case iterate_all fuel is r1 d1 of
             None \<Rightarrow> None
           | Some (Inl e) \<Rightarrow> Some (Inl e)
           | Some (Inr ys) \<Rightarrow> Some (Inr (xs @ ys))))"

lemma iterate_all_ok:
  assumes small: "\<forall>cs \<in> set segs. length (seg_bytes cs) < 2 ^ 63" and fuel: "\<forall>cs \<in> set segs. length cs < fuel"
    and n: "length segs < 10 ^ 6"
  shows "cr_holds r d segs \<Longrightarrow> \<forall>i \<in> set is. i < length segs \<Longrightarrow>
     iterate_all fuel is r d = Some (Inr (concat (map (\<lambda>i. infos (of_nat i) [] (segs ! i)) is)))"
proof (induction "is" arbitrary: r)
  case (Cons i "is")
  have i: "i < length segs" "unat (of_nat i :: u32) = i"
    using Cons.prems(2) n by (simp_all add: unat_of_nat)
  then obtain r' where "iterate_segment fuel (of_nat i) r d = (Some (Inr (infos (of_nat i) [] (segs ! i))), r', d)" "cr_holds r' d segs"
    using iterate_segment_ok [OF Cons.prems(1), of "of_nat i" fuel] small fuel by auto
  then show ?case using Cons.IH [of r'] Cons.prems(2) by simp
qed simp

section \<open>Without failing system calls\<close>

lemma cw_write_all_done: "dk_faults d = [] \<Longrightarrow> cw_fd w \<noteq> None \<Longrightarrow> \<exists>d'. cw_write_all bs w d = (Inr (), d') \<and> dk_faults d' = []"
  by (cases "bs = []") (auto simp: cw_write_all_def write_all.simps syscall_def)

lemma cut_new_segment_done:
  assumes "dk_faults d = []"
  shows "\<exists>w' d'. cut_new_segment w d = (Inr (), w', d') \<and> dk_faults d' = [] \<and> cw_fd w' \<noteq> None \<and> cw_closed w' = cw_closed w"
proof -
  define w1 where "w1 = (if cw_fd w = None then w else w\<lparr>cw_fd := None, cw_seq := cw_seq w + 1\<rparr>)"
  define path where "path = format_chunk_name (unat (cw_seq w1 + 1))"
  have "end_segment w d = (Inr (), w1, d)"
    using assms by (simp add: end_segment_def sys_simple_ok w1_def)
  moreover obtain d' where "cw_write_all segment_header (w1\<lparr>cw_fd := Some path\<rparr>) (file_create path d) = (Inr (), d')" "dk_faults d' = []"
    using cw_write_all_done [of "file_create path d" "w1\<lparr>cw_fd := Some path\<rparr>"] assms by (auto simp: file_create_def)
  moreover have "cw_closed w1 = cw_closed w" by (simp add: w1_def)
  ultimately show ?thesis
    using assms by (simp add: cut_new_segment_def sys_simple_ok path_def [symmetric] Let_def)
qed

lemma ChunkWriter_open_done:
  assumes "\<forall>(name, c) \<in> set (dk_files d). parse_chunk_name name = None" "dk_faults d = []"
  shows "\<exists>w d'. ChunkWriter_open sz d = (Inr w, d') \<and> dk_faults d' = [] \<and> cw_fd w \<noteq> None \<and> \<not> cw_closed w"
proof -
  let ?w = "\<lparr>cw_segment_size = sz, cw_fd = None, cw_seq = 0, cw_seg_offset = 0, cw_closed = False\<rparr>"
  have "\<not> list_ex (\<lambda>(name, _). parse_chunk_name name \<noteq> None) (dk_files d)"
    using assms(1) by (auto simp: list_ex_iff)
  then show ?thesis
    using cut_new_segment_done [of "d\<lparr>dk_dir := True\<rparr>" ?w] assms(2)
    by (auto simp: ChunkWriter_open_def sys_simple_ok Let_def)
qed

lemma cw_write_done:
  assumes "dk_faults d = []" "cw_fd w \<noteq> None" "\<not> cw_closed w"
  shows "\<exists>ref w' d'. cw_write e x w d = (Inr ref, w', d') \<and> dk_faults d' = [] \<and> cw_fd w' \<noteq> None \<and> \<not> cw_closed w'"
proof -
  define roll where "roll \<longleftrightarrow> cw_seg_offset w > k_chunks_segment_header_size \<and>
    cw_seg_offset w + (max_varint_len64 + k_chunk_encoding_size + length x + k_chunk_crc_size) > cw_segment_size w"
  obtain w1 d1 where w1: "(if roll then cut_new_segment w d else (Inr (), w, d)) = (Inr (), w1, d1)"
    "dk_faults d1 = []" "cw_fd w1 \<noteq> None" "\<not> cw_closed w1"
    using cut_new_segment_done [OF assms(1), of w] assms by (cases roll) auto
  obtain d2 where "cw_write_all (chunk_frame e x) w1 d1 = (Inr (), d2)" "dk_faults d2 = []"
    using cw_write_all_done [OF w1(2,3)] by blast
  then show ?thesis
    using w1 assms(3) unfolding cw_write_def Let_def roll_def [symmetric] by simp
qed

lemma cw_writes_done:
  "dk_faults d = [] \<Longrightarrow> cw_fd w \<noteq> None \<Longrightarrow> \<not> cw_closed w \<Longrightarrow>
   \<exists>refs w' d'. cw_writes cs w d = (Inr refs, w', d') \<and> dk_faults d' = [] \<and> cw_fd w' \<noteq> None \<and> \<not> cw_closed w'"
proof (induction cs arbitrary: w d)
  case (Cons c cs)
  obtain e x where c: "c = (e, x)" by fastforce
  obtain ref w1 d1 where "cw_write e x w d = (Inr ref, w1, d1)" "dk_faults d1 = []" "cw_fd w1 \<noteq> None" "\<not> cw_closed w1"
    using cw_write_done [OF Cons.prems] by blast
  then show ?case using Cons.IH [of d1 w1] by (auto simp: c)
qed simp

lemma cw_close_done: "dk_faults d = [] \<Longrightarrow> \<exists>w' d'. cw_close w d = (Inr (), w', d') \<and> dk_faults d' = []"
  by (auto simp: cw_close_def Let_def sys_simple_ok)

lemma length_in_concat: "xs \<in> set xss \<Longrightarrow> length xs \<le> length (concat xss)"
  by (induction xss) auto

section \<open>Properties\<close>

text \<open>
  C19. What a block writes it reads back: the chunks written through one writer into a directory
  without segment files, over any number of segments and with short and interrupted writes on
  the way, are returned by a reader for the references \<open>write\<close> handed out, bit for bit, in any
  number and with the segments cached between the reads; and iterating all segments lists exactly
  these references, encodings and sizes in the order of writing, within as many rounds as there
  are chunks. The hypotheses are the limits of the format: offsets fit 32 bits, file names six
  digits, and the files a vector.
\<close>

theorem chunk_store_roundtrip:
  assumes "\<forall>(name, c) \<in> set (dk_files d). parse_chunk_name name = None" and "sz < 2 ^ 32"
    and "length cs + 1 < 10 ^ 6" and "payload_size cs + 8 < 2 ^ 63"
    and "ChunkWriter_open sz d = (Inr w, d1)" and "cw_writes cs w d1 = (Inr refs, w2, d2)"
    and "cw_close w2 d2 = (Inr (), w3, d3)" and "length cs < fuel"
  shows "\<exists>r r' d4. d4 = d3\<lparr>dk_faults := []\<rparr> \<and> ChunkReader_open d4 = (Inr r, d4) \<and>
     chunk_reads refs r d4 = (Inr (map chunk_payload cs), r', d4) \<and>
     iterate_all fuel (segment_seqs r) r d4 = Some (Inr (map2 chunk_info refs cs)) \<and> length refs = length cs"
proof -
  have w: "cw_holds w d1 [[]]" "cw_segment_size w = sz"
    using ChunkWriter_open_ok [OF assms(1,5)] by simp_all
  obtain segs where segs: "cw_holds w2 d2 segs" "concat segs = cs" "list_all2 (placed segs) refs cs"
    "all_infos segs = map2 chunk_info refs cs"
    using cw_writes_ok [OF w(1) _ _ assms(6)] assms(2,3) w(2) by (auto simp: all_infos_def)
  let ?d = "d3\<lparr>dk_faults := []\<rparr>"
  have "chunk_files (dk_files ?d) segs" "dk_dir ?d" "dk_faults ?d = []"
    using cw_close_ok [OF segs(1) assms(7)] by simp_all
  then obtain r where r: "ChunkReader_open ?d = (Inr r, ?d)" "cr_holds r ?d segs"
    using ChunkReader_open_ok by blast
  have small: "\<forall>xs \<in> set segs. length (seg_bytes xs) < 2 ^ 63"
  proof
    fix xs assume "xs \<in> set segs"
    from seg_bytes_total [OF this] show "length (seg_bytes xs) < 2 ^ 63"
      unfolding segs(2) using assms(4) by linarith
  qed
  have fuel: "\<forall>xs \<in> set segs. length xs < fuel"
    using length_in_concat [of _ segs] segs(2) assms(8) by (auto intro: le_less_trans)
  have seqs: "segment_seqs r = [0..<length segs]" using r(2) by (simp add: segment_seqs_def cr_holds_def)
  have "length segs < 10 ^ 6" using segs(1) by (simp add: cw_holds_def)
  from iterate_all_ok [OF small fuel this r(2), of "[0..<length segs]"]
  have "iterate_all fuel (segment_seqs r) r ?d = Some (Inr (map2 chunk_info refs cs))"
    using segs(4) by (simp add: seqs all_infos_def)
  then show ?thesis
    using r(1) chunk_reads_ok [OF segs(3) r(2) small] segs(3) by (auto simp: list_all2_lengthD)
qed

theorem chunk_store_roundtrip_witness:
  "\<exists>refs r d4 r'. length refs = 2 \<and>
     chunk_reads refs r d4 = (Inr [chunk_payload (1, [0, 0]), chunk_payload (1, [7, 8, 9])], r', d4)"
proof -
  let ?d = "\<lparr>dk_dir = False, dk_files = [], dk_faults = []\<rparr>" and ?cs = "[(1, [0, 0]), (1, [7, 8, 9])] :: (Encoding \<times> bytes) list"
  have none: "\<forall>(name, c) \<in> set (dk_files ?d). parse_chunk_name name = None" by simp
  obtain w d1 where w: "ChunkWriter_open 20 ?d = (Inr w, d1)" "dk_faults d1 = []" "cw_fd w \<noteq> None" "\<not> cw_closed w"
    using ChunkWriter_open_done [OF none, of 20] by auto
  obtain refs w2 d2 where w2: "cw_writes ?cs w d1 = (Inr refs, w2, d2)" "dk_faults d2 = []"
    using cw_writes_done [OF w(2-4)] by blast
  obtain w3 d3 where w3: "cw_close w2 d2 = (Inr (), w3, d3)"
    using cw_close_done [OF w2(2)] by blast
  have "payload_size ?cs + 8 < 2 ^ 63" "length ?cs + 1 < 10 ^ 6" "length ?cs < 3"
    by simp_all
  from chunk_store_roundtrip [OF none _ this(2,1) w(1) w2(1) w3 this(3)] obtain r r' d4
    where "chunk_reads refs r d4 = (Inr (map chunk_payload ?cs), r', d4)" "length refs = length ?cs"
    by auto
  then show ?thesis by (intro exI [of _ refs] exI [of _ r] exI [of _ d4] exI [of _ r']) simp
qed

text \<open>
  The cache is filled before the header is checked: a segment whose header is invalid is
  rejected by the first access, and every later access to it succeeds and returns its bytes.
\<close>

theorem chunk_header_checked_once:
  assumes "dk_faults d = []" and "unat seq < length (rd_cache r)" and "rd_cache r ! unat seq = []"
    and "map_of (dk_files d) (rd_segments r ! unat seq) = Some content" and "content \<noteq> []"
    and "check_header content = Inl e"
  shows "\<exists>r'. bytes_for seq r d = (Inl e, r', d) \<and> bytes_for seq r' d = (Inr content, r', d)"
  using assms by (auto simp: bytes_for_def load_segment_def sys_simple_ok syscall_def)

theorem chunk_header_checked_once_witness:
  "\<exists>r r' d. bytes_for 0 r d = (Inl Illegal_byte_sequence, r', d) \<and> bytes_for 0 r' d = (Inr [1, 2, 3], r', d)"
proof -
  let ?d = "\<lparr>dk_dir = True, dk_files = [(''000001'', [1, 2, 3])], dk_faults = []\<rparr>"
  let ?r = "\<lparr>rd_segments = [''000001''], rd_cache = [[]]\<rparr>"
  have "check_header [1, 2, 3] = Inl Illegal_byte_sequence"
    by (simp add: check_header_def k_chunks_segment_header_size_def)
  then show ?thesis
    using chunk_header_checked_once [of ?d 0 ?r "[1, 2, 3]" Illegal_byte_sequence] by auto
qed

text \<open>
  C39. A malformed length makes the iteration of a segment run forever: the next offset is
  computed modulo \<open>2^64\<close>, and a length of \<open>2^64 - 15\<close> leads back to the same chunk. No
  number of rounds suffices, although the checks on the size all pass.
\<close>

theorem chunk_iterate_diverges:
  "iterate_loop fuel seq (segment_header @ put_uvarint (- 15) @ [1]) (of_nat k_chunks_segment_header_size) out = None"
proof -
  let ?bs = "segment_header @ put_uvarint (- 15) @ [1 :: u8]"
  have len: "length (put_uvarint (- 15)) = 10"
    by (simp add: put_uvarint.simps word_le_nat_alt)
  have hdr: "length segment_header = 8" by (simp add: segment_header_def)
  have rd: "read_uvarint (drop 8 ?bs) = Inr (- 15, 10)"
    using read_uvarint_put [of "- 15" "[1]"] len hdr by simp
  show ?thesis
  proof (induction fuel arbitrary: out)
    case (Suc fuel)
    then show ?case
      using rd by (simp add: Let_def k_chunks_segment_header_size_def k_chunk_encoding_size_def k_chunk_crc_size_def len hdr)
  qed simp
qed

end
