(* ===== verification/IndexWriter.thy ===== *)
theory IndexWriter
  imports Head BlockChunks
begin

text \<open>
  The writer of the index file of a block (src/block/index_writer.cpp, block/index_writer.hpp):
  a buffer that grows through the phases symbols, series and postings and is written to disk
  when it is closed. Placeholders for lengths are patched in the buffer, as in the source. Shown:
  the exact bytes that each operation adds, what of the buffer later operations keep, and that
  the phases can only be passed in order.
\<close>

section \<open>Constants and state\<close>

definition k_magic_index :: u32 where
  "k_magic_index = 0xBAAAD700"

definition k_index_write_format :: u8 where
  "k_index_write_format = 2"

definition k_index_series_align :: nat where
  "k_index_series_align = 16"

datatype Stage = StHeader | StSymbols | StSeries | StPostings | StDone

record PendingEntry =
  pe_name :: string
  pe_value :: string
  pe_offset :: u64

record IndexWriter =
  iw_file :: string
  iw_buf :: bytes
  iw_stage :: Stage
  iw_next_sym_ref :: u32
  iw_last_symbol :: string
  iw_any_symbol :: bool
  iw_symbols_len_off :: nat
  iw_off_symbols :: u64
  iw_off_series :: u64
  iw_off_label_idx :: u64
  iw_off_label_tbl :: u64
  iw_off_postings :: u64
  iw_off_postings_tbl :: u64
  iw_series_count :: u32
  iw_pending_postings :: "PendingEntry list"

section \<open>Buffer helpers\<close>

definition put_u8 :: "u8 \<Rightarrow> bytes \<Rightarrow> bytes" where
  "put_u8 v buf = buf @ [v]"

definition put_be32 :: "u32 \<Rightarrow> bytes \<Rightarrow> bytes" where
  "put_be32 v buf = buf @ be32 v"

definition put_be64 :: "u64 \<Rightarrow> bytes \<Rightarrow> bytes" where
  "put_be64 v buf = buf @ be64 v"

definition iw_put_uvarint :: "u64 \<Rightarrow> bytes \<Rightarrow> bytes" where
  "iw_put_uvarint v buf = buf @ put_uvarint v"

definition iw_put_varint :: "i64 \<Rightarrow> bytes \<Rightarrow> bytes" where
  "iw_put_varint v buf = buf @ put_varint v"

definition put_uvarint_str :: "string \<Rightarrow> bytes \<Rightarrow> bytes" where
  "put_uvarint_str s buf = iw_put_uvarint (of_nat (length s)) buf @ string_bytes s"

definition patch_be32 :: "nat \<Rightarrow> u32 \<Rightarrow> bytes \<Rightarrow> bytes" where
  "patch_be32 offset v buf =
     buf[offset := ucast (drop_bit 24 v), offset + 1 := ucast (drop_bit 16 v),
         offset + 2 := ucast (drop_bit 8 v), offset + 3 := ucast v]"

definition append_crc :: "nat \<Rightarrow> nat \<Rightarrow> bytes \<Rightarrow> bytes" where
  "append_crc start stop buf = put_be32 (compute (take (stop - start) (drop start buf))) buf"

definition pad_to :: "nat \<Rightarrow> bytes \<Rightarrow> bytes" where
  "pad_to align buf =
     (let rem = length buf mod align in if rem \<noteq> 0 then buf @ replicate (align - rem) 0 else buf)"

section \<open>Operations\<close>

text \<open>\<open>std::filesystem::exists\<close> throws if the file cannot be examined.\<close>

definition IndexWriter_create :: "string \<Rightarrow> Disk \<Rightarrow> (block_error + IndexWriter) \<times> Disk" where
  "IndexWriter_create file d =
     (case sys_simple d of
        (Inl e, d1) \<Rightarrow> (Inl Throws, d1)
      | (Inr _, d1) \<Rightarrow>
          if map_of (dk_files d1) file \<noteq> None then (Inl File_exists, d1)
          else (Inr \<lparr>iw_file = file, iw_buf = put_u8 k_index_write_format (put_be32 k_magic_index []),
                     iw_stage = StSymbols, iw_next_sym_ref = 0, iw_last_symbol = [], iw_any_symbol = False,
                     iw_symbols_len_off = 0, iw_off_symbols = 0, iw_off_series = 0, iw_off_label_idx = 0,
                     iw_off_label_tbl = 0, iw_off_postings = 0, iw_off_postings_tbl = 0,
                     iw_series_count = 0, iw_pending_postings = []\<rparr>, d1))"

text \<open>The head of the symbol section, reserved by the first symbol or by \<open>finish_symbols\<close>.\<close>

definition reserve_symbols :: "IndexWriter \<Rightarrow> IndexWriter" where
  "reserve_symbols w =
     (if iw_any_symbol w then w
      else let b = put_be32 0 (iw_buf w)
           in w\<lparr>iw_off_symbols := of_nat (length (iw_buf w)), iw_symbols_len_off := length b,
                iw_buf := put_be32 0 b\<rparr>)"

definition add_symbol :: "string \<Rightarrow> IndexWriter \<Rightarrow> (block_error + u32) \<times> IndexWriter" where
  "add_symbol symb w =
     (if iw_stage w \<noteq> StSymbols then (Inl Not_permitted, w)
      else if iw_any_symbol w \<and> symb < iw_last_symbol w then (Inl Invalid_arg, w)
      else let w1 = reserve_symbols w in
        (Inr (iw_next_sym_ref w1),
         w1\<lparr>iw_buf := put_uvarint_str symb (iw_buf w1), iw_any_symbol := True, iw_last_symbol := symb,
            iw_next_sym_ref := iw_next_sym_ref w1 + 1\<rparr>))"

definition finish_symbols :: "IndexWriter \<Rightarrow> (block_error + unit) \<times> IndexWriter" where
  "finish_symbols w =
     (if iw_stage w \<noteq> StSymbols then (Inl Not_permitted, w)
      else
        let w1 = reserve_symbols w;
            b1 = patch_be32 (iw_symbols_len_off w1) (iw_next_sym_ref w1) (iw_buf w1);
            payload_start = unat (iw_off_symbols w1) + 4;
            payload_end = length b1;
            b2 = patch_be32 (unat (iw_off_symbols w1)) (of_nat (payload_end - payload_start)) b1
        in (Inr (), w1\<lparr>iw_buf := append_crc payload_start payload_end b2, iw_stage := StSeries\<rparr>))"

text \<open>The payload of a series: label references, then chunks, each relative to the one before.\<close>

fun encode_label_refs :: "(u32 \<times> u32) list \<Rightarrow> bytes" where
  "encode_label_refs [] = []"
| "encode_label_refs ((name_ref, val_ref) # rs) =
     put_uvarint (ucast name_ref) @ put_uvarint (ucast val_ref) @ encode_label_refs rs"

fun encode_chunk_metas :: "ChunkMeta list \<Rightarrow> i64 \<Rightarrow> i64 \<Rightarrow> bytes" where
  "encode_chunk_metas [] t0 ref0 = []"
| "encode_chunk_metas (c # cs) t0 ref0 =
     put_uvarint (cm_min_time c - t0) @ put_uvarint (cm_max_time c - cm_min_time c) @
     put_varint (cm_ref c - ref0) @ encode_chunk_metas cs (cm_max_time c) (cm_ref c)"

definition series_payload :: "(u32 \<times> u32) list \<Rightarrow> ChunkMeta list \<Rightarrow> bytes" where
  "series_payload label_refs chunk_metas =
     put_uvarint (of_nat (length label_refs)) @ encode_label_refs label_refs @
     put_uvarint (of_nat (length chunk_metas)) @
     (case chunk_metas of
        [] \<Rightarrow> []
      | first # cs \<Rightarrow>
          put_varint (cm_min_time first) @ put_uvarint (cm_max_time first - cm_min_time first) @
          put_uvarint (cm_ref first) @ encode_chunk_metas cs (cm_max_time first) (cm_ref first))"

definition add_series ::
  "(u32 \<times> u32) list \<Rightarrow> ChunkMeta list \<Rightarrow> IndexWriter \<Rightarrow> (block_error + u32) \<times> IndexWriter" where
  "add_series label_refs chunk_metas w =
     (if iw_stage w \<noteq> StSeries then (Inl Not_permitted, w)
      else
        let b0 = pad_to k_index_series_align (iw_buf w);
            w1 = (if iw_series_count w = 0 then w\<lparr>iw_off_series := of_nat (length b0)\<rparr> else w);
            series_start = length b0;
            payload = series_payload label_refs chunk_metas;
            b1 = iw_put_uvarint (of_nat (length payload)) b0;
            payload_off = length b1;
            b2 = append_crc payload_off (payload_off + length payload) (b1 @ payload);
            series_id = of_nat (series_start div k_index_series_align)
        in (Inr series_id, w1\<lparr>iw_buf := b2, iw_series_count := iw_series_count w1 + 1\<rparr>))"

definition finish_series :: "IndexWriter \<Rightarrow> (block_error + unit) \<times> IndexWriter" where
  "finish_series w =
     (if iw_stage w \<noteq> StSeries then (Inl Not_permitted, w)
      else
        let w1 = (if iw_series_count w = 0 then w\<lparr>iw_off_series := of_nat (length (iw_buf w))\<rparr> else w);
            b = pad_to k_index_series_align (iw_buf w1)
        in (Inr (), w1\<lparr>iw_buf := b, iw_off_label_idx := of_nat (length b), iw_off_label_tbl := of_nat (length b),
                       iw_off_postings := of_nat (length b), iw_stage := StPostings\<rparr>))"

fun strictly_ascending :: "u32 list \<Rightarrow> bool" where
  "strictly_ascending (x # y # zs) = (\<not> y \<le> x \<and> strictly_ascending (y # zs))"
| "strictly_ascending _ = True"

definition add_postings ::
  "string \<Rightarrow> string \<Rightarrow> u32 list \<Rightarrow> IndexWriter \<Rightarrow> (block_error + unit) \<times> IndexWriter" where
  "add_postings name val series_ids w =
     (if iw_stage w \<noteq> StPostings then (Inl Not_permitted, w)
      else if \<not> strictly_ascending series_ids then (Inl Invalid_arg, w)
      else
        let b0 = pad_to 4 (iw_buf w);
            list_off = length b0;
            b1 = put_be32 0 b0;
            payload_off = length b1;
            b2 = fold put_be32 series_ids (put_be32 (of_nat (length series_ids)) b1);
            payload_end = length b2;
            b3 = patch_be32 list_off (of_nat (payload_end - payload_off)) b2;
            b4 = append_crc payload_off payload_end b3
        in (Inr (), w\<lparr>iw_buf := b4, iw_pending_postings := iw_pending_postings w @
              [\<lparr>pe_name = name, pe_value = val, pe_offset = of_nat list_off\<rparr>]\<rparr>))"

definition put_entry :: "PendingEntry \<Rightarrow> bytes \<Rightarrow> bytes" where
  "put_entry e buf =
     iw_put_uvarint (pe_offset e) (put_uvarint_str (pe_value e) (put_uvarint_str (pe_name e) (iw_put_uvarint 2 buf)))"

text \<open>The postings offset table and the table of contents, appended to the buffer by \<open>close\<close>.\<close>

definition put_postings_table :: "IndexWriter \<Rightarrow> IndexWriter" where
  "put_postings_table w =
     (let off = length (iw_buf w);
          b1 = put_be32 0 (iw_buf w);
          payload_off = length b1;
          b2 = fold put_entry (iw_pending_postings w) (put_be32 (of_nat (length (iw_pending_postings w))) b1);
          payload_end = length b2;
          b3 = patch_be32 off (of_nat (payload_end - payload_off)) b2
      in w\<lparr>iw_off_postings_tbl := of_nat off, iw_buf := append_crc payload_off payload_end b3\<rparr>)"

definition put_toc :: "IndexWriter \<Rightarrow> IndexWriter" where
  "put_toc w =
     (let toc_start = length (iw_buf w);
          b = put_be64 (iw_off_postings_tbl w) (put_be64 (iw_off_postings w) (put_be64 (iw_off_label_tbl w)
                (put_be64 (iw_off_label_idx w) (put_be64 (iw_off_series w) (put_be64 (iw_off_symbols w) (iw_buf w))))))
      in w\<lparr>iw_buf := append_crc toc_start (toc_start + 48) b\<rparr>)"

text \<open>
  The loop that writes the buffer. Unlike the other writers of the code it does not treat a
  write of no bytes as an error, it tries again; a failure closes the file.
\<close>

function flush_loop :: "string \<Rightarrow> bytes \<Rightarrow> Disk \<Rightarrow> (block_error + unit) \<times> Disk" where
  "flush_loop fd remaining d =
     (if remaining = [] then (Inr (), d)
      else case syscall d of
        (Done, d') \<Rightarrow> (Inr (), file_append fd remaining d')
      | (Partial n, d') \<Rightarrow> flush_loop fd (drop n remaining) (file_append fd (take n remaining) d')
      | (Interrupted, d') \<Rightarrow> flush_loop fd remaining d'
      | (Failed e, d') \<Rightarrow> (Inl (Errc (Os e)), snd (sys_simple d')))"
  by pat_completeness auto
termination
  by (relation "measure (\<lambda>(fd, data, d). length (dk_faults d))")
    (auto dest!: sym [of "(_, _)"] syscall_shorter)

declare flush_loop.simps [simp del]

text \<open>\<open>open\<close> with \<open>O_EXCL\<close> fails on a file that exists.\<close>

definition k_EEXIST :: nat where
  "k_EEXIST = 17"

definition write_index :: "string \<Rightarrow> bytes \<Rightarrow> Disk \<Rightarrow> (block_error + unit) \<times> Disk" where
  "write_index file bs d =
     (case sys_simple d of
        (Inl e, d1) \<Rightarrow> (Inl (Errc e), d1)
      | (Inr _, d1) \<Rightarrow>
          if map_of (dk_files d1) file \<noteq> None then (Inl (Errc (Os k_EEXIST)), d1)
          else case flush_loop file bs (file_create file d1) of
            (Inl e, d2) \<Rightarrow> (Inl e, d2)
          | (Inr _, d2) \<Rightarrow>
              (case sys_simple d2 of
                 (Inl e, d3) \<Rightarrow> (Inl (Errc e), snd (sys_simple d3))
               | (Inr _, d3) \<Rightarrow>
                   (case sys_simple d3 of
                      (Inl e, d4) \<Rightarrow> (Inl (Errc e), d4)
                    | (Inr _, d4) \<Rightarrow> (Inr (), d4))))"

definition iw_close :: "IndexWriter \<Rightarrow> Disk \<Rightarrow> (block_error + unit) \<times> IndexWriter \<times> Disk" where
  "iw_close w d =
     (if iw_stage w \<noteq> StPostings then (Inl Not_permitted, w, d)
      else
        let w1 = put_toc (put_postings_table w)
        in case write_index (iw_file w1) (iw_buf w1) d of
             (Inl e, d1) \<Rightarrow> (Inl e, w1, d1)
           | (Inr _, d1) \<Rightarrow> (Inr (), w1\<lparr>iw_stage := StDone\<rparr>, d1))"

section \<open>Parts of a buffer\<close>

text \<open>The bytes \<open>xs\<close> stand at an offset of \<open>bs\<close>; appending to \<open>bs\<close> keeps that.\<close>

definition holds_at :: "bytes \<Rightarrow> nat \<Rightarrow> bytes \<Rightarrow> bool" where
  "holds_at bs off xs \<longleftrightarrow> off + length xs \<le> length bs \<and> take (length xs) (drop off bs) = xs"

lemma holds_at_append [intro]: "holds_at bs off xs \<Longrightarrow> holds_at (bs @ ys) off xs"
  by (simp add: holds_at_def)

lemma holds_at_end [intro]: "holds_at (bs @ xs) (length bs) xs"
  by (simp add: holds_at_def)

lemma holds_at_length: "holds_at bs off xs \<Longrightarrow> off + length xs \<le> length bs"
  by (simp add: holds_at_def)

lemma holds_at_take: "holds_at bs off xs \<Longrightarrow> take (length xs) (drop off bs) = xs"
  by (simp add: holds_at_def)

lemma holds_at_drop: "holds_at bs off xs \<Longrightarrow> \<exists>post. drop off bs = xs @ post"
  by (metis append_take_drop_id holds_at_take)

lemma holds_at_split: "holds_at bs off (xs @ ys) \<longleftrightarrow> holds_at bs off xs \<and> holds_at bs (off + length xs) ys"
  by (auto simp: holds_at_def take_add add.commute)

lemma patch_be32_at: "length q = 4 \<Longrightarrow> patch_be32 (length pre) v (pre @ q @ post) = pre @ be32 v @ post"
  by (drule list_by_length(2), erule ssubst)
    (simp add: patch_be32_def be32_def list_update_append list_update_append1 split: nat.splits)

lemma append_crc_at: "append_crc (length pre) (length pre + length p) (pre @ p) = pre @ p @ be32 (compute p)"
  by (simp add: append_crc_def put_be32_def)

text \<open>A section: length, payload, checksum of the payload.\<close>

definition frame :: "bytes \<Rightarrow> bytes" where
  "frame p = be32 (of_nat (length p)) @ p @ be32 (compute p)"

lemma finish_frame:
  "append_crc (length pre + 4) (length pre + 4 + length p)
     (patch_be32 (length pre) (of_nat (length p)) (pre @ be32 0 @ p)) = pre @ frame p"
proof -
  have "patch_be32 (length pre) (of_nat (length p)) (pre @ be32 0 @ p) = (pre @ be32 (of_nat (length p))) @ p"
    by (simp add: patch_be32_at)
  then show ?thesis
    using append_crc_at [of "pre @ be32 (of_nat (length p))" p] by (simp add: frame_def)
qed

lemma pad_to_prefix: "\<exists>z. pad_to n buf = buf @ z \<and> (0 < n \<longrightarrow> length z < n)"
  by (simp add: pad_to_def Let_def)

lemma pad_to_aligned: "0 < n \<Longrightarrow> n dvd length (pad_to n buf)"
proof -
  assume n: "0 < n"
  show ?thesis
  proof (cases "length buf mod n = 0")
    case False
    have "length buf + (n - length buf mod n) = n * (length buf div n + 1)"
      using mod_less_divisor [OF n, of "length buf"] mult_div_mod_eq [of n "length buf"]
      unfolding distrib_left by linarith
    then show ?thesis using False by (simp add: pad_to_def)
  qed (auto simp: pad_to_def)
qed

section \<open>What the operations write\<close>

abbreviation index_header :: bytes where
  "index_header \<equiv> be32 k_magic_index @ [k_index_write_format]"

abbreviation symbols_bytes :: "string list \<Rightarrow> bytes" where
  "symbols_bytes syms \<equiv> concat (map str_bytes syms)"

definition symbols_payload :: "string list \<Rightarrow> bytes" where
  "symbols_payload syms = be32 (of_nat (length syms)) @ symbols_bytes syms"

definition posting_payload :: "u32 list \<Rightarrow> bytes" where
  "posting_payload ids = be32 (of_nat (length ids)) @ concat (map be32 ids)"

definition entry_bytes :: "PendingEntry \<Rightarrow> bytes" where
  "entry_bytes e = put_uvarint 2 @ str_bytes (pe_name e) @ str_bytes (pe_value e) @ put_uvarint (pe_offset e)"

definition table_payload :: "PendingEntry list \<Rightarrow> bytes" where
  "table_payload es = be32 (of_nat (length es)) @ concat (map entry_bytes es)"

definition series_frame :: "bytes \<Rightarrow> bytes" where
  "series_frame p = put_uvarint (of_nat (length p)) @ p @ be32 (compute p)"

definition toc_body :: "IndexWriter \<Rightarrow> bytes" where
  "toc_body w =
     be64 (iw_off_symbols w) @ be64 (iw_off_series w) @ be64 (iw_off_label_idx w) @ be64 (iw_off_label_tbl w) @
     be64 (iw_off_postings w) @ be64 (iw_off_postings_tbl w)"

lemma put_uvarint_str_bytes: "put_uvarint_str s buf = buf @ str_bytes s"
  by (simp add: put_uvarint_str_def iw_put_uvarint_def str_bytes_def)

lemma fold_put_be32: "fold put_be32 ids buf = buf @ concat (map be32 ids)"
  by (induction ids arbitrary: buf) (simp_all add: put_be32_def)

lemma fold_put_entry: "fold put_entry es buf = buf @ concat (map entry_bytes es)"
  by (induction es arbitrary: buf)
    (simp_all add: put_entry_def entry_bytes_def put_uvarint_str_bytes iw_put_uvarint_def)

lemma add_series_buf:
  assumes "add_series refs metas w = (Inr sid, w')"
  shows "iw_buf w' = pad_to 16 (iw_buf w) @ series_frame (series_payload refs metas)"
    and "sid = of_nat (length (pad_to 16 (iw_buf w)) div 16)" and "iw_stage w = StSeries" and "iw_stage w' = StSeries"
proof -
  let ?p = "series_payload refs metas" and ?b = "pad_to 16 (iw_buf w)"
  have "append_crc (length (?b @ put_uvarint (of_nat (length ?p)))) (length (?b @ put_uvarint (of_nat (length ?p))) + length ?p)
     ((?b @ put_uvarint (of_nat (length ?p))) @ ?p) = ?b @ series_frame ?p"
    unfolding append_crc_at by (simp add: series_frame_def)
  then show "iw_buf w' = ?b @ series_frame ?p" "sid = of_nat (length ?b div 16)" "iw_stage w = StSeries" "iw_stage w' = StSeries"
    using assms by (auto simp: add_series_def Let_def k_index_series_align_def iw_put_uvarint_def split: if_splits)
qed

lemma add_postings_buf:
  assumes "add_postings name val ids w = (Inr u, w')"
  shows "iw_buf w' = pad_to 4 (iw_buf w) @ frame (posting_payload ids)"
    and "iw_pending_postings w' = iw_pending_postings w @
           [\<lparr>pe_name = name, pe_value = val, pe_offset = of_nat (length (pad_to 4 (iw_buf w)))\<rparr>]"
    and "strictly_ascending ids" and "iw_stage w = StPostings"
proof -
  let ?b = "pad_to 4 (iw_buf w)"
  show "iw_buf w' = ?b @ frame (posting_payload ids)"
    using assms finish_frame [of ?b "posting_payload ids"]
    by (auto simp: add_postings_def Let_def put_be32_def fold_put_be32 posting_payload_def split: if_splits)
qed (use assms in \<open>auto simp: add_postings_def Let_def split: if_splits\<close>)

lemma put_postings_table_buf:
  "iw_buf (put_postings_table w) = iw_buf w @ frame (table_payload (iw_pending_postings w))"
  using finish_frame [of "iw_buf w" "table_payload (iw_pending_postings w)"]
  by (simp add: put_postings_table_def Let_def put_be32_def fold_put_entry table_payload_def)

lemma put_toc_buf: "iw_buf (put_toc w) = iw_buf w @ toc_body w @ be32 (compute (toc_body w))"
  using append_crc_at [of "iw_buf w" "toc_body w"]
  by (simp add: put_toc_def Let_def put_be64_def toc_body_def)

section \<open>Runs of the writer\<close>

fun add_symbols :: "string list \<Rightarrow> IndexWriter \<Rightarrow> (block_error + u32 list) \<times> IndexWriter" where
  "add_symbols [] w = (Inr [], w)"
| "add_symbols (s # ss) w =
     (case add_symbol s w of
        (Inl e, w1) \<Rightarrow> (Inl e, w1)
      | (Inr ref, w1) \<Rightarrow>
          (case add_symbols ss w1 of
             (Inl e, w2) \<Rightarrow> (Inl e, w2)
           | (Inr refs, w2) \<Rightarrow> (Inr (ref # refs), w2)))"

type_synonym series_spec = "(u32 \<times> u32) list \<times> ChunkMeta list"
type_synonym posting_spec = "string \<times> string \<times> u32 list"

fun add_all_series :: "series_spec list \<Rightarrow> IndexWriter \<Rightarrow> (block_error + u32 list) \<times> IndexWriter" where
  "add_all_series [] w = (Inr [], w)"
| "add_all_series ((refs, metas) # ss) w =
     (case add_series refs metas w of
        (Inl e, w1) \<Rightarrow> (Inl e, w1)
      | (Inr sid, w1) \<Rightarrow>
          (case add_all_series ss w1 of
             (Inl e, w2) \<Rightarrow> (Inl e, w2)
           | (Inr sids, w2) \<Rightarrow> (Inr (sid # sids), w2)))"

fun add_all_postings :: "posting_spec list \<Rightarrow> IndexWriter \<Rightarrow> (block_error + unit) \<times> IndexWriter" where
  "add_all_postings [] w = (Inr (), w)"
| "add_all_postings ((name, val, ids) # ps) w =
     (case add_postings name val ids w of
        (Inl e, w1) \<Rightarrow> (Inl e, w1)
      | (Inr _, w1) \<Rightarrow> add_all_postings ps w1)"

text \<open>The phase of the symbols: nothing is in the buffer before the first one.\<close>

definition sym_state :: "IndexWriter \<Rightarrow> string list \<Rightarrow> bool" where
  "sym_state w syms \<longleftrightarrow>
     iw_stage w = StSymbols \<and> iw_next_sym_ref w = of_nat (length syms) \<and> iw_pending_postings w = [] \<and>
     (if syms = [] then \<not> iw_any_symbol w \<and> iw_buf w = index_header
      else iw_any_symbol w \<and> iw_last_symbol w = last syms \<and> iw_off_symbols w = 5 \<and> iw_symbols_len_off w = 9 \<and>
        iw_buf w = index_header @ be32 0 @ be32 0 @ symbols_bytes syms)"

lemma IndexWriter_create_state:
  "IndexWriter_create file d = (Inr w, d') \<Longrightarrow> sym_state w [] \<and> iw_file w = file"
  by (auto simp: IndexWriter_create_def sym_state_def put_be32_def put_u8_def split: prod.splits sum.splits if_splits)

lemma reserve_symbols_state:
  assumes "sym_state w syms"
  defines "w' \<equiv> reserve_symbols w"
  shows "iw_off_symbols w' = 5" "iw_symbols_len_off w' = 9"
    "iw_buf w' = index_header @ be32 0 @ be32 0 @ symbols_bytes syms"
    "iw_next_sym_ref w' = of_nat (length syms)" "iw_stage w' = StSymbols" "iw_pending_postings w' = []"
    "iw_file w' = iw_file w"
  using assms by (auto simp: sym_state_def reserve_symbols_def put_be32_def Let_def split: if_splits)

lemma add_symbol_state:
  assumes "sym_state w syms" and "add_symbol s w = (Inr ref, w')"
  shows "ref = of_nat (length syms)" "sym_state w' (syms @ [s])" "syms \<noteq> [] \<Longrightarrow> last syms \<le> s" "iw_file w' = iw_file w"
proof -
  have w': "ref = iw_next_sym_ref (reserve_symbols w)" "\<not> (iw_any_symbol w \<and> s < iw_last_symbol w)"
    "w' = (reserve_symbols w)\<lparr>iw_buf := put_uvarint_str s (iw_buf (reserve_symbols w)), iw_any_symbol := True,
       iw_last_symbol := s, iw_next_sym_ref := iw_next_sym_ref (reserve_symbols w) + 1\<rparr>"
    using assms(2) by (auto simp: add_symbol_def Let_def split: if_splits)
  note r = reserve_symbols_state [OF assms(1)]
  show "ref = of_nat (length syms)" "iw_file w' = iw_file w" using w'(1,3) r by simp_all
  show "sym_state w' (syms @ [s])"
    unfolding sym_state_def w'(3) using r by (simp add: put_uvarint_str_bytes)
  show "syms \<noteq> [] \<Longrightarrow> last syms \<le> s"
    using w'(2) assms(1) by (auto simp: sym_state_def not_less)
qed

lemma add_symbols_state:
  "sym_state w pre \<Longrightarrow> add_symbols syms w = (Inr refs, w') \<Longrightarrow>
   refs = map of_nat [length pre..<length pre + length syms] \<and> sym_state w' (pre @ syms) \<and>
   (sorted pre \<longrightarrow> sorted (pre @ syms)) \<and> iw_file w' = iw_file w"
proof (induction syms arbitrary: w pre refs)
  case (Cons s syms)
  obtain ref w1 refs' where s: "add_symbol s w = (Inr ref, w1)" "add_symbols syms w1 = (Inr refs', w')" "refs = ref # refs'"
    using Cons.prems(2) by (auto split: prod.splits sum.splits)
  note w1 = add_symbol_state [OF Cons.prems(1) s(1)]
  note ih = Cons.IH [OF w1(2) s(2)]
  have "sorted (pre @ [s])" if "sorted pre"
    using that w1(3) by (cases pre rule: rev_cases) (auto simp: sorted_append)
  moreover have "[length pre..<length pre + length (s # syms)]
      = length pre # [length (pre @ [s])..<length (pre @ [s]) + length syms]"
    by (simp add: upt_conv_Cons del: upt_Suc)
  ultimately show ?case using ih w1(1,4) s(3) by (simp del: upt_Suc)
qed simp

lemma finish_symbols_state:
  assumes "sym_state w syms" and "finish_symbols w = (r, w')"
  shows "r = Inr ()" "iw_buf w' = index_header @ frame (symbols_payload syms)" "iw_off_symbols w' = 5"
    "iw_stage w' = StSeries" "iw_pending_postings w' = []" "iw_file w' = iw_file w"
proof -
  note r = reserve_symbols_state [OF assms(1)]
  let ?p = "symbols_payload syms"
  have b1: "patch_be32 9 (of_nat (length syms)) (index_header @ be32 0 @ be32 0 @ symbols_bytes syms) = index_header @ be32 0 @ ?p"
    using patch_be32_at [of "be32 0" "index_header @ be32 0"] by (simp add: symbols_payload_def)
  have b2: "append_crc 9 (9 + length ?p) (patch_be32 5 (of_nat (length ?p)) (index_header @ be32 0 @ ?p)) = index_header @ frame ?p"
    using finish_frame [of index_header ?p] by simp
  have "length (index_header @ be32 0 @ ?p) = 9 + length ?p" by simp
  then show "r = Inr ()" "iw_buf w' = index_header @ frame ?p" "iw_off_symbols w' = 5" "iw_stage w' = StSeries"
    "iw_pending_postings w' = []" "iw_file w' = iw_file w"
    using assms b1 b2 r by (auto simp: finish_symbols_def Let_def sym_state_def)
qed

text \<open>
  The later phases: the finished parts stand in the buffer, and an operation only appends. Up to
  \<open>2^32\<close> bytes no length and no series id is cut off.
\<close>

definition series_at :: "bytes \<Rightarrow> u32 \<Rightarrow> series_spec \<Rightarrow> bool" where
  "series_at bs sid s \<longleftrightarrow>
     16 * unat sid < length bs \<and> holds_at bs (16 * unat sid) (series_frame (series_payload (fst s) (snd s)))"

definition posting_at :: "bytes \<Rightarrow> PendingEntry \<Rightarrow> posting_spec \<Rightarrow> bool" where
  "posting_at bs e p \<longleftrightarrow>
     (case p of (name, val, ids) \<Rightarrow> pe_name e = name \<and> pe_value e = val \<and> strictly_ascending ids \<and>
        holds_at bs (unat (pe_offset e)) (frame (posting_payload ids)))"

definition iw_holds :: "IndexWriter \<Rightarrow> string list \<Rightarrow> u32 list \<Rightarrow> series_spec list \<Rightarrow> posting_spec list \<Rightarrow> bool" where
  "iw_holds w syms sids ss ps \<longleftrightarrow>
     iw_off_symbols w = 5 \<and> holds_at (iw_buf w) 0 (index_header @ frame (symbols_payload syms)) \<and>
     list_all2 (series_at (iw_buf w)) sids ss \<and> sorted_wrt (<) sids \<and>
     list_all2 (posting_at (iw_buf w)) (iw_pending_postings w) ps"

lemma series_at_append [intro]: "series_at bs sid s \<Longrightarrow> series_at (bs @ ys) sid s"
  by (auto simp: series_at_def)

lemma posting_at_append [intro]: "posting_at bs e p \<Longrightarrow> posting_at (bs @ ys) e p"
  by (auto simp: posting_at_def)

lemma iw_holds_extend:
  assumes "iw_holds w syms sids ss ps" and "iw_buf w' = iw_buf w @ ys"
    and "iw_off_symbols w' = iw_off_symbols w" and "iw_pending_postings w' = iw_pending_postings w"
  shows "iw_holds w' syms sids ss ps"
  using assms unfolding iw_holds_def
  by (auto elim!: list_all2_mono)

lemma iw_holds_start:
  assumes "sym_state w syms" and "finish_symbols w = (r, w')"
  shows "iw_holds w' syms [] [] []"
  using finish_symbols_state [OF assms] by (simp add: iw_holds_def) (simp add: holds_at_def)

lemma pad_grows: "length buf \<le> length (pad_to n buf)"
  using pad_to_prefix [of n buf] by auto

lemma add_series_holds:
  assumes holds: "iw_holds w syms sids ss ps" and step: "add_series refs metas w = (Inr sid, w')"
    and size: "length (iw_buf w') < 2 ^ 32"
  shows "iw_holds w' syms (sids @ [sid]) (ss @ [(refs, metas)]) ps"
proof -
  let ?b = "pad_to 16 (iw_buf w)" and ?x = "series_frame (series_payload refs metas)"
  note buf = add_series_buf [OF step]
  obtain z where z: "?b = iw_buf w @ z" using pad_to_prefix by blast
  have sid: "16 * unat sid = length ?b"
    using buf(1,2) size pad_to_aligned [of 16 "iw_buf w"] by (simp add: unat_of_nat)
  have "w'\<lparr>iw_buf := x\<rparr> = w\<lparr>iw_buf := x, iw_off_series := iw_off_series w', iw_series_count := iw_series_count w'\<rparr>" for x
    using step by (auto simp: add_series_def Let_def split: if_splits)
  from arg_cong [OF this, of iw_off_symbols] arg_cong [OF this, of iw_pending_postings]
  have old: "iw_holds w' syms sids ss ps"
    using iw_holds_extend [OF holds, of w' "z @ ?x"] buf(1) z by simp
  have "series_at (iw_buf w') sid (refs, metas)"
    unfolding series_at_def sid buf(1) by (auto simp: series_frame_def)
  moreover have "i < sid" if "i \<in> set sids" for i
  proof -
    from that holds obtain s where "series_at (iw_buf w) i s"
      unfolding iw_holds_def by (metis in_set_conv_nth list_all2_conv_all_nth)
    then show ?thesis using sid z by (simp add: series_at_def word_less_nat_alt)
  qed
  ultimately show ?thesis
    using old by (simp add: iw_holds_def sorted_wrt_append list_all2_appendI)
qed

lemma add_series_grows:
  "add_series refs metas w = (Inr sid, w') \<Longrightarrow> length (iw_buf w) \<le> length (iw_buf w') \<and> iw_file w' = iw_file w"
  using pad_grows [of "iw_buf w" 16] add_series_buf(1) [of refs metas w sid w']
  by (auto simp: add_series_def Let_def split: if_splits)

lemma add_all_series_grows:
  "add_all_series ss w = (Inr sids, w') \<Longrightarrow> length (iw_buf w) \<le> length (iw_buf w') \<and> iw_file w' = iw_file w"
proof (induction ss arbitrary: w sids)
  case (Cons s ss)
  then obtain sid w1 sids' where "add_series (fst s) (snd s) w = (Inr sid, w1)" "add_all_series ss w1 = (Inr sids', w')"
    by (cases s) (auto split: prod.splits sum.splits)
  then show ?case using Cons.IH [of w1] add_series_grows [of "fst s" "snd s" w sid w1] by force
qed simp

lemma add_all_series_holds:
  "iw_holds w syms sids0 ss0 ps \<Longrightarrow> add_all_series ss w = (Inr sids, w') \<Longrightarrow> length (iw_buf w') < 2 ^ 32 \<Longrightarrow>
   iw_holds w' syms (sids0 @ sids) (ss0 @ ss) ps"
proof (induction ss arbitrary: w sids sids0 ss0)
  case (Cons s ss)
  obtain refs metas where s: "s = (refs, metas)" by fastforce
  obtain sid w1 sids' where step: "add_series refs metas w = (Inr sid, w1)" "add_all_series ss w1 = (Inr sids', w')"
      "sids = sid # sids'"
    using Cons.prems(2) s by (auto split: prod.splits sum.splits)
  have "length (iw_buf w1) < 2 ^ 32" using add_all_series_grows [OF step(2)] Cons.prems(3) by simp
  then have "iw_holds w1 syms (sids0 @ [sid]) (ss0 @ [s]) ps"
    using add_series_holds [OF Cons.prems(1) step(1)] s by blast
  from Cons.IH [OF this step(2) Cons.prems(3)] show ?case using step(3) by simp
qed simp

lemma finish_series_holds:
  assumes "iw_holds w syms sids ss ps" and "finish_series w = (Inr u, w')"
  shows "iw_holds w' syms sids ss ps" "length (iw_buf w) \<le> length (iw_buf w')" "iw_file w' = iw_file w"
proof -
  obtain z where z: "pad_to 16 (iw_buf w) = iw_buf w @ z" using pad_to_prefix by blast
  have w': "iw_buf w' = pad_to 16 (iw_buf w)" "iw_off_symbols w' = iw_off_symbols w"
      "iw_pending_postings w' = iw_pending_postings w" "iw_file w' = iw_file w"
    using assms(2) by (auto simp: finish_series_def Let_def k_index_series_align_def split: if_splits)
  then show "iw_holds w' syms sids ss ps" "length (iw_buf w) \<le> length (iw_buf w')" "iw_file w' = iw_file w"
    using iw_holds_extend [OF assms(1)] z by simp_all
qed

lemma add_postings_holds:
  assumes holds: "iw_holds w syms sids ss ps" and step: "add_postings name val ids w = (Inr u, w')"
    and size: "length (iw_buf w') < 2 ^ 32"
  shows "iw_holds w' syms sids ss (ps @ [(name, val, ids)])"
proof -
  let ?b = "pad_to 4 (iw_buf w)" and ?x = "frame (posting_payload ids)"
  let ?e = "\<lparr>pe_name = name, pe_value = val, pe_offset = of_nat (length (pad_to 4 (iw_buf w)))\<rparr>"
  note buf = add_postings_buf [OF step]
  obtain z where z: "?b = iw_buf w @ z" using pad_to_prefix by blast
  have off: "unat (pe_offset ?e) = length ?b"
    using buf(1) size by (simp add: unat_of_nat)
  have w1: "iw_holds (w'\<lparr>iw_pending_postings := iw_pending_postings w\<rparr>) syms sids ss ps"
    using iw_holds_extend [OF holds, of "w'\<lparr>iw_pending_postings := iw_pending_postings w\<rparr>" "z @ ?x"] buf(1) z step
    by (auto simp: add_postings_def Let_def split: if_splits)
  have "posting_at (iw_buf w') ?e (name, val, ids)"
    using buf(3) off by (auto simp: posting_at_def buf(1))
  then show ?thesis
    using w1 by (simp add: iw_holds_def buf(2) list_all2_appendI)
qed

lemma add_postings_grows:
  "add_postings name val ids w = (Inr u, w') \<Longrightarrow> length (iw_buf w) \<le> length (iw_buf w') \<and> iw_file w' = iw_file w"
  using pad_grows [of "iw_buf w" 4] add_postings_buf(1) [of name val ids w u w']
  by (auto simp: add_postings_def Let_def split: if_splits)

lemma add_all_postings_grows:
  "add_all_postings ps w = (Inr u, w') \<Longrightarrow> length (iw_buf w) \<le> length (iw_buf w') \<and> iw_file w' = iw_file w"
proof (induction ps arbitrary: w)
  case (Cons p ps)
  obtain name val ids where p: "p = (name, val, ids)" by (cases p)
  obtain u1 w1 where "add_postings name val ids w = (Inr u1, w1)" "add_all_postings ps w1 = (Inr u, w')"
    using Cons.prems p by (auto split: prod.splits sum.splits)
  then show ?case using Cons.IH [of w1] add_postings_grows [of name val ids w u1 w1] by simp
qed simp

lemma add_all_postings_holds:
  "iw_holds w syms sids ss ps0 \<Longrightarrow> add_all_postings ps w = (Inr u, w') \<Longrightarrow> length (iw_buf w') < 2 ^ 32 \<Longrightarrow>
   iw_holds w' syms sids ss (ps0 @ ps)"
proof (induction ps arbitrary: w ps0)
  case (Cons p ps)
  obtain name val ids where p: "p = (name, val, ids)" by (cases p)
  obtain u1 w1 where step: "add_postings name val ids w = (Inr u1, w1)" "add_all_postings ps w1 = (Inr u, w')"
    using Cons.prems(2) p by (auto split: prod.splits sum.splits)
  have "length (iw_buf w1) < 2 ^ 32" using add_all_postings_grows [OF step(2)] Cons.prems(3) by simp
  then show ?case
    using Cons.IH [OF add_postings_holds [OF Cons.prems(1) step(1)] step(2) Cons.prems(3)] p by simp
qed simp

text \<open>Writing the buffer: success means that the new file holds all of it.\<close>

lemma flush_loop_ok:
  "flush_loop fd data d = (Inr (), d') \<Longrightarrow> map_of (dk_files d) fd = Some old \<Longrightarrow>
   map_of (dk_files d') = (map_of (dk_files d))(fd \<mapsto> old @ data) \<and>
   map fst (dk_files d') = map fst (dk_files d) \<and> dk_dir d' = dk_dir d"
proof (induction fd data d arbitrary: old rule: flush_loop.induct)
  case (1 fd data d)
  obtain r d1 where sys: "syscall d = (r, d1)" by fastforce
  note disk = syscall_disk [OF sys]
  consider "data = []" | (ne) "data \<noteq> []" by blast
  then show ?case
  proof cases
    case ne
    show ?thesis
    proof (cases r)
      case (Partial n)
      let ?d2 = "file_append fd (take n data) d1"
      have w: "flush_loop fd (drop n data) ?d2 = (Inr (), d')"
        using "1.prems"(1) ne sys Partial by (simp add: flush_loop.simps [of fd data d])
      have d2: "map_of (dk_files ?d2) = (map_of (dk_files d))(fd \<mapsto> old @ take n data)"
        "map fst (dk_files ?d2) = map fst (dk_files d)" "dk_dir ?d2 = dk_dir d"
        using map_of_file_append [of d1 fd old "take n data"] disk "1.prems"(2) by simp_all
      show ?thesis
        using "1.IH"(1) [OF ne sys [symmetric] Partial w, of "old @ take n data"] d2 by (auto simp: fun_eq_iff)
    qed (use "1.prems" "1.IH"(2) [OF ne sys [symmetric]] ne sys disk map_of_file_append [of d1 fd old data]
        in \<open>auto simp: flush_loop.simps [of fd data d]\<close>)
  qed (use "1.prems" in \<open>auto simp: flush_loop.simps [of fd "[]" d] fun_upd_idem_iff\<close>)
qed

lemma write_index_ok:
  assumes "write_index file bs d = (Inr (), d')"
  shows "map_of (dk_files d') = (map_of (dk_files d))(file \<mapsto> bs)" "dk_dir d' = dk_dir d"
    "map_of (dk_files d) file = None"
proof -
  obtain d1 d2 d3 where steps: "sys_simple d = (Inr (), d1)" "map_of (dk_files d1) file = None"
      "flush_loop file bs (file_create file d1) = (Inr (), d2)" "sys_simple d2 = (Inr (), d3)" "sys_simple d3 = (Inr (), d')"
    using assms by (auto simp: write_index_def split: prod.splits sum.splits if_splits)
  have new: "map_of (dk_files (file_create file d1)) = (map_of (dk_files d1))(file \<mapsto> [])"
    by (simp add: file_create_def AList.update_conv')
  show "map_of (dk_files d') = (map_of (dk_files d))(file \<mapsto> bs)" "dk_dir d' = dk_dir d" "map_of (dk_files d) file = None"
    using flush_loop_ok [OF steps(3), of "[]"] new steps(2) sys_simple_disk [OF steps(1)]
      sys_simple_disk [OF steps(4)] sys_simple_disk [OF steps(5)] by (auto simp: file_create_def)
qed

lemma iw_close_holds:
  assumes holds: "iw_holds w syms sids ss ps" and step: "iw_close w d = (Inr u, w', d')"
    and size: "length (iw_buf w') < 2 ^ 32"
  shows "iw_holds w' syms sids ss ps"
    "map_of (dk_files d') = (map_of (dk_files d))(iw_file w \<mapsto> iw_buf w')" "dk_dir d' = dk_dir d"
    "\<exists>pre. iw_buf w' = pre @ toc_body w' @ be32 (compute (toc_body w')) \<and> 5 \<le> length pre"
    "holds_at (iw_buf w') (unat (iw_off_postings_tbl w')) (frame (table_payload (iw_pending_postings w')))"
    "length (iw_buf w) \<le> length (iw_buf w')"
proof -
  let ?w1 = "put_postings_table w"
  have w': "w' = (put_toc ?w1)\<lparr>iw_stage := StDone\<rparr>" "write_index (iw_file w) (iw_buf w') d = (Inr (), d')"
    using step by (auto simp: iw_close_def Let_def put_toc_def put_postings_table_def split: if_splits prod.splits sum.splits)
  have buf: "iw_buf w' = iw_buf w @ frame (table_payload (iw_pending_postings w)) @ toc_body ?w1 @ be32 (compute (toc_body ?w1))"
    by (simp add: w'(1) put_toc_buf put_postings_table_buf)
  have same: "iw_off_symbols w' = iw_off_symbols w" "iw_pending_postings w' = iw_pending_postings w"
      "toc_body w' = toc_body ?w1" "iw_off_postings_tbl w' = of_nat (length (iw_buf w))"
    by (simp_all add: w'(1) put_toc_def put_postings_table_def Let_def toc_body_def)
  show "iw_holds w' syms sids ss ps" "length (iw_buf w) \<le> length (iw_buf w')"
    using iw_holds_extend [OF holds buf] same buf by simp_all
  show "map_of (dk_files d') = (map_of (dk_files d))(iw_file w \<mapsto> iw_buf w')" "dk_dir d' = dk_dir d"
    using write_index_ok [OF w'(2)] by simp_all
  have "5 \<le> length (iw_buf w)"
    using holds holds_at_length [of "iw_buf w" 0 "index_header @ frame (symbols_payload syms)"] by (simp add: iw_holds_def)
  then show "\<exists>pre. iw_buf w' = pre @ toc_body w' @ be32 (compute (toc_body w')) \<and> 5 \<le> length pre"
    unfolding same(3) buf by (intro exI [of _ "iw_buf w @ frame (table_payload (iw_pending_postings w))"]) simp
  have "unat (iw_off_postings_tbl w') = length (iw_buf w)"
    using size unfolding same(4) buf by (simp add: unat_of_nat)
  then show "holds_at (iw_buf w') (unat (iw_off_postings_tbl w')) (frame (table_payload (iw_pending_postings w')))"
    unfolding same(2) buf by (simp add: holds_at_def)
qed

end
