(* ===== verification/IndexReader.thy ===== *)
theory IndexReader
  imports IndexWriter
begin

text \<open>
  The reader of the index file of a block (src/block/index.cpp, block/index.hpp): sections with
  checksums, the symbol table with its sparse offsets, series entries, the postings offset table,
  posting lists and their unions. Positions are 64-bit words, so the wrap-around of a malformed
  length is visible; reading outside the file is the error \<open>Undefined_access\<close>, an exception
  \<open>Throws\<close>. Shown: every part of a well-formed index is found where the writer put it, and the
  unions are sorted and without duplicates.
\<close>

section \<open>Sections\<close>

definition k_symbol_sparse_stride :: nat where
  "k_symbol_sparse_stride = 32"

definition k_index_format_v1 :: u8 where
  "k_index_format_v1 = 1"

definition k_index_format_v2 :: u8 where
  "k_index_format_v2 = 2"

definition k_index_format_v3 :: u8 where
  "k_index_format_v3 = 3"

definition k_index_header_size :: nat where
  "k_index_header_size = 5"

definition k_index_toc_size :: nat where
  "k_index_toc_size = 6 * 8 + 4"

text \<open>The part after the length prefix, which both kinds of sections share.\<close>

definition checked_payload :: "bytes \<Rightarrow> u64 \<Rightarrow> u64 \<Rightarrow> block_error + bytes" where
  "checked_payload bs payload_off len =
     (if unat (payload_off + len + 4) > length bs then Inl Illegal_byte_sequence
      else if unat payload_off + unat len > length bs \<or> unat (payload_off + len) + 4 > length bs then Inl Undefined_access
      else
        let payload = take (unat len) (drop (unat payload_off) bs);
            stored_crc = read_be32 (drop (unat (payload_off + len)) bs)
        in if compute payload \<noteq> stored_crc then Inl Illegal_byte_sequence else Inr payload)"

definition read_section_payload :: "bytes \<Rightarrow> u64 \<Rightarrow> block_error + bytes" where
  "read_section_payload bs offset =
     (if unat (offset + 4) > length bs then Inl Illegal_byte_sequence
      else if unat offset + 4 > length bs then Inl Undefined_access
      else checked_payload bs (offset + 4) (ucast (read_be32 (drop (unat offset) bs))))"

definition read_uvarint_section_payload :: "bytes \<Rightarrow> u64 \<Rightarrow> block_error + bytes" where
  "read_uvarint_section_payload bs offset =
     (if unat offset \<ge> length bs then Inl Illegal_byte_sequence
      else case read_uvarint (drop (unat offset) bs) of
        Inl _ \<Rightarrow> Inl Illegal_byte_sequence
      | Inr (len, n) \<Rightarrow> checked_payload bs (offset + of_nat n) len)"

record IndexTOC =
  toc_symbols :: u64
  toc_series :: u64
  toc_label_indices :: u64
  toc_label_indices_table :: u64
  toc_postings :: u64
  toc_postings_table :: u64

definition parse_toc :: "bytes \<Rightarrow> block_error + IndexTOC" where
  "parse_toc bs =
     (if length bs < k_index_toc_size then Inl Illegal_byte_sequence
      else
        let toc_bytes = drop (length bs - k_index_toc_size) bs;
            stored_crc = read_be32 (drop 48 toc_bytes)
        in if compute (take 48 toc_bytes) \<noteq> stored_crc then Inl Illegal_byte_sequence
           else Inr \<lparr>toc_symbols = read_be64 toc_bytes, toc_series = read_be64 (drop 8 toc_bytes),
                     toc_label_indices = read_be64 (drop 16 toc_bytes),
                     toc_label_indices_table = read_be64 (drop 24 toc_bytes),
                     toc_postings = read_be64 (drop 32 toc_bytes),
                     toc_postings_table = read_be64 (drop 40 toc_bytes)\<rparr>)"

section \<open>Symbols\<close>

record IndexSymbolTable =
  st_file_bytes :: bytes
  st_version :: u8
  st_count :: u32
  st_payload_offset :: u64
  st_sparse_offsets :: "u64 list"

text \<open>The loop of \<open>parse\<close>: \<open>n\<close> symbols are left, \<open>seen\<close> were passed.\<close>

fun scan_symbols :: "bytes \<Rightarrow> u64 \<Rightarrow> nat \<Rightarrow> nat \<Rightarrow> u64 \<Rightarrow> u64 list \<Rightarrow> block_error + u64 list" where
  "scan_symbols bs limit 0 seen pos offsets = Inr offsets"
| "scan_symbols bs limit (Suc n) seen pos offsets =
     (let offsets' = (if seen mod k_symbol_sparse_stride = 0 then offsets @ [pos] else offsets) in
      if unat pos \<ge> length bs then Inl Illegal_byte_sequence
      else case read_uvarint (drop (unat pos) bs) of
        Inl _ \<Rightarrow> Inl Illegal_byte_sequence
      | Inr (len, k) \<Rightarrow>
          let pos' = pos + (of_nat k + len) in
          if pos' > limit then Inl Illegal_byte_sequence
          else scan_symbols bs limit n (Suc seen) pos' offsets')"

definition parse_symbol_table :: "bytes \<Rightarrow> u64 \<Rightarrow> u8 \<Rightarrow> block_error + IndexSymbolTable" where
  "parse_symbol_table bs section_offset version =
     (case read_section_payload bs section_offset of
        Inl e \<Rightarrow> Inl e
      | Inr payload \<Rightarrow>
          if length payload < 4 then Inl Illegal_byte_sequence
          else
            let count = read_be32 payload;
                payload_off = section_offset + 4;
                data_start = payload_off + 4
            in case scan_symbols bs (data_start + of_nat (length payload) - 4) (unat count) 0 data_start [] of
                 Inl e \<Rightarrow> Inl e
               | Inr offsets \<Rightarrow>
                   Inr \<lparr>st_file_bytes = bs, st_version = version, st_count = count,
                        st_payload_offset = payload_off, st_sparse_offsets = offsets\<rparr>)"

fun skip_symbols :: "bytes \<Rightarrow> nat \<Rightarrow> u64 \<Rightarrow> block_error + u64" where
  "skip_symbols bs 0 pos = Inr pos"
| "skip_symbols bs (Suc n) pos =
     (if unat pos > length bs then Inl Undefined_access
      else case read_uvarint (drop (unat pos) bs) of
        Inl _ \<Rightarrow> Inl Illegal_byte_sequence
      | Inr (len, k) \<Rightarrow> skip_symbols bs n (pos + (of_nat k + len)))"

definition read_symbol :: "bytes \<Rightarrow> u64 \<Rightarrow> block_error + string" where
  "read_symbol bs pos =
     (if unat pos > length bs then Inl Undefined_access
      else case read_uvarint (drop (unat pos) bs) of
        Inl _ \<Rightarrow> Inl Illegal_byte_sequence
      | Inr (str_len, k) \<Rightarrow>
          let str_start = pos + of_nat k in
          if unat (str_start + str_len) > length bs then Inl Illegal_byte_sequence
          else if unat str_start + unat str_len > length bs then Inl Undefined_access
          else Inr (bytes_string (take (unat str_len) (drop (unat str_start) bs))))"

definition st_lookup :: "IndexSymbolTable \<Rightarrow> u32 \<Rightarrow> block_error + string" where
  "st_lookup st ref =
     (if st_version st = k_index_format_v1 then
        if unat ref \<ge> length (st_file_bytes st) then Inl Illegal_byte_sequence
        else read_symbol (st_file_bytes st) (ucast ref)
      else if ref \<ge> st_count st then Inl Result_out_of_range
      else
        let bucket = unat ref div k_symbol_sparse_stride;
            within = unat ref mod k_symbol_sparse_stride
        in if bucket \<ge> length (st_sparse_offsets st) then Inl Illegal_byte_sequence
           else case skip_symbols (st_file_bytes st) within (st_sparse_offsets st ! bucket) of
             Inl e \<Rightarrow> Inl e
           | Inr pos \<Rightarrow> read_symbol (st_file_bytes st) pos)"

text \<open>The iteration trusts the lengths; a length beyond the file is read out of range.\<close>

fun collect_symbols :: "bytes \<Rightarrow> nat \<Rightarrow> u64 \<Rightarrow> string list \<Rightarrow> block_error + string list" where
  "collect_symbols bs 0 pos out = Inr out"
| "collect_symbols bs (Suc n) pos out =
     (if unat pos > length bs then Inl Undefined_access
      else case read_uvarint (drop (unat pos) bs) of
        Inl _ \<Rightarrow> Inr out
      | Inr (len, k) \<Rightarrow>
          if unat pos + k + unat len > length bs then Inl Undefined_access
          else collect_symbols bs n (pos + (of_nat k + len))
                 (out @ [bytes_string (take (unat len) (drop (unat pos + k) bs))]))"

definition all_symbols :: "IndexSymbolTable \<Rightarrow> block_error + string list" where
  "all_symbols st = collect_symbols (st_file_bytes st) (unat (st_count st)) (st_payload_offset st + 4) []"

section \<open>Series entries\<close>

record SeriesEntry =
  se_labels :: Labels
  se_chunks :: "ChunkMeta list"

text \<open>\<open>max_size()\<close> of a vector of chunk descriptors, 24 bytes each.\<close>

definition max_chunk_metas :: nat where
  "max_chunk_metas = (2 ^ 63 - 1) div 24"

definition read_uv :: "bytes \<Rightarrow> block_error + (u64 \<times> bytes)" where
  "read_uv rest =
     (case read_uvarint rest of Inl _ \<Rightarrow> Inl Illegal_byte_sequence | Inr (x, n) \<Rightarrow> Inr (x, drop n rest))"

definition read_v :: "bytes \<Rightarrow> block_error + (i64 \<times> bytes)" where
  "read_v rest =
     (case read_varint rest of Inl _ \<Rightarrow> Inl Illegal_byte_sequence | Inr (x, n) \<Rightarrow> Inr (x, drop n rest))"

definition lookup_label :: "IndexSymbolTable \<Rightarrow> u64 \<Rightarrow> u64 \<Rightarrow> block_error + Label" where
  "lookup_label symbols lno lvo =
     (let name = st_lookup symbols (ucast lno); val = st_lookup symbols (ucast lvo) in
      if name = Inl Undefined_access \<or> val = Inl Undefined_access then Inl Undefined_access
      else case (name, val) of
        (Inr n, Inr v) \<Rightarrow> Inr (Label n v)
      | _ \<Rightarrow> Inl Illegal_byte_sequence)"

fun decode_label_refs :: "IndexSymbolTable \<Rightarrow> nat \<Rightarrow> bytes \<Rightarrow> Label list \<Rightarrow> block_error + (Label list \<times> bytes)" where
  "decode_label_refs symbols 0 rest labels = Inr (labels, rest)"
| "decode_label_refs symbols (Suc k) rest labels =
     (case read_uv rest of
        Inl e \<Rightarrow> Inl e
      | Inr (lno, rest1) \<Rightarrow>
          (case read_uv rest1 of
             Inl e \<Rightarrow> Inl e
           | Inr (lvo, rest2) \<Rightarrow>
               (case lookup_label symbols lno lvo of
                  Inl e \<Rightarrow> Inl e
                | Inr l \<Rightarrow> decode_label_refs symbols k rest2 (labels @ [l]))))"

fun decode_chunk_metas :: "nat \<Rightarrow> i64 \<Rightarrow> i64 \<Rightarrow> bytes \<Rightarrow> ChunkMeta list \<Rightarrow> block_error + ChunkMeta list" where
  "decode_chunk_metas 0 t0 signed_ref rest out = Inr out"
| "decode_chunk_metas (Suc k) t0 signed_ref rest out =
     (case read_uv rest of
        Inl e \<Rightarrow> Inl e
      | Inr (mint_delta, rest1) \<Rightarrow>
          let mint = mint_delta + t0 in
          case read_uv rest1 of
            Inl e \<Rightarrow> Inl e
          | Inr (maxt_d, rest2) \<Rightarrow>
              let this_maxt = maxt_d + mint in
              (case read_v rest2 of
                 Inl e \<Rightarrow> Inl e
               | Inr (ref_delta, rest3) \<Rightarrow>
                   let ref = signed_ref + ref_delta
                   in decode_chunk_metas k this_maxt ref rest3
                        (out @ [\<lparr>cm_ref = ref, cm_min_time = mint, cm_max_time = this_maxt\<rparr>])))"

definition decode_chunks :: "bytes \<Rightarrow> block_error + ChunkMeta list" where
  "decode_chunks rest =
     (case read_uv rest of
        Inl e \<Rightarrow> Inl e
      | Inr (k, rest1) \<Rightarrow>
          if k = 0 then Inr []
          else if unat k > max_chunk_metas then Inl Throws
          else case read_v rest1 of
            Inl e \<Rightarrow> Inl e
          | Inr (t0, rest2) \<Rightarrow>
              (case read_uv rest2 of
                 Inl e \<Rightarrow> Inl e
               | Inr (maxt_delta, rest3) \<Rightarrow>
                   let maxt = maxt_delta + t0 in
                   case read_uv rest3 of
                     Inl e \<Rightarrow> Inl e
                   | Inr (ref0, rest4) \<Rightarrow>
                       decode_chunk_metas (unat k - 1) maxt ref0 rest4
                         [\<lparr>cm_ref = ref0, cm_min_time = t0, cm_max_time = maxt\<rparr>]))"

definition decode_series_payload :: "bytes \<Rightarrow> IndexSymbolTable \<Rightarrow> block_error + SeriesEntry" where
  "decode_series_payload payload symbols =
     (case read_uv payload of
        Inl e \<Rightarrow> Inl e
      | Inr (k, rest) \<Rightarrow>
          if unat k > max_labels then Inl Throws
          else case decode_label_refs symbols (unat k) rest [] of
            Inl e \<Rightarrow> Inl e
          | Inr (labels, rest1) \<Rightarrow>
              (case decode_chunks rest1 of
                 Inl e \<Rightarrow> Inl e
               | Inr chunks \<Rightarrow> Inr \<lparr>se_labels = mk_labels labels, se_chunks = chunks\<rparr>))"

section \<open>Postings\<close>

record PostingsOffsetEntry =
  po_name :: string
  po_value :: string
  po_offset :: u64

record PostingsOffsetTable =
  pt_entries :: "PostingsOffsetEntry list"
  pt_by_pair :: "string \<rightharpoonup> u64"

text \<open>A length that wraps past the check makes the string constructor throw.\<close>

definition parse_str :: "bytes \<Rightarrow> nat \<Rightarrow> block_error + (string \<times> nat)" where
  "parse_str payload pos =
     (case read_uvarint (drop pos payload) of
        Inl _ \<Rightarrow> Inl Illegal_byte_sequence
      | Inr (len, n) \<Rightarrow>
          let pos1 = pos + n in
          if unat (of_nat pos1 + len) > length payload then Inl Illegal_byte_sequence
          else if pos1 + unat len > length payload then Inl Throws
          else Inr (bytes_string (take (unat len) (drop pos1 payload)), pos1 + unat len))"

definition parse_entry :: "bytes \<Rightarrow> nat \<Rightarrow> block_error + (PostingsOffsetEntry \<times> nat)" where
  "parse_entry payload pos =
     (case read_uvarint (drop pos payload) of
        Inl _ \<Rightarrow> Inl Illegal_byte_sequence
      | Inr (keycount, n) \<Rightarrow>
          if keycount \<noteq> 2 then Inl Illegal_byte_sequence
          else case parse_str payload (pos + n) of
            Inl e \<Rightarrow> Inl e
          | Inr (name, pos1) \<Rightarrow>
              (case parse_str payload pos1 of
                 Inl e \<Rightarrow> Inl e
               | Inr (val, pos2) \<Rightarrow>
                   (case read_uvarint (drop pos2 payload) of
                      Inl _ \<Rightarrow> Inl Illegal_byte_sequence
                    | Inr (off, m) \<Rightarrow> Inr (\<lparr>po_name = name, po_value = val, po_offset = off\<rparr>, pos2 + m))))"

fun parse_entries :: "bytes \<Rightarrow> nat \<Rightarrow> nat \<Rightarrow> PostingsOffsetEntry list \<Rightarrow> block_error + PostingsOffsetEntry list" where
  "parse_entries payload 0 pos es = (if pos \<noteq> length payload then Inl Illegal_byte_sequence else Inr es)"
| "parse_entries payload (Suc n) pos es =
     (case parse_entry payload pos of
        Inl e \<Rightarrow> Inl e
      | Inr (x, pos') \<Rightarrow> parse_entries payload n pos' (es @ [x]))"

definition pair_key :: "string \<Rightarrow> string \<Rightarrow> string" where
  "pair_key name val = name @ [char_of (0 :: nat)] @ val"

text \<open>\<open>emplace\<close> keeps the first entry of a key.\<close>

definition PostingsOffsetTable_init :: "PostingsOffsetEntry list \<Rightarrow> PostingsOffsetTable" where
  "PostingsOffsetTable_init es =
     \<lparr>pt_entries = es,
      pt_by_pair = fold (\<lambda>e m. let key = pair_key (po_name e) (po_value e)
                               in if m key = None then m(key \<mapsto> po_offset e) else m) es Map.empty\<rparr>"

definition parse_postings_table :: "bytes \<Rightarrow> u64 \<Rightarrow> block_error + PostingsOffsetTable" where
  "parse_postings_table bs section_offset =
     (case read_section_payload bs section_offset of
        Inl e \<Rightarrow> Inl e
      | Inr payload \<Rightarrow>
          if length payload < 4 then Inl Illegal_byte_sequence
          else case parse_entries payload (unat (read_be32 payload)) 4 [] of
            Inl e \<Rightarrow> Inl e
          | Inr es \<Rightarrow> Inr (PostingsOffsetTable_init es))"

definition pt_lookup :: "PostingsOffsetTable \<Rightarrow> string \<Rightarrow> string \<Rightarrow> u64 option" where
  "pt_lookup t name val = pt_by_pair t (pair_key name val)"

definition read_posting_list :: "bytes \<Rightarrow> u64 \<Rightarrow> block_error + u32 list" where
  "read_posting_list bs offset =
     (case read_section_payload bs offset of
        Inl e \<Rightarrow> Inl e
      | Inr payload \<Rightarrow>
          if length payload < 4 then Inl Illegal_byte_sequence
          else
            let count = unat (read_be32 payload) in
            if length payload < 4 + 4 * count then Inl Illegal_byte_sequence
            else Inr (map (\<lambda>i. read_be32 (drop (4 + 4 * i) payload)) [0..<count]))"

section \<open>The reader\<close>

record IndexReader =
  ir_data :: bytes
  ir_version :: u8
  ir_toc :: IndexTOC
  ir_symbols :: IndexSymbolTable
  ir_postings_table :: PostingsOffsetTable

definition parse_index :: "bytes \<Rightarrow> block_error + IndexReader" where
  "parse_index bs =
     (if length bs < k_index_header_size + k_index_toc_size then Inl Illegal_byte_sequence
      else if read_be32 bs \<noteq> k_magic_index then Inl Illegal_byte_sequence
      else
        let version = bs ! 4 in
        if version \<noteq> k_index_format_v1 \<and> version \<noteq> k_index_format_v2 \<and> version \<noteq> k_index_format_v3
        then Inl Not_supported
        else case parse_toc bs of
          Inl e \<Rightarrow> Inl e
        | Inr toc \<Rightarrow>
            (case parse_symbol_table bs (toc_symbols toc) version of
               Inl e \<Rightarrow> Inl e
             | Inr symbols \<Rightarrow>
                 (case parse_postings_table bs (toc_postings_table toc) of
                    Inl e \<Rightarrow> Inl e
                  | Inr pot \<Rightarrow> Inr \<lparr>ir_data = bs, ir_version = version, ir_toc = toc, ir_symbols = symbols,
                                   ir_postings_table = pot\<rparr>)))"

definition IndexReader_open :: "string \<Rightarrow> Disk \<Rightarrow> (block_error + IndexReader) \<times> Disk" where
  "IndexReader_open file d =
     (case sys_simple d of
        (Inl _, d1) \<Rightarrow> (Inl No_such_file, d1)
      | (Inr _, d1) \<Rightarrow>
          (case map_of (dk_files d1) file of
             None \<Rightarrow> (Inl No_such_file, d1)
           | Some bs \<Rightarrow>
               (case syscall d1 of
                  (Done, d2) \<Rightarrow> (parse_index bs, d2)
                | (_, d2) \<Rightarrow> (Inl (Errc Io_error), d2))))"

definition postings :: "IndexReader \<Rightarrow> string \<Rightarrow> string \<Rightarrow> block_error + u32 list" where
  "postings r name val =
     (case pt_lookup (ir_postings_table r) name val of
        None \<Rightarrow> Inr []
      | Some off \<Rightarrow> read_posting_list (ir_data r) off)"

text \<open>Sorting and \<open>std::unique\<close>.\<close>

definition sort_unique :: "'a::linorder list \<Rightarrow> 'a list" where
  "sort_unique xs = remdups_adj (sort xs)"

fun union_postings :: "bytes \<Rightarrow> PostingsOffsetEntry list \<Rightarrow> u32 list \<Rightarrow> block_error + u32 list" where
  "union_postings bs [] out = Inr (sort_unique out)"
| "union_postings bs (e # es) out =
     (case read_posting_list bs (po_offset e) of
        Inl err \<Rightarrow> Inl err
      | Inr ids \<Rightarrow> union_postings bs es (out @ ids))"

definition postings_for_name :: "IndexReader \<Rightarrow> string \<Rightarrow> block_error + u32 list" where
  "postings_for_name r name =
     union_postings (ir_data r) (filter (\<lambda>e. po_name e = name) (pt_entries (ir_postings_table r))) []"

definition all_postings :: "IndexReader \<Rightarrow> block_error + u32 list" where
  "all_postings r = union_postings (ir_data r) (pt_entries (ir_postings_table r)) []"

definition label_values :: "IndexReader \<Rightarrow> string \<Rightarrow> string list" where
  "label_values r name =
     sort_unique (map po_value (filter (\<lambda>e. po_name e = name) (pt_entries (ir_postings_table r))))"

definition ir_series :: "IndexReader \<Rightarrow> u64 \<Rightarrow> block_error + SeriesEntry" where
  "ir_series r sid =
     (let offset = (if ir_version r = k_index_format_v1 then sid else sid * 16) in
      case read_uvarint_section_payload (ir_data r) offset of
        Inl e \<Rightarrow> Inl e
      | Inr payload \<Rightarrow> decode_series_payload payload (ir_symbols r))"

section \<open>Reading what stands in the file\<close>

lemma unat_of_nat_le: "n \<le> m \<Longrightarrow> m < 2 ^ 32 \<Longrightarrow> unat (of_nat n :: u64) = n"
  by (simp add: unat_of_nat)

lemma checked_payload_ok:
  assumes at: "holds_at bs off (p @ be32 (compute p))" and size: "length bs < 2 ^ 32"
  shows "checked_payload bs (of_nat off) (of_nat (length p)) = Inr p"
proof -
  have total: "off + length p + 4 \<le> length bs" using holds_at_length [OF at] by simp
  have u: "unat (of_nat k :: u64) = k" if "k \<le> off + length p + 4" for k
    using that total size by (intro unat_of_nat_le [of _ "length bs"]) simp_all
  have sum: "(of_nat off :: u64) + of_nat (length p) = of_nat (off + length p)"
    "(of_nat (off + length p) :: u64) + 4 = of_nat (off + length p + 4)" by simp_all
  have "take (length p) (drop off bs) = p"
    using at unfolding holds_at_split by (intro holds_at_take) simp
  moreover obtain post where "drop (off + length p) bs = be32 (compute p) @ post"
    using at unfolding holds_at_split using holds_at_drop by blast
  ultimately show ?thesis
    using total by (simp add: checked_payload_def sum u del: of_nat_add)
qed

lemma read_section_ok:
  assumes at: "holds_at bs off (frame p)" and size: "length bs < 2 ^ 32"
  shows "read_section_payload bs (of_nat off) = Inr p"
proof -
  have total: "off + 4 + length p \<le> length bs" using holds_at_length [OF at] by (simp add: frame_def)
  have u: "unat (of_nat k :: u64) = k" if "k \<le> off + 4" for k
    using that total size by (intro unat_of_nat_le [of _ "length bs"]) simp_all
  have sum: "(of_nat off :: u64) + 4 = of_nat (off + 4)" by simp
  obtain post where "drop off bs = be32 (of_nat (length p)) @ post"
    using at unfolding frame_def holds_at_split using holds_at_drop by blast
  then have len: "ucast (read_be32 (drop off bs)) = (of_nat (length p) :: u64)"
    using total size by (simp add: word_unat_eq_iff unat_ucast unat_of_nat)
  have rest: "checked_payload bs (of_nat (off + 4)) (of_nat (length p)) = Inr p"
    using at size by (intro checked_payload_ok) (simp_all add: frame_def holds_at_split)
  show ?thesis
    unfolding read_section_payload_def sum u [OF order_refl] u [of off, simplified]
    using total rest len by simp
qed

lemma read_uvarint_section_ok:
  assumes at: "holds_at bs off (series_frame p)" and size: "length bs < 2 ^ 32"
  shows "read_uvarint_section_payload bs (of_nat off) = Inr p"
proof -
  let ?n = "length (put_uvarint (of_nat (length p)))"
  have total: "off + ?n + length p + 4 \<le> length bs" using holds_at_length [OF at] by (simp add: series_frame_def)
  have "unat (of_nat off :: u64) = off" using total size by (intro unat_of_nat_le [of _ "length bs"]) simp_all
  moreover obtain post where "drop off bs = put_uvarint (of_nat (length p)) @ post"
    using at unfolding series_frame_def holds_at_split using holds_at_drop by blast
  moreover have "checked_payload bs (of_nat (off + ?n)) (of_nat (length p)) = Inr p"
    using at size by (intro checked_payload_ok) (simp_all add: series_frame_def holds_at_split add.assoc)
  ultimately show ?thesis
    using total by (simp add: read_uvarint_section_payload_def)
qed

text \<open>A posting list is read back as it was written.\<close>

lemma read_be32_concat:
  "i < length ids \<Longrightarrow> read_be32 (drop (4 * i) (concat (map be32 ids))) = ids ! i"
proof (induction ids arbitrary: i)
  case (Cons x ids)
  then show ?case by (cases i) simp_all
qed simp

lemma length_concat_be32 [simp]: "length (concat (map be32 ids)) = 4 * length ids"
  by (induction ids) simp_all

lemma read_posting_list_ok:
  assumes at: "holds_at bs off (frame (posting_payload ids))" and size: "length bs < 2 ^ 32"
  shows "read_posting_list bs (of_nat off) = Inr ids"
proof -
  have "4 * length ids < 2 ^ 32"
    using holds_at_length [OF at] size by (simp add: frame_def posting_payload_def)
  then have n: "unat (read_be32 (posting_payload ids)) = length ids"
    by (simp add: posting_payload_def unat_of_nat)
  have "map (\<lambda>i. read_be32 (drop (4 + 4 * i) (posting_payload ids))) [0..<length ids] = ids"
    by (rule nth_equalityI) (simp_all add: posting_payload_def read_be32_concat)
  then show ?thesis
    using read_section_ok [OF at size] n
    by (simp add: read_posting_list_def posting_payload_def)
qed

section \<open>The symbol table\<close>

text \<open>Where the \<open>i\<close>th symbol starts, if the symbols stand at \<open>off\<close>.\<close>

definition sym_pos :: "nat \<Rightarrow> string list \<Rightarrow> nat \<Rightarrow> nat" where
  "sym_pos off syms i = off + length (symbols_bytes (take i syms))"

lemma sym_pos_step:
  assumes at: "holds_at bs off (symbols_bytes syms)" and i: "i < length syms" and size: "length bs < 2 ^ 32"
  defines "len \<equiv> length (syms ! i)" and "pos \<equiv> sym_pos off syms i"
  shows "\<exists>k. read_uvarint (drop pos bs) = Inr (of_nat len, k) \<and> 0 < k \<and>
    sym_pos off syms (Suc i) = pos + (k + len) \<and> pos + k + len \<le> length bs \<and>
    take len (drop (pos + k) bs) = string_bytes (syms ! i) \<and> pos < 2 ^ 32"
proof -
  let ?s = "syms ! i" and ?k = "length (put_uvarint (of_nat (length (syms ! i))))"
  have "syms = take i syms @ ?s # drop (Suc i) syms" using i by (rule id_take_nth_drop)
  then have "holds_at bs off (symbols_bytes (take i syms) @ str_bytes ?s @ symbols_bytes (drop (Suc i) syms))"
    using at by (metis concat.simps(2) concat_append list.simps(9) map_append)
  then have here: "holds_at bs pos (str_bytes ?s)"
    by (simp add: holds_at_split pos_def sym_pos_def)
  then have parts: "holds_at bs pos (put_uvarint (of_nat len))" "holds_at bs (pos + ?k) (string_bytes ?s)"
    by (simp_all add: str_bytes_def holds_at_split len_def)
  obtain post where "drop pos bs = put_uvarint (of_nat len) @ post" using holds_at_drop [OF parts(1)] by blast
  moreover have "pos + ?k + len \<le> length bs" using holds_at_length [OF parts(2)] by (simp add: len_def)
  moreover have "take len (drop (pos + ?k) bs) = string_bytes ?s" using holds_at_take [OF parts(2)] by (simp add: len_def)
  moreover have "sym_pos off syms (Suc i) = pos + (?k + len)"
    using i by (simp add: pos_def sym_pos_def take_Suc_conv_app_nth str_bytes_def len_def)
  ultimately show ?thesis
    using size by (intro exI [of _ ?k]) (simp add: len_def)
qed

lemma unat_pos: "p < 2 ^ 32 \<Longrightarrow> unat (of_nat p :: u64) = p"
  by (simp add: unat_of_nat)

lemma pos_sum: "(of_nat p :: u64) + (of_nat k + of_nat l) = of_nat (p + (k + l))"
  by simp

lemma sym_pos_le: "sym_pos off syms i \<le> sym_pos off syms (length syms)"
proof -
  have "symbols_bytes syms = symbols_bytes (take i syms) @ symbols_bytes (drop i syms)"
    by (simp flip: concat_append map_append)
  then show ?thesis by (simp add: sym_pos_def)
qed

lemma skip_symbols_ok:
  assumes at: "holds_at bs off (symbols_bytes syms)" and size: "length bs < 2 ^ 32"
  shows "i + n \<le> length syms \<Longrightarrow> skip_symbols bs n (of_nat (sym_pos off syms i)) = Inr (of_nat (sym_pos off syms (i + n)))"
proof (induction n arbitrary: i)
  case (Suc n)
  then obtain k where k: "read_uvarint (drop (sym_pos off syms i) bs) = Inr (of_nat (length (syms ! i)), k)"
      "sym_pos off syms (Suc i) = sym_pos off syms i + (k + length (syms ! i))"
      "sym_pos off syms i + k + length (syms ! i) \<le> length bs" "sym_pos off syms i < 2 ^ 32"
    using sym_pos_step [OF at _ size, of i] by fastforce
  show ?case
    using Suc.IH [of "Suc i"] Suc.prems k by (simp add: unat_pos pos_sum del: of_nat_add)
qed simp

lemma read_symbol_ok:
  assumes at: "holds_at bs off (symbols_bytes syms)" and size: "length bs < 2 ^ 32" and i: "i < length syms"
  shows "read_symbol bs (of_nat (sym_pos off syms i)) = Inr (syms ! i)"
proof -
  obtain k where k: "read_uvarint (drop (sym_pos off syms i) bs) = Inr (of_nat (length (syms ! i)), k)"
      "sym_pos off syms i + k + length (syms ! i) \<le> length bs"
      "take (length (syms ! i)) (drop (sym_pos off syms i + k) bs) = string_bytes (syms ! i)" "sym_pos off syms i < 2 ^ 32"
    using sym_pos_step [OF at i size] by blast
  have u: "unat (of_nat n :: u64) = n" if "n \<le> sym_pos off syms i + k + length (syms ! i)" for n
    using that k(2) size by (intro unat_pos) simp
  have sum: "(of_nat (sym_pos off syms i) :: u64) + of_nat k = of_nat (sym_pos off syms i + k)"
    "(of_nat (sym_pos off syms i + k) :: u64) + of_nat (length (syms ! i)) = of_nat (sym_pos off syms i + k + length (syms ! i))"
    by simp_all
  show ?thesis
    using k by (simp add: read_symbol_def Let_def sum u del: of_nat_add)
qed

lemma collect_symbols_ok:
  assumes at: "holds_at bs off (symbols_bytes syms)" and size: "length bs < 2 ^ 32"
  shows "i + n \<le> length syms \<Longrightarrow>
   collect_symbols bs n (of_nat (sym_pos off syms i)) out = Inr (out @ take n (drop i syms))"
proof (induction n arbitrary: i out)
  case (Suc n)
  then have i: "i < length syms" by simp
  obtain k where k: "read_uvarint (drop (sym_pos off syms i) bs) = Inr (of_nat (length (syms ! i)), k)"
      "sym_pos off syms (Suc i) = sym_pos off syms i + (k + length (syms ! i))"
      "sym_pos off syms i + k + length (syms ! i) \<le> length bs"
      "take (length (syms ! i)) (drop (sym_pos off syms i + k) bs) = string_bytes (syms ! i)" "sym_pos off syms i < 2 ^ 32"
    using sym_pos_step [OF at i size] by blast
  have "unat (of_nat (length (syms ! i)) :: u64) = length (syms ! i)" using k(3) size by (intro unat_pos) simp
  moreover have "take (Suc n) (drop i syms) = syms ! i # take n (drop (Suc i) syms)"
    using i by (simp add: Cons_nth_drop_Suc [symmetric])
  ultimately show ?case
    using Suc.IH [of "Suc i"] Suc.prems k by (simp add: unat_pos pos_sum del: of_nat_add)
qed simp

lemma scan_symbols_ok:
  assumes at: "holds_at bs off (symbols_bytes syms)" and size: "length bs < 2 ^ 32"
  shows "seen + n = length syms \<Longrightarrow>
   scan_symbols bs (of_nat (sym_pos off syms (length syms))) n seen (of_nat (sym_pos off syms seen)) offsets
     = Inr (offsets @ map (of_nat \<circ> sym_pos off syms) (filter (\<lambda>i. i mod k_symbol_sparse_stride = 0) [seen..<length syms]))"
proof (induction n arbitrary: seen offsets)
  case (Suc n)
  then have i: "seen < length syms" by simp
  obtain k where k: "read_uvarint (drop (sym_pos off syms seen) bs) = Inr (of_nat (length (syms ! seen)), k)" "0 < k"
      "sym_pos off syms (Suc seen) = sym_pos off syms seen + (k + length (syms ! seen))"
      "sym_pos off syms seen + k + length (syms ! seen) \<le> length bs" "sym_pos off syms seen < 2 ^ 32"
    using sym_pos_step [OF at i size] by blast
  have "sym_pos off syms (length syms) < 2 ^ 32"
    using holds_at_length [OF at] size by (simp add: sym_pos_def)
  then have "\<not> (of_nat (sym_pos off syms (Suc seen)) :: u64) > of_nat (sym_pos off syms (length syms))"
    using sym_pos_le [of off syms "Suc seen"] by (simp add: word_less_nat_alt unat_pos)
  then show ?case
    using Suc.IH [of "Suc seen"] Suc.prems k i
    by (simp add: unat_pos pos_sum upt_conv_Cons [of seen "length syms"] Let_def del: of_nat_add upt_Suc)
qed simp

lemma sparse_positions: "filter (\<lambda>i. i mod k_symbol_sparse_stride = 0) [0..<n] = map ((*) 32) [0..<(n + 31) div 32]"
proof (induction n)
  case (Suc n)
  show ?case
  proof (cases "n mod 32 = 0")
    case True
    then obtain q where "n = 32 * q" by auto
    then have "(Suc n + 31) div 32 = Suc ((n + 31) div 32)" "32 * ((n + 31) div 32) = n" by simp_all
    then show ?thesis using Suc True by (simp add: k_symbol_sparse_stride_def)
  next
    case False
    then obtain r where r: "n mod 32 = Suc r" by (cases "n mod 32") auto
    define q where "q = n div 32"
    have "n = 32 * q + Suc r" "r < 31"
      using r mult_div_mod_eq [of 32 n] mod_less_divisor [of 32 n] unfolding q_def by linarith+
    then have n: "Suc n + 31 = 32 * Suc q + Suc r" "n + 31 = 32 * Suc q + r" "r < 31" by simp_all
    have "(Suc n + 31) div 32 = (n + 31) div 32" unfolding n(1,2) using n(3) by (simp only: div_mult_self4)
    then show ?thesis using Suc False by (simp add: k_symbol_sparse_stride_def)
  qed
qed simp

lemma put_uvarint_size: "0 < length (put_uvarint x)"
  by simp

lemma symbols_bytes_size: "length syms \<le> length (symbols_bytes syms)"
proof (induction syms)
  case (Cons s syms)
  then show ?case using put_uvarint_size [of "of_nat (length s)"] by (simp add: str_bytes_def del: length_greater_0_conv)
qed simp

lemma parse_symbol_table_ok:
  assumes at: "holds_at bs 5 (frame (symbols_payload syms))" and size: "length bs < 2 ^ 32" and v: "v \<noteq> k_index_format_v1"
  obtains st where "parse_symbol_table bs 5 v = Inr st" "unat (st_count st) = length syms"
    "\<And>i. unat i < length syms \<Longrightarrow> st_lookup st i = Inr (syms ! unat i)" "all_symbols st = Inr syms"
proof -
  have syms: "holds_at bs 13 (symbols_bytes syms)"
    using at by (simp add: frame_def symbols_payload_def holds_at_split)
  have n: "length syms < 2 ^ 32" using symbols_bytes_size [of syms] holds_at_length [OF syms] size by simp
  have p: "read_section_payload bs 5 = Inr (symbols_payload syms)"
    using read_section_ok [OF at size] by simp
  have sum: "5 + 4 + 4 + of_nat (length (symbols_payload syms)) - 4 = (of_nat (sym_pos 13 syms (length syms)) :: u64)"
    by (simp add: symbols_payload_def sym_pos_def)
  let ?offs = "map (of_nat \<circ> sym_pos 13 syms) (map ((*) 32) [0..<(length syms + 31) div 32]) :: u64 list"
  have scan: "scan_symbols bs (of_nat (sym_pos 13 syms (length syms))) (length syms) 0 13 [] = Inr ?offs"
    using scan_symbols_ok [OF syms size, of 0 "length syms" "[]"] by (simp add: sym_pos_def [of _ _ 0] sparse_positions)
  have cnt: "unat (read_be32 (symbols_payload syms)) = length syms"
    using n by (simp add: symbols_payload_def unat_of_nat)
  define st where "st = \<lparr>st_file_bytes = bs, st_version = v, st_count = read_be32 (symbols_payload syms),
     st_payload_offset = 9, st_sparse_offsets = ?offs\<rparr>"
  have "parse_symbol_table bs 5 v = Inr st"
    using p scan sum cnt by (simp add: parse_symbol_table_def Let_def st_def symbols_payload_def)
  moreover have "st_lookup st i = Inr (syms ! unat i)" if i: "unat i < length syms" for i
  proof -
    have b: "unat i div 32 < (length syms + 31) div 32" using i by linarith
    have "skip_symbols bs (unat i mod 32) (of_nat (sym_pos 13 syms (32 * (unat i div 32)))) = Inr (of_nat (sym_pos 13 syms (unat i)))"
      using skip_symbols_ok [OF syms size, of "32 * (unat i div 32)" "unat i mod 32"] i by simp
    then show ?thesis
      using i b v cnt read_symbol_ok [OF syms size i]
      by (simp add: st_lookup_def st_def Let_def k_symbol_sparse_stride_def word_le_nat_alt)
  qed
  moreover have "all_symbols st = Inr syms"
    using collect_symbols_ok [OF syms size, of 0 "length syms" "[]"] cnt by (simp add: all_symbols_def st_def sym_pos_def)
  ultimately show thesis using that [of st] cnt by (simp add: st_def)
qed

section \<open>Series and postings\<close>

lemma read_uv_put [simp]: "read_uv (put_uvarint x @ rest) = Inr (x, rest)"
  by (simp add: read_uv_def)

lemma read_v_put [simp]: "read_v (put_varint x @ rest) = Inr (x, rest)"
  by (simp add: read_v_def)

lemmas read_uv_put_Nil [simp] = read_uv_put [where rest = "[]", simplified]

lemma ucast_ucast_id [simp]: "ucast (ucast (x :: u32) :: u64) = x"
  using unat_bound [of x] by (simp add: word_unat_eq_iff unat_ucast)

abbreviation label_of :: "string list \<Rightarrow> u32 \<times> u32 \<Rightarrow> Label" where
  "label_of syms r \<equiv> Label (syms ! unat (fst r)) (syms ! unat (snd r))"

abbreviation refs_ok :: "string list \<Rightarrow> (u32 \<times> u32) list \<Rightarrow> bool" where
  "refs_ok syms refs \<equiv> \<forall>r \<in> set refs. unat (fst r) < length syms \<and> unat (snd r) < length syms"

lemma decode_label_refs_ok:
  assumes "\<And>i. unat i < length syms \<Longrightarrow> st_lookup st i = Inr (syms ! unat i)"
  shows "refs_ok syms refs \<Longrightarrow>
    decode_label_refs st (length refs) (encode_label_refs refs @ rest) acc = Inr (acc @ map (label_of syms) refs, rest)"
proof (induction refs arbitrary: acc)
  case (Cons r refs)
  then show ?case by (cases r) (simp add: assms lookup_label_def)
qed simp

lemma decode_chunk_metas_ok:
  "decode_chunk_metas (length cs) t0 ref0 (encode_chunk_metas cs t0 ref0) out = Inr (out @ cs)"
  by (induction cs arbitrary: t0 ref0 out) (simp_all add: Let_def)

lemma length_encode_label_refs: "length refs \<le> length (encode_label_refs refs)"
proof (induction refs)
  case (Cons r refs)
  then show ?case using put_uvarint_size [of "ucast (fst r)"] by (cases r) (simp del: length_greater_0_conv)
qed simp

lemma length_encode_chunk_metas: "length cs \<le> length (encode_chunk_metas cs t0 ref0)"
proof (induction cs arbitrary: t0 ref0)
  case (Cons c cs)
  show ?case
    using put_uvarint_size [of "cm_min_time c - t0"] Cons [of "cm_max_time c" "cm_ref c"] by (simp del: length_greater_0_conv)
qed simp

lemma decode_chunks_ok:
  assumes "length cs < 2 ^ 32"
  shows "decode_chunks (drop (length (put_uvarint (of_nat (length refs)) @ encode_label_refs refs)) (series_payload refs cs)) = Inr cs"
proof -
  have n: "unat (of_nat (length cs) :: u64) = length cs" using assms by (intro unat_pos)
  show ?thesis
  proof (cases cs)
    case (Cons c rest)
    have c: "\<lparr>cm_ref = cm_ref c, cm_min_time = cm_min_time c, cm_max_time = cm_max_time c\<rparr> = c" by simp
    from Cons have "(of_nat (length cs) :: u64) \<noteq> 0" using n by (metis length_0_conv list.distinct(1) unat_0)
    then show ?thesis
      using Cons n assms decode_chunk_metas_ok [of rest "cm_max_time c" "cm_ref c" "[c]"]
      by (simp add: series_payload_def decode_chunks_def Let_def max_chunk_metas_def c del: of_nat_Suc)
  qed (simp add: series_payload_def decode_chunks_def)
qed

lemma series_entry_ok:
  assumes look: "\<And>i. unat i < length syms \<Longrightarrow> st_lookup st i = Inr (syms ! unat i)"
    and refs: "refs_ok syms refs" and size: "length (series_payload refs cs) < 2 ^ 32"
  shows "decode_series_payload (series_payload refs cs) st
     = Inr \<lparr>se_labels = mk_labels (map (label_of syms) refs), se_chunks = cs\<rparr>"
proof -
  have "length refs \<le> length (series_payload refs cs)"
    using length_encode_label_refs [of refs] by (simp add: series_payload_def)
  moreover have "length cs \<le> length (series_payload refs cs)"
  proof (cases cs)
    case (Cons c rest)
    then show ?thesis
      using put_uvarint_size [of "cm_ref c"] length_encode_chunk_metas [of rest "cm_max_time c" "cm_ref c"]
      by (simp add: series_payload_def del: length_greater_0_conv)
  qed simp
  ultimately have n: "unat (of_nat (length refs) :: u64) = length refs" "length refs \<le> max_labels" "length cs < 2 ^ 32"
    using size by (simp_all add: unat_pos max_labels_def)
  obtain tl where tl: "series_payload refs cs = put_uvarint (of_nat (length refs)) @ encode_label_refs refs @ tl"
    by (simp add: series_payload_def)
  have "decode_chunks tl = Inr cs"
    using decode_chunks_ok [OF n(3), of refs] by (simp add: tl)
  then show ?thesis
    using n decode_label_refs_ok [OF look refs, of tl "[]"] by (simp add: decode_series_payload_def tl)
qed

text \<open>The postings offset table.\<close>

abbreviation entry_of :: "PendingEntry \<Rightarrow> PostingsOffsetEntry" where
  "entry_of e \<equiv> \<lparr>po_name = pe_name e, po_value = pe_value e, po_offset = pe_offset e\<rparr>"

lemma parse_str_ok:
  assumes "length (pre @ str_bytes s @ post) < 2 ^ 32"
  shows "parse_str (pre @ str_bytes s @ post) (length pre) = Inr (s, length (pre @ str_bytes s))"
proof -
  let ?n = "length (put_uvarint (of_nat (length s)))"
  have u: "unat (of_nat k :: u64) = k" if "k \<le> length pre + ?n + length s" for k
    using that assms by (intro unat_pos) (simp add: str_bytes_def)
  have sum: "(of_nat (length pre + ?n) :: u64) + of_nat (length s) = of_nat (length pre + ?n + length s)" by simp
  show ?thesis
    unfolding parse_str_def by (simp add: str_bytes_def Let_def sum u del: of_nat_add)
qed

lemma parse_entry_ok:
  assumes "length (pre @ entry_bytes e @ post) < 2 ^ 32"
  shows "parse_entry (pre @ entry_bytes e @ post) (length pre) = Inr (entry_of e, length (pre @ entry_bytes e))"
  using assms parse_str_ok [of "pre @ put_uvarint 2" "pe_name e" "str_bytes (pe_value e) @ put_uvarint (pe_offset e) @ post"]
    parse_str_ok [of "pre @ put_uvarint 2 @ str_bytes (pe_name e)" "pe_value e" "put_uvarint (pe_offset e) @ post"]
  by (simp add: parse_entry_def entry_bytes_def)

lemma parse_entries_ok:
  "length (pre @ concat (map entry_bytes es)) < 2 ^ 32 \<Longrightarrow>
   parse_entries (pre @ concat (map entry_bytes es)) (length es) (length pre) out = Inr (out @ map entry_of es)"
proof (induction es arbitrary: pre out)
  case (Cons e es)
  then show ?case
    using parse_entry_ok [of pre e "concat (map entry_bytes es)"] Cons.IH [of "pre @ entry_bytes e" "out @ [entry_of e]"] by simp
qed simp

lemma entry_bytes_size: "length es \<le> length (concat (map entry_bytes es))"
proof (induction es)
  case (Cons e es)
  then show ?case using put_uvarint_size [of 2] by (simp add: entry_bytes_def del: length_greater_0_conv)
qed simp

lemma parse_postings_table_ok:
  assumes at: "holds_at bs off (frame (table_payload es))" and size: "length bs < 2 ^ 32"
  shows "parse_postings_table bs (of_nat off) = Inr (PostingsOffsetTable_init (map entry_of es))"
proof -
  have small: "length (table_payload es) < 2 ^ 32"
    using holds_at_length [OF at] size by (simp add: frame_def)
  then have n: "unat (read_be32 (table_payload es)) = length es"
    using entry_bytes_size [of es] by (simp add: table_payload_def unat_of_nat)
  have "parse_entries (table_payload es) (length es) 4 [] = Inr (map entry_of es)"
    using parse_entries_ok [of "be32 (of_nat (length es))" es "[]"] small by (simp add: table_payload_def)
  then show ?thesis
    using read_section_ok [OF at size] n
    by (simp add: parse_postings_table_def) (simp add: table_payload_def)
qed

lemma parse_toc_ok:
  assumes "bs = pre @ toc_body w @ be32 (compute (toc_body w))"
  shows "\<exists>toc. parse_toc bs = Inr toc \<and> toc_symbols toc = iw_off_symbols w \<and> toc_postings_table toc = iw_off_postings_tbl w"
  using assms by (simp add: parse_toc_def k_index_toc_size_def) (simp add: toc_body_def)

section \<open>Sorted unions\<close>

lemma set_sort_unique [simp]: "set (sort_unique xs) = set xs"
  by (simp add: sort_unique_def)

lemma remdups_adj_strict: "sorted xs \<Longrightarrow> sorted_wrt (<) (remdups_adj xs)"
  by (induction xs rule: remdups_adj.induct) (auto simp: less_le)

lemma sort_unique_sorted: "sorted_wrt (<) (sort_unique xs)"
  by (simp add: sort_unique_def remdups_adj_strict)

lemma union_postings_ok:
  "list_all2 (\<lambda>e ids. read_posting_list bs (po_offset e) = Inr ids) es idss \<Longrightarrow>
   union_postings bs es out = Inr (sort_unique (out @ concat idss))"
proof (induction es idss arbitrary: out rule: list_all2_induct)
  case (Cons e es ids idss)
  then show ?case by simp
qed simp

end
