(* ===== verification/IndexRoundtrip.thy ===== *)
theory IndexRoundtrip
  imports IndexReader
begin

text \<open>
  The index file written by a complete run of the index writer, read by the index reader: what
  the two components promise each other. Shown: the reader accepts the file and answers every
  question about symbols, series and postings with what was put in.
\<close>

section \<open>Keys\<close>

text \<open>The reader joins name and value with a NUL character; names without one keep pairs apart.\<close>

definition plain_name :: "string \<Rightarrow> bool" where
  "plain_name n \<longleftrightarrow> char_of (0 :: nat) \<notin> set n"

lemma pair_key_inject: "plain_name m \<Longrightarrow> plain_name n \<Longrightarrow> pair_key m v = pair_key n w \<longleftrightarrow> m = n \<and> v = w"
proof (induction m arbitrary: n)
  case Nil
  then show ?case by (cases n) (auto simp: pair_key_def plain_name_def)
next
  case (Cons c m)
  then show ?case by (cases n) (auto simp: pair_key_def plain_name_def)
qed

lemma by_pair_map_of:
  "fold (\<lambda>e m. let key = pair_key (po_name e) (po_value e) in if m key = None then m(key \<mapsto> po_offset e) else m) es m k
   = (case m k of None \<Rightarrow> map_of (map (\<lambda>e. (pair_key (po_name e) (po_value e), po_offset e)) es) k | Some x \<Rightarrow> Some x)"
  by (induction es arbitrary: m) (auto simp: Let_def split: option.splits)

lemma pt_lookup_init:
  "pt_lookup (PostingsOffsetTable_init es) name val
   = map_of (map (\<lambda>e. (pair_key (po_name e) (po_value e), po_offset e)) es) (pair_key name val)"
  by (simp add: pt_lookup_def PostingsOffsetTable_init_def by_pair_map_of)

text \<open>With a NUL in a name two pairs share a key.\<close>

lemma pair_key_collision:
  "pair_key (a @ [char_of (0 :: nat)] @ b) c = pair_key a (b @ [char_of (0 :: nat)] @ c)"
  by (simp add: pair_key_def)

text \<open>An offset close to \<open>2^64\<close> passes the check of the section header.\<close>

lemma section_offset_wraps: "2 \<le> length bs \<Longrightarrow> length bs < 2 ^ 63 \<Longrightarrow> read_section_payload bs (- 2) = Inl Undefined_access"
  by (simp add: read_section_payload_def)

section \<open>What a reader serves\<close>

text \<open>The first list of a pair counts, as \<open>emplace\<close> keeps the first offset.\<close>

definition ids_for :: "posting_spec list \<Rightarrow> string \<Rightarrow> string \<Rightarrow> u32 list" where
  "ids_for ps name val = (case map_of (map (\<lambda>(n, v, ids). ((n, v), ids)) ps) (name, val) of None \<Rightarrow> [] | Some ids \<Rightarrow> ids)"

definition serves :: "IndexReader \<Rightarrow> string list \<Rightarrow> u32 list \<Rightarrow> series_spec list \<Rightarrow> posting_spec list \<Rightarrow> bool" where
  "serves r syms sids ss ps \<longleftrightarrow>
     all_symbols (ir_symbols r) = Inr syms \<and>
     (\<forall>i. unat i < length syms \<longrightarrow> st_lookup (ir_symbols r) i = Inr (syms ! unat i)) \<and>
     list_all2 (\<lambda>sid s. refs_ok syms (fst s) \<longrightarrow>
        ir_series r (ucast sid) = Inr \<lparr>se_labels = mk_labels (map (label_of syms) (fst s)), se_chunks = snd s\<rparr>) sids ss \<and>
     (\<forall>name val. plain_name name \<longrightarrow> list_all (plain_name \<circ> fst) ps \<longrightarrow> postings r name val = Inr (ids_for ps name val)) \<and>
     (\<forall>name. postings_for_name r name = Inr (sort_unique (concat (map (snd \<circ> snd) (filter (\<lambda>p. fst p = name) ps))))) \<and>
     all_postings r = Inr (sort_unique (concat (map (snd \<circ> snd) ps))) \<and>
     (\<forall>name. label_values r name = sort_unique (map (fst \<circ> snd) (filter (\<lambda>p. fst p = name) ps)))"

text \<open>The entries of the table and the lists that were written.\<close>

abbreviation entry_reads :: "bytes \<Rightarrow> PostingsOffsetEntry \<Rightarrow> posting_spec \<Rightarrow> bool" where
  "entry_reads bs e p \<equiv>
     po_name e = fst p \<and> po_value e = fst (snd p) \<and> read_posting_list bs (po_offset e) = Inr (snd (snd p))"

lemma entry_reads_of:
  assumes "list_all2 (posting_at bs) es ps" "length bs < 2 ^ 32"
  shows "list_all2 (entry_reads bs) (map entry_of es) ps"
proof -
  have "posting_at bs e p \<Longrightarrow> entry_reads bs (entry_of e) p" for e p
    using read_posting_list_ok [of bs "unat (pe_offset e)" "snd (snd p)"] assms(2) by (cases p) (simp add: posting_at_def)
  then show ?thesis
    using assms(1) by (simp add: list_all2_conv_all_nth)
qed

lemma entry_reads_filter:
  "list_all2 (entry_reads bs) es ps \<Longrightarrow>
   list_all2 (entry_reads bs) (filter (\<lambda>e. po_name e = name) es) (filter (\<lambda>p. fst p = name) ps)"
  by (induction es ps rule: list_all2_induct) auto

lemma entry_reads_union:
  "list_all2 (entry_reads bs) es ps \<Longrightarrow> union_postings bs es [] = Inr (sort_unique (concat (map (snd \<circ> snd) ps)))"
proof -
  assume "list_all2 (entry_reads bs) es ps"
  then have "list_all2 (\<lambda>e ids. read_posting_list bs (po_offset e) = Inr ids) es (map (snd \<circ> snd) ps)"
    by (auto simp: list_all2_conv_all_nth)
  then show ?thesis using union_postings_ok [of bs es _ "[]"] by simp
qed

lemma entry_reads_values:
  "list_all2 (entry_reads bs) es ps \<Longrightarrow> map po_value es = map (fst \<circ> snd) ps"
  by (induction es ps rule: list_all2_induct) auto

lemma entry_reads_lookup:
  assumes "list_all2 (entry_reads bs) es ps" "plain_name name" "list_all (plain_name \<circ> fst) ps"
  shows "(case pt_lookup (PostingsOffsetTable_init es) name val of
      None \<Rightarrow> Inr [] | Some off \<Rightarrow> read_posting_list bs off) = Inr (ids_for ps name val)"
  using assms
proof (induction es ps rule: list_all2_induct)
  case (Cons e es p ps)
  then have "pair_key name val = pair_key (po_name e) (po_value e) \<longleftrightarrow> name = fst p \<and> val = fst (snd p)"
    by (simp add: pair_key_inject)
  then show ?case
    using Cons by (cases p) (auto simp: pt_lookup_init ids_for_def)
qed (simp add: pt_lookup_init ids_for_def)

lemma series_served:
  assumes at: "series_at bs sid s" and size: "length bs < 2 ^ 32" and refs: "refs_ok syms (fst s)"
    and look: "\<And>i. unat i < length syms \<Longrightarrow> st_lookup (ir_symbols r) i = Inr (syms ! unat i)"
    and r: "ir_data r = bs" "ir_version r = k_index_write_format"
  shows "ir_series r (ucast sid) = Inr \<lparr>se_labels = mk_labels (map (label_of syms) (fst s)), se_chunks = snd s\<rparr>"
proof -
  let ?p = "series_payload (fst s) (snd s)"
  have here: "holds_at bs (16 * unat sid) (series_frame ?p)" using at by (simp add: series_at_def)
  have off: "(ucast sid :: u64) * 16 = of_nat (16 * unat sid)"
    by (simp add: word_unat_eq_iff unat_word_ariths unat_ucast unat_of_nat mult.commute)
  have "length ?p < 2 ^ 32" using holds_at_length [OF here] size by (simp add: series_frame_def)
  then have dec: "decode_series_payload ?p (ir_symbols r)
      = Inr \<lparr>se_labels = mk_labels (map (label_of syms) (fst s)), se_chunks = snd s\<rparr>"
    by (intro series_entry_ok look refs)
  have "read_uvarint_section_payload (ir_data r) (ucast sid * 16) = Inr ?p"
    unfolding off r(1) by (rule read_uvarint_section_ok [OF here size])
  then show ?thesis
    using r(2) by (simp add: ir_series_def k_index_write_format_def k_index_format_v1_def dec)
qed

lemma parse_index_ok:
  assumes holds: "iw_holds w syms sids ss ps" and size: "length (iw_buf w) < 2 ^ 32"
    and toc: "iw_buf w = pre @ toc_body w @ be32 (compute (toc_body w))" "5 \<le> length pre"
    and tbl: "holds_at (iw_buf w) (unat (iw_off_postings_tbl w)) (frame (table_payload (iw_pending_postings w)))"
  shows "\<exists>r. parse_index (iw_buf w) = Inr r \<and> serves r syms sids ss ps"
proof -
  let ?bs = "iw_buf w" and ?es = "map entry_of (iw_pending_postings w)"
  have "holds_at ?bs 0 (be32 k_magic_index @ [k_index_write_format] @ frame (symbols_payload syms))"
    using holds by (simp add: iw_holds_def)
  then have hdr: "holds_at ?bs 0 (be32 k_magic_index)" "holds_at ?bs 4 [k_index_write_format]"
    and syms: "holds_at ?bs 5 (frame (symbols_payload syms))"
    unfolding holds_at_split by simp_all
  have magic: "read_be32 ?bs = k_magic_index" using holds_at_drop [OF hdr(1)] by auto
  have "hd (drop 4 ?bs) = k_index_write_format" "4 < length ?bs"
    using holds_at_drop [OF hdr(2)] holds_at_length [OF hdr(2)] by auto
  then have "?bs ! 4 = k_index_write_format" by (simp add: hd_drop_conv_nth)
  moreover have "\<not> length ?bs < 57" unfolding toc(1) using toc(2) by (simp add: toc_body_def)
  ultimately have ver: "?bs ! 4 = k_index_write_format" "\<not> length ?bs < 57" by simp_all
  obtain t where t: "parse_toc ?bs = Inr t" "toc_symbols t = 5" "toc_postings_table t = iw_off_postings_tbl w"
    using parse_toc_ok [OF toc(1)] holds by (auto simp: iw_holds_def)
  obtain st where st: "parse_symbol_table ?bs 5 k_index_write_format = Inr st"
      "\<And>i. unat i < length syms \<Longrightarrow> st_lookup st i = Inr (syms ! unat i)" "all_symbols st = Inr syms"
    using parse_symbol_table_ok [OF syms size, of k_index_write_format]
    by (auto simp: k_index_write_format_def k_index_format_v1_def)
  have pot: "parse_postings_table ?bs (iw_off_postings_tbl w) = Inr (PostingsOffsetTable_init ?es)"
    using parse_postings_table_ok [OF tbl size] by simp
  define r where "r = \<lparr>ir_data = ?bs, ir_version = k_index_write_format, ir_toc = t, ir_symbols = st,
     ir_postings_table = PostingsOffsetTable_init ?es\<rparr>"
  have "parse_index ?bs = Inr r"
    using magic ver t st(1) pot
    by (simp add: parse_index_def r_def k_index_header_size_def k_index_toc_size_def k_index_write_format_def
        k_index_format_v2_def)
  moreover have "list_all2 (\<lambda>sid s. refs_ok syms (fst s) \<longrightarrow>
        ir_series r (ucast sid) = Inr \<lparr>se_labels = mk_labels (map (label_of syms) (fst s)), se_chunks = snd s\<rparr>) sids ss"
  proof (rule list_all2_mono)
    show "list_all2 (series_at ?bs) sids ss" using holds by (simp add: iw_holds_def)
  qed (use series_served [OF _ size, of _ _ syms r] st(2) in \<open>simp add: r_def\<close>)
  moreover have reads: "list_all2 (entry_reads ?bs) ?es ps"
    using entry_reads_of [OF _ size] holds by (simp add: iw_holds_def)
  moreover have tab: "ir_data r = ?bs" "ir_postings_table r = PostingsOffsetTable_init ?es" by (simp_all add: r_def)
  moreover have "postings r name val = Inr (ids_for ps name val)" if "plain_name name" "list_all (plain_name \<circ> fst) ps" for name val
    unfolding postings_def tab by (rule entry_reads_lookup [OF reads that])
  moreover have "pt_entries (PostingsOffsetTable_init ?es) = ?es" "ir_symbols r = st"
    by (simp_all add: r_def PostingsOffsetTable_init_def)
  ultimately show ?thesis
    using st(2,3) entry_reads_union [OF reads] entry_reads_union [OF entry_reads_filter [OF reads]]
      entry_reads_values [OF entry_reads_filter [OF reads]]
    by (simp add: serves_def postings_for_name_def all_postings_def label_values_def)
qed

section \<open>A complete run\<close>

definition write_index_file ::
  "string \<Rightarrow> string list \<Rightarrow> series_spec list \<Rightarrow> posting_spec list \<Rightarrow> Disk \<Rightarrow> (block_error + u32 list \<times> nat) \<times> Disk" where
  "write_index_file file syms ss ps d =
     (case IndexWriter_create file d of
        (Inl e, d1) \<Rightarrow> (Inl e, d1)
      | (Inr w, d1) \<Rightarrow>
          (case add_symbols syms w of
             (Inl e, _) \<Rightarrow> (Inl e, d1)
           | (Inr _, w1) \<Rightarrow>
               (case finish_symbols w1 of
                  (Inl e, _) \<Rightarrow> (Inl e, d1)
                | (Inr _, w2) \<Rightarrow>
                    (case add_all_series ss w2 of
                       (Inl e, _) \<Rightarrow> (Inl e, d1)
                     | (Inr sids, w3) \<Rightarrow>
                         (case finish_series w3 of
                            (Inl e, _) \<Rightarrow> (Inl e, d1)
                          | (Inr _, w4) \<Rightarrow>
                              (case add_all_postings ps w4 of
                                 (Inl e, _) \<Rightarrow> (Inl e, d1)
                               | (Inr _, w5) \<Rightarrow>
                                   (case iw_close w5 d1 of
                                      (Inl e, _, d2) \<Rightarrow> (Inl e, d2)
                                    | (Inr _, w6, d2) \<Rightarrow> (Inr (sids, length (iw_buf w6)), d2))))))))"

lemma IndexWriter_create_disk:
  "IndexWriter_create file d = (Inr w, d') \<Longrightarrow> dk_files d' = dk_files d \<and> dk_dir d' = dk_dir d \<and> map_of (dk_files d) file = None"
  by (auto simp: IndexWriter_create_def split: prod.splits sum.splits if_splits dest: sys_simple_disk)

lemma symbols_bytes_length: "length syms \<le> length (symbols_bytes syms)"
proof (induction syms)
  case (Cons s syms)
  have "1 \<le> length (str_bytes s)"
    by (simp add: str_bytes_def Suc_le_eq)
  then show ?case using Cons by simp
qed simp

lemma write_index_file_ok:
  assumes run: "write_index_file file syms ss ps d = (Inr (sids, len), d')" and size: "len < 2 ^ 32"
  shows "\<exists>bs r. length bs = len \<and> map_of (dk_files d') = (map_of (dk_files d))(file \<mapsto> bs) \<and> dk_dir d' = dk_dir d \<and>
     parse_index bs = Inr r \<and> serves r syms sids ss ps \<and> sorted_wrt (<) sids \<and> sorted syms \<and> length syms < len"
proof -
  from run obtain w d1 refs w1 w2 u2 w3 u4 w4 u5 w5 u6 w6 where steps: "IndexWriter_create file d = (Inr w, d1)"
      "add_symbols syms w = (Inr refs, w1)" "finish_symbols w1 = (Inr u2, w2)" "add_all_series ss w2 = (Inr sids, w3)"
      "finish_series w3 = (Inr u4, w4)" "add_all_postings ps w4 = (Inr u5, w5)" "iw_close w5 d1 = (Inr u6, w6, d')"
      "len = length (iw_buf w6)"
    by (auto simp: write_index_file_def split: prod.splits sum.splits)
  note new = IndexWriter_create_state [OF steps(1)]
  note syms = add_symbols_state [OF conjunct1 [OF new] steps(2)]
  have w2: "iw_holds w2 syms [] [] []" using iw_holds_start [OF _ steps(3)] syms by simp
  have len: "length (iw_buf w5) \<le> len"
    using steps(7,8) put_postings_table_buf [of w5] put_toc_buf [of "put_postings_table w5"]
    by (auto simp: iw_close_def Let_def split: if_splits prod.splits sum.splits)
  have grow: "length (iw_buf w4) \<le> length (iw_buf w5)" "length (iw_buf w3) \<le> length (iw_buf w4)"
    using add_all_postings_grows [OF steps(6)] pad_grows [of "iw_buf w3" 16] steps(5)
    by (auto simp: finish_series_def Let_def k_index_series_align_def split: if_splits)
  have w3: "iw_holds w3 syms sids ss []"
    using add_all_series_holds [OF w2 steps(4)] len grow size by simp
  have w5: "iw_holds w5 syms sids ss ps"
    using add_all_postings_holds [OF finish_series_holds(1) [OF w3 steps(5)] steps(6)] len size by simp
  have fname: "iw_file w5 = file"
    using new syms finish_symbols_state(6) [of w1 syms, OF _ steps(3)] add_all_series_grows [OF steps(4)]
      finish_series_holds(3) [OF w3 steps(5)] add_all_postings_grows [OF steps(6)] by simp
  note closed = iw_close_holds [OF w5 steps(7)]
  have small: "length (iw_buf w6) < 2 ^ 32" using size steps(8) by simp
  obtain pre where pre: "iw_buf w6 = pre @ toc_body w6 @ be32 (compute (toc_body w6))" "5 \<le> length pre"
    using closed(4) [OF small] by blast
  obtain r where "parse_index (iw_buf w6) = Inr r" "serves r syms sids ss ps"
    using parse_index_ok [OF closed(1) [OF small] small pre closed(5) [OF small]] by blast
  moreover have "map_of (dk_files d') = (map_of (dk_files d))(file \<mapsto> iw_buf w6)" "dk_dir d' = dk_dir d"
    using closed(2,3) [OF small] fname IndexWriter_create_disk [OF steps(1)] by simp_all
  moreover have "sorted_wrt (<) sids" "sorted syms" using w3 syms by (simp_all add: iw_holds_def)
  moreover have "length syms < length (iw_buf w6)"
    using closed(1) [OF small] holds_at_length [of "iw_buf w6" 0 "index_header @ frame (symbols_payload syms)"] symbols_bytes_length [of syms]
    by (simp add: iw_holds_def symbols_payload_def frame_def)
  ultimately show ?thesis using steps(8) by (intro exI [of _ "iw_buf w6"] exI [of _ r]) simp
qed

section \<open>Properties\<close>

text \<open>
  C20. The index of a block is read back as it was written: after a complete run of the writer
  that succeeded, over short, empty and interrupted writes, the reader opens the file and returns
  every symbol, for every series id handed out the labels and chunk descriptors of that series,
  for every label pair the posting list of that pair, the sorted unions of lists, and the sorted
  values of a label. The hypotheses are the limits of the format: the file is smaller than 4 GiB,
  label references point to symbols, and label names contain no NUL, which the reader uses to
  join names and values.
\<close>

theorem index_roundtrip:
  assumes "write_index_file file syms ss ps d = (Inr (sids, len), d')" and "len < 2 ^ 32"
    and "\<forall>s \<in> set ss. refs_ok syms (fst s)" and "\<forall>p \<in> set ps. plain_name (fst p)"
  shows "\<exists>r d4. d4 = d'\<lparr>dk_faults := []\<rparr> \<and> IndexReader_open file d4 = (Inr r, d4) \<and>
     all_symbols (ir_symbols r) = Inr syms \<and>
     list_all2 (\<lambda>sid s. ir_series r (ucast sid) =
        Inr \<lparr>se_labels = mk_labels (map (label_of syms) (fst s)), se_chunks = snd s\<rparr>) sids ss \<and>
     (\<forall>name val. plain_name name \<longrightarrow> postings r name val = Inr (ids_for ps name val)) \<and>
     (\<forall>name. postings_for_name r name = Inr (sort_unique (concat (map (snd \<circ> snd) (filter (\<lambda>p. fst p = name) ps)))) \<and>
             label_values r name = sort_unique (map (fst \<circ> snd) (filter (\<lambda>p. fst p = name) ps))) \<and>
     all_postings r = Inr (sort_unique (concat (map (snd \<circ> snd) ps)))"
proof -
  obtain bs r where r: "map_of (dk_files d') file = Some bs" "parse_index bs = Inr r" "serves r syms sids ss ps"
    using write_index_file_ok [OF assms(1,2)] by auto
  let ?d = "d'\<lparr>dk_faults := []\<rparr>"
  have "IndexReader_open file ?d = (Inr r, ?d)"
    using r(1,2) by (simp add: IndexReader_open_def sys_simple_ok syscall_def)
  moreover have "list_all2 (\<lambda>sid s. ir_series r (ucast sid) =
        Inr \<lparr>se_labels = mk_labels (map (label_of syms) (fst s)), se_chunks = snd s\<rparr>) sids ss"
    using r(3) assms(3) unfolding serves_def list_all2_conv_all_nth by (simp add: all_set_conv_all_nth)
  moreover have "list_all (plain_name \<circ> fst) ps" using assms(4) by (simp add: list_all_iff)
  ultimately show ?thesis using r(3) by (simp add: serves_def)
qed

theorem index_roundtrip_witness:
  "\<exists>r d4. IndexReader_open ''index'' d4 = (Inr r, d4) \<and> all_symbols (ir_symbols r) = Inr ['''', ''a''] \<and>
     postings r ''a'' ''a'' = Inr [2]"
proof -
  let ?d = "\<lparr>dk_dir = True, dk_files = [], dk_faults = []\<rparr>" and ?ss = "[([(1, 1)], [])] :: series_spec list"
  let ?ps = "[(''a'', ''a'', [2])] :: posting_spec list"
  obtain len d' where run: "write_index_file ''index'' ['''', ''a''] ?ss ?ps ?d = (Inr ([2], len), d')" "len < 2 ^ 32"
    by (simp add: write_index_file_def IndexWriter_create_def sys_simple_ok put_u8_def put_be32_def add_symbol_def
        reserve_symbols_def put_uvarint_str_bytes Let_def finish_symbols_def patch_be32_def append_crc_def
        add_series_def pad_to_def str_bytes_def put_uvarint_small k_index_series_align_def series_payload_def
        finish_series_def add_postings_def iw_put_uvarint_def iw_close_def put_postings_table_def put_toc_def
        put_entry_def put_be64_def write_index_def flush_loop.simps syscall_def file_create_def file_append_def)
  have "\<forall>s \<in> set ?ss. refs_ok ['''', ''a''] (fst s)" "\<forall>p \<in> set ?ps. plain_name (fst p)" "plain_name ''a''"
    by (simp_all add: plain_name_def char_of_def)
  then show ?thesis
    using index_roundtrip [OF run] by (auto simp: ids_for_def)
qed

end
