(* ===== verification/Ulid.thy ===== *)
theory Ulid
  imports Prelude
begin

text \<open>
  Block names (src/block/ulid.cpp, block/ulid.hpp): 16 bytes in Crockford's base 32, and a fresh
  name from a clock and a source of random words, which are parameters. Shown: the encoding keeps
  the order of the bytes, so names differ when the bytes do, and names with a later timestamp
  sort after those with an earlier one.
\<close>

section \<open>Encoding\<close>

definition k_crockford_alphabet :: string where
  "k_crockford_alphabet = ''0123456789ABCDEFGHJKMNPQRSTVWXYZ''"

definition k_ulid_byte_size :: nat where
  "k_ulid_byte_size = 16"

definition k_ulid_char_size :: nat where
  "k_ulid_char_size = 26"

definition bit_at :: "bytes \<Rightarrow> nat \<Rightarrow> u8" where
  "bit_at bs virtual_pos =
     (if virtual_pos < 2 then 0
      else let real_pos = virtual_pos - 2 in drop_bit (7 - real_pos mod 8) (bs ! (real_pos div 8)) AND 1)"

definition ulid_group :: "bytes \<Rightarrow> nat \<Rightarrow> u8" where
  "ulid_group bs c = fold (\<lambda>b v. push_bit 1 v OR bit_at bs (c * 5 + b)) [0..<5] 0"

definition encode_ulid :: "bytes \<Rightarrow> string" where
  "encode_ulid bs = map (\<lambda>c. k_crockford_alphabet ! unat (ulid_group bs c)) [0..<k_ulid_char_size]"

section \<open>Fresh names\<close>

definition ulid_random :: "u32 \<Rightarrow> bytes" where
  "ulid_random r = map (\<lambda>j. ucast (drop_bit (8 * j) r)) [0..<4]"

text \<open>\<open>now_ms\<close> is the clock in milliseconds; \<open>r0\<close>, \<open>r1\<close>, \<open>r2\<close> are what the random device returns.\<close>

definition new_ulid :: "i64 \<Rightarrow> u32 \<Rightarrow> u32 \<Rightarrow> u32 \<Rightarrow> string" where
  "new_ulid now_ms r0 r1 r2 =
     (let ts = now_ms AND 0x0000FFFFFFFFFFFF
      in encode_ulid (map (\<lambda>s. ucast (drop_bit s ts)) [40, 32, 24, 16, 8, 0] @
           take (k_ulid_byte_size - 6) (ulid_random r0 @ ulid_random r1 @ ulid_random r2)))"

section \<open>Order\<close>

text \<open>Lists are compared by the first difference; blocks of equal length compare like their contents.\<close>

lemma append_less_append:
  fixes xs ys us vs :: "'a::linorder list"
  shows "length us = length vs \<Longrightarrow> us @ xs < vs @ ys \<longleftrightarrow> us < vs \<or> us = vs \<and> xs < ys"
  by (induction us vs rule: list_induct2) auto

lemma concat_less:
  fixes f :: "'a \<Rightarrow> bool list" and g :: "'a \<Rightarrow> 'b::linorder"
  assumes len: "\<And>x. length (f x) = k" and mono: "\<And>x y. f x < f y \<longleftrightarrow> g x < g y" and eq: "\<And>x y. f x = f y \<longleftrightarrow> g x = g y"
  shows "length xs = length ys \<Longrightarrow> concat (map f xs) < concat (map f ys) \<longleftrightarrow> map g xs < map g ys"
  by (induction xs ys rule: list_induct2) (simp_all add: append_less_append len mono eq)

lemma unat_take_bit_Suc:
  "unat (take_bit (Suc n) w) = of_bool (bit w n) * 2 ^ n + unat (take_bit n w)" for w :: "'a::len word"
proof -
  have "unat w mod 2 ^ Suc n = 2 ^ n * (unat w div 2 ^ n mod 2) + unat w mod 2 ^ n"
    by (metis mod_mult2_eq power_Suc2)
  then show ?thesis
    by (simp add: unat_take_bit bit_iff_unat odd_iff_mod_2_eq_one mod2_eq_if)
qed

lemma word_bits_less:
  fixes v w :: "'a::len word"
  shows "word_bits n v < word_bits n w \<longleftrightarrow> unat (take_bit n v) < unat (take_bit n w)"
proof (induction n)
  case (Suc n)
  have "unat (take_bit n v) < 2 ^ n" "unat (take_bit n w) < 2 ^ n"
    by (simp_all add: unat_take_bit)
  moreover have "word_bits n v = word_bits n w \<longleftrightarrow> unat (take_bit n v) = unat (take_bit n w)"
    by (metis bits_word_word_bits order_refl word_bits_take_bit word_unat_eq_iff)
  ultimately show ?case
    using Suc by (auto simp: word_bits_Suc unat_take_bit_Suc less_bool_def)
qed simp

lemma bytes_bits_less: "length a = length b \<Longrightarrow> bytes_bits a < bytes_bits b \<longleftrightarrow> a < b"
proof -
  assume "length a = length b"
  then have "concat (map (word_bits 8) a) < concat (map (word_bits 8) b) \<longleftrightarrow> map id a < map id b"
    by (intro concat_less [where k = 8]) (auto simp: word_bits_less word_less_nat_alt word_bits_inject [where 'a = 8, simplified])
  then show ?thesis by (simp add: bytes_bits_def)
qed

section \<open>The encoding as groups of bits\<close>

abbreviation ulid_bits :: "bytes \<Rightarrow> bool list" where
  "ulid_bits bs \<equiv> [False, False] @ bytes_bits bs"

lemma bit_at_bits: "p < 2 + 8 * length bs \<Longrightarrow> bit_at bs p = of_bool (ulid_bits bs ! p)"
  by (cases p; cases "p - 1")
    (auto simp: bit_at_def nth_bytes_bits and_one_eq bit_iff_odd_drop_bit mod_2_eq_odd)

lemma ulid_group_bits:
  assumes "length bs = 16" "c < 26"
  shows "ulid_group bs c = bits_word (map (\<lambda>b. ulid_bits bs ! (c * 5 + b)) [0..<5])"
proof -
  have "fold (\<lambda>b v. push_bit 1 v OR bit_at bs (c * 5 + b)) [0..<n] 0
      = bits_word (map (\<lambda>b. ulid_bits bs ! (c * 5 + b)) [0..<n])" if "n \<le> 5" for n
    using that
  proof (induction n)
    case (Suc n)
    then have "bit_at bs (c * 5 + n) = of_bool (ulid_bits bs ! (c * 5 + n))"
      using assms by (intro bit_at_bits) simp
    moreover have "bits_word [b] = (of_bool b :: u8)" for b by (simp add: bits_word_def)
    ultimately show ?case using Suc by (simp add: bits_word_append)
  qed simp
  then show ?thesis by (simp add: ulid_group_def)
qed

lemma concat_groups: "concat (map (\<lambda>c. map (\<lambda>b. xs ! (c * 5 + b)) [0..<5]) [0..<n]) = map ((!) xs) [0..<5 * n]"
proof (induction n)
  case (Suc n)
  have "map (\<lambda>b. xs ! (n * 5 + b)) [0..<5] = map ((!) xs) [5 * n..<5 * n + 5]"
    by (rule nth_equalityI) (simp_all add: mult.commute)
  moreover have "[0..<5 * Suc n] = [0..<5 * n] @ [5 * n..<5 * n + 5]"
    using upt_add_eq_append [of 0 "5 * n" 5] by (simp add: algebra_simps)
  ultimately show ?case using Suc by simp
qed simp

lemma concat_ulid_groups:
  assumes "length bs = 16"
  shows "concat (map (word_bits 5) (map (ulid_group bs) [0..<26])) = ulid_bits bs"
proof -
  have "map (word_bits 5) (map (ulid_group bs) [0..<26]) = map (\<lambda>c. map (\<lambda>b. ulid_bits bs ! (c * 5 + b)) [0..<5]) [0..<26]"
    using ulid_group_bits [OF assms] by simp
  moreover have "map ((!) (ulid_bits bs)) [0..<5 * 26] = ulid_bits bs"
    using assms by (intro nth_equalityI) simp_all
  ultimately show ?thesis using concat_groups [of "ulid_bits bs" 26] by (simp only:)
qed

lemma crockford_sorted: "sorted_wrt (<) k_crockford_alphabet"
  unfolding k_crockford_alphabet_def by code_simp

lemma crockford_less:
  "i < 32 \<Longrightarrow> j < 32 \<Longrightarrow> k_crockford_alphabet ! i < k_crockford_alphabet ! j \<longleftrightarrow> i < j"
  using sorted_wrt_nth_less [OF crockford_sorted, of i j] sorted_wrt_nth_less [OF crockford_sorted, of j i]
  by (cases i j rule: linorder_cases) (auto simp: k_crockford_alphabet_def)

abbreviation crockford :: "u8 \<Rightarrow> char" where
  "crockford w \<equiv> k_crockford_alphabet ! unat (take_bit 5 w)"

lemma take_bit_bits_word: "length xs \<le> n \<Longrightarrow> take_bit n (bits_word xs :: 'a::len word) = bits_word xs"
  by (rule bit_word_eqI) (auto simp: bit_take_bit_iff bit_bits_word)

lemma encode_ulid_groups: "length bs = 16 \<Longrightarrow> encode_ulid bs = map crockford (map (ulid_group bs) [0..<26])"
proof -
  assume "length bs = 16"
  then have "take_bit 5 (ulid_group bs c) = ulid_group bs c" if "c < 26" for c
    unfolding ulid_group_bits [OF \<open>length bs = 16\<close> that] by (intro take_bit_bits_word) simp
  then show ?thesis by (simp add: encode_ulid_def k_ulid_char_size_def)
qed

lemma encode_ulid_less: 
  assumes "length a = 16" "length b = 16"
  shows "encode_ulid a < encode_ulid b \<longleftrightarrow> a < b"
proof -
  have small: "unat (take_bit 5 w) < 32" for w :: u8 by (simp add: unat_take_bit)
  have mono: "word_bits 5 v < word_bits 5 w \<longleftrightarrow> crockford v < crockford w" for v w :: u8
    using crockford_less [OF small small, of v w] by (simp add: word_bits_less)
  have eq: "word_bits 5 v = word_bits 5 w \<longleftrightarrow> crockford v = crockford w" for v w :: u8
    using mono [of v w] mono [of w v] by (metis less_irrefl neq_iff)
  have "concat (map (word_bits 5) (map (ulid_group a) [0..<26])) < concat (map (word_bits 5) (map (ulid_group b) [0..<26]))
      \<longleftrightarrow> map crockford (map (ulid_group a) [0..<26]) < map crockford (map (ulid_group b) [0..<26])"
    by (rule concat_less [where k = 5]) (use mono eq in simp_all)
  then show ?thesis
    using assms bytes_bits_less [of a b] by (simp add: concat_ulid_groups encode_ulid_groups del: map_map)
qed

section \<open>Properties\<close>

lemma length_ulid_random [simp]: "length (ulid_random r) = 4"
  by (simp add: ulid_random_def)

definition ulid_stamp :: "i64 \<Rightarrow> bytes" where
  "ulid_stamp ts = map (\<lambda>s. ucast (drop_bit s ts)) [40, 32, 24, 16, 8, 0]"

lemma bytes_bits_stamp: "bytes_bits (ulid_stamp x) = word_bits 48 x"
  using word_bits_append [of 8 40 x] word_bits_append [of 8 32 x] word_bits_append [of 8 24 x]
    word_bits_append [of 8 16 x] word_bits_append [of 8 8 x]
  by (simp add: ulid_stamp_def word_bits_ucast)

lemma ulid_stamp_less:
  "ulid_stamp x < ulid_stamp y \<longleftrightarrow> unat x mod 2 ^ 48 < unat y mod 2 ^ 48"
  using bytes_bits_less [of "ulid_stamp x" "ulid_stamp y"]
  by (simp add: bytes_bits_stamp word_bits_less unat_take_bit) (simp add: ulid_stamp_def)

lemma ulid_mask: "x AND 0x0000FFFFFFFFFFFF = take_bit 48 (x :: i64)"
  by (simp add: take_bit_eq_mask mask_eq_exp_minus_1)

text \<open>
  C23. Block names sort like the bytes they encode: the name of a block made at a later
  millisecond of the 48-bit clock, whatever the random part, comes after that of an earlier one;
  different bytes give different names, and all names have the same length.
\<close>

theorem ulid_sorts_by_time:
  assumes "length a = 16" and "length b = 16" and "unat t mod 2 ^ 48 < unat u mod 2 ^ 48"
  shows "(encode_ulid a < encode_ulid b \<longleftrightarrow> a < b) \<and> (encode_ulid a = encode_ulid b \<longleftrightarrow> a = b) \<and>
    length (encode_ulid a) = 26 \<and> new_ulid t r0 r1 r2 < new_ulid u s0 s1 s2"
proof (intro conjI)
  show less: "encode_ulid a < encode_ulid b \<longleftrightarrow> a < b" using assms by (simp add: encode_ulid_less)
  show "encode_ulid a = encode_ulid b \<longleftrightarrow> a = b"
    using less encode_ulid_less [OF assms(2,1)] by (metis less_irrefl neq_iff)
  show "length (encode_ulid a) = 26" by (simp add: encode_ulid_def k_ulid_char_size_def)
  let ?bytes = "\<lambda>x p q r. ulid_stamp (take_bit 48 x) @ take 10 (ulid_random p @ ulid_random q @ ulid_random r)"
  have "length (ulid_stamp x) = 6" for x by (simp add: ulid_stamp_def)
  then have "?bytes t r0 r1 r2 < ?bytes u s0 s1 s2" and "length (?bytes x p q r) = 16" for x p q r
    using assms(3) by (simp_all add: append_less_append ulid_stamp_less unat_take_bit)
  then show "new_ulid t r0 r1 r2 < new_ulid u s0 s1 s2"
    unfolding new_ulid_def ulid_mask Let_def k_ulid_byte_size_def ulid_stamp_def [symmetric]
    by (simp add: encode_ulid_less)
qed

theorem ulid_sorts_by_time_witness:
  "new_ulid 5 9 9 9 < new_ulid 6 1 2 3 \<and> encode_ulid (replicate 16 0) \<noteq> encode_ulid (replicate 16 1)"
  using ulid_sorts_by_time [of "replicate 16 0" "replicate 16 1" 5 6 9 9 9 1 2 3] by simp

end
