(* ===== verification/Meta.thy ===== *)
theory Meta
  imports BlockChunks "HOL-Library.Countable"
begin

text \<open>
  The descriptor \<open>meta.json\<close> of a block (src/block/meta.cpp, block/meta.hpp): its translation to
  and from JSON values and the replacement of the file by a renamed temporary one. The JSON
  library is not part of the sources: its values are a type parameter and the operations the code
  calls are an argument, with the documented laws as a hypothesis. Shown: a descriptor survives
  the way to the file and back, zero and empty fields included; a failed or interrupted update
  leaves the old or the new content; and an error of the last flush is lost.
\<close>

section \<open>Descriptors\<close>

type_synonym i32 = "32 word"

definition k_meta_version_1 :: i32 where
  "k_meta_version_1 = 1"

definition k_meta_filename :: string where
  "k_meta_filename = ''meta.json''"

record BlockStats =
  bs_num_samples :: u64
  bs_num_float_samples :: u64
  bs_num_histogram_samples :: u64
  bs_num_series :: u64
  bs_num_chunks :: u64
  bs_num_tombstones :: u64

record BlockDesc =
  bd_ulid :: string
  bd_min_time :: i64
  bd_max_time :: i64

record BlockMetaCompaction =
  bc_level :: i32
  bc_sources :: "string list"
  bc_deletable :: bool
  bc_parents :: "BlockDesc list"
  bc_failed :: bool
  bc_hints :: "string list"

record BlockMeta =
  bm_version :: i32
  bm_ulid :: string
  bm_min_time :: i64
  bm_max_time :: i64
  bm_stats :: BlockStats
  bm_compaction :: BlockMetaCompaction

definition BlockStats_init :: BlockStats where
  "BlockStats_init = \<lparr>bs_num_samples = 0, bs_num_float_samples = 0, bs_num_histogram_samples = 0,
     bs_num_series = 0, bs_num_chunks = 0, bs_num_tombstones = 0\<rparr>"

definition BlockDesc_init :: BlockDesc where
  "BlockDesc_init = \<lparr>bd_ulid = [], bd_min_time = 0, bd_max_time = 0\<rparr>"

definition BlockMetaCompaction_init :: BlockMetaCompaction where
  "BlockMetaCompaction_init = \<lparr>bc_level = 0, bc_sources = [], bc_deletable = False, bc_parents = [],
     bc_failed = False, bc_hints = []\<rparr>"

definition BlockMeta_init :: BlockMeta where
  "BlockMeta_init = \<lparr>bm_version = k_meta_version_1, bm_ulid = [], bm_min_time = 0, bm_max_time = 0,
     bm_stats = BlockStats_init, bm_compaction = BlockMetaCompaction_init\<rparr>"

section \<open>The JSON library\<close>

text \<open>
  The operations of \<open>nlohmann::json\<close> the code calls, on values up to the library's equality.
  \<open>None\<close> stands for a thrown \<open>json::exception\<close>.
\<close>

record 'j json_ops =
  j_parse :: "string \<Rightarrow> 'j option"
  j_dump :: "'j \<Rightarrow> string option"
  j_null :: 'j
  j_object :: 'j
  j_array :: "'j list \<Rightarrow> 'j"
  j_set :: "'j \<Rightarrow> string \<Rightarrow> 'j \<Rightarrow> 'j"
  j_find :: "'j \<Rightarrow> string \<Rightarrow> 'j option"
  j_elems :: "'j \<Rightarrow> 'j list"
  j_is_null :: "'j \<Rightarrow> bool"
  j_is_object :: "'j \<Rightarrow> bool"
  j_is_array :: "'j \<Rightarrow> bool"
  j_empty :: "'j \<Rightarrow> bool"
  j_of_u64 :: "u64 \<Rightarrow> 'j"
  j_of_i64 :: "i64 \<Rightarrow> 'j"
  j_of_int :: "i32 \<Rightarrow> 'j"
  j_of_bool :: "bool \<Rightarrow> 'j"
  j_of_string :: "string \<Rightarrow> 'j"
  j_of_strings :: "string list \<Rightarrow> 'j"
  j_get_u64 :: "'j \<Rightarrow> u64 option"
  j_get_i64 :: "'j \<Rightarrow> i64 option"
  j_get_int :: "'j \<Rightarrow> i32 option"
  j_get_bool :: "'j \<Rightarrow> bool option"
  j_get_string :: "'j \<Rightarrow> string option"
  j_get_strings :: "'j \<Rightarrow> string list option"

text \<open>
  The documented behaviour: assignment through \<open>operator[]\<close> turns null into an object and sets
  one key (on any other value that is not an object it throws, and nothing is required of it),
  \<open>find\<close> sees what was set, a value read at the type it was made from is that value,
  no value made from one of these types is null, and parsing a dump gives the value back.
\<close>

definition settable :: "'j json_ops \<Rightarrow> 'j \<Rightarrow> bool" where
  "settable J v \<longleftrightarrow> j_is_null J v \<or> j_is_object J v"

definition json_laws :: "'j json_ops \<Rightarrow> bool" where
  "json_laws J \<longleftrightarrow>
     (\<forall>v t. j_dump J v = Some t \<longrightarrow> j_parse J t = Some v) \<and>
     (\<forall>k. j_find J (j_null J) k = None) \<and> (\<forall>k. j_find J (j_object J) k = None) \<and>
     j_is_null J (j_null J) \<and>
     (\<forall>v k x k'. settable J v \<longrightarrow> j_find J (j_set J v k x) k' = (if k' = k then Some x else j_find J v k')) \<and>
     (\<forall>v k x. settable J v \<longrightarrow> j_is_object J (j_set J v k x) \<and> \<not> j_empty J (j_set J v k x) \<and> \<not> j_is_null J (j_set J v k x)) \<and>
     j_empty J (j_object J) \<and> j_is_object J (j_object J) \<and> \<not> j_is_null J (j_object J) \<and>
     (\<forall>xs. j_is_array J (j_array J xs) \<and> j_elems J (j_array J xs) = xs) \<and>
     (\<forall>x. j_get_u64 J (j_of_u64 J x) = Some x \<and> \<not> j_is_null J (j_of_u64 J x)) \<and>
     (\<forall>x. j_get_i64 J (j_of_i64 J x) = Some x \<and> \<not> j_is_null J (j_of_i64 J x)) \<and>
     (\<forall>x. j_get_int J (j_of_int J x) = Some x \<and> \<not> j_is_null J (j_of_int J x)) \<and>
     (\<forall>x. j_get_bool J (j_of_bool J x) = Some x \<and> \<not> j_is_null J (j_of_bool J x)) \<and>
     (\<forall>x. j_get_string J (j_of_string J x) = Some x \<and> \<not> j_is_null J (j_of_string J x)) \<and>
     (\<forall>x. j_get_strings J (j_of_strings J x) = Some x \<and> \<not> j_is_null J (j_of_strings J x))"

section \<open>Reading\<close>

definition load_if_present :: "'j json_ops \<Rightarrow> ('j \<Rightarrow> 'v option) \<Rightarrow> 'j \<Rightarrow> string \<Rightarrow> 'v \<Rightarrow> 'v option" where
  "load_if_present J get src key dst =
     (case j_find J src key of
        None \<Rightarrow> Some dst
      | Some v \<Rightarrow> if j_is_null J v then Some dst else get v)"

definition load_stats :: "'j json_ops \<Rightarrow> 'j \<Rightarrow> BlockStats \<Rightarrow> BlockStats option" where
  "load_stats J src dst =
     Option.bind (load_if_present J (j_get_u64 J) src ''numSamples'' (bs_num_samples dst)) (\<lambda>a.
     Option.bind (load_if_present J (j_get_u64 J) src ''numFloatSamples'' (bs_num_float_samples dst)) (\<lambda>b.
     Option.bind (load_if_present J (j_get_u64 J) src ''numHistogramSamples'' (bs_num_histogram_samples dst)) (\<lambda>c.
     Option.bind (load_if_present J (j_get_u64 J) src ''numSeries'' (bs_num_series dst)) (\<lambda>d.
     Option.bind (load_if_present J (j_get_u64 J) src ''numChunks'' (bs_num_chunks dst)) (\<lambda>e.
     Option.bind (load_if_present J (j_get_u64 J) src ''numTombstones'' (bs_num_tombstones dst)) (\<lambda>f.
     Some \<lparr>bs_num_samples = a, bs_num_float_samples = b, bs_num_histogram_samples = c,
           bs_num_series = d, bs_num_chunks = e, bs_num_tombstones = f\<rparr>))))))"

definition load_block_desc :: "'j json_ops \<Rightarrow> 'j \<Rightarrow> BlockDesc \<Rightarrow> BlockDesc option" where
  "load_block_desc J src dst =
     Option.bind (load_if_present J (j_get_string J) src ''ulid'' (bd_ulid dst)) (\<lambda>u.
     Option.bind (load_if_present J (j_get_i64 J) src ''minTime'' (bd_min_time dst)) (\<lambda>a.
     Option.bind (load_if_present J (j_get_i64 J) src ''maxTime'' (bd_max_time dst)) (\<lambda>b.
     Some \<lparr>bd_ulid = u, bd_min_time = a, bd_max_time = b\<rparr>)))"

fun load_parents :: "'j json_ops \<Rightarrow> 'j list \<Rightarrow> BlockDesc list \<Rightarrow> BlockDesc list option" where
  "load_parents J [] out = Some out"
| "load_parents J (p # ps) out =
     (case load_block_desc J p BlockDesc_init of None \<Rightarrow> None | Some d \<Rightarrow> load_parents J ps (out @ [d]))"

definition load_compaction :: "'j json_ops \<Rightarrow> 'j \<Rightarrow> BlockMetaCompaction \<Rightarrow> BlockMetaCompaction option" where
  "load_compaction J src dst =
     Option.bind (load_if_present J (j_get_int J) src ''level'' (bc_level dst)) (\<lambda>level.
     Option.bind (load_if_present J (j_get_strings J) src ''sources'' (bc_sources dst)) (\<lambda>sources.
     Option.bind (load_if_present J (j_get_bool J) src ''deletable'' (bc_deletable dst)) (\<lambda>deletable.
     Option.bind (load_if_present J (j_get_bool J) src ''failed'' (bc_failed dst)) (\<lambda>failed.
     Option.bind (load_if_present J (j_get_strings J) src ''hints'' (bc_hints dst)) (\<lambda>hints.
     Option.bind (case j_find J src ''parents'' of
                    None \<Rightarrow> Some (bc_parents dst)
                  | Some v \<Rightarrow> if j_is_array J v then load_parents J (j_elems J v) [] else Some (bc_parents dst)) (\<lambda>parents.
     Some \<lparr>bc_level = level, bc_sources = sources, bc_deletable = deletable, bc_parents = parents,
           bc_failed = failed, bc_hints = hints\<rparr>))))))"

text \<open>A nested value that is missing or no object leaves the defaults.\<close>

definition load_object :: "'j json_ops \<Rightarrow> ('j \<Rightarrow> 'v \<Rightarrow> 'v option) \<Rightarrow> 'j \<Rightarrow> string \<Rightarrow> 'v \<Rightarrow> 'v option" where
  "load_object J load root key dst =
     (case j_find J root key of
        None \<Rightarrow> Some dst
      | Some v \<Rightarrow> if j_is_object J v then load v dst else Some dst)"

definition from_json :: "'j json_ops \<Rightarrow> 'j \<Rightarrow> block_error + BlockMeta" where
  "from_json J root =
     (case load_if_present J (j_get_int J) root ''version'' (bm_version BlockMeta_init) of
        None \<Rightarrow> Inl Invalid_arg
      | Some version \<Rightarrow>
          if version \<noteq> k_meta_version_1 then Inl Invalid_arg
          else case
            Option.bind (load_if_present J (j_get_string J) root ''ulid'' (bm_ulid BlockMeta_init)) (\<lambda>ulid.
            Option.bind (load_if_present J (j_get_i64 J) root ''minTime'' (bm_min_time BlockMeta_init)) (\<lambda>mint.
            Option.bind (load_if_present J (j_get_i64 J) root ''maxTime'' (bm_max_time BlockMeta_init)) (\<lambda>maxt.
            Option.bind (load_object J (load_stats J) root ''stats'' (bm_stats BlockMeta_init)) (\<lambda>stats.
            Option.bind (load_object J (load_compaction J) root ''compaction'' (bm_compaction BlockMeta_init)) (\<lambda>compaction.
            Some \<lparr>bm_version = version, bm_ulid = ulid, bm_min_time = mint, bm_max_time = maxt,
                  bm_stats = stats, bm_compaction = compaction\<rparr>)))))
          of None \<Rightarrow> Inl Invalid_arg | Some m \<Rightarrow> Inr m)"

definition decode_meta_json :: "'j json_ops \<Rightarrow> string \<Rightarrow> block_error + BlockMeta" where
  "decode_meta_json J json_text =
     (case j_parse J json_text of None \<Rightarrow> Inl Invalid_arg | Some root \<Rightarrow> from_json J root)"

section \<open>Writing\<close>

text \<open>Assignment under a condition, for the fields that are left out.\<close>

definition set_if :: "'j json_ops \<Rightarrow> bool \<Rightarrow> string \<Rightarrow> 'j \<Rightarrow> 'j \<Rightarrow> 'j" where
  "set_if J b key x dst = (if b then j_set J dst key x else dst)"

definition dump_stats :: "'j json_ops \<Rightarrow> BlockStats \<Rightarrow> 'j \<Rightarrow> 'j" where
  "dump_stats J s dst =
     set_if J (bs_num_tombstones s \<noteq> 0) ''numTombstones'' (j_of_u64 J (bs_num_tombstones s))
    (set_if J (bs_num_chunks s \<noteq> 0) ''numChunks'' (j_of_u64 J (bs_num_chunks s))
    (set_if J (bs_num_series s \<noteq> 0) ''numSeries'' (j_of_u64 J (bs_num_series s))
    (set_if J (bs_num_histogram_samples s \<noteq> 0) ''numHistogramSamples'' (j_of_u64 J (bs_num_histogram_samples s))
    (set_if J (bs_num_float_samples s \<noteq> 0) ''numFloatSamples'' (j_of_u64 J (bs_num_float_samples s))
    (set_if J (bs_num_samples s \<noteq> 0) ''numSamples'' (j_of_u64 J (bs_num_samples s)) dst)))))"

definition dump_block_desc :: "'j json_ops \<Rightarrow> BlockDesc \<Rightarrow> 'j \<Rightarrow> 'j" where
  "dump_block_desc J d dst =
     j_set J (j_set J (j_set J dst ''ulid'' (j_of_string J (bd_ulid d)))
       ''minTime'' (j_of_i64 J (bd_min_time d))) ''maxTime'' (j_of_i64 J (bd_max_time d))"

definition dump_compaction :: "'j json_ops \<Rightarrow> BlockMetaCompaction \<Rightarrow> 'j \<Rightarrow> 'j" where
  "dump_compaction J c dst =
     set_if J (bc_hints c \<noteq> []) ''hints'' (j_of_strings J (bc_hints c))
    (set_if J (bc_failed c) ''failed'' (j_of_bool J True)
    (set_if J (bc_parents c \<noteq> []) ''parents''
       (j_array J (map (\<lambda>p. dump_block_desc J p (j_null J)) (bc_parents c)))
    (set_if J (bc_deletable c) ''deletable'' (j_of_bool J True)
    (set_if J (bc_sources c \<noteq> []) ''sources'' (j_of_strings J (bc_sources c))
    (j_set J dst ''level'' (j_of_int J (bc_level c)))))))"

definition to_json :: "'j json_ops \<Rightarrow> BlockMeta \<Rightarrow> 'j" where
  "to_json J m =
     (let r1 = j_set J (j_null J) ''ulid'' (j_of_string J (bm_ulid m));
          r2 = j_set J r1 ''minTime'' (j_of_i64 J (bm_min_time m));
          r3 = j_set J r2 ''maxTime'' (j_of_i64 J (bm_max_time m));
          stats_obj = dump_stats J (bm_stats m) (j_object J);
          r4 = set_if J (\<not> j_empty J stats_obj) ''stats'' stats_obj r3;
          r5 = j_set J r4 ''compaction'' (dump_compaction J (bm_compaction m) (j_object J))
      in j_set J r5 ''version'' (j_of_int J (bm_version m)))"

text \<open>\<open>dump\<close> throws, out of the function, on a string that is not UTF-8.\<close>

definition encode_meta_json :: "'j json_ops \<Rightarrow> BlockMeta \<Rightarrow> string option" where
  "encode_meta_json J m = j_dump J (to_json J m)"

section \<open>The file\<close>

definition file_rename :: "string \<Rightarrow> string \<Rightarrow> Disk \<Rightarrow> Disk" where
  "file_rename src dst d =
     (case map_of (dk_files d) src of
        None \<Rightarrow> d
      | Some content \<Rightarrow> d\<lparr>dk_files := AList.delete src (AList.update dst content (dk_files d))\<rparr>)"

text \<open>
  A buffered stream: \<open>write\<close> may pass some bytes on and fail visibly, closing the stream passes
  on the rest, and what fails then is not reported.
\<close>

definition stream_write :: "string \<Rightarrow> bytes \<Rightarrow> Disk \<Rightarrow> (block_error + nat) \<times> Disk" where
  "stream_write fd content d =
     (case syscall d of
        (Done, d1) \<Rightarrow> (Inr 0, d1)
      | (Partial n, d1) \<Rightarrow> (Inr (min n (length content)), file_append fd (take n content) d1)
      | (Interrupted, d1) \<Rightarrow> (Inl (Errc (Os k_EINTR)), d1)
      | (Failed e, d1) \<Rightarrow> (Inl (Errc (Os e)), d1))"

definition stream_close :: "string \<Rightarrow> bytes \<Rightarrow> Disk \<Rightarrow> Disk" where
  "stream_close fd rest d =
     (case syscall d of
        (Done, d1) \<Rightarrow> file_append fd rest d1
      | (Partial n, d1) \<Rightarrow> file_append fd (take n rest) d1
      | (_, d1) \<Rightarrow> d1)"

definition write_tmp :: "string \<Rightarrow> bytes \<Rightarrow> Disk \<Rightarrow> (block_error + unit) \<times> Disk" where
  "write_tmp tmp_path content d =
     (case sys_simple d of
        (Inl e, d1) \<Rightarrow> (Inl (Errc e), d1)
      | (Inr _, d1) \<Rightarrow>
          (case stream_write tmp_path content (file_create tmp_path d1) of
             (Inl e, d2) \<Rightarrow> (Inl e, stream_close tmp_path [] d2)
           | (Inr n, d2) \<Rightarrow> (Inr (), stream_close tmp_path (drop n content) d2)))"

text \<open>The directory is synchronised if it can be opened; errors are ignored.\<close>

definition sync_dir :: "Disk \<Rightarrow> Disk" where
  "sync_dir d =
     (case sys_simple d of
        (Inl _, d1) \<Rightarrow> d1
      | (Inr _, d1) \<Rightarrow> snd (sys_simple (snd (sys_simple d1))))"

definition atomic_write :: "string \<Rightarrow> bytes \<Rightarrow> Disk \<Rightarrow> (block_error + unit) \<times> Disk" where
  "atomic_write path content d =
     (let tmp_path = path @ ''.tmp'' in
      case write_tmp tmp_path content d of
        (Inl e, d1) \<Rightarrow> (Inl e, d1)
      | (Inr _, d1) \<Rightarrow>
          (case sys_simple d1 of
             (Inl e, d2) \<Rightarrow> (Inl (Errc e), d2)
           | (Inr _, d2) \<Rightarrow> (Inr (), sync_dir (file_rename tmp_path path d2))))"

definition write_meta :: "'j json_ops \<Rightarrow> BlockMeta \<Rightarrow> Disk \<Rightarrow> (block_error + unit) \<times> Disk" where
  "write_meta J meta d =
     (case encode_meta_json J meta of
        None \<Rightarrow> (Inl Throws, d)
      | Some text \<Rightarrow> atomic_write k_meta_filename (string_bytes text) d)"

text \<open>Reading through a string stream: a read that breaks off just ends the text.\<close>

definition read_meta :: "'j json_ops \<Rightarrow> Disk \<Rightarrow> (block_error + BlockMeta) \<times> Disk" where
  "read_meta J d =
     (case sys_simple d of
        (Inl e, d1) \<Rightarrow> (Inl (Errc e), d1)
      | (Inr _, d1) \<Rightarrow>
          (case map_of (dk_files d1) k_meta_filename of
             None \<Rightarrow> (Inl (Errc (Os 2)), d1)
           | Some content \<Rightarrow>
               (case syscall d1 of
                  (Done, d2) \<Rightarrow> (decode_meta_json J (bytes_string content), d2)
                | (Partial n, d2) \<Rightarrow> (decode_meta_json J (bytes_string (take n content)), d2)
                | (_, d2) \<Rightarrow> (decode_meta_json J [], d2))))"

section \<open>From and to JSON values\<close>

lemma json_find:
  assumes "json_laws J"
  shows "j_find J (j_null J) k = None" "j_find J (j_object J) k = None"
    "settable J v \<Longrightarrow> j_find J (j_set J v k x) k' = (if k' = k then Some x else j_find J v k')"
    "settable J v \<Longrightarrow> j_find J (set_if J b k x v) k' = (if b \<and> k' = k then Some x else j_find J v k')"
  using assms by (simp_all add: json_laws_def set_if_def)

lemma json_shape:
  assumes "json_laws J"
  shows "j_empty J (j_object J)" "j_is_object J (j_object J)" "settable J (j_null J)" "j_is_object J v \<Longrightarrow> settable J v"
    "settable J v \<Longrightarrow> j_is_object J (j_set J v k x)" "settable J v \<Longrightarrow> \<not> j_empty J (j_set J v k x)"
    "j_is_object J v \<Longrightarrow> j_is_object J (set_if J b k x v)"
    "settable J v \<Longrightarrow> j_empty J (set_if J b k x v) \<longleftrightarrow> \<not> b \<and> j_empty J v"
    "j_is_array J (j_array J xs)" "j_elems J (j_array J xs) = xs"
  using assms by (auto simp: json_laws_def set_if_def settable_def)

lemma json_get:
  assumes "json_laws J"
  shows "j_get_u64 J (j_of_u64 J a) = Some a" "\<not> j_is_null J (j_of_u64 J a)"
    "j_get_i64 J (j_of_i64 J b) = Some b" "\<not> j_is_null J (j_of_i64 J b)"
    "j_get_int J (j_of_int J c) = Some c" "\<not> j_is_null J (j_of_int J c)"
    "j_get_bool J (j_of_bool J d) = Some d" "\<not> j_is_null J (j_of_bool J d)"
    "j_get_string J (j_of_string J e) = Some e" "\<not> j_is_null J (j_of_string J e)"
    "j_get_strings J (j_of_strings J f) = Some f" "\<not> j_is_null J (j_of_strings J f)"
  using assms by (simp_all add: json_laws_def)

lemma load_dump_stats:
  "json_laws J \<Longrightarrow> load_stats J (dump_stats J s (j_object J)) BlockStats_init = Some s"
  by (simp add: load_stats_def dump_stats_def BlockStats_init_def load_if_present_def json_find json_get json_shape)

lemma dump_stats_object: "json_laws J \<Longrightarrow> j_is_object J (dump_stats J s (j_object J))"
  by (simp add: dump_stats_def json_shape)

lemma dump_stats_empty: "json_laws J \<Longrightarrow> j_empty J (dump_stats J s (j_object J)) \<longleftrightarrow> s = BlockStats_init"
  by (cases s) (auto simp: dump_stats_def BlockStats_init_def json_shape)

lemma load_dump_parents:
  "json_laws J \<Longrightarrow> load_parents J (map (\<lambda>p. dump_block_desc J p (j_null J)) ps) out = Some (out @ ps)"
  by (induction ps arbitrary: out)
    (simp_all add: load_block_desc_def dump_block_desc_def load_if_present_def json_find json_get json_shape)

lemma load_dump_compaction:
  "json_laws J \<Longrightarrow> load_compaction J (dump_compaction J c (j_object J)) BlockMetaCompaction_init = Some c"
  by (cases c) (simp add: load_compaction_def dump_compaction_def BlockMetaCompaction_init_def load_if_present_def
      json_find json_get json_shape load_dump_parents)

lemma dump_compaction_object: "json_laws J \<Longrightarrow> j_is_object J (dump_compaction J c (j_object J))"
  by (simp add: dump_compaction_def json_shape)

lemma from_to_json:
  assumes "json_laws J" "bm_version m = k_meta_version_1"
  shows "from_json J (to_json J m) = Inr m"
proof -
  have stats: "load_object J (load_stats J) (to_json J m) ''stats'' BlockStats_init = Some (bm_stats m)"
    using assms(1) by (auto simp: load_object_def to_json_def Let_def json_find json_shape dump_stats_object dump_stats_empty load_dump_stats)
  have comp: "load_object J (load_compaction J) (to_json J m) ''compaction'' BlockMetaCompaction_init = Some (bm_compaction m)"
    using assms(1) by (simp add: load_object_def to_json_def Let_def json_find json_shape dump_compaction_object load_dump_compaction)
  have fields: "load_if_present J (j_get_int J) (to_json J m) ''version'' v = Some (bm_version m)"
    "load_if_present J (j_get_string J) (to_json J m) ''ulid'' u = Some (bm_ulid m)"
    "load_if_present J (j_get_i64 J) (to_json J m) ''minTime'' a = Some (bm_min_time m)"
    "load_if_present J (j_get_i64 J) (to_json J m) ''maxTime'' b = Some (bm_max_time m)" for v u a b
    using assms(1) by (simp_all add: load_if_present_def to_json_def Let_def json_find json_get json_shape)
  show ?thesis
    using assms(2) by (simp add: from_json_def fields stats comp BlockMeta_init_def)
qed

lemma decode_encode_meta:
  "json_laws J \<Longrightarrow> bm_version m = k_meta_version_1 \<Longrightarrow> encode_meta_json J m = Some t \<Longrightarrow> decode_meta_json J t = Inr m"
  by (simp add: decode_meta_json_def encode_meta_json_def from_to_json) (simp add: json_laws_def from_to_json)

section \<open>Replacing the file\<close>

lemma map_of_delete: "map_of (AList.delete k xs) = (map_of xs)(k := None)"
  by (simp add: AList.delete_conv')

lemma file_rename_files:
  "map_of (dk_files d) src = Some c \<Longrightarrow>
   map_of (dk_files (file_rename src dst d)) = (map_of (dk_files d))(dst \<mapsto> c, src := None)"
  by (simp add: file_rename_def map_of_delete AList.update_conv')

lemma file_append_other:
  "f \<noteq> fd \<Longrightarrow> map_of (dk_files (file_append fd bs d)) f = map_of (dk_files d) f"
  by (simp add: file_append_def AList.update_conv' split: option.splits)

lemma file_append_at:
  "map_of (dk_files d) fd = Some old \<Longrightarrow> map_of (dk_files (file_append fd bs d)) fd = Some (old @ bs)"
  by (simp add: map_of_file_append)

lemma file_create_files: "map_of (dk_files (file_create fd d)) = (map_of (dk_files d))(fd \<mapsto> [])"
  by (simp add: file_create_def AList.update_conv')

text \<open>
  Whatever happens on the way, no other file is touched, and the target has either its old content
  or, if the rename was reached, a prefix of the new one: all of it when closing the stream did
  not fail.
\<close>

lemma stream_write_tmp:
  assumes "stream_write fd content d = (r, d')" "map_of (dk_files d) fd = Some []"
  shows "\<exists>k \<le> length content. map_of (dk_files d') fd = Some (take k content) \<and> (\<forall>n. r = Inr n \<longrightarrow> n = k)"
    "f \<noteq> fd \<Longrightarrow> map_of (dk_files d') f = map_of (dk_files d) f"
proof -
  obtain x d1 where sys: "syscall d = (x, d1)" by fastforce
  note disk = syscall_disk [OF sys]
  show "\<exists>k \<le> length content. map_of (dk_files d') fd = Some (take k content) \<and> (\<forall>n. r = Inr n \<longrightarrow> n = k)"
  proof (cases x)
    case (Partial n)
    then show ?thesis
      using assms sys disk file_append_at [of d1 fd "[]" "take n content"]
      by (intro exI [of _ "min n (length content)"]) (auto simp: stream_write_def min_def)
  qed (use assms sys disk in \<open>auto simp: stream_write_def intro!: exI [of _ 0]\<close>)
  show "f \<noteq> fd \<Longrightarrow> map_of (dk_files d') f = map_of (dk_files d) f"
    using assms sys disk by (auto simp: stream_write_def file_append_other split: io_result.splits)
qed

lemma stream_close_tmp:
  assumes "map_of (dk_files d) fd = Some old"
  shows "\<exists>k. map_of (dk_files (stream_close fd rest d)) fd = Some (old @ take k rest)"
    "f \<noteq> fd \<Longrightarrow> map_of (dk_files (stream_close fd rest d)) f = map_of (dk_files d) f"
    "dk_faults d = [] \<Longrightarrow> map_of (dk_files (stream_close fd rest d)) fd = Some (old @ rest)"
    "dk_faults d = [] \<Longrightarrow> dk_faults (stream_close fd rest d) = []"
proof -
  obtain x d1 where sys: "syscall d = (x, d1)" by fastforce
  note disk = syscall_disk [OF sys]
  show "\<exists>k. map_of (dk_files (stream_close fd rest d)) fd = Some (old @ take k rest)"
  proof (cases x)
    case Done
    then show ?thesis using assms sys disk file_append_at [of d1 fd old rest]
      by (intro exI [of _ "length rest"]) (simp add: stream_close_def)
  next
    case (Partial n)
    then show ?thesis using assms sys disk file_append_at [of d1 fd old "take n rest"]
      by (intro exI [of _ n]) (simp add: stream_close_def)
  qed (use assms sys disk in \<open>auto simp: stream_close_def intro!: exI [of _ 0]\<close>)
  show "f \<noteq> fd \<Longrightarrow> map_of (dk_files (stream_close fd rest d)) f = map_of (dk_files d) f"
    using sys disk by (auto simp: stream_close_def file_append_other split: io_result.splits)
  show "dk_faults d = [] \<Longrightarrow> map_of (dk_files (stream_close fd rest d)) fd = Some (old @ rest)"
    "dk_faults d = [] \<Longrightarrow> dk_faults (stream_close fd rest d) = []"
    using assms file_append_at [of d fd old rest] by (simp_all add: stream_close_def syscall_def)
qed

lemma write_tmp_spec:
  assumes run: "write_tmp fd content d = (r, d')"
  shows "f \<noteq> fd \<Longrightarrow> map_of (dk_files d') f = map_of (dk_files d) f"
    and "r = Inr u \<Longrightarrow> \<exists>k. map_of (dk_files d') fd = Some (take k content)"
    and "dk_faults d = [] \<Longrightarrow> r = Inr () \<and> map_of (dk_files d') fd = Some content \<and> dk_faults d' = []"
proof -
  obtain r1 d1 where s1: "sys_simple d = (r1, d1)" by fastforce
  obtain r2 d2 where s2: "stream_write fd content (file_create fd d1) = (r2, d2)" by fastforce
  have base: "map_of (dk_files (file_create fd d1)) = (map_of (dk_files d))(fd \<mapsto> [])"
    using sys_simple_disk [OF s1] by (simp add: file_create_files)
  obtain k where k: "map_of (dk_files d2) fd = Some (take k content)" "\<forall>n. r2 = Inr n \<longrightarrow> n = k"
    using stream_write_tmp(1) [OF s2] base by auto
  show "map_of (dk_files d') f = map_of (dk_files d) f" if "f \<noteq> fd"
    using run s1 s2 base stream_write_tmp(2) [OF s2 _ that] stream_close_tmp(2) [OF k(1) that] sys_simple_disk [OF s1] that
    by (auto simp: write_tmp_def split: sum.splits)
  show "\<exists>k. map_of (dk_files d') fd = Some (take k content)" if "r = Inr u"
  proof -
    have "d' = stream_close fd (drop k content) d2"
      using run s1 s2 that k(2) by (auto simp: write_tmp_def split: sum.splits)
    then obtain j where "map_of (dk_files d') fd = Some (take k content @ take j (drop k content))"
      using stream_close_tmp(1) [OF k(1)] by blast
    then show ?thesis by (metis take_add)
  qed
  show "r = Inr () \<and> map_of (dk_files d') fd = Some content \<and> dk_faults d' = []" if "dk_faults d = []"
  proof -
    have "sys_simple d = (Inr (), d)" "stream_write fd content (file_create fd d) = (Inr 0, file_create fd d)"
      using that by (simp_all add: sys_simple_ok stream_write_def syscall_def file_create_def)
    then have "r = Inr ()" "d' = stream_close fd content (file_create fd d)"
      using run by (simp_all add: write_tmp_def)
    then show ?thesis
      using stream_close_tmp(3,4) [of "file_create fd d" fd "[]" content] that
      by (simp add: file_create_files) (simp add: file_create_def)
  qed
qed

lemma sys_simple_snd_files [simp]: "dk_files (snd (sys_simple d)) = dk_files d"
  by (metis prod.collapse sys_simple_disk)

lemma sync_dir_files: "dk_files (sync_dir d) = dk_files d"
  by (auto simp: sync_dir_def split: prod.splits sum.splits dest: sys_simple_disk)

lemma atomic_write_spec:
  assumes run: "atomic_write path content d = (r, d')"
  shows "f \<noteq> path \<Longrightarrow> f \<noteq> path @ ''.tmp'' \<Longrightarrow> map_of (dk_files d') f = map_of (dk_files d) f"
    and "r = Inl e \<Longrightarrow> map_of (dk_files d') path = map_of (dk_files d) path"
    and "r = Inr u \<Longrightarrow> \<exists>k. map_of (dk_files d') path = Some (take k content)"
    and "dk_faults d = [] \<Longrightarrow> r = Inr () \<and> map_of (dk_files d') path = Some content \<and> dk_faults d' = []"
proof -
  let ?tmp = "path @ ''.tmp''"
  obtain r1 d1 where w: "write_tmp ?tmp content d = (r1, d1)" by fastforce
  obtain r2 d2 where s: "sys_simple d1 = (r2, d2)" by fastforce
  note tmp = write_tmp_spec [OF w] and disk = sys_simple_disk [OF s]
  have err: "dk_files d' = dk_files d1" if "r = Inl e" for e
    using that run w s disk by (auto simp: atomic_write_def Let_def split: sum.splits)
  have ok: "\<exists>k. map_of (dk_files d') = (map_of (dk_files d1))(path \<mapsto> take k content, ?tmp := None) \<and>
      map_of (dk_files d1) ?tmp = Some (take k content)" if "r = Inr u" for u
  proof -
    have *: "r1 = Inr ()" "d' = sync_dir (file_rename ?tmp path d2)"
      using that run w s by (auto simp: atomic_write_def Let_def split: sum.splits)
    then obtain k where "map_of (dk_files d1) ?tmp = Some (take k content)" using tmp(2) by blast
    then show ?thesis using file_rename_files [of d2 ?tmp "take k content" path] disk *(2) by (auto simp: sync_dir_files)
  qed
  show "map_of (dk_files d') f = map_of (dk_files d) f" if "f \<noteq> path" "f \<noteq> ?tmp"
  proof (cases r)
    case (Inr u)
    then show ?thesis using ok [OF Inr] that tmp(1) [OF that(2)] by auto
  qed (use err tmp(1) that in auto)
  show "map_of (dk_files d') path = map_of (dk_files d) path" if "r = Inl e"
    using err [OF that] tmp(1) [of path] by simp
  show "\<exists>k. map_of (dk_files d') path = Some (take k content)" if "r = Inr u"
    using ok [OF that] by (auto simp: fun_upd_def)
  show "r = Inr () \<and> map_of (dk_files d') path = Some content \<and> dk_faults d' = []" if "dk_faults d = []"
  proof -
    have *: "r1 = Inr ()" "dk_faults d1 = []" "map_of (dk_files d1) ?tmp = Some content" using tmp(3) [OF that] by auto
    then have d': "r = Inr ()" "d' = sync_dir (file_rename ?tmp path d1)"
      using run w by (simp_all add: atomic_write_def sys_simple_ok)
    have "dk_faults d' = []"
      using *(2,3) d'(2) by (simp add: sync_dir_def sys_simple_ok file_rename_def)
    then show ?thesis using ok [OF d'(1)] *(3) d'(1) by auto
  qed
qed

section \<open>Texts\<close>

text \<open>
  When \<open>dump\<close> does not throw: the library documents an exception only for strings that are not
  UTF-8. So values put together from ASCII strings have a text, and so have descriptors with
  ASCII names.
\<close>

definition ascii :: "string \<Rightarrow> bool" where
  "ascii s \<longleftrightarrow> (\<forall>c \<in> set s. (of_char c :: nat) < 128)"

inductive ascii_json :: "'j json_ops \<Rightarrow> 'j \<Rightarrow> bool" for J where
  null [intro!]: "ascii_json J (j_null J)"
| object [intro!]: "ascii_json J (j_object J)"
| "set" [intro]: "ascii_json J v \<Longrightarrow> ascii k \<Longrightarrow> ascii_json J x \<Longrightarrow> ascii_json J (j_set J v k x)"
| array [intro!]: "\<forall>x \<in> set xs. ascii_json J x \<Longrightarrow> ascii_json J (j_array J xs)"
| u64 [intro!]: "ascii_json J (j_of_u64 J n)"
| i64 [intro!]: "ascii_json J (j_of_i64 J i)"
| int [intro!]: "ascii_json J (j_of_int J k)"
| bool [intro!]: "ascii_json J (j_of_bool J b)"
| string [intro!]: "ascii s \<Longrightarrow> ascii_json J (j_of_string J s)"
| strings [intro!]: "list_all ascii ss \<Longrightarrow> ascii_json J (j_of_strings J ss)"

definition json_dumps :: "'j json_ops \<Rightarrow> bool" where
  "json_dumps J \<longleftrightarrow> (\<forall>v. ascii_json J v \<longrightarrow> j_dump J v \<noteq> None)"

definition meta_ascii :: "BlockMeta \<Rightarrow> bool" where
  "meta_ascii m \<longleftrightarrow> ascii (bm_ulid m) \<and> list_all ascii (bc_sources (bm_compaction m)) \<and>
     list_all ascii (bc_hints (bm_compaction m)) \<and> list_all (ascii \<circ> bd_ulid) (bc_parents (bm_compaction m))"

lemma set_if_ascii:
  "ascii_json J v \<Longrightarrow> ascii k \<Longrightarrow> (b \<Longrightarrow> ascii_json J x) \<Longrightarrow> ascii_json J (set_if J b k x v)"
  by (auto simp: set_if_def)

lemma meta_dumps:
  assumes "json_dumps J" "meta_ascii m"
  shows "\<exists>t. encode_meta_json J m = Some t"
proof -
  have stats: "ascii_json J (dump_stats J s (j_object J))" for s
    unfolding dump_stats_def by (intro set_if_ascii) (auto simp: ascii_def)
  have desc: "ascii_json J (dump_block_desc J p (j_null J))" if "ascii (bd_ulid p)" for p
    unfolding dump_block_desc_def using that by (intro ascii_json.intros) (auto simp: ascii_def)
  have "ascii_json J (dump_compaction J (bm_compaction m) (j_object J))"
    unfolding dump_compaction_def using assms(2) desc
    by (intro set_if_ascii ascii_json.intros) (auto simp: ascii_def meta_ascii_def list_all_iff)
  then have "ascii_json J (to_json J m)"
    unfolding to_json_def Let_def using stats assms(2)
    by (intro ascii_json.set set_if_ascii) (auto simp: ascii_def meta_ascii_def)
  then show ?thesis using assms(1) by (auto simp: json_dumps_def encode_meta_json_def)
qed

section \<open>Properties\<close>

text \<open>
  C21. A descriptor survives the way through the file: without failing calls \<open>write_meta\<close> succeeds
  and \<open>read_meta\<close> returns exactly the descriptor that was written, fields left out because they
  are zero or empty included, and no other file but the temporary one is touched. The descriptor
  must have version 1, the only one the reader accepts, and its strings must be dumpable.
\<close>

theorem meta_roundtrip:
  assumes "json_laws J" and "bm_version m = k_meta_version_1" and "encode_meta_json J m = Some t"
    and "dk_faults d = []"
  shows "\<exists>d'. write_meta J m d = (Inr (), d') \<and> read_meta J d' = (Inr m, d') \<and>
     (\<forall>f. f \<noteq> k_meta_filename \<longrightarrow> f \<noteq> k_meta_filename @ ''.tmp'' \<longrightarrow>
        map_of (dk_files d') f = map_of (dk_files d) f)"
proof -
  obtain r d' where w: "atomic_write k_meta_filename (string_bytes t) d = (r, d')" by fastforce
  note spec = atomic_write_spec [OF w]
  have "r = Inr ()" "map_of (dk_files d') k_meta_filename = Some (string_bytes t)" "dk_faults d' = []"
    using spec(4) [OF assms(4)] by simp_all
  moreover from this have "write_meta J m d = (Inr (), d')"
    using w assms(3) by (simp add: write_meta_def)
  ultimately show ?thesis
    using spec(1) decode_encode_meta [OF assms(1-3)] by (simp add: read_meta_def sys_simple_ok syscall_def)
qed

text \<open>
  A value type and a library for it, on which the laws can be checked: objects are association
  lists, and the text of a value is its number.
\<close>

datatype jv = JNull | JU u64 | JI i64 | JN i32 | JB bool | JS string | JSS "string list" | JA "jv list" | JO "(string \<times> jv) list"

instance jv :: countable
  by countable_datatype

fun jv_set :: "jv \<Rightarrow> string \<Rightarrow> jv \<Rightarrow> jv" where
  "jv_set (JO kvs) k x = JO ((k, x) # kvs)"
| "jv_set _ k x = JO [(k, x)]"

fun jv_find :: "jv \<Rightarrow> string \<Rightarrow> jv option" where
  "jv_find (JO kvs) k = map_of kvs k"
| "jv_find _ k = None"

definition jv_ops :: "jv json_ops" where
  "jv_ops = \<lparr>j_parse = (\<lambda>t. Some (from_nat (length t))), j_dump = (\<lambda>v. Some (replicate (to_nat v) CHR ''x'')),
     j_null = JNull, j_object = JO [], j_array = JA,
     j_set = jv_set, j_find = jv_find, j_elems = (\<lambda>v. case v of JA xs \<Rightarrow> xs | _ \<Rightarrow> []),
     j_is_null = (\<lambda>v. v = JNull), j_is_object = (\<lambda>v. case v of JO _ \<Rightarrow> True | _ \<Rightarrow> False),
     j_is_array = (\<lambda>v. case v of JA _ \<Rightarrow> True | _ \<Rightarrow> False),
     j_empty = (\<lambda>v. case v of JO kvs \<Rightarrow> kvs = [] | _ \<Rightarrow> False),
     j_of_u64 = JU, j_of_i64 = JI, j_of_int = JN, j_of_bool = JB, j_of_string = JS, j_of_strings = JSS,
     j_get_u64 = (\<lambda>v. case v of JU x \<Rightarrow> Some x | _ \<Rightarrow> None), j_get_i64 = (\<lambda>v. case v of JI x \<Rightarrow> Some x | _ \<Rightarrow> None),
     j_get_int = (\<lambda>v. case v of JN x \<Rightarrow> Some x | _ \<Rightarrow> None), j_get_bool = (\<lambda>v. case v of JB x \<Rightarrow> Some x | _ \<Rightarrow> None),
     j_get_string = (\<lambda>v. case v of JS x \<Rightarrow> Some x | _ \<Rightarrow> None),
     j_get_strings = (\<lambda>v. case v of JSS x \<Rightarrow> Some x | _ \<Rightarrow> None)\<rparr>"

lemma jv_find_set: "jv_find (jv_set v k x) k' = (if k' = k then Some x else jv_find v k')"
  by (cases v) simp_all

lemma jv_set_object: "\<exists>kvs. jv_set v k x = JO kvs \<and> kvs \<noteq> []"
  by (cases v) simp_all

lemma jv_laws: "json_laws jv_ops"
proof -
  have "j_is_object jv_ops (jv_set v k x) \<and> \<not> j_empty jv_ops (jv_set v k x) \<and> jv_set v k x \<noteq> JNull" for v k x
    using jv_set_object [of v k x] by (auto simp: jv_ops_def)
  then show ?thesis
    by (simp add: json_laws_def jv_ops_def jv_find_set)
qed

lemma jv_encode: "\<exists>t. encode_meta_json jv_ops m = Some t"
  by (simp add: encode_meta_json_def jv_ops_def)

lemma jv_dumps: "json_dumps jv_ops"
  by (simp add: json_dumps_def jv_ops_def)

theorem meta_roundtrip_witness:
  "\<exists>d d'. write_meta jv_ops (BlockMeta_init\<lparr>bm_ulid := ''A'', bm_max_time := 7\<rparr>) d = (Inr (), d') \<and>
     read_meta jv_ops d' = (Inr (BlockMeta_init\<lparr>bm_ulid := ''A'', bm_max_time := 7\<rparr>), d')"
proof -
  let ?m = "BlockMeta_init\<lparr>bm_ulid := ''A'', bm_max_time := 7\<rparr>" and ?d = "\<lparr>dk_dir = True, dk_files = [], dk_faults = []\<rparr>"
  obtain t where "encode_meta_json jv_ops ?m = Some t" using jv_encode by blast
  moreover have "bm_version ?m = k_meta_version_1" by (simp add: BlockMeta_init_def)
  ultimately obtain d' where "write_meta jv_ops ?m ?d = (Inr (), d')" "read_meta jv_ops d' = (Inr ?m, d')"
    using meta_roundtrip [OF jv_laws, of ?m t ?d] by auto
  then show ?thesis by blast
qed

text \<open>
  C22. Updating the descriptor is atomic for its readers: if \<open>write_meta\<close> reports an error, after
  any failures, the file has its old content, and if it reports success the file is a prefix of
  the new text; no other file but the temporary one is touched. The prefix can be proper: the
  error of the flush that closing the stream makes is not reported, so in the worst case a
  descriptor was replaced by an empty file and the call succeeded.
\<close>

theorem meta_update_atomic:
  assumes "write_meta J m d = (r, d')"
  shows "(\<forall>e. r = Inl e \<longrightarrow> map_of (dk_files d') k_meta_filename = map_of (dk_files d) k_meta_filename) \<and>
     (r = Inr () \<longrightarrow> (\<exists>t k. encode_meta_json J m = Some t \<and>
        map_of (dk_files d') k_meta_filename = Some (take k (string_bytes t)))) \<and>
     (\<forall>f. f \<noteq> k_meta_filename \<longrightarrow> f \<noteq> k_meta_filename @ ''.tmp'' \<longrightarrow>
        map_of (dk_files d') f = map_of (dk_files d) f) \<and>
     (\<forall>t. encode_meta_json J m = Some t \<longrightarrow> (\<exists>d0 d1. dk_files d0 = dk_files d \<and>
        write_meta J m d0 = (Inr (), d1) \<and> map_of (dk_files d1) k_meta_filename = Some []))"
proof (cases "encode_meta_json J m")
  case (Some t)
  then have w: "atomic_write k_meta_filename (string_bytes t) d = (r, d')" using assms by (simp add: write_meta_def)
  let ?d0 = "d\<lparr>dk_faults := [Done, Done, Failed 28]\<rparr>" and ?p = "k_meta_filename"
  let ?d2 = "file_create (?p @ ''.tmp'') (d\<lparr>dk_faults := []\<rparr>)"
  have "write_tmp (?p @ ''.tmp'') (string_bytes t) ?d0 = (Inr (), ?d2)"
    by (simp add: write_tmp_def sys_simple_def syscall_def stream_write_def stream_close_def file_create_def)
  moreover have "dk_faults ?d2 = []" by (simp add: file_create_def)
  ultimately have "write_meta J m ?d0 = (Inr (), sync_dir (file_rename (?p @ ''.tmp'') ?p ?d2))"
    using Some by (simp add: write_meta_def atomic_write_def Let_def sys_simple_ok)
  moreover have "map_of (dk_files (sync_dir (file_rename (?p @ ''.tmp'') ?p ?d2))) ?p = Some []"
    using file_rename_files [of ?d2 "?p @ ''.tmp''" "[]" ?p] by (simp add: sync_dir_files file_create_files)
  moreover have "dk_files ?d0 = dk_files d" by simp
  ultimately have "\<exists>d0 d1. dk_files d0 = dk_files d \<and> write_meta J m d0 = (Inr (), d1) \<and> map_of (dk_files d1) ?p = Some []"
    by blast
  then show ?thesis using atomic_write_spec [OF w] Some by auto
qed (use assms in \<open>auto simp: write_meta_def\<close>)

theorem meta_update_atomic_witness:
  "\<exists>d'. snd (write_meta jv_ops BlockMeta_init \<lparr>dk_dir = True, dk_files = [(''index'', [1])], dk_faults = [Failed 28]\<rparr>) = d' \<and>
     map_of (dk_files d') ''index'' = Some [1]"
proof -
  let ?d = "\<lparr>dk_dir = True, dk_files = [(''index'', [1])], dk_faults = [Failed 28]\<rparr>"
  obtain r d' where "write_meta jv_ops BlockMeta_init ?d = (r, d')" by fastforce
  then show ?thesis
    using meta_update_atomic [of jv_ops BlockMeta_init ?d r d'] by (simp add: k_meta_filename_def)
qed

end
