(* ===== verification/Block.thy ===== *)
theory Block
  imports IndexRoundtrip Meta Ulid HeadSelect "HOL-Library.Product_Lexorder"
begin

text \<open>
  Persistent blocks (src/block/block.cpp, block/block.hpp): a directory with the descriptor, the
  index and the chunk segments; queries by label pair and by matchers; creation from series, from
  a head, and from other blocks. Directories are named in a store; the directory of a block and
  its \<open>chunks\<close> directory have a disk each, with the outcomes of the calls on it. Clock, random
  device, JSON library, regular expressions and the iteration order of the hash map are
  parameters.
\<close>

section \<open>Blocks\<close>

record BlockDir =
  bk_top :: Disk
  bk_chunks :: Disk

record Block =
  blk_meta :: BlockMeta
  blk_index :: IndexReader
  blk_chunks :: ChunkReader

record ChunkInput =
  cin_min_time :: i64
  cin_max_time :: i64
  cin_bytes :: bytes

record SeriesInput =
  si_labels :: Labels
  si_chunks :: "ChunkInput list"

definition Block_open :: "'j json_ops \<Rightarrow> BlockDir \<Rightarrow> (block_error + Block) \<times> BlockDir" where
  "Block_open J b =
     (if \<not> dk_dir (bk_top b) then (Inl (Errc Not_a_directory), b)
      else case read_meta J (bk_top b) of
        (Inl e, t1) \<Rightarrow> (Inl e, b\<lparr>bk_top := t1\<rparr>)
      | (Inr meta, t1) \<Rightarrow>
          (case IndexReader_open ''index'' t1 of
             (Inl e, t2) \<Rightarrow> (Inl e, b\<lparr>bk_top := t2\<rparr>)
           | (Inr index, t2) \<Rightarrow>
               (case ChunkReader_open (bk_chunks b) of
                  (Inl e, c1) \<Rightarrow> (Inl e, \<lparr>bk_top = t2, bk_chunks = c1\<rparr>)
                | (Inr chunks, c1) \<Rightarrow>
                    (Inr \<lparr>blk_meta = meta, blk_index = index, blk_chunks = chunks\<rparr>,
                     \<lparr>bk_top = t2, bk_chunks = c1\<rparr>))))"

section \<open>Resolving matchers\<close>

text \<open>\<open>std::set_intersection\<close> and \<open>std::set_difference\<close> on sorted ranges.\<close>

fun sorted_intersection :: "u32 list \<Rightarrow> u32 list \<Rightarrow> u32 list" where
  "sorted_intersection (x # xs) (y # ys) =
     (if x < y then sorted_intersection xs (y # ys)
      else if y < x then sorted_intersection (x # xs) ys
      else x # sorted_intersection xs ys)"
| "sorted_intersection _ _ = []"

fun sorted_difference :: "u32 list \<Rightarrow> u32 list \<Rightarrow> u32 list" where
  "sorted_difference [] ys = []"
| "sorted_difference (x # xs) [] = x # xs"
| "sorted_difference (x # xs) (y # ys) =
     (if x < y then x # sorted_difference xs (y # ys)
      else if y < x then sorted_difference (x # xs) ys
      else sorted_difference xs ys)"

text \<open>Series without the label.\<close>

definition postings_without :: "IndexReader \<Rightarrow> string \<Rightarrow> block_error + u32 list" where
  "postings_without idx name =
     (case all_postings idx of
        Inl e \<Rightarrow> Inl e
      | Inr all \<Rightarrow>
          (case postings_for_name idx name of
             Inl e \<Rightarrow> Inl e
           | Inr with_label \<Rightarrow> Inr (sorted_difference all with_label)))"

text \<open>The union of the lists of the values a predicate accepts.\<close>

fun postings_of_values :: "IndexReader \<Rightarrow> string \<Rightarrow> (string \<Rightarrow> bool) \<Rightarrow> string list \<Rightarrow> u32 list \<Rightarrow> block_error + u32 list" where
  "postings_of_values idx name accept [] out = Inr out"
| "postings_of_values idx name accept (v # vs) out =
     (if \<not> accept v then postings_of_values idx name accept vs out
      else case postings idx name v of
        Inl e \<Rightarrow> Inl e
      | Inr ids \<Rightarrow> postings_of_values idx name accept vs (out @ ids))"

text \<open>Series whose value, the empty string if there is none, the predicate accepts.\<close>

definition postings_accepted :: "IndexReader \<Rightarrow> string \<Rightarrow> (string \<Rightarrow> bool) \<Rightarrow> block_error + u32 list" where
  "postings_accepted idx name accept =
     (case postings_of_values idx name accept (label_values idx name) [] of
        Inl e \<Rightarrow> Inl e
      | Inr out \<Rightarrow>
          if accept [] then
            (case postings_without idx name of
               Inl e \<Rightarrow> Inl e
             | Inr without \<Rightarrow> Inr (sort_unique (out @ without)))
          else Inr (sort_unique out))"

definition postings_for_matcher ::
  "('re \<Rightarrow> string \<Rightarrow> bool) \<Rightarrow> IndexReader \<Rightarrow> 're Matcher \<Rightarrow> block_error + u32 list" where
  "postings_for_matcher rmatch idx m =
     (case m_type m of
        Eq \<Rightarrow> if m_value m = [] then postings_without idx (m_name m) else postings idx (m_name m) (m_value m)
      | Neq \<Rightarrow>
          if m_value m = [] then postings_for_name idx (m_name m)
          else (case all_postings idx of
                  Inl e \<Rightarrow> Inl e
                | Inr all \<Rightarrow>
                    (case postings idx (m_name m) (m_value m) of
                       Inl e \<Rightarrow> Inl e
                     | Inr eq \<Rightarrow> Inr (sorted_difference all eq)))
      | Re \<Rightarrow> postings_accepted idx (m_name m) (matches rmatch m)
      | Nre \<Rightarrow>
          (case postings_accepted idx (m_name m) (regex_matches rmatch m) of
             Inl e \<Rightarrow> Inl e
           | Inr matching \<Rightarrow>
               (case all_postings idx of
                  Inl e \<Rightarrow> Inl e
                | Inr all \<Rightarrow> Inr (sorted_difference all matching))))"

text \<open>The loop stops early once no series is left.\<close>

fun intersect_matchers ::
  "('re \<Rightarrow> string \<Rightarrow> bool) \<Rightarrow> IndexReader \<Rightarrow> 're Matcher list \<Rightarrow> u32 list \<Rightarrow> block_error + u32 list" where
  "intersect_matchers rmatch idx [] ids = Inr ids"
| "intersect_matchers rmatch idx (m # ms) ids =
     (if ids = [] then Inr ids
      else case postings_for_matcher rmatch idx m of
        Inl e \<Rightarrow> Inl e
      | Inr next_ids \<Rightarrow> intersect_matchers rmatch idx ms (sorted_intersection ids next_ids))"

section \<open>Queries\<close>

text \<open>A chunk of a series, which must be XOR encoded.\<close>

definition load_chunk :: "ChunkMeta \<Rightarrow> ChunkReader \<Rightarrow> Disk \<Rightarrow> (block_error + XORChunk) \<times> ChunkReader \<times> Disk" where
  "load_chunk cm r d =
     (case chunk_read (from_u64 (cm_ref cm)) r d of
        (Inl e, r1, d1) \<Rightarrow> (Inl e, r1, d1)
      | (Inr p, r1, d1) \<Rightarrow>
          if cp_encoding p \<noteq> Encoding_XOR then (Inl Not_supported, r1, d1)
          else (Inr (from_bytes (cp_data p)), r1, d1))"

fun load_chunks ::
  "(ChunkMeta \<Rightarrow> bool) \<Rightarrow> ChunkMeta list \<Rightarrow> ChunkReader \<Rightarrow> Disk \<Rightarrow>
   (block_error + (XORChunk \<times> ChunkMeta) list) \<times> ChunkReader \<times> Disk" where
  "load_chunks wanted [] r d = (Inr [], r, d)"
| "load_chunks wanted (cm # cms) r d =
     (if \<not> wanted cm then load_chunks wanted cms r d
      else case load_chunk cm r d of
        (Inl e, r1, d1) \<Rightarrow> (Inl e, r1, d1)
      | (Inr c, r1, d1) \<Rightarrow>
          (case load_chunks wanted cms r1 d1 of
             (Inl e, r2, d2) \<Rightarrow> (Inl e, r2, d2)
           | (Inr cs, r2, d2) \<Rightarrow> (Inr ((c, cm) # cs), r2, d2)))"

text \<open>The loop over the series ids; \<open>keep_empty\<close> tells whether a series without chunks is returned.\<close>

fun load_series ::
  "bool \<Rightarrow> (ChunkMeta \<Rightarrow> bool) \<Rightarrow> IndexReader \<Rightarrow> u32 list \<Rightarrow> ChunkReader \<Rightarrow> Disk \<Rightarrow>
   (block_error + QueryResult list) \<times> ChunkReader \<times> Disk" where
  "load_series keep_empty wanted idx [] r d = (Inr [], r, d)"
| "load_series keep_empty wanted idx (sid # sids) r d =
     (case ir_series idx (ucast sid) of
        Inl e \<Rightarrow> (Inl e, r, d)
      | Inr se \<Rightarrow>
          (case load_chunks wanted (se_chunks se) r d of
             (Inl e, r1, d1) \<Rightarrow> (Inl e, r1, d1)
           | (Inr cs, r1, d1) \<Rightarrow>
               (case load_series keep_empty wanted idx sids r1 d1 of
                  (Inl e, r2, d2) \<Rightarrow> (Inl e, r2, d2)
                | (Inr out, r2, d2) \<Rightarrow>
                    (Inr (if cs = [] \<and> \<not> keep_empty then out
                          else \<lparr>qr_labels = se_labels se, qr_chunks = map fst cs, qr_chunk_metas = map snd cs\<rparr> # out),
                     r2, d2))))"

definition overlaps :: "i64 \<Rightarrow> i64 \<Rightarrow> ChunkMeta \<Rightarrow> bool" where
  "overlaps mint maxt cm = (\<not> (sint (cm_min_time cm) > sint maxt \<or> sint (cm_max_time cm) < sint mint))"

definition Block_select ::
  "('re \<Rightarrow> string \<Rightarrow> bool) \<Rightarrow> 're Matcher list \<Rightarrow> i64 \<Rightarrow> i64 \<Rightarrow> Block \<Rightarrow> Disk \<Rightarrow>
   (block_error + QueryResult list) \<times> Block \<times> Disk" where
  "Block_select rmatch matchers mint maxt b d =
     (case matchers of
        [] \<Rightarrow> (Inl Invalid_arg, b, d)
      | m # ms \<Rightarrow>
          (case postings_for_matcher rmatch (blk_index b) m of
             Inl e \<Rightarrow> (Inl e, b, d)
           | Inr first \<Rightarrow>
               (case intersect_matchers rmatch (blk_index b) ms first of
                  Inl e \<Rightarrow> (Inl e, b, d)
                | Inr ids \<Rightarrow>
                    (case load_series False (overlaps mint maxt) (blk_index b) ids (blk_chunks b) d of
                       (r, cr, d1) \<Rightarrow> (r, b\<lparr>blk_chunks := cr\<rparr>, d1)))))"

definition Block_query ::
  "string \<Rightarrow> string \<Rightarrow> Block \<Rightarrow> Disk \<Rightarrow> (block_error + QueryResult list) \<times> Block \<times> Disk" where
  "Block_query name val b d =
     (case postings (blk_index b) name val of
        Inl e \<Rightarrow> (Inl e, b, d)
      | Inr ids \<Rightarrow>
          (case load_series True (\<lambda>_. True) (blk_index b) ids (blk_chunks b) d of
             (r, cr, d1) \<Rightarrow> (r, b\<lparr>blk_chunks := cr\<rparr>, d1)))"

section \<open>Creation\<close>

type_synonym block_store = "string \<Rightarrow> BlockDir"

text \<open>What step 1 gathers beside the references: time range and counters of the descriptor.\<close>

record BlockTotals =
  bt_min_time :: i64
  bt_max_time :: i64
  bt_samples :: u64
  bt_chunks :: u64

definition BlockTotals_init :: BlockTotals where
  "BlockTotals_init = \<lparr>bt_min_time = 0x7FFFFFFFFFFFFFFF, bt_max_time = 0x8000000000000000, bt_samples = 0, bt_chunks = 0\<rparr>"

definition count_chunk :: "ChunkInput \<Rightarrow> BlockTotals \<Rightarrow> BlockTotals" where
  "count_chunk chk t =
     \<lparr>bt_min_time = (if sint (cin_min_time chk) < sint (bt_min_time t) then cin_min_time chk else bt_min_time t),
      bt_max_time = (if sint (cin_max_time chk) > sint (bt_max_time t) then cin_max_time chk else bt_max_time t),
      bt_samples = (if length (cin_bytes chk) \<ge> 2 then bt_samples t + ucast (read_be16 (cin_bytes chk)) else bt_samples t),
      bt_chunks = bt_chunks t + 1\<rparr>"

fun write_chunks ::
  "ChunkInput list \<Rightarrow> ChunkWriter \<Rightarrow> BlockTotals \<Rightarrow> Disk \<Rightarrow>
   (block_error + ChunkMeta list) \<times> ChunkWriter \<times> BlockTotals \<times> Disk" where
  "write_chunks [] w t d = (Inr [], w, t, d)"
| "write_chunks (chk # chks) w t d =
     (case cw_write Encoding_XOR (cin_bytes chk) w d of
        (Inl e, w1, d1) \<Rightarrow> (Inl e, w1, t, d1)
      | (Inr ref, w1, d1) \<Rightarrow>
          (case write_chunks chks w1 (count_chunk chk t) d1 of
             (Inl e, w2, t2, d2) \<Rightarrow> (Inl e, w2, t2, d2)
           | (Inr metas, w2, t2, d2) \<Rightarrow>
               (Inr (\<lparr>cm_ref = to_u64 ref, cm_min_time = cin_min_time chk, cm_max_time = cin_max_time chk\<rparr> # metas),
                w2, t2, d2)))"

type_synonym prepared = "Labels \<times> ChunkMeta list"

fun prepare_series ::
  "SeriesInput list \<Rightarrow> ChunkWriter \<Rightarrow> BlockTotals \<Rightarrow> Disk \<Rightarrow>
   (block_error + prepared list) \<times> ChunkWriter \<times> BlockTotals \<times> Disk" where
  "prepare_series [] w t d = (Inr [], w, t, d)"
| "prepare_series (s # ss) w t d =
     (if si_chunks s = [] then prepare_series ss w t d
      else case write_chunks (si_chunks s) w t d of
        (Inl e, w1, t1, d1) \<Rightarrow> (Inl e, w1, t1, d1)
      | (Inr metas, w1, t1, d1) \<Rightarrow>
          (case prepare_series ss w1 t1 d1 of
             (Inl e, w2, t2, d2) \<Rightarrow> (Inl e, w2, t2, d2)
           | (Inr ps, w2, t2, d2) \<Rightarrow> (Inr ((si_labels s, metas) # ps), w2, t2, d2)))"

text \<open>Step 1 as a whole; on an error the writer is destroyed.\<close>

definition write_block_chunks ::
  "SeriesInput list \<Rightarrow> Disk \<Rightarrow> (block_error + prepared list \<times> BlockTotals) \<times> Disk" where
  "write_block_chunks series d =
     (case ChunkWriter_open k_default_chunks_segment_size d of
        (Inl e, d1) \<Rightarrow> (Inl e, d1)
      | (Inr cw, d1) \<Rightarrow>
          (case prepare_series series cw BlockTotals_init d1 of
             (Inl e, w, t, d2) \<Rightarrow> (Inl e, ChunkWriter_destroy w d2)
           | (Inr ps, w, t, d2) \<Rightarrow>
               (case cw_close w d2 of
                  (Inl e, w1, d3) \<Rightarrow> (Inl e, ChunkWriter_destroy w1 d3)
                | (Inr _, w1, d3) \<Rightarrow> (Inr (ps, t), ChunkWriter_destroy w1 d3))))"

text \<open>Step 2: the set of symbols in order, the empty string among them.\<close>

definition label_symbols :: "Labels \<Rightarrow> string list" where
  "label_symbols ls = concat (map (\<lambda>l. [l_name l, l_value l]) (entries ls))"

definition block_symbols :: "prepared list \<Rightarrow> string list" where
  "block_symbols ps = sort_unique ([] # concat (map (label_symbols \<circ> fst) ps))"

text \<open>\<open>std::map\<close> from pairs to posting lists, as a list in the order of its keys.\<close>

type_synonym posting_map = "((string \<times> string) \<times> u32 list) list"

fun push_posting :: "string \<times> string \<Rightarrow> u32 \<Rightarrow> posting_map \<Rightarrow> posting_map" where
  "push_posting k sid [] = [(k, [sid])]"
| "push_posting k sid ((k', ids) # ps) =
     (if k = k' then (k', ids @ [sid]) # ps
      else if k < k' then (k, [sid]) # (k', ids) # ps
      else (k', ids) # push_posting k sid ps)"

definition push_labels :: "Labels \<Rightarrow> u32 \<Rightarrow> posting_map \<Rightarrow> posting_map" where
  "push_labels ls sid ps = fold (\<lambda>l. push_posting (l_name l, l_value l) sid) (entries ls) ps"

text \<open>\<open>sym_ref.at\<close> throws for a string that is no symbol.\<close>

fun label_refs_of :: "(string \<rightharpoonup> u32) \<Rightarrow> Label list \<Rightarrow> block_error + (u32 \<times> u32) list" where
  "label_refs_of sym_ref [] = Inr []"
| "label_refs_of sym_ref (l # ls) =
     (case (sym_ref (l_name l), sym_ref (l_value l)) of
        (Some n, Some v) \<Rightarrow>
          (case label_refs_of sym_ref ls of Inl e \<Rightarrow> Inl e | Inr rs \<Rightarrow> Inr ((n, v) # rs))
      | _ \<Rightarrow> Inl Throws)"

fun emit_series ::
  "(string \<rightharpoonup> u32) \<Rightarrow> prepared list \<Rightarrow> IndexWriter \<Rightarrow> posting_map \<Rightarrow> (block_error + posting_map) \<times> IndexWriter" where
  "emit_series sym_ref [] iw pm = (Inr pm, iw)"
| "emit_series sym_ref ((ls, metas) # ps) iw pm =
     (case label_refs_of sym_ref (entries ls) of
        Inl e \<Rightarrow> (Inl e, iw)
      | Inr refs \<Rightarrow>
          (case add_series refs metas iw of
             (Inl e, iw1) \<Rightarrow> (Inl e, iw1)
           | (Inr sid, iw1) \<Rightarrow> emit_series sym_ref ps iw1 (push_labels ls sid pm)))"

text \<open>Step 3: the index file. The second value is the size of the index.\<close>

definition write_block_index :: "prepared list \<Rightarrow> Disk \<Rightarrow> (block_error + nat) \<times> Disk" where
  "write_block_index ps d =
     (case IndexWriter_create ''index'' d of
        (Inl e, d1) \<Rightarrow> (Inl e, d1)
      | (Inr iw, d1) \<Rightarrow>
          (case add_symbols (block_symbols ps) iw of
             (Inl e, _) \<Rightarrow> (Inl e, d1)
           | (Inr refs, iw1) \<Rightarrow>
               (case finish_symbols iw1 of
                  (Inl e, _) \<Rightarrow> (Inl e, d1)
                | (Inr _, iw2) \<Rightarrow>
                    (case emit_series (map_of (zip (block_symbols ps) refs)) ps iw2 [] of
                       (Inl e, _) \<Rightarrow> (Inl e, d1)
                     | (Inr pm, iw3) \<Rightarrow>
                         (case finish_series iw3 of
                            (Inl e, _) \<Rightarrow> (Inl e, d1)
                          | (Inr _, iw4) \<Rightarrow>
                              (case add_all_postings (map (\<lambda>((name, val), ids). (name, val, ids)) pm) iw4 of
                                 (Inl e, _) \<Rightarrow> (Inl e, d1)
                               | (Inr _, iw5) \<Rightarrow>
                                   (case iw_close iw5 d1 of
                                      (Inl e, _, d2) \<Rightarrow> (Inl e, d2)
                                    | (Inr _, iw6, d2) \<Rightarrow> (Inr (length (iw_buf iw6)), d2))))))))"

text \<open>Step 4: the descriptor; an empty block has the time range from 0 to 0.\<close>

definition block_meta :: "string \<Rightarrow> prepared list \<Rightarrow> BlockTotals \<Rightarrow> BlockMeta" where
  "block_meta ulid ps t =
     BlockMeta_init\<lparr>bm_version := 1, bm_ulid := ulid,
       bm_min_time := (if ps = [] then 0 else bt_min_time t), bm_max_time := (if ps = [] then 0 else bt_max_time t),
       bm_stats := BlockStats_init\<lparr>bs_num_samples := bt_samples t, bs_num_series := of_nat (length ps),
                                   bs_num_chunks := bt_chunks t\<rparr>,
       bm_compaction := BlockMetaCompaction_init\<lparr>bc_level := 1, bc_sources := [ulid]\<rparr>\<rparr>"

text \<open>Step 5: an empty tombstones file.\<close>

definition write_tombstones :: "Disk \<Rightarrow> (block_error + unit) \<times> Disk" where
  "write_tombstones d =
     (case sys_simple d of
        (Inl _, d1) \<Rightarrow> (Inl (Errc Io_error), d1)
      | (Inr _, d1) \<Rightarrow> (Inr (), file_create ''tombstones'' d1))"

text \<open>The steps inside the fresh directory.\<close>

definition fill_block :: "'j json_ops \<Rightarrow> string \<Rightarrow> SeriesInput list \<Rightarrow> BlockDir \<Rightarrow> (block_error + unit) \<times> BlockDir" where
  "fill_block J ulid series b =
     (case write_block_chunks series (bk_chunks b) of
        (Inl e, c1) \<Rightarrow> (Inl e, b\<lparr>bk_chunks := c1\<rparr>)
      | (Inr (ps, totals), c1) \<Rightarrow>
          (case write_block_index ps (bk_top b) of
             (Inl e, t1) \<Rightarrow> (Inl e, \<lparr>bk_top = t1, bk_chunks = c1\<rparr>)
           | (Inr _, t1) \<Rightarrow>
               (case write_meta J (block_meta ulid ps totals) t1 of
                  (Inl e, t2) \<Rightarrow> (Inl e, \<lparr>bk_top = t2, bk_chunks = c1\<rparr>)
                | (Inr _, t2) \<Rightarrow>
                    (case write_tombstones t2 of
                       (r, t3) \<Rightarrow> (r, \<lparr>bk_top = t3, bk_chunks = c1\<rparr>)))))"

text \<open>
  The directory of the block is made first: the parent directory, the check that the name is
  free, the directory itself. Clock and random device are an argument.
\<close>

definition make_block_dir :: "BlockDir \<Rightarrow> (block_error + unit) \<times> BlockDir" where
  "make_block_dir b =
     (case sys_simple (bk_top b) of
        (Inl e, t1) \<Rightarrow> (Inl (Errc e), b\<lparr>bk_top := t1\<rparr>)
      | (Inr _, t1) \<Rightarrow>
          (case sys_simple t1 of
             (Inl e, t2) \<Rightarrow> (Inl (Errc e), b\<lparr>bk_top := t2\<rparr>)
           | (Inr _, t2) \<Rightarrow>
               if dk_dir t2 then (Inl File_exists, b\<lparr>bk_top := t2\<rparr>)
               else (case sys_simple t2 of
                  (Inl e, t3) \<Rightarrow> (Inl (Errc e), b\<lparr>bk_top := t3\<rparr>)
                | (Inr _, t3) \<Rightarrow> (Inr (), b\<lparr>bk_top := t3\<lparr>dk_dir := True\<rparr>\<rparr>))))"

type_synonym clock_random = "i64 \<times> u32 \<times> u32 \<times> u32"

definition create_from_series ::
  "'j json_ops \<Rightarrow> clock_random \<Rightarrow> SeriesInput list \<Rightarrow> block_store \<Rightarrow> (block_error + string) \<times> block_store" where
  "create_from_series J env series st =
     (case env of (now, r0, r1, r2) \<Rightarrow>
      let ulid = new_ulid now r0 r1 r2 in
      case make_block_dir (st ulid) of
        (Inl e, b1) \<Rightarrow> (Inl e, st(ulid := b1))
      | (Inr _, b1) \<Rightarrow>
          (case fill_block J ulid series b1 of
             (Inl e, b2) \<Rightarrow> (Inl e, st(ulid := b2))
           | (Inr _, b2) \<Rightarrow> (Inr ulid, st(ulid := b2))))"

section \<open>Creation from a head\<close>

text \<open>The loop over a chunk that recovers its time range: whether there is a sample, range, error.\<close>

definition chunk_range :: "XORChunk \<Rightarrow> (i64 \<times> i64 \<times> ReadError option) option" where
  "chunk_range xc =
     (case iter_next (iterator xc) of
        (False, it) \<Rightarrow> None
      | (True, it) \<Rightarrow>
          let (rest, it') = iter_drain it
          in Some (it_t it, if rest = [] then it_t it else fst (last rest), it_err it'))"

definition chunk_input :: "i64 \<Rightarrow> i64 \<Rightarrow> XORChunk \<Rightarrow> ChunkInput" where
  "chunk_input mint maxt xc = \<lparr>cin_min_time = mint, cin_max_time = maxt, cin_bytes = chunk_bytes xc\<rparr>"

text \<open>A decoding error becomes an I/O error, unless it stands for undefined behaviour.\<close>

definition decode_error :: "ReadError \<Rightarrow> block_error" where
  "decode_error e = (if e = UndefinedBehaviour then Undefined_access else Errc Io_error)"

fun head_chunks :: "XORChunk list \<Rightarrow> block_error + ChunkInput list" where
  "head_chunks [] = Inr []"
| "head_chunks (xc # xcs) =
     (if num_samples xc = 0 then head_chunks xcs
      else case chunk_range xc of
        None \<Rightarrow> Inl (Errc Io_error)
      | Some (mint, maxt, err) \<Rightarrow>
          (case err of
             Some e \<Rightarrow> Inl (decode_error e)
           | None \<Rightarrow>
               (case head_chunks xcs of
                  Inl e \<Rightarrow> Inl e
                | Inr cis \<Rightarrow> Inr (chunk_input mint maxt xc # cis))))"

fun head_inputs :: "MemSeries list \<Rightarrow> block_error + SeriesInput list" where
  "head_inputs [] = Inr []"
| "head_inputs (ms # mss) =
     (if ms_num_samples ms = 0 then head_inputs mss
      else case head_chunks (ms_chunks ms) of
        Inl e \<Rightarrow> Inl e
      | Inr cis \<Rightarrow>
          (case head_inputs mss of
             Inl e \<Rightarrow> Inl e
           | Inr sis \<Rightarrow> Inr (if cis = [] then sis else \<lparr>si_labels = ms_labels ms, si_chunks = cis\<rparr> # sis)))"

definition create_from_head ::
  "'j json_ops \<Rightarrow> clock_random \<Rightarrow> Head \<Rightarrow> block_store \<Rightarrow> (block_error + string) \<times> block_store" where
  "create_from_head J env h st =
     (case head_inputs (all_series (h_series h)) of
        Inl e \<Rightarrow> (Inl e, st)
      | Inr inputs \<Rightarrow> create_from_series J env inputs st)"

section \<open>Compaction\<close>

text \<open>
  The hash map from label sets to chunks, as a list in the order of first insertion; the order in
  which it is walked later is a parameter.
\<close>

type_synonym merged_map = "(Labels \<times> ChunkInput list) list"

fun merge_push :: "Labels \<Rightarrow> ChunkInput list \<Rightarrow> merged_map \<Rightarrow> merged_map" where
  "merge_push ls cis [] = [(ls, cis)]"
| "merge_push ls cis ((k, old) # rest) =
     (if k = ls then (k, old @ cis) # rest else (k, old) # merge_push ls cis rest)"

fun collect_series ::
  "IndexReader \<Rightarrow> u32 list \<Rightarrow> ChunkReader \<Rightarrow> Disk \<Rightarrow> merged_map \<Rightarrow> (block_error + merged_map) \<times> ChunkReader \<times> Disk" where
  "collect_series idx [] r d merged = (Inr merged, r, d)"
| "collect_series idx (sid # sids) r d merged =
     (case ir_series idx (ucast sid) of
        Inl e \<Rightarrow> (Inl e, r, d)
      | Inr se \<Rightarrow>
          (case load_chunks (\<lambda>_. True) (se_chunks se) r d of
             (Inl e, r1, d1) \<Rightarrow> (Inl e, r1, d1)
           | (Inr cs, r1, d1) \<Rightarrow>
               collect_series idx sids r1 d1
                 (merge_push (se_labels se) (map (\<lambda>(c, cm). chunk_input (cm_min_time cm) (cm_max_time cm) c) cs) merged)))"

fun collect_blocks ::
  "(string \<times> Block) list \<Rightarrow> block_store \<Rightarrow> merged_map \<Rightarrow> (block_error + merged_map) \<times> block_store" where
  "collect_blocks [] st merged = (Inr merged, st)"
| "collect_blocks ((dir, b) # bs) st merged =
     (case all_postings (blk_index b) of
        Inl e \<Rightarrow> (Inl e, st)
      | Inr ids \<Rightarrow>
          (case collect_series (blk_index b) ids (blk_chunks b) (bk_chunks (st dir)) merged of
             (Inl e, _, d1) \<Rightarrow> (Inl e, st(dir := (st dir)\<lparr>bk_chunks := d1\<rparr>))
           | (Inr merged1, _, d1) \<Rightarrow> collect_blocks bs (st(dir := (st dir)\<lparr>bk_chunks := d1\<rparr>)) merged1))"

text \<open>Opening the inputs, with the highest level and the set of sources.\<close>

record CompactInfo =
  ci_max_level :: i32
  ci_sources :: "string list"

fun open_blocks ::
  "'j json_ops \<Rightarrow> string list \<Rightarrow> block_store \<Rightarrow> CompactInfo \<Rightarrow>
   (block_error + (string \<times> Block) list \<times> CompactInfo) \<times> block_store" where
  "open_blocks J [] st info = (Inr ([], info), st)"
| "open_blocks J (dir # dirs) st info =
     (case Block_open J (st dir) of
        (Inl e, b1) \<Rightarrow> (Inl e, st(dir := b1))
      | (Inr blk, b1) \<Rightarrow>
          let c = bm_compaction (blk_meta blk);
              info1 = \<lparr>ci_max_level = (if sint (ci_max_level info) < sint (bc_level c) then bc_level c else ci_max_level info),
                       ci_sources = sort_unique (ci_sources info @ bc_sources c)\<rparr>
          in case open_blocks J dirs (st(dir := b1)) info1 of
               (Inl e, st2) \<Rightarrow> (Inl e, st2)
             | (Inr (blks, info2), st2) \<Rightarrow> (Inr ((dir, blk) # blks, info2), st2))"

text \<open>The samples of all chunks of a series; for equal timestamps the last one counts.\<close>

fun decode_inputs :: "ChunkInput list \<Rightarrow> block_error + sample list" where
  "decode_inputs [] = Inr []"
| "decode_inputs (ci # cis) =
     (case chunk_samples (from_bytes (cin_bytes ci)) of
        Inl e \<Rightarrow> Inl (decode_error e)
      | Inr xs \<Rightarrow> (case decode_inputs cis of Inl e \<Rightarrow> Inl e | Inr ys \<Rightarrow> Inr (xs @ ys)))"

fun keep_last :: "sample list \<Rightarrow> sample list" where
  "keep_last [] = []"
| "keep_last [x] = [x]"
| "keep_last (x # y # zs) = (if fst y = fst x then keep_last (y # zs) else x # keep_last (y # zs))"

definition dedupe_samples :: "sample list \<Rightarrow> sample list" where
  "dedupe_samples xs = keep_last (sort_key (sint \<circ> fst) xs)"

fun append_samples :: "sample list \<Rightarrow> MemSeries \<Rightarrow> block_error + MemSeries" where
  "append_samples [] ms = Inr ms"
| "append_samples ((t, v) # xs) ms =
     (case ms_append t v ms of
        (Appended, ms1) \<Rightarrow> append_samples xs ms1
      | (Refused, ms1) \<Rightarrow> Inl (Errc Io_error)
      | (Undefined, ms1) \<Rightarrow> Inl Undefined_access)"

fun rechunk :: "XORChunk list \<Rightarrow> ChunkInput list" where
  "rechunk [] = []"
| "rechunk (xc # xcs) =
     (if num_samples xc = 0 then rechunk xcs
      else case chunk_range xc of
        None \<Rightarrow> rechunk xcs
      | Some (mint, maxt, _) \<Rightarrow> chunk_input mint maxt xc # rechunk xcs)"

definition merge_series :: "Labels \<times> ChunkInput list \<Rightarrow> block_error + SeriesInput" where
  "merge_series p =
     (case decode_inputs (snd p) of
        Inl e \<Rightarrow> Inl e
      | Inr samples \<Rightarrow>
          (case append_samples (dedupe_samples samples) (MemSeries_init 0 (fst p)) of
             Inl e \<Rightarrow> Inl e
           | Inr ms \<Rightarrow> Inr \<lparr>si_labels = fst p, si_chunks = rechunk (ms_chunks ms)\<rparr>))"

fun merge_all :: "merged_map \<Rightarrow> block_error + SeriesInput list" where
  "merge_all [] = Inr []"
| "merge_all (p # ps) =
     (case merge_series p of
        Inl e \<Rightarrow> Inl e
      | Inr s \<Rightarrow> (case merge_all ps of Inl e \<Rightarrow> Inl e | Inr ss \<Rightarrow> Inr (s # ss)))"

definition patch_meta :: "'j json_ops \<Rightarrow> CompactInfo \<Rightarrow> Disk \<Rightarrow> (block_error + unit) \<times> Disk" where
  "patch_meta J info d =
     (case read_meta J d of
        (Inl e, d1) \<Rightarrow> (Inl e, d1)
      | (Inr meta, d1) \<Rightarrow>
          write_meta J (meta\<lparr>bm_compaction := (bm_compaction meta)
            \<lparr>bc_level := ci_max_level info + 1, bc_sources := ci_sources info\<rparr>\<rparr>) d1)"

definition Block_compact ::
  "'j json_ops \<Rightarrow> clock_random \<Rightarrow> (merged_map \<Rightarrow> merged_map) \<Rightarrow> string list \<Rightarrow> block_store \<Rightarrow>
   (block_error + string) \<times> block_store" where
  "Block_compact J env walk dirs st =
     (if dirs = [] then (Inl Invalid_arg, st)
      else case open_blocks J dirs st \<lparr>ci_max_level = 0, ci_sources = []\<rparr> of
        (Inl e, st1) \<Rightarrow> (Inl e, st1)
      | (Inr (blks, info), st1) \<Rightarrow>
          (case collect_blocks blks st1 [] of
             (Inl e, st2) \<Rightarrow> (Inl e, st2)
           | (Inr merged, st2) \<Rightarrow>
               (case merge_all (walk merged) of
                  Inl e \<Rightarrow> (Inl e, st2)
                | Inr inputs \<Rightarrow>
                    (case create_from_series J env inputs st2 of
                       (Inl e, st3) \<Rightarrow> (Inl e, st3)
                     | (Inr dir, st3) \<Rightarrow>
                         (case patch_meta J info (bk_top (st3 dir)) of
                            (Inl e, t) \<Rightarrow> (Inl e, st3(dir := (st3 dir)\<lparr>bk_top := t\<rparr>))
                          | (Inr _, t) \<Rightarrow> (Inr dir, st3(dir := (st3 dir)\<lparr>bk_top := t\<rparr>)))))))"

end
