(* ===== verification/BlockMatch.thy ===== *)
theory BlockMatch
  imports Block
begin

text \<open>
  Which series a matcher selects in a block. The interface between the index reader and the
  queries of a block is a locale: what the posting operations return for an index that serves a
  list of series. Shown inside it: differences and unions of posting lists are the series a
  predicate on labels selects. The index the block writes is an instance, and resolving a matcher
  on it gives exactly the series whose labels satisfy the matcher.
\<close>

section \<open>Sorted lists as sets\<close>

lemma ascending_unique: "sorted_wrt (<) xs \<Longrightarrow> sorted_wrt (<) ys \<Longrightarrow> set xs = set ys \<Longrightarrow> xs = (ys :: 'a::linorder list)"
  by (simp add: strict_sorted_iff sorted_distinct_set_unique)

lemma ascending_Cons: "sorted_wrt (<) (x # xs) \<longleftrightarrow> (\<forall>y \<in> set xs. x < y) \<and> sorted_wrt (<) (xs :: 'a::linorder list)"
  by simp

lemma sorted_intersection_set:
  "sorted_wrt (<) xs \<Longrightarrow> sorted_wrt (<) ys \<Longrightarrow>
   set (sorted_intersection xs ys) = set xs \<inter> set ys \<and> sorted_wrt (<) (sorted_intersection xs ys)"
proof (induction xs ys rule: sorted_intersection.induct)
  case (1 x xs y ys)
  note sorted = "1.prems" [unfolded ascending_Cons]
  consider "x < y" | "y < x" | "x = y" by (rule linorder_cases)
  then show ?case
  proof cases
    case 1
    then have "x \<notin> set (y # ys)" using sorted(2) by auto
    then show ?thesis using "1.IH"(1) \<open>x < y\<close> "1.prems" by auto
  next
    case 2
    then have "y \<notin> set (x # xs)" using sorted(1) by auto
    then show ?thesis using "1.IH"(2) 2 "1.prems" by auto
  next
    case 3
    then have "x \<notin> set xs" "x \<notin> set ys" using sorted by auto
    then show ?thesis using "1.IH"(3) 3 sorted by auto
  qed
qed simp_all

lemma sorted_difference_set:
  "sorted_wrt (<) xs \<Longrightarrow> sorted_wrt (<) ys \<Longrightarrow>
   set (sorted_difference xs ys) = set xs - set ys \<and> sorted_wrt (<) (sorted_difference xs ys)"
proof (induction xs ys rule: sorted_difference.induct)
  case (3 x xs y ys)
  note sorted = "3.prems" [unfolded ascending_Cons]
  consider "x < y" | "y < x" | "x = y" by (rule linorder_cases)
  then show ?case
  proof cases
    case 1
    then have "x \<notin> set (y # ys)" using sorted(2) by auto
    then show ?thesis using "3.IH"(1) 1 sorted by auto
  next
    case 2
    then have "y \<notin> set (x # xs)" using sorted(1) by auto
    then show ?thesis using "3.IH"(2) 2 "3.prems" by auto
  next
    case 3
    then have "x \<notin> set xs" using sorted by auto
    then show ?thesis using "3.IH"(3) 3 sorted by auto
  qed
qed simp_all

text \<open>The ids of the series a predicate selects.\<close>

type_synonym indexed_labels = "(u32 \<times> Labels) list"

definition ids_where :: "indexed_labels \<Rightarrow> (Labels \<Rightarrow> bool) \<Rightarrow> u32 list" where
  "ids_where sls P = map fst (filter (P \<circ> snd) sls)"

lemma set_ids_where: "set (ids_where sls P) = {sid. \<exists>ls. (sid, ls) \<in> set sls \<and> P ls}"
  by (force simp: ids_where_def)

lemma ids_where_sorted: "sorted_wrt (<) (map fst sls) \<Longrightarrow> sorted_wrt (<) (ids_where sls P)"
  by (induction sls) (auto simp: ids_where_def)

lemma ids_where_unique:
  fixes sls :: indexed_labels
  assumes "sorted_wrt (<) (map fst sls)" "(i, l) \<in> set sls" "(i, m) \<in> set sls"
  shows "l = m"
proof -
  have "distinct (map fst sls)" using assms(1) unfolding strict_sorted_iff by blast
  then show ?thesis using assms(2,3) by (metis eq_key_imp_eq_value)
qed

lemma ids_where_eqI:
  "sorted_wrt (<) (map fst sls) \<Longrightarrow> sorted_wrt (<) xs \<Longrightarrow> set xs = set (ids_where sls P) \<Longrightarrow> xs = ids_where sls P"
  using ascending_unique ids_where_sorted by blast

lemma ids_where_cong: "(\<And>sid ls. (sid, ls) \<in> set sls \<Longrightarrow> P ls = Q ls) \<Longrightarrow> ids_where sls P = ids_where sls Q"
  unfolding ids_where_def by (intro arg_cong [of _ _ "map fst"] filter_cong) auto

lemma ids_where_difference:
  assumes sls: "sorted_wrt (<) (map fst sls)"
  shows "sorted_difference (ids_where sls P) (ids_where sls Q) = ids_where sls (\<lambda>ls. P ls \<and> \<not> Q ls)"
  using sorted_difference_set [OF ids_where_sorted ids_where_sorted, OF sls sls, of P Q] sls
  by (intro ids_where_eqI) (auto simp: set_ids_where dest: ids_where_unique)

lemma ids_where_intersection:
  assumes sls: "sorted_wrt (<) (map fst sls)"
  shows "sorted_intersection (ids_where sls P) (ids_where sls Q) = ids_where sls (\<lambda>ls. P ls \<and> Q ls)"
  using sorted_intersection_set [OF ids_where_sorted ids_where_sorted, OF sls sls, of P Q] sls
  by (intro ids_where_eqI) (auto simp: set_ids_where dest: ids_where_unique)

lemma ids_where_union:
  assumes sls: "sorted_wrt (<) (map fst sls)" and xs: "set xs = set (ids_where sls P)"
  shows "sort_unique xs = ids_where sls P"
  using assms by (intro ids_where_eqI) (simp_all add: sort_unique_sorted)

section \<open>The interface of an index\<close>

definition has_pair :: "Labels \<Rightarrow> string \<Rightarrow> string \<Rightarrow> bool" where
  "has_pair ls name val \<longleftrightarrow> Label name val \<in> set (entries ls)"

definition has_name :: "Labels \<Rightarrow> string \<Rightarrow> bool" where
  "has_name ls name \<longleftrightarrow> name \<in> l_name ` set (entries ls)"

lemma has_name_pair: "has_name ls n \<longleftrightarrow> (\<exists>v. has_pair ls n v)"
proof
  assume "has_name ls n"
  then obtain l where "l \<in> set (entries ls)" "n = l_name l" by (auto simp: has_name_def)
  then show "\<exists>v. has_pair ls n v" by (intro exI [of _ "l_value l"]) (simp add: has_pair_def)
qed (force simp: has_name_def has_pair_def)

text \<open>What the queries of a block use of an index and what they rely on.\<close>

locale label_index =
  fixes serves_labels :: "'r \<Rightarrow> indexed_labels \<Rightarrow> bool"
    and pair_ids :: "'r \<Rightarrow> string \<Rightarrow> string \<Rightarrow> block_error + u32 list"
    and name_ids :: "'r \<Rightarrow> string \<Rightarrow> block_error + u32 list"
    and every_id :: "'r \<Rightarrow> block_error + u32 list"
    and name_values :: "'r \<Rightarrow> string \<Rightarrow> string list"
  assumes ascending: "serves_labels r sls \<Longrightarrow> sorted_wrt (<) (map fst sls)"
    and pairs: "serves_labels r sls \<Longrightarrow> plain_name n \<Longrightarrow> pair_ids r n v = Inr (ids_where sls (\<lambda>ls. has_pair ls n v))"
    and names: "serves_labels r sls \<Longrightarrow> name_ids r n = Inr (ids_where sls (\<lambda>ls. has_name ls n))"
    and every: "serves_labels r sls \<Longrightarrow> every_id r = Inr (ids_where sls (\<lambda>ls. entries ls \<noteq> []))"
    and vals: "serves_labels r sls \<Longrightarrow> set (name_values r n) = {v. \<exists>sid ls. (sid, ls) \<in> set sls \<and> has_pair ls n v}"
begin

text \<open>Every series, less those with the label.\<close>

lemma without:
  assumes "serves_labels r sls"
  shows "\<exists>a b. every_id r = Inr a \<and> name_ids r n = Inr b \<and>
    sorted_difference a b = ids_where sls (\<lambda>ls. entries ls \<noteq> [] \<and> \<not> has_name ls n)"
  using every [OF assms] names [OF assms] ids_where_difference [OF ascending [OF assms]] by simp

text \<open>Every series, less those a predicate selects.\<close>

lemma complement:
  assumes "serves_labels r sls"
  shows "sorted_difference (ids_where sls (\<lambda>ls. entries ls \<noteq> [])) (ids_where sls P) = ids_where sls (\<lambda>ls. entries ls \<noteq> [] \<and> \<not> P ls)"
  using ids_where_difference [OF ascending [OF assms]] by simp

text \<open>Collecting the lists of some values.\<close>

lemma collected_values:
  assumes "serves_labels r sls" "plain_name n" "set vs = {v \<in> set (name_values r n). accept v}"
  shows "\<exists>idss. list_all2 (\<lambda>v ids. pair_ids r n v = Inr ids) vs idss \<and>
    set (concat idss) = set (ids_where sls (\<lambda>ls. \<exists>v. has_pair ls n v \<and> accept v))"
proof (intro exI conjI)
  let ?idss = "map (\<lambda>v. ids_where sls (\<lambda>ls. has_pair ls n v)) vs"
  show "list_all2 (\<lambda>v ids. pair_ids r n v = Inr ids) vs ?idss"
    using pairs [OF assms(1,2)] by (simp add: list_all2_map2 list_all2_same)
  show "set (concat ?idss) = set (ids_where sls (\<lambda>ls. \<exists>v. has_pair ls n v \<and> accept v))"
    using vals [OF assms(1), of n] assms(3) by (auto simp: set_ids_where)
qed

end

section \<open>The posting lists of a block\<close>

definition pm_ids :: "posting_map \<Rightarrow> string \<times> string \<Rightarrow> u32 list" where
  "pm_ids pm k = (case map_of pm k of None \<Rightarrow> [] | Some ids \<Rightarrow> ids)"

abbreviation pm_sorted :: "posting_map \<Rightarrow> bool" where
  "pm_sorted pm \<equiv> sorted_wrt (<) (map fst pm)"

lemma map_of_below: "sorted_wrt (<) (x # map fst pm) \<Longrightarrow> k \<le> x \<Longrightarrow> map_of pm k = None" for x :: "string \<times> string"
  by (induction pm) auto

lemma push_posting_keys: "set (map fst (push_posting k s pm)) = insert k (set (map fst pm))"
  by (induction k s pm rule: push_posting.induct) auto

lemma push_posting_sorted: "pm_sorted pm \<Longrightarrow> pm_sorted (push_posting k s pm)"
proof (induction k s pm rule: push_posting.induct)
  case (2 k s k' ids ps)
  have "\<forall>x \<in> set (map fst (push_posting k s ps)). k' < x" if "\<not> k < k'" "k \<noteq> k'"
    using that "2.prems" push_posting_keys [of k s ps] by auto
  then show ?case
    using 2 by (auto dest: less_trans)
qed simp

lemma push_posting_ids:
  "pm_sorted pm \<Longrightarrow> pm_ids (push_posting k s pm) k' = pm_ids pm k' @ (if k' = k then [s] else [])"
proof (induction k s pm rule: push_posting.induct)
  case (2 k s k'' ids ps)
  then show ?case
    using map_of_below [of k'' ps k] by (auto simp: pm_ids_def split: option.splits)
qed (simp add: pm_ids_def)

lemma push_labels_ok:
  assumes wf: "labels_wf ls" and pm: "pm_sorted pm"
  shows "pm_sorted (push_labels ls s pm)"
    "pm_ids (push_labels ls s pm) (n, v) = pm_ids pm (n, v) @ (if has_pair ls n v then [s] else [])"
    "set (map fst (push_labels ls s pm)) = set (map fst pm) \<union> {(n, v). has_pair ls n v}"
proof -
  have "pm_sorted (fold (\<lambda>l. push_posting (l_name l, l_value l) s) es pm) \<and>
    pm_ids (fold (\<lambda>l. push_posting (l_name l, l_value l) s) es pm) (n, v) = pm_ids pm (n, v) @ (if Label n v \<in> set es then [s] else []) \<and>
    set (map fst (fold (\<lambda>l. push_posting (l_name l, l_value l) s) es pm)) = set (map fst pm) \<union> {(n, v). Label n v \<in> set es}"
    if "distinct es" for es
    using that pm
  proof (induction es arbitrary: pm)
    case (Cons e es)
    have e: "Label a b = e \<longleftrightarrow> a = l_name e \<and> b = l_value e" for a b by (cases e) auto
    show ?case
      using Cons.IH [OF _ push_posting_sorted [OF Cons.prems(2)]] Cons.prems push_posting_keys [of "(l_name e, l_value e)" s pm]
      by (auto simp: push_posting_ids e)
  qed simp
  from this [of "entries ls"] wf
  show "pm_sorted (push_labels ls s pm)"
    "pm_ids (push_labels ls s pm) (n, v) = pm_ids pm (n, v) @ (if has_pair ls n v then [s] else [])"
    "set (map fst (push_labels ls s pm)) = set (map fst pm) \<union> {(n, v). has_pair ls n v}"
    by (simp_all add: labels_wf_def strict_sorted_iff distinct_map push_labels_def has_pair_def)
qed

definition posting_map_of :: "indexed_labels \<Rightarrow> posting_map" where
  "posting_map_of sls = fold (\<lambda>(sid, ls). push_labels ls sid) sls []"

lemma posting_map_of_ok:
  assumes "\<forall>(sid, ls) \<in> set sls. labels_wf ls"
  shows "pm_sorted (posting_map_of sls)" "pm_ids (posting_map_of sls) (n, v) = ids_where sls (\<lambda>ls. has_pair ls n v)"
    "set (map fst (posting_map_of sls)) = {(n, v). \<exists>sid ls. (sid, ls) \<in> set sls \<and> has_pair ls n v}"
proof -
  have "pm_sorted (fold (\<lambda>(sid, ls). push_labels ls sid) sls pm) \<and>
    pm_ids (fold (\<lambda>(sid, ls). push_labels ls sid) sls pm) (n, v) = pm_ids pm (n, v) @ ids_where sls (\<lambda>ls. has_pair ls n v) \<and>
    set (map fst (fold (\<lambda>(sid, ls). push_labels ls sid) sls pm)) =
      set (map fst pm) \<union> {(n, v). \<exists>sid ls. (sid, ls) \<in> set sls \<and> has_pair ls n v}" if "pm_sorted pm" for pm
    using assms that
  proof (induction sls arbitrary: pm)
    case (Cons s sls)
    obtain sid ls where s: "s = (sid, ls)" by fastforce
    note step = push_labels_ok [of ls pm sid]
    have wf: "labels_wf ls" using Cons.prems(1) s by simp
    then show ?case
      using Cons.IH [OF _ step(1) [OF wf Cons.prems(2)]] Cons.prems step(2,3) [OF wf Cons.prems(2)] s
      by (auto simp: ids_where_def)
  qed (simp add: ids_where_def)
  from this [of "[]"]
  show "pm_sorted (posting_map_of sls)" "pm_ids (posting_map_of sls) (n, v) = ids_where sls (\<lambda>ls. has_pair ls n v)"
    "set (map fst (posting_map_of sls)) = {(n, v). \<exists>sid ls. (sid, ls) \<in> set sls \<and> has_pair ls n v}"
    by (simp_all add: posting_map_of_def pm_ids_def)
qed

lemma posting_map_of_mem:
  assumes "\<forall>(sid, ls) \<in> set sls. labels_wf ls"
  shows "((n, v), ids) \<in> set (posting_map_of sls) \<longleftrightarrow>
    ids = ids_where sls (\<lambda>ls. has_pair ls n v) \<and> (\<exists>sid ls. (sid, ls) \<in> set sls \<and> has_pair ls n v)"
proof -
  note pm = posting_map_of_ok [OF assms]
  have dist: "distinct (map fst (posting_map_of sls))" using pm(1) unfolding strict_sorted_iff by blast
  have "((n, v), ids) \<in> set (posting_map_of sls) \<longleftrightarrow>
      (n, v) \<in> set (map fst (posting_map_of sls)) \<and> ids = pm_ids (posting_map_of sls) (n, v)"
  proof
    assume mem: "((n, v), ids) \<in> set (posting_map_of sls)"
    then have "pm_ids (posting_map_of sls) (n, v) = ids" using map_of_is_SomeI [OF dist mem] by (simp add: pm_ids_def)
    then show "(n, v) \<in> set (map fst (posting_map_of sls)) \<and> ids = pm_ids (posting_map_of sls) (n, v)"
      using mem by force
  next
    assume "(n, v) \<in> set (map fst (posting_map_of sls)) \<and> ids = pm_ids (posting_map_of sls) (n, v)"
    moreover from this obtain ids' where mem: "((n, v), ids') \<in> set (posting_map_of sls)" by force
    ultimately show "((n, v), ids) \<in> set (posting_map_of sls)"
      using map_of_is_SomeI [OF dist mem] by (simp add: pm_ids_def)
  qed
  then show ?thesis using pm(2) [of n v] pm(3) by auto
qed

section \<open>The index of a block\<close>

definition posting_specs :: "posting_map \<Rightarrow> posting_spec list" where
  "posting_specs pm = map (\<lambda>((name, val), ids). (name, val, ids)) pm"

lemma ids_for_specs: "ids_for (posting_specs pm) n v = pm_ids pm (n, v)"
proof -
  have "map (\<lambda>(n, v, ids). ((n, v), ids)) (posting_specs pm) = pm"
    by (induction pm) (auto simp: posting_specs_def)
  then show ?thesis by (simp add: ids_for_def pm_ids_def)
qed

lemma posting_specs_mem: "(n, v, ids) \<in> set (posting_specs pm) \<longleftrightarrow> ((n, v), ids) \<in> set pm"
  by (force simp: posting_specs_def)

definition labels_plain :: "Labels \<Rightarrow> bool" where
  "labels_plain ls \<longleftrightarrow> labels_wf ls \<and> (\<forall>l \<in> set (entries ls). plain_name (l_name l))"

definition index_serves :: "IndexReader \<Rightarrow> indexed_labels \<Rightarrow> bool" where
  "index_serves r sls \<longleftrightarrow>
     (\<exists>syms ss. serves r syms (map fst sls) ss (posting_specs (posting_map_of sls))) \<and>
     sorted_wrt (<) (map fst sls) \<and> (\<forall>(sid, ls) \<in> set sls. labels_plain ls)"

lemma specs_union:
  assumes wf: "\<forall>(sid, ls) \<in> set sls. labels_wf ls"
  shows "set (concat (map (snd \<circ> snd) (filter (\<lambda>p. Q (fst p)) (posting_specs (posting_map_of sls)))))
    = set (ids_where sls (\<lambda>ls. \<exists>n v. Q n \<and> has_pair ls n v))" (is "?l = ?r")
proof (rule set_eqI, rule iffI)
  fix sid assume "sid \<in> ?l"
  then obtain n v ids where "(n, v, ids) \<in> set (posting_specs (posting_map_of sls))" "sid \<in> set ids" "Q n" by force
  then show "sid \<in> ?r" by (auto simp: posting_specs_mem posting_map_of_mem [OF wf] set_ids_where)
next
  fix sid assume "sid \<in> ?r"
  then obtain ls n v where sid: "(sid, ls) \<in> set sls" "Q n" "has_pair ls n v" by (auto simp: set_ids_where)
  then have "(n, v, ids_where sls (\<lambda>ls. has_pair ls n v)) \<in> set (posting_specs (posting_map_of sls))"
    by (auto simp: posting_specs_mem posting_map_of_mem [OF wf])
  moreover have "sid \<in> set (ids_where sls (\<lambda>ls. has_pair ls n v))" using sid by (auto simp: set_ids_where)
  ultimately show "sid \<in> ?l" using sid(2) by force
qed

lemma specs_plain:
  assumes "\<forall>(sid, ls) \<in> set sls. labels_plain ls"
  shows "list_all (plain_name \<circ> fst) (posting_specs (posting_map_of sls))"
proof -
  have wf: "\<forall>(sid, ls) \<in> set sls. labels_wf ls" using assms by (auto simp: labels_plain_def)
  have "plain_name n" if "(n, v, ids) \<in> set (posting_specs (posting_map_of sls))" for n v ids
    using that assms by (fastforce simp: posting_specs_mem posting_map_of_mem [OF wf] has_pair_def labels_plain_def)
  then show ?thesis by (auto simp: list_all_iff)
qed

interpretation index: label_index index_serves postings postings_for_name all_postings label_values
proof
  fix r sls n v
  assume serves: "index_serves r sls"
  then obtain syms ss where s: "serves r syms (map fst sls) ss (posting_specs (posting_map_of sls))" by (auto simp: index_serves_def)
  have sls: "sorted_wrt (<) (map fst sls)" "\<forall>(sid, ls) \<in> set sls. labels_plain ls"
    using serves by (simp_all add: index_serves_def)
  then have wf: "\<forall>(sid, ls) \<in> set sls. labels_wf ls" by (auto simp: labels_plain_def)
  show "sorted_wrt (<) (map fst sls)" by (rule sls)
  show "postings r n v = Inr (ids_where sls (\<lambda>ls. has_pair ls n v))" if "plain_name n"
    using s specs_plain [OF sls(2)] that by (simp add: serves_def ids_for_specs posting_map_of_ok(2) [OF wf])
  show "postings_for_name r n = Inr (ids_where sls (\<lambda>ls. has_name ls n))"
    using s ids_where_union [OF sls(1) specs_union [OF wf, of "\<lambda>m. m = n"]] by (simp add: serves_def has_name_pair)
  have "ids_where sls (\<lambda>ls. \<exists>n v. has_pair ls n v) = ids_where sls (\<lambda>ls. entries ls \<noteq> [])"
    by (intro ids_where_cong) (metis Label.collapse all_not_in_conv has_pair_def set_empty)
  then show "all_postings r = Inr (ids_where sls (\<lambda>ls. entries ls \<noteq> []))"
    using s ids_where_union [OF sls(1) specs_union [OF wf, of "\<lambda>m. True"]] by (simp add: serves_def)
  show "set (label_values r n) = {v. \<exists>sid ls. (sid, ls) \<in> set sls \<and> has_pair ls n v}"
    using s by (fastforce simp: serves_def posting_specs_mem posting_map_of_mem [OF wf] image_iff)
qed

section \<open>Matchers on an index\<close>

lemma postings_of_values_ok:
  "list_all2 (\<lambda>v ids. postings idx n v = Inr ids) (filter accept vs) idss \<Longrightarrow>
   postings_of_values idx n accept vs out = Inr (out @ concat idss)"
proof (induction vs arbitrary: out idss)
  case (Cons v vs)
  show ?case
  proof (cases "accept v")
    case True
    then obtain ids rest where "idss = ids # rest" "postings idx n v = Inr ids"
        "list_all2 (\<lambda>v ids. postings idx n v = Inr ids) (filter accept vs) rest"
      using Cons.prems by (auto simp: list_all2_Cons1)
    then show ?thesis using Cons.IH [of rest] True by simp
  qed (use Cons in simp)
qed simp

lemma postings_without_ok:
  "index_serves r sls \<Longrightarrow> postings_without r n = Inr (ids_where sls (\<lambda>ls. entries ls \<noteq> [] \<and> \<not> has_name ls n))"
  using index.without [of r sls n] by (auto simp: postings_without_def)

lemma postings_accepted_ok:
  assumes r: "index_serves r sls" and n: "plain_name n"
  shows "postings_accepted r n accept = Inr (ids_where sls (\<lambda>ls. (\<exists>v. has_pair ls n v \<and> accept v) \<or>
      accept [] \<and> entries ls \<noteq> [] \<and> \<not> has_name ls n))" (is "_ = Inr (ids_where sls ?P)")
proof -
  let ?vs = "filter accept (label_values r n)" and ?without = "ids_where sls (\<lambda>ls. entries ls \<noteq> [] \<and> \<not> has_name ls n)"
  obtain idss where idss: "list_all2 (\<lambda>v ids. postings r n v = Inr ids) ?vs idss"
      "set (concat idss) = set (ids_where sls (\<lambda>ls. \<exists>v. has_pair ls n v \<and> accept v))"
    using index.collected_values [OF r n, of ?vs accept] by auto
  have vals: "postings_of_values r n accept (label_values r n) [] = Inr (concat idss)"
    using postings_of_values_ok [OF idss(1), of "[]"] by simp
  show ?thesis
  proof (cases "accept []")
    case True
    have "sort_unique (concat idss @ ?without) = ids_where sls ?P"
      using idss(2) True by (intro ids_where_union index.ascending [OF r]) (auto simp: set_ids_where)
    then show ?thesis using vals True postings_without_ok [OF r] by (simp add: postings_accepted_def)
  next
    case False
    have "sort_unique (concat idss) = ids_where sls ?P"
      using idss(2) False by (intro ids_where_union index.ascending [OF r]) simp
    then show ?thesis using vals False by (simp add: postings_accepted_def)
  qed
qed

text \<open>
  What the index can tell apart: a series without labels has no posting, and a label with the empty
  value is not the same as none.
\<close>

definition labels_findable :: "Labels \<Rightarrow> bool" where
  "labels_findable ls \<longleftrightarrow> entries ls \<noteq> [] \<and> (\<forall>l \<in> set (entries ls). l_value l \<noteq> [])"

definition matcher_ok :: "'re Matcher \<Rightarrow> bool" where
  "matcher_ok m \<longleftrightarrow> plain_name (m_name m) \<and> (m_type m = Re \<or> m_type m = Nre \<longrightarrow> m_compiled m \<noteq> None)"

lemma findable_value:
  assumes "labels_wf ls" "labels_findable ls"
  shows "has_pair ls n v \<longleftrightarrow> value_or_empty (get ls n) = v \<and> v \<noteq> []"
    "has_name ls n \<longleftrightarrow> value_or_empty (get ls n) \<noteq> []" "entries ls \<noteq> []"
proof -
  have some: "get ls n = Some v \<longleftrightarrow> has_pair ls n v" for n v
    using get_set [OF assms(1)] by (simp add: has_pair_def)
  have ne: "has_pair ls n v \<Longrightarrow> v \<noteq> []" for n v
    using assms(2) by (auto simp: labels_findable_def has_pair_def)
  show pair: "has_pair ls n v \<longleftrightarrow> value_or_empty (get ls n) = v \<and> v \<noteq> []" for v
  proof (cases "get ls n")
    case (Some w)
    then show ?thesis using some [of n v] ne [of n v] by (auto simp: value_or_empty_def)
  qed (use some [of n v] in \<open>auto simp: value_or_empty_def\<close>)
  show "has_name ls n \<longleftrightarrow> value_or_empty (get ls n) \<noteq> []"
    unfolding has_name_pair pair by simp
  show "entries ls \<noteq> []" using assms(2) by (simp add: labels_findable_def)
qed

lemma postings_for_matcher_ok:
  assumes r: "index_serves r sls" and sls: "\<forall>(sid, ls) \<in> set sls. labels_findable ls" and m: "matcher_ok m"
  shows "postings_for_matcher rm r m = Inr (ids_where sls (\<lambda>ls. matches rm m (value_or_empty (get ls (m_name m)))))"
    (is "_ = Inr (ids_where sls ?P)")
proof -
  have find: "(has_pair ls (m_name m) v \<longleftrightarrow> value_or_empty (get ls (m_name m)) = v \<and> v \<noteq> []) \<and>
      (has_name ls (m_name m) \<longleftrightarrow> value_or_empty (get ls (m_name m)) \<noteq> []) \<and> entries ls \<noteq> []"
    if "(sid, ls) \<in> set sls" for sid ls v
  proof -
    have wf: "labels_wf ls" "labels_findable ls"
      using that sls r by (auto simp: index_serves_def labels_plain_def)
    then show ?thesis using findable_value [OF wf] by blast
  qed
  have name: "plain_name (m_name m)" using m by (simp add: matcher_ok_def)
  note defs = postings_for_matcher_def postings_without_ok [OF r] index.pairs [OF r name] index.names [OF r]
    postings_accepted_ok [OF r name] index.every [OF r] index.complement [OF r]
  show ?thesis
  proof (cases "m_type m")
    case Eq
    then show ?thesis by (simp add: defs) (auto intro!: ids_where_cong simp: matches_def find)
  next
    case Neq
    then show ?thesis by (simp add: defs) (auto intro!: ids_where_cong simp: matches_def find)
  next
    case Re
    then show ?thesis by (simp add: defs) (auto intro!: ids_where_cong simp: find)
  next
    case Nre
    then obtain re where re: "m_compiled m = Some re" using m by (auto simp: matcher_ok_def)
    show ?thesis
      using Nre re by (simp add: defs) (auto intro!: ids_where_cong simp: find matches_def regex_matches_def)
  qed
qed

lemma intersect_matchers_ok:
  assumes r: "index_serves r sls" and sls: "\<forall>(sid, ls) \<in> set sls. labels_findable ls"
  shows "\<forall>m \<in> set ms. matcher_ok m \<Longrightarrow>
    intersect_matchers rm r ms (ids_where sls P) = Inr (ids_where sls (\<lambda>ls. P ls \<and> labels_match_all rm ls ms))"
proof (induction ms arbitrary: P)
  case (Cons m ms)
  show ?case
  proof (cases "ids_where sls P = []")
    case True
    then have "set (ids_where sls (\<lambda>ls. P ls \<and> labels_match_all rm ls (m # ms))) = {}"
      using set_ids_where [of sls P] by (auto simp: set_ids_where)
    then show ?thesis using True by simp
  next
    case False
    then show ?thesis
      using Cons postings_for_matcher_ok [OF r sls, of m rm] ids_where_intersection [OF index.ascending [OF r]]
      by (simp add: conj_assoc)
  qed
qed (simp add: ids_where_def)

end
