(* ===== verification/BlockIndex.thy ===== *)
theory BlockIndex
  imports BlockMatch
begin

text \<open>
  The index file of a block: the loop of src/block/block.cpp that emits series and gathers
  postings is a complete run of the index writer, so the reader of the file serves exactly the
  series of the block with their labels, chunk descriptors and postings.
\<close>

section \<open>References to symbols\<close>

lemma label_refs_of_ok:
  assumes sym: "\<And>s i. sym_ref s = Some i \<Longrightarrow> unat i < length syms \<and> syms ! unat i = s"
  shows "label_refs_of sym_ref es = Inr refs \<Longrightarrow> refs_ok syms refs \<and> map (label_of syms) refs = es"
proof (induction es arbitrary: refs)
  case (Cons e es)
  obtain n v rs where "sym_ref (l_name e) = Some n" "sym_ref (l_value e) = Some v" "label_refs_of sym_ref es = Inr rs"
      "refs = (n, v) # rs"
    using Cons.prems by (auto split: option.splits sum.splits)
  then show ?case using Cons.IH [of rs] sym by (auto simp: Label.expand)
qed simp

lemma symbol_refs:
  assumes "map_of (zip syms (map of_nat [0..<length syms])) s = Some (i :: u32)" "length syms < 2 ^ 32"
  shows "unat i < length syms \<and> syms ! unat i = s"
proof -
  have "(s, i) \<in> set (zip syms (map of_nat [0..<length syms]))" using assms(1) by (rule map_of_SomeD)
  then obtain k where "k < length syms" "s = syms ! k" "i = of_nat k" by (auto simp: set_zip)
  then show ?thesis using assms(2) by (simp add: unat_of_nat)
qed

section \<open>The run\<close>

text \<open>What the writer is given for a prepared series.\<close>

abbreviation spec_for :: "(string \<rightharpoonup> u32) \<Rightarrow> prepared \<Rightarrow> series_spec \<Rightarrow> bool" where
  "spec_for sym_ref p s \<equiv> label_refs_of sym_ref (entries (fst p)) = Inr (fst s) \<and> snd s = snd p"

lemma emit_series_run:
  "emit_series sym_ref ps iw pm = (Inr pm', iw') \<Longrightarrow>
   \<exists>ss sids. add_all_series ss iw = (Inr sids, iw') \<and> list_all2 (spec_for sym_ref) ps ss \<and> length sids = length ps \<and>
     pm' = fold (\<lambda>(sid, ls). push_labels ls sid) (zip sids (map fst ps)) pm"
proof (induction ps arbitrary: iw pm)
  case (Cons p ps)
  obtain ls metas where p: "p = (ls, metas)" by fastforce
  obtain refs sid iw1 where step: "label_refs_of sym_ref (entries ls) = Inr refs" "add_series refs metas iw = (Inr sid, iw1)"
      "emit_series sym_ref ps iw1 (push_labels ls sid pm) = (Inr pm', iw')"
    using Cons.prems p by (auto split: sum.splits prod.splits)
  obtain ss sids where "add_all_series ss iw1 = (Inr sids, iw')" "list_all2 (spec_for sym_ref) ps ss" "length sids = length ps"
      "pm' = fold (\<lambda>(sid, ls). push_labels ls sid) (zip sids (map fst ps)) (push_labels ls sid pm)"
    using Cons.IH [OF step(3)] by blast
  then show ?case
    using step(1,2) p by (intro exI [of _ "(refs, metas) # ss"] exI [of _ "sid # sids"]) simp
qed simp

lemma write_block_index_run:
  assumes "write_block_index ps d = (Inr len, d')"
  shows "\<exists>ss sids. write_index_file ''index'' (block_symbols ps) ss
      (posting_specs (posting_map_of (zip sids (map fst ps)))) d = (Inr (sids, len), d') \<and>
    list_all2 (spec_for (map_of (zip (block_symbols ps) (map of_nat [0..<length (block_symbols ps)])))) ps ss \<and>
    length sids = length ps"
proof -
  from assms obtain w d1 refs w1 u2 w2 pm w3 u4 w4 u5 w5 u6 w6 where steps: "IndexWriter_create ''index'' d = (Inr w, d1)"
      "add_symbols (block_symbols ps) w = (Inr refs, w1)" "finish_symbols w1 = (Inr u2, w2)"
      "emit_series (map_of (zip (block_symbols ps) refs)) ps w2 [] = (Inr pm, w3)"
      "finish_series w3 = (Inr u4, w4)" "add_all_postings (posting_specs pm) w4 = (Inr u5, w5)"
      "iw_close w5 d1 = (Inr u6, w6, d')" "len = length (iw_buf w6)"
    by (auto simp: write_block_index_def posting_specs_def split: prod.splits sum.splits)
  have refs: "refs = map of_nat [0..<length (block_symbols ps)]"
    using add_symbols_state [OF _ steps(2), of "[]"] IndexWriter_create_state [OF steps(1)] by simp
  obtain ss sids where run: "add_all_series ss w2 = (Inr sids, w3)"
      "list_all2 (spec_for (map_of (zip (block_symbols ps) refs))) ps ss" "length sids = length ps"
      "pm = posting_map_of (zip sids (map fst ps))"
    using emit_series_run [OF steps(4)] by (auto simp: posting_map_of_def)
  then have "write_index_file ''index'' (block_symbols ps) ss
      (posting_specs (posting_map_of (zip sids (map fst ps)))) d = (Inr (sids, len), d')"
    using steps by (simp add: write_index_file_def)
  then show ?thesis using run(2,3) unfolding refs by blast
qed

text \<open>What a reader of the index of a block returns for a prepared series.\<close>

abbreviation reads_back :: "IndexReader \<Rightarrow> u32 \<Rightarrow> prepared \<Rightarrow> bool" where
  "reads_back r sid p \<equiv> ir_series r (ucast sid) = Inr \<lparr>se_labels = fst p, se_chunks = snd p\<rparr>"

lemma write_block_index_ok:
  assumes run: "write_block_index ps d = (Inr len, d')" and size: "len < 2 ^ 32"
    and plain: "\<forall>p \<in> set ps. labels_plain (fst p)"
  shows "\<exists>bs r sids. map_of (dk_files d') = (map_of (dk_files d))(''index'' \<mapsto> bs) \<and> dk_dir d' = dk_dir d \<and>
    parse_index bs = Inr r \<and> index_serves r (zip sids (map fst ps)) \<and> list_all2 (reads_back r) sids ps"
proof -
  let ?syms = "block_symbols ps"
  obtain ss sids where specs: "write_index_file ''index'' ?syms ss
      (posting_specs (posting_map_of (zip sids (map fst ps)))) d = (Inr (sids, len), d')"
    "list_all2 (spec_for (map_of (zip ?syms (map of_nat [0..<length ?syms])))) ps ss" "length sids = length ps"
    using write_block_index_run [OF run] by blast
  obtain bs r where r: "map_of (dk_files d') = (map_of (dk_files d))(''index'' \<mapsto> bs)" "dk_dir d' = dk_dir d"
      "parse_index bs = Inr r" "serves r ?syms sids ss (posting_specs (posting_map_of (zip sids (map fst ps))))"
      "sorted_wrt (<) sids" "length ?syms < len"
    using write_index_file_ok [OF specs(1) size] by blast
  have ids: "map fst (zip sids (map fst ps)) = sids" using specs(3) by simp
  have serves: "index_serves r (zip sids (map fst ps))"
    unfolding index_serves_def ids using r(4,5) plain by (fastforce dest: set_zip_rightD)
  have "reads_back r (sids ! i) (ps ! i)" if i: "i < length sids" for i
  proof -
    have s: "spec_for (map_of (zip ?syms (map of_nat [0..<length ?syms]))) (ps ! i) (ss ! i)" "length ss = length ps"
      using specs(2,3) i by (auto simp: list_all2_conv_all_nth)
    then have refs: "refs_ok ?syms (fst (ss ! i))" "map (label_of ?syms) (fst (ss ! i)) = entries (fst (ps ! i))"
      using label_refs_of_ok [of _ ?syms, OF symbol_refs] r(6) size by auto
    have "labels_wf (fst (ps ! i))" using plain i specs(3) by (simp add: labels_plain_def)
    then show ?thesis
      using r(4) refs s i unfolding serves_def list_all2_conv_all_nth by (simp add: mk_labels_idem)
  qed
  then have "list_all2 (reads_back r) sids ps" using specs(3) by (simp add: list_all2_conv_all_nth)
  then show ?thesis using r(1-3) serves by blast
qed

end
