(* ===== verification/BlockCreate.thy ===== *)
theory BlockCreate
  imports BlockIndex
begin

text \<open>
  Creating a block succeeds. The other theorems on blocks say what a block that was created
  holds; here it is shown that on a disk without failures, in a directory that does not exist yet,
  \<open>create_from_series\<close> of src/block/block.cpp returns no error, with a bound on the size of the
  index in terms of the series.
\<close>

section \<open>The chunks\<close>

abbreviation with_chunks :: "SeriesInput list \<Rightarrow> SeriesInput list" where
  "with_chunks series \<equiv> filter (\<lambda>s. si_chunks s \<noteq> []) series"

text \<open>A writer that accepts chunks, on a disk without failures.\<close>

abbreviation cw_ready :: "ChunkWriter \<Rightarrow> Disk \<Rightarrow> bool" where
  "cw_ready w d \<equiv> dk_faults d = [] \<and> cw_fd w \<noteq> None \<and> \<not> cw_closed w"

lemma write_chunks_done:
  "cw_ready w d \<Longrightarrow> \<exists>metas w' t' d'. write_chunks chks w t d = (Inr metas, w', t', d') \<and> cw_ready w' d'"
proof (induction chks arbitrary: w t d)
  case (Cons c chks)
  obtain ref w1 d1 where "cw_write Encoding_XOR (cin_bytes c) w d = (Inr ref, w1, d1)" "cw_ready w1 d1"
    using cw_write_done [of d w] Cons.prems by blast
  then show ?case using Cons.IH [of d1 w1 "count_chunk c t"] by auto
qed simp

lemma prepare_series_done:
  "cw_ready w d \<Longrightarrow> \<exists>ps w' t' d'. prepare_series series w t d = (Inr ps, w', t', d') \<and> cw_ready w' d'"
proof (induction series arbitrary: w t d)
  case (Cons s series)
  obtain metas w1 t1 d1 where "write_chunks (si_chunks s) w t d = (Inr metas, w1, t1, d1)" "cw_ready w1 d1"
    using write_chunks_done [OF Cons.prems] by blast
  then show ?case using Cons.IH [of d1 w1 t1] Cons.IH [OF Cons.prems, of t] by auto
qed simp

text \<open>What is prepared: the labels, and as many descriptors as chunks.\<close>

lemma write_chunks_length: "write_chunks chks w t d = (Inr metas, w', t', d') \<Longrightarrow> length metas = length chks"
  by (induction chks arbitrary: w t d metas) (fastforce split: prod.splits sum.splits)+

lemma prepare_series_shape:
  "prepare_series series w t d = (Inr ps, w', t', d') \<Longrightarrow>
   map (\<lambda>p. (fst p, length (snd p))) ps = map (\<lambda>s. (si_labels s, length (si_chunks s))) (with_chunks series)"
proof (induction series arbitrary: w t d ps)
  case (Cons s series)
  then show ?case
    by (fastforce split: if_splits prod.splits sum.splits dest: write_chunks_length)
qed simp

lemma write_block_chunks_done:
  assumes "\<forall>(name, c) \<in> set (dk_files d). parse_chunk_name name = None" "dk_faults d = []"
  shows "\<exists>ps t d'. write_block_chunks series d = (Inr (ps, t), d') \<and> dk_faults d' = [] \<and>
    map (\<lambda>p. (fst p, length (snd p))) ps = map (\<lambda>s. (si_labels s, length (si_chunks s))) (with_chunks series)"
proof -
  obtain w d1 where w: "ChunkWriter_open k_default_chunks_segment_size d = (Inr w, d1)" "cw_ready w d1"
    using ChunkWriter_open_done [OF assms] by blast
  obtain ps w1 t1 d2 where "prepare_series series w BlockTotals_init d1 = (Inr ps, w1, t1, d2)" "cw_ready w1 d2"
    using prepare_series_done [OF w(2)] by blast
  moreover from this(2) obtain w2 d3 where "cw_close w1 d2 = (Inr (), w2, d3)" "dk_faults d3 = []" using cw_close_done by blast
  ultimately show ?thesis using w(1) prepare_series_shape by (simp add: write_block_chunks_def ChunkWriter_destroy_def sys_simple_ok)
qed

section \<open>The size of the index\<close>

text \<open>Lengths of what is written; ten bytes bound a variable-length integer.\<close>

lemma varint_room: "length (put_uvarint x) \<le> 10" "length (put_varint y) \<le> 10"
  using length_put_uvarint [of x] length_put_uvarint [of "zigzag y"] by (simp_all add: put_varint_def max_varint_len64_def)

lemma str_room: "length (str_bytes s) \<le> 10 + length s"
  using varint_room(1) [of "of_nat (length s)"] by (simp add: str_bytes_def)

lemma length_section: "length (frame p) = length p + 8"
  by (simp add: frame_def)

lemma pad_room: "0 < n \<Longrightarrow> length (pad_to n buf) \<le> length buf + (n - 1)"
  using pad_to_prefix [of n buf] by auto

lemma label_refs_room: "length (encode_label_refs refs) \<le> 20 * length refs"
proof (induction refs rule: encode_label_refs.induct)
  case (2 n v rs)
  then show ?case using varint_room(1) [of "ucast n"] varint_room(1) [of "ucast v"] by simp
qed simp

lemma chunk_metas_room: "length (encode_chunk_metas cs t r) \<le> 30 * length cs"
proof (induction cs t r rule: encode_chunk_metas.induct)
  case (2 c cs t r)
  then show ?case
    using varint_room(1) [of "cm_min_time c - t"] varint_room(1) [of "cm_max_time c - cm_min_time c"] varint_room(2) [of "cm_ref c - r"]
    by simp
qed simp

lemma series_payload_room: "length (series_payload refs metas) \<le> 20 + 20 * length refs + 30 * length metas"
proof (cases metas)
  case Nil
  then show ?thesis
    using varint_room(1) [of "of_nat (length refs)"] varint_room(1) [of 0] label_refs_room [of refs] by (simp add: series_payload_def)
next
  case (Cons c cs)
  then show ?thesis
    using varint_room(1) [of "of_nat (length refs)"] varint_room(1) [of "of_nat (length metas)"] label_refs_room [of refs]
      varint_room(2) [of "cm_min_time c"] varint_room(1) [of "cm_max_time c - cm_min_time c"] varint_room(1) [of "cm_ref c"]
      chunk_metas_room [of cs "cm_max_time c" "cm_ref c"]
    by (simp add: series_payload_def)
qed

text \<open>
  The room of an index: a series takes 49 bytes, each chunk 30, each label 99 and twice its length
  (in the symbols, the series, the postings and the table of the postings), the rest 106.
\<close>

definition label_room :: "Label list \<Rightarrow> nat" where
  "label_room es = (\<Sum>l\<leftarrow>es. 99 + 2 * (length (l_name l) + length (l_value l)))"

definition series_room :: "Labels \<Rightarrow> nat \<Rightarrow> nat" where
  "series_room ls chunks = 49 + label_room (entries ls) + 30 * chunks"

definition index_room :: "SeriesInput list \<Rightarrow> nat" where
  "index_room series = 106 + (\<Sum>s\<leftarrow>with_chunks series. series_room (si_labels s) (length (si_chunks s)))"

definition prepared_room :: "prepared list \<Rightarrow> nat" where
  "prepared_room ps = 106 + (\<Sum>p\<leftarrow>ps. series_room (fst p) (length (snd p)))"

lemma shape_room:
  "map (\<lambda>p. (fst p, length (snd p))) ps = map (\<lambda>s. (si_labels s, length (si_chunks s))) (with_chunks series) \<Longrightarrow>
   prepared_room ps = index_room series"
  by (drule arg_cong [where f = "\<lambda>xs. sum_list (map (\<lambda>(ls, n). series_room ls n) xs)"])
    (simp add: prepared_room_def index_room_def comp_def)

text \<open>The symbols: the set of all names and values, so at most the sum of their lengths.\<close>

abbreviation weight :: "string list \<Rightarrow> nat" where
  "weight ss \<equiv> (\<Sum>s\<leftarrow>ss. 10 + length s)"

lemma symbols_room: "length (symbols_bytes syms) \<le> weight syms"
proof (induction syms)
  case (Cons s syms)
  then show ?case using str_room [of s] by simp
qed simp

lemma weight_sort: "weight (sort ss) = weight ss"
proof (induction ss)
  case (Cons s ss)
  have "weight (insort s xs) = 10 + length s + weight xs" for xs by (induction xs) auto
  then show ?case using Cons by simp
qed simp

lemma weight_sort_unique: "weight (sort_unique ss) \<le> weight ss"
proof -
  have "weight (remdups_adj xs) \<le> weight xs" for xs by (induction xs rule: remdups_adj.induct) auto
  then show ?thesis unfolding sort_unique_def by (metis weight_sort)
qed

abbreviation symbol_weight :: "Label list \<Rightarrow> nat" where
  "symbol_weight es \<equiv> (\<Sum>l\<leftarrow>es. 20 + length (l_name l) + length (l_value l))"

lemma weight_labels: "weight (label_symbols ls) = symbol_weight (entries ls)"
proof -
  have "weight (concat (map (\<lambda>l. [l_name l, l_value l]) es)) = symbol_weight es" for es by (induction es) auto
  then show ?thesis by (simp add: label_symbols_def)
qed

lemma block_symbols_room: "weight (block_symbols ps) \<le> 10 + (\<Sum>p\<leftarrow>ps. symbol_weight (entries (fst p)))"
proof -
  have "weight (concat (map (label_symbols \<circ> fst) ps)) = (\<Sum>p\<leftarrow>ps. symbol_weight (entries (fst p)))"
    by (induction ps) (simp_all add: weight_labels)
  then show ?thesis
    using weight_sort_unique [of "[] # concat (map (label_symbols \<circ> fst) ps)"] by (simp add: block_symbols_def)
qed

text \<open>The posting lists and their entries in the table.\<close>

abbreviation posting_room :: "posting_spec \<Rightarrow> nat" where
  "posting_room p \<equiv> 55 + length (fst p) + length (fst (snd p)) + 4 * length (snd (snd p))"

abbreviation postings_room :: "posting_map \<Rightarrow> nat" where
  "postings_room pm \<equiv> (\<Sum>p\<leftarrow>posting_specs pm. posting_room p)"

abbreviation posting_weight :: "Label list \<Rightarrow> nat" where
  "posting_weight es \<equiv> (\<Sum>l\<leftarrow>es. 59 + length (l_name l) + length (l_value l))"

lemma posting_specs_simps [simp]:
  "posting_specs [] = []" "posting_specs ((k, ids) # pm) = (fst k, snd k, ids) # posting_specs pm"
  by (simp_all add: posting_specs_def case_prod_beta)

lemma push_posting_room: "postings_room (push_posting k sid pm) \<le> postings_room pm + 59 + length (fst k) + length (snd k)"
proof (induction k sid pm rule: push_posting.induct)
  case (2 k sid k' ids ps)
  then show ?case by (cases "k = k'"; cases "k < k'") simp_all
qed simp

lemma push_labels_room: "postings_room (push_labels ls sid pm) \<le> postings_room pm + posting_weight (entries ls)"
proof -
  have "postings_room (fold (\<lambda>l. push_posting (l_name l, l_value l) sid) es pm) \<le> postings_room pm + posting_weight es" for es
  proof (induction es arbitrary: pm)
    case (Cons e es)
    show ?case
      using Cons.IH [of "push_posting (l_name e, l_value e) sid pm"] push_posting_room [of "(l_name e, l_value e)" sid pm] by simp
  qed simp
  then show ?thesis by (simp add: push_labels_def)
qed

lemma posting_map_room: "postings_room (posting_map_of sls) \<le> (\<Sum>p\<leftarrow>sls. posting_weight (entries (snd p)))"
proof -
  have "postings_room (fold (\<lambda>(sid, ls). push_labels ls sid) sls pm) \<le> postings_room pm + (\<Sum>p\<leftarrow>sls. posting_weight (entries (snd p)))" for pm
  proof (induction sls arbitrary: pm)
    case (Cons s sls)
    obtain sid ls where s: "s = (sid, ls)" by fastforce
    show ?case using Cons.IH [of "push_labels ls sid pm"] push_labels_room [of ls sid pm] by (simp add: s)
  qed simp
  from this [of "[]"] show ?thesis by (simp add: posting_map_of_def)
qed

section \<open>The index writer\<close>

lemma IndexWriter_create_done:
  "dk_faults d = [] \<Longrightarrow> map_of (dk_files d) file = None \<Longrightarrow> \<exists>w. IndexWriter_create file d = (Inr w, d)"
  by (simp add: IndexWriter_create_def sys_simple_ok)

lemma add_symbols_done:
  "sym_state w pre \<Longrightarrow> sorted (pre @ syms) \<Longrightarrow> \<exists>refs w'. add_symbols syms w = (Inr refs, w')"
proof (induction syms arbitrary: w pre)
  case (Cons s syms)
  have "\<not> (iw_any_symbol w \<and> s < iw_last_symbol w)"
    using Cons.prems by (cases pre rule: rev_cases) (auto simp: sym_state_def sorted_append not_less)
  moreover have "iw_stage w = StSymbols" using Cons.prems(1) by (simp add: sym_state_def)
  ultimately obtain ref w1 where w1: "add_symbol s w = (Inr ref, w1)" by (auto simp: add_symbol_def Let_def)
  obtain refs w' where "add_symbols syms w1 = (Inr refs, w')"
    using Cons.IH [OF add_symbol_state(2) [OF Cons.prems(1) w1]] Cons.prems(2) by auto
  then show ?case using w1 by simp
qed simp

lemma label_refs_of_done:
  "\<forall>l \<in> set es. l_name l \<in> dom sym_ref \<and> l_value l \<in> dom sym_ref \<Longrightarrow> \<exists>refs. label_refs_of sym_ref es = Inr refs"
  by (induction es) auto

lemma label_refs_of_length: "label_refs_of sym_ref es = Inr refs \<Longrightarrow> length refs = length es"
  by (induction es arbitrary: refs) (auto split: option.splits sum.splits)

lemma add_series_done:
  "iw_stage w = StSeries \<Longrightarrow> \<exists>sid w'. add_series refs metas w = (Inr sid, w')"
  by (simp add: add_series_def Let_def)

lemma emit_series_done:
  "iw_stage iw = StSeries \<Longrightarrow> \<forall>p \<in> set ps. \<forall>l \<in> set (entries (fst p)). l_name l \<in> dom sym_ref \<and> l_value l \<in> dom sym_ref \<Longrightarrow>
   \<exists>pm' iw'. emit_series sym_ref ps iw pm = (Inr pm', iw')"
proof (induction ps arbitrary: iw pm)
  case (Cons p ps)
  obtain ls metas where p: "p = (ls, metas)" by fastforce
  obtain refs where refs: "label_refs_of sym_ref (entries ls) = Inr refs"
    using label_refs_of_done [of "entries ls" sym_ref] Cons.prems(2) p by auto
  obtain sid iw1 where step: "add_series refs metas iw = (Inr sid, iw1)" using add_series_done [OF Cons.prems(1)] by blast
  then show ?case
    using Cons.IH [OF add_series_buf(4) [OF step], of "push_labels ls sid pm"] Cons.prems(2) p refs by simp
qed simp

lemma add_all_series_room:
  "add_all_series ss w = (Inr sids, w') \<Longrightarrow> iw_stage w = StSeries \<Longrightarrow>
   iw_stage w' = StSeries \<and> iw_pending_postings w' = iw_pending_postings w \<and>
   length (iw_buf w') \<le> length (iw_buf w) + (\<Sum>s\<leftarrow>ss. 49 + 20 * length (fst s) + 30 * length (snd s))"
proof (induction ss arbitrary: w sids)
  case (Cons s ss)
  obtain refs metas where s: "s = (refs, metas)" by fastforce
  obtain sid w1 sids' where step: "add_series refs metas w = (Inr sid, w1)" "add_all_series ss w1 = (Inr sids', w')"
    using Cons.prems(1) s by (auto split: prod.splits sum.splits)
  note buf = add_series_buf [OF step(1)]
  have "iw_pending_postings w1 = iw_pending_postings w" using step(1) by (auto simp: add_series_def Let_def split: if_splits)
  moreover have "length (iw_buf w1) \<le> length (iw_buf w) + 49 + 20 * length refs + 30 * length metas"
    using buf(1) pad_room [of 16 "iw_buf w"] series_payload_room [of refs metas]
      varint_room(1) [of "of_nat (length (series_payload refs metas))"] by (simp add: series_frame_def)
  ultimately show ?case using Cons.IH [OF step(2) buf(4)] s by simp
qed simp

lemma finish_series_done:
  assumes "iw_stage w = StSeries"
  shows "\<exists>w'. finish_series w = (Inr (), w') \<and> iw_stage w' = StPostings \<and>
    iw_pending_postings w' = iw_pending_postings w \<and> length (iw_buf w') \<le> length (iw_buf w) + 15"
  using assms pad_room [of 16 "iw_buf w"] by (simp add: finish_series_def Let_def k_index_series_align_def)

lemma ascending_strictly: "sorted_wrt (<) ids \<Longrightarrow> strictly_ascending ids"
  by (induction ids rule: strictly_ascending.induct) auto

abbreviation pending_size :: "IndexWriter \<Rightarrow> nat" where
  "pending_size w \<equiv> length (concat (map entry_bytes (iw_pending_postings w)))"

lemma add_postings_done:
  assumes "iw_stage w = StPostings" "strictly_ascending ids"
  shows "\<exists>w'. add_postings name val ids w = (Inr (), w') \<and> iw_stage w' = StPostings \<and>
    length (iw_buf w') + pending_size w' \<le> length (iw_buf w) + pending_size w + posting_room (name, val, ids)"
proof -
  obtain w' where w': "add_postings name val ids w = (Inr (), w')" "iw_stage w' = StPostings"
    using assms by (simp add: add_postings_def Let_def)
  note buf = add_postings_buf [OF w'(1)]
  have "length (concat (map be32 ids)) = 4 * length ids" by (induction ids) simp_all
  then have "length (posting_payload ids) = 4 + 4 * length ids" by (simp add: posting_payload_def)
  moreover have "length (entry_bytes e) \<le> 40 + length (pe_name e) + length (pe_value e)" for e
    using varint_room(1) [of 2] varint_room(1) [of "pe_offset e"] str_room [of "pe_name e"] str_room [of "pe_value e"]
    by (simp add: entry_bytes_def)
  from this [of "\<lparr>pe_name = name, pe_value = val, pe_offset = of_nat (length (pad_to 4 (iw_buf w)))\<rparr>"]
  have "pending_size w' \<le> pending_size w + 40 + length name + length val" by (simp add: buf(2))
  ultimately show ?thesis
    using w' pad_room [of 4 "iw_buf w"] by (simp add: buf(1) length_section)
qed

lemma add_all_postings_done:
  "iw_stage w = StPostings \<Longrightarrow> \<forall>p \<in> set ps. strictly_ascending (snd (snd p)) \<Longrightarrow>
   \<exists>w'. add_all_postings ps w = (Inr (), w') \<and> iw_stage w' = StPostings \<and>
     length (iw_buf w') + pending_size w' \<le> length (iw_buf w) + pending_size w + (\<Sum>p\<leftarrow>ps. posting_room p)"
proof (induction ps arbitrary: w)
  case (Cons p ps)
  obtain name val ids where p: "p = (name, val, ids)" by (cases p)
  obtain w1 where w1: "add_postings name val ids w = (Inr (), w1)" "iw_stage w1 = StPostings"
      "length (iw_buf w1) + pending_size w1 \<le> length (iw_buf w) + pending_size w + posting_room (name, val, ids)"
    using add_postings_done [OF Cons.prems(1), of ids name val] Cons.prems(2) p by auto
  obtain w' where "add_all_postings ps w1 = (Inr (), w')" "iw_stage w' = StPostings"
      "length (iw_buf w') + pending_size w' \<le> length (iw_buf w1) + pending_size w1 + (\<Sum>p\<leftarrow>ps. posting_room p)"
    using Cons.IH [OF w1(2)] Cons.prems(2) by auto
  then show ?case using w1 p by simp
qed simp

lemma write_index_done:
  assumes "dk_faults d = []" "map_of (dk_files d) file = None"
  shows "\<exists>d'. write_index file bs d = (Inr (), d')"
proof -
  have "dk_faults (file_create file d) = []" using assms(1) by (simp add: file_create_def)
  then obtain d2 where "flush_loop file bs (file_create file d) = (Inr (), d2)" "dk_faults d2 = []"
    by (cases "bs = []") (auto simp: flush_loop.simps syscall_def)
  then show ?thesis using assms by (simp add: write_index_def sys_simple_ok)
qed

lemma iw_close_done:
  assumes "iw_stage w = StPostings" "dk_faults d = []" "map_of (dk_files d) (iw_file w) = None"
  shows "\<exists>w' d'. iw_close w d = (Inr (), w', d') \<and> length (iw_buf w') = length (iw_buf w) + pending_size w + 64"
proof -
  let ?w1 = "put_toc (put_postings_table w)"
  have name: "iw_file ?w1 = iw_file w" by (simp add: put_toc_def put_postings_table_def Let_def)
  then obtain d' where "write_index (iw_file ?w1) (iw_buf ?w1) d = (Inr (), d')"
    using write_index_done [OF assms(2,3)] by (auto simp: name)
  moreover have "length (iw_buf ?w1) = length (iw_buf w) + pending_size w + 64"
    by (simp add: put_toc_buf put_postings_table_buf length_section table_payload_def toc_body_def del: length_concat)
  ultimately show ?thesis using assms(1) by (simp add: iw_close_def Let_def)
qed

lemma symbol_refs_dom:
  assumes "p \<in> set ps" "l \<in> set (entries (fst p))"
  shows "l_name l \<in> dom (map_of (zip (block_symbols ps) (map f [0..<length (block_symbols ps)])))"
    "l_value l \<in> dom (map_of (zip (block_symbols ps) (map f [0..<length (block_symbols ps)])))"
  using assms by (auto simp: dom_map_of_zip block_symbols_def label_symbols_def)

text \<open>The room taken apart: the series, the symbols, the postings.\<close>

lemma label_room_parts: "label_room es = 20 * length es + symbol_weight es + posting_weight es"
  by (induction es) (simp_all add: label_room_def)

lemma prepared_room_parts:
  assumes "list_all2 (spec_for sym_ref) ps ss" "length sids = length ps"
  shows "prepared_room ps = 106 + (\<Sum>s\<leftarrow>ss. 49 + 20 * length (fst s) + 30 * length (snd s)) +
    (\<Sum>p\<leftarrow>ps. symbol_weight (entries (fst p))) + (\<Sum>p\<leftarrow>zip sids (map fst ps). posting_weight (entries (snd p)))"
proof -
  have "(\<Sum>s\<leftarrow>ss. 49 + 20 * length (fst s) + 30 * length (snd s)) = (\<Sum>p\<leftarrow>ps. 49 + 20 * length (entries (fst p)) + 30 * length (snd p))"
    using assms(1)
  proof (induction ps ss rule: list_all2_induct)
    case (Cons p ps s ss)
    then show ?case using label_refs_of_length [of sym_ref "entries (fst p)" "fst s"] by simp
  qed simp
  moreover have "(\<Sum>p\<leftarrow>zip sids (map fst ps). posting_weight (entries (snd p))) = (\<Sum>p\<leftarrow>ps. posting_weight (entries (fst p)))"
    using assms(2) by (induction sids ps rule: list_induct2) simp_all
  moreover have "(\<Sum>p\<leftarrow>ps. series_room (fst p) (length (snd p))) = (\<Sum>p\<leftarrow>ps. 49 + 20 * length (entries (fst p)) + 30 * length (snd p)) +
      (\<Sum>p\<leftarrow>ps. symbol_weight (entries (fst p))) + (\<Sum>p\<leftarrow>ps. posting_weight (entries (fst p)))"
    by (induction ps) (simp_all add: series_room_def label_room_parts)
  ultimately show ?thesis by (simp add: prepared_room_def)
qed

text \<open>The phases put together.\<close>

lemma write_block_index_done:
  assumes calm: "dk_faults d = []" and new: "map_of (dk_files d) ''index'' = None"
    and wf: "\<forall>p \<in> set ps. labels_wf (fst p)" and room: "prepared_room ps < 2 ^ 32"
  shows "\<exists>len d'. write_block_index ps d = (Inr len, d') \<and> len \<le> prepared_room ps"
proof -
  let ?syms = "block_symbols ps"
  let ?ref = "map_of (zip ?syms (map of_nat [0..<length ?syms]))"
  obtain w where w: "IndexWriter_create ''index'' d = (Inr w, d)" using IndexWriter_create_done [OF calm new] by blast
  note w0 = IndexWriter_create_state [OF w]
  have "sorted ([] @ ?syms)" using strict_sorted_imp_sorted [OF sort_unique_sorted] by (simp add: block_symbols_def)
  then obtain refs w1 where w1: "add_symbols ?syms w = (Inr refs, w1)" using add_symbols_done w0 by blast
  have refs: "refs = map of_nat [0..<length ?syms]" and s1: "sym_state w1 ?syms" and f1: "iw_file w1 = ''index''"
    using add_symbols_state [OF conjunct1 [OF w0] w1] w0 by simp_all
  obtain r2 w2 where w2: "finish_symbols w1 = (r2, w2)" by fastforce
  note s2 = finish_symbols_state [OF s1 w2]
  have "\<forall>p \<in> set ps. \<forall>l \<in> set (entries (fst p)). l_name l \<in> dom ?ref \<and> l_value l \<in> dom ?ref"
    by (intro ballI conjI symbol_refs_dom)
  from emit_series_done [OF s2(4) this, of "[]"]
  obtain pm w3 where w3: "emit_series ?ref ps w2 [] = (Inr pm, w3)" by blast
  obtain ss sids where ss: "add_all_series ss w2 = (Inr sids, w3)" "list_all2 (spec_for ?ref) ps ss" "length sids = length ps"
      and pm: "pm = posting_map_of (zip sids (map fst ps))"
    using emit_series_run [OF w3] by (auto simp: posting_map_of_def)
  have b3: "iw_stage w3 = StSeries" "iw_pending_postings w3 = []"
      "length (iw_buf w3) \<le> length (iw_buf w2) + (\<Sum>s\<leftarrow>ss. 49 + 20 * length (fst s) + 30 * length (snd s))"
    using add_all_series_room [OF ss(1) s2(4)] s2(5) by simp_all
  obtain w4 where w4: "finish_series w3 = (Inr (), w4)" "iw_stage w4 = StPostings" "iw_pending_postings w4 = []"
      "length (iw_buf w4) \<le> length (iw_buf w3) + 15"
    using finish_series_done [OF b3(1)] b3(2) by auto
  have bound: "prepared_room ps = 106 + (\<Sum>s\<leftarrow>ss. 49 + 20 * length (fst s) + 30 * length (snd s)) +
      (\<Sum>p\<leftarrow>ps. symbol_weight (entries (fst p))) + (\<Sum>p\<leftarrow>zip sids (map fst ps). posting_weight (entries (snd p)))"
    by (rule prepared_room_parts [OF ss(2,3)])
  have b2: "length (iw_buf w2) \<le> 27 + (\<Sum>p\<leftarrow>ps. symbol_weight (entries (fst p)))"
    using symbols_room [of ?syms] block_symbols_room [of ps] by (simp add: s2(2) length_section symbols_payload_def del: length_concat)
  have "length (iw_buf w3) < 2 ^ 32" using b3(3) b2 bound room by linarith
  then have h3: "iw_holds w3 ?syms sids ss []"
    using add_all_series_holds [OF iw_holds_start [OF s1 w2] ss(1)] by simp
  have asc: "strictly_ascending (snd (snd p))" if "p \<in> set (posting_specs pm)" for p
  proof -
    obtain n v ids where p: "p = (n, v, ids)" by (cases p)
    have "\<forall>(sid, ls) \<in> set (zip sids (map fst ps)). labels_wf ls" using wf by (fastforce dest: set_zip_rightD)
    from posting_map_of_mem [OF this, of n v ids] that
    have "ids = ids_where (zip sids (map fst ps)) (\<lambda>ls. has_pair ls n v)" by (simp add: p posting_specs_mem pm)
    then show ?thesis
      using ids_where_sorted [of "zip sids (map fst ps)"] h3 ss(3) by (simp add: p iw_holds_def ascending_strictly)
  qed
  obtain w5 where w5: "add_all_postings (posting_specs pm) w4 = (Inr (), w5)" "iw_stage w5 = StPostings"
      "length (iw_buf w5) + pending_size w5 \<le> length (iw_buf w4) + postings_room pm"
    using add_all_postings_done [OF w4(2), of "posting_specs pm"] asc w4(3) by auto
  have "iw_file w5 = ''index''"
    using f1 s2(6) add_all_series_grows [OF ss(1)] finish_series_holds(3) [OF h3 w4(1)] add_all_postings_grows [OF w5(1)] by simp
  then obtain w6 d' where w6: "iw_close w5 d = (Inr (), w6, d')" "length (iw_buf w6) = length (iw_buf w5) + pending_size w5 + 64"
    using iw_close_done [OF w5(2) calm] new by auto
  have "postings_room pm \<le> (\<Sum>p\<leftarrow>zip sids (map fst ps). posting_weight (entries (snd p)))"
    unfolding pm by (rule posting_map_room)
  then have "length (iw_buf w6) \<le> prepared_room ps"
    using w6(2) w5(3) w4(4) b3(3) b2 bound by linarith
  moreover have "write_block_index ps d = (Inr (length (iw_buf w6)), d')"
    using w w1 w2 s2(1) w3 w4(1) w5(1) w6(1) refs by (simp add: write_block_index_def posting_specs_def)
  ultimately show ?thesis by blast
qed

section \<open>What the steps leave on the disk\<close>

lemma file_dirs: "dk_dir (file_append f bs d) = dk_dir d" "dk_dir (file_create f d) = dk_dir d" "dk_dir (file_rename f g d) = dk_dir d"
  by (simp_all add: file_append_def file_create_def file_rename_def split: option.splits)

lemma syscall_dir: "syscall d = (r, d') \<Longrightarrow> dk_dir d' = dk_dir d"
  by (simp add: syscall_disk)

lemma sys_simple_dir [simp]: "dk_dir (snd (sys_simple d)) = dk_dir d"
  by (metis prod.collapse sys_simple_disk)

lemma atomic_write_dir: "dk_dir (snd (atomic_write path content d)) = dk_dir d"
proof -
  have close: "dk_dir (stream_close fd bs d) = dk_dir d" for fd bs d
    by (auto simp: stream_close_def file_dirs split: prod.splits io_result.splits dest: syscall_dir)
  have stream: "dk_dir (snd (stream_write fd bs d)) = dk_dir d" for fd bs d
    by (auto simp: stream_write_def file_dirs split: prod.splits io_result.splits dest: syscall_dir)
  have tmp: "dk_dir (snd (write_tmp fd bs d)) = dk_dir d" for fd bs d
  proof -
    obtain r1 d1 where s1: "sys_simple d = (r1, d1)" by fastforce
    obtain r2 d2 where s2: "stream_write fd bs (file_create fd d1) = (r2, d2)" by fastforce
    have "dk_dir d1 = dk_dir d" "dk_dir d2 = dk_dir d1"
      using sys_simple_disk [OF s1] stream [of fd bs "file_create fd d1"] s2 by (simp_all add: file_dirs)
    then show ?thesis using s1 s2 by (auto simp: write_tmp_def close split: sum.splits)
  qed
  have sync: "dk_dir (sync_dir d) = dk_dir d" for d
    by (auto simp: sync_dir_def split: prod.splits sum.splits dest: sys_simple_disk)
  obtain r1 d1 where w: "write_tmp (path @ ''.tmp'') content d = (r1, d1)" by fastforce
  obtain r2 d2 where s: "sys_simple d1 = (r2, d2)" by fastforce
  have "dk_dir d1 = dk_dir d" "dk_dir d2 = dk_dir d1"
    using tmp [of "path @ ''.tmp''" content d] w sys_simple_disk [OF s] by simp_all
  then show ?thesis
    using w s by (auto simp: atomic_write_def Let_def sync file_dirs split: sum.splits)
qed

lemma write_meta_disk:
  assumes run: "write_meta J m d = (Inr (), d')"
  shows "map_of (dk_files d') ''index'' = map_of (dk_files d) ''index''" "dk_dir d' = dk_dir d"
    "\<exists>t. encode_meta_json J m = Some t \<and>
      (dk_faults d = [] \<longrightarrow> map_of (dk_files d') k_meta_filename = Some (string_bytes t) \<and> dk_faults d' = [])"
proof -
  obtain t where t: "encode_meta_json J m = Some t" "atomic_write k_meta_filename (string_bytes t) d = (Inr (), d')"
    using run by (auto simp: write_meta_def split: option.splits)
  note spec = atomic_write_spec [OF t(2)]
  show "map_of (dk_files d') ''index'' = map_of (dk_files d) ''index''"
    using spec(1) [of "''index''"] by (simp add: k_meta_filename_def)
  show "dk_dir d' = dk_dir d" using atomic_write_dir [of k_meta_filename "string_bytes t" d] t(2) by simp
  show "\<exists>t. encode_meta_json J m = Some t \<and>
      (dk_faults d = [] \<longrightarrow> map_of (dk_files d') k_meta_filename = Some (string_bytes t) \<and> dk_faults d' = [])"
    using t spec(4) by auto
qed

lemma write_tombstones_disk:
  assumes run: "write_tombstones d = (Inr (), d')" and f: "f \<noteq> ''tombstones''"
  shows "map_of (dk_files d') f = map_of (dk_files d) f" "dk_dir d' = dk_dir d"
proof -
  obtain u d1 where d1: "sys_simple d = (Inr u, d1)" "d' = file_create ''tombstones'' d1"
    using run by (auto simp: write_tombstones_def split: prod.splits sum.splits)
  then show "map_of (dk_files d') f = map_of (dk_files d) f" "dk_dir d' = dk_dir d"
    using f sys_simple_disk [OF d1(1)] by (simp_all add: d1(2) file_create_files file_dirs)
qed

lemma write_block_index_disk:
  assumes run: "write_block_index ps d = (Inr len, d')"
  shows "\<exists>bs. map_of (dk_files d') ''index'' = Some bs \<and> length bs = len" "dk_dir d' = dk_dir d"
    "dk_faults d = [] \<Longrightarrow> dk_faults d' = []"
proof -
  obtain ss sids posts where full: "write_index_file ''index'' (block_symbols ps) ss posts d = (Inr (sids, len), d')"
    using write_block_index_run [OF run] by blast
  then obtain w d1 refs w1 u2 w2 w3 u4 w4 u5 w5 u6 w6 where steps: "IndexWriter_create ''index'' d = (Inr w, d1)"
      "add_symbols (block_symbols ps) w = (Inr refs, w1)" "finish_symbols w1 = (Inr u2, w2)" "add_all_series ss w2 = (Inr sids, w3)"
      "finish_series w3 = (Inr u4, w4)" "add_all_postings posts w4 = (Inr u5, w5)" "iw_close w5 d1 = (Inr u6, w6, d')"
      "len = length (iw_buf w6)"
    by (auto simp: write_index_file_def split: prod.splits sum.splits)
  have w4: "iw_file w4 = iw_file w3" using steps(5) by (auto simp: finish_series_def Let_def split: if_splits)
  have syms: "sym_state w1 (block_symbols ps)" "iw_file w1 = ''index''"
    using add_symbols_state [OF _ steps(2), of "[]"] IndexWriter_create_state [OF steps(1)] by simp_all
  have fname: "iw_file w5 = ''index''"
    using syms(2) finish_symbols_state(6) [OF syms(1) steps(3)] add_all_series_grows [OF steps(4)] w4
      add_all_postings_grows [OF steps(6)] by simp
  have wr: "write_index ''index'' (iw_buf w6) d1 = (Inr (), d')"
    using steps(7) fname by (auto simp: iw_close_def Let_def put_toc_def put_postings_table_def split: if_splits prod.splits sum.splits)
  then show "\<exists>bs. map_of (dk_files d') ''index'' = Some bs \<and> length bs = len" "dk_dir d' = dk_dir d"
    using write_index_ok [OF wr] IndexWriter_create_disk [OF steps(1)] steps(8) by simp_all
  assume calm: "dk_faults d = []"
  then have "dk_faults d1 = []" using steps(1) by (auto simp: IndexWriter_create_def sys_simple_ok split: if_splits)
  then show "dk_faults d' = []"
    using wr by (auto simp: write_index_def sys_simple_ok flush_loop.simps syscall_def file_create_def split: if_splits)
qed

section \<open>The block\<close>

text \<open>A directory that does not exist yet, on a disk without failures.\<close>

definition fresh_dir :: BlockDir where
  "fresh_dir = \<lparr>bk_top = \<lparr>dk_dir = False, dk_files = [], dk_faults = []\<rparr>, bk_chunks = \<lparr>dk_dir = False, dk_files = [], dk_faults = []\<rparr>\<rparr>"

lemma new_ulid_ascii: "ascii (new_ulid now r0 r1 r2)"
proof -
  let ?bytes = "map (\<lambda>s. ucast (drop_bit s (now AND 0x0000FFFFFFFFFFFF))) [40, 32, 24, 16, 8, 0] @
      take (k_ulid_byte_size - 6) (ulid_random r0 @ ulid_random r1 @ ulid_random r2)"
  have "length ?bytes = 16" by (simp add: k_ulid_byte_size_def)
  note groups = encode_ulid_groups [OF this]
  have "list_all (\<lambda>c. (of_char c :: nat) < 128) k_crockford_alphabet" by code_simp
  moreover have "unat (take_bit 5 w) < length k_crockford_alphabet" for w :: u8
    by (simp add: k_crockford_alphabet_def unat_take_bit)
  ultimately have "(of_char (crockford w) :: nat) < 128" for w :: u8
    by (simp add: list_all_length)
  then show ?thesis unfolding new_ulid_def Let_def groups by (auto simp: ascii_def)
qed

lemma block_meta_ascii: "ascii ulid \<Longrightarrow> meta_ascii (block_meta ulid ps t)"
  by (simp add: meta_ascii_def block_meta_def BlockMeta_init_def BlockMetaCompaction_init_def)

lemma write_meta_done:
  assumes "json_dumps J" "meta_ascii m" "dk_faults d = []"
  shows "\<exists>d'. write_meta J m d = (Inr (), d') \<and> dk_faults d' = []"
proof -
  obtain t where t: "encode_meta_json J m = Some t" using meta_dumps [OF assms(1,2)] by blast
  obtain r d' where w: "atomic_write k_meta_filename (string_bytes t) d = (r, d')" by fastforce
  then show ?thesis using atomic_write_spec(4) [OF w assms(3)] t by (simp add: write_meta_def)
qed

text \<open>Creation as a whole.\<close>

lemma create_done:
  assumes json: "json_dumps J" and new: "st ulid = fresh_dir" "ulid = new_ulid now r0 r1 r2"
    and wf: "\<forall>s \<in> set (with_chunks series). labels_wf (si_labels s)" and room: "index_room series < 2 ^ 32"
  shows "\<exists>st'. create_from_series J (now, r0, r1, r2) series st = (Inr ulid, st') \<and>
    dk_faults (bk_top (st' ulid)) = [] \<and> dk_faults (bk_chunks (st' ulid)) = [] \<and>
    (\<exists>bs. map_of (dk_files (bk_top (st' ulid))) ''index'' = Some bs \<and> length bs \<le> index_room series)"
proof -
  let ?top = "\<lparr>dk_dir = True, dk_files = [], dk_faults = []\<rparr>"
  have dir: "make_block_dir fresh_dir = (Inr (), fresh_dir\<lparr>bk_top := ?top\<rparr>)"
    by (simp add: make_block_dir_def fresh_dir_def sys_simple_ok)
  obtain ps t c where c: "write_block_chunks series (bk_chunks fresh_dir) = (Inr (ps, t), c)" "dk_faults c = []"
      and shape: "map (\<lambda>p. (fst p, length (snd p))) ps = map (\<lambda>s. (si_labels s, length (si_chunks s))) (with_chunks series)"
    using write_block_chunks_done [of "bk_chunks fresh_dir" series] by (auto simp: fresh_dir_def)
  have "map fst ps = map si_labels (with_chunks series)"
    using arg_cong [OF shape, of "map fst"] by (simp add: comp_def)
  then have "fst ` set ps = si_labels ` set (with_chunks series)" unfolding set_map [symmetric] by (rule arg_cong)
  then have "\<forall>p \<in> set ps. labels_wf (fst p)" using wf by (metis (no_types, lifting) imageE imageI)
  then obtain len i where i: "write_block_index ps ?top = (Inr len, i)" "len \<le> index_room series"
    using write_block_index_done [of ?top ps] room shape_room [OF shape] by auto
  note index = write_block_index_disk [OF i(1)]
  obtain m where m: "write_meta J (block_meta ulid ps t) i = (Inr (), m)" "dk_faults m = []"
    using write_meta_done [OF json block_meta_ascii [OF new_ulid_ascii], of i now r0 r1 r2 ps t] index(3) by (auto simp: new(2))
  have tomb: "write_tombstones m = (Inr (), file_create ''tombstones'' m)"
    using m(2) by (simp add: write_tombstones_def sys_simple_ok)
  let ?b = "\<lparr>bk_top = file_create ''tombstones'' m, bk_chunks = c\<rparr>"
  have "create_from_series J (now, r0, r1, r2) series st = (Inr ulid, st(ulid := ?b))"
    using dir c(1) i(1) m(1) tomb new by (simp add: create_from_series_def fill_block_def fresh_dir_def Let_def)
  moreover have "\<exists>bs. map_of (dk_files (file_create ''tombstones'' m)) ''index'' = Some bs \<and> length bs \<le> index_room series"
    using write_meta_disk(1) [OF m(1)] index(1) i(2) by (auto simp: file_create_files)
  moreover have "dk_faults (file_create ''tombstones'' m) = []" using m(2) by (simp add: file_create_def)
  ultimately show ?thesis using c(2) by (intro exI [of _ "st(ulid := ?b)"]) simp
qed

end
