(* ===== verification/BlockQuery.thy ===== *)
theory BlockQuery
  imports BlockCreate
begin

text \<open>
  A block from its creation to its queries. The chunks of the series are in the segment files at
  the references the descriptors in the index carry, so loading a series by its id gives the
  chunks that were put in. Shown: a block that was created answers a query with exactly the
  series whose labels satisfy the matchers and, of each, exactly the chunks in the time range.
\<close>

section \<open>Chunks\<close>

lemma from_to_u64: "from_u64 (to_u64 ref) = ref"
proof -
  have "(ucast (drop_bit 32 (push_bit 32 (ucast a) OR ucast b :: u64)) :: u32) = a"
    "(ucast ((push_bit 32 (ucast a) OR ucast b :: u64) AND 0xFFFFFFFF) :: u32) = b" for a b :: u32
  proof -
    have mask: "(0xFFFFFFFF :: u64) = mask 32" by (simp add: mask_eq_exp_minus_1)
    show "(ucast (drop_bit 32 (push_bit 32 (ucast a) OR ucast b :: u64)) :: u32) = a"
      by (rule bit_word_eqI) (auto simp: bit_simps dest: bit_imp_le_length)
    show "(ucast ((push_bit 32 (ucast a) OR ucast b :: u64) AND 0xFFFFFFFF) :: u32) = b"
      unfolding mask by (rule bit_word_eqI) (auto simp: bit_simps)
  qed
  then show ?thesis by (cases ref) (simp add: from_u64_def to_u64_def)
qed

abbreviation input_payload :: "ChunkInput \<Rightarrow> Encoding \<times> bytes" where
  "input_payload c \<equiv> (Encoding_XOR, cin_bytes c)"

text \<open>The descriptor of a chunk, and where the chunk is.\<close>

definition stored_chunk :: "(Encoding \<times> bytes) list list \<Rightarrow> ChunkInput \<Rightarrow> ChunkMeta \<Rightarrow> bool" where
  "stored_chunk segs c m \<longleftrightarrow>
     cm_min_time m = cin_min_time c \<and> cm_max_time m = cin_max_time c \<and> placed segs (from_u64 (cm_ref m)) (input_payload c)"

definition stored_series :: "(Encoding \<times> bytes) list list \<Rightarrow> SeriesInput \<Rightarrow> prepared \<Rightarrow> bool" where
  "stored_series segs s p \<longleftrightarrow> fst p = si_labels s \<and> list_all2 (stored_chunk segs) (si_chunks s) (snd p)"

lemma stored_mono:
  assumes "\<forall>ref c. placed segs ref c \<longrightarrow> placed segs' ref c"
  shows "stored_chunk segs c m \<Longrightarrow> stored_chunk segs' c m" "stored_series segs s p \<Longrightarrow> stored_series segs' s p"
  using assms by (auto simp: stored_chunk_def stored_series_def elim!: list_all2_mono)

lemma write_chunks_ok:
  "cw_holds w d segs \<Longrightarrow> length segs + length chks < 10 ^ 6 \<Longrightarrow> cw_segment_size w < 2 ^ 32 \<Longrightarrow>
   write_chunks chks w t d = (Inr metas, w', t', d') \<Longrightarrow>
   \<exists>segs'. cw_holds w' d' segs' \<and> concat segs' = concat segs @ map input_payload chks \<and>
     list_all2 (stored_chunk segs') chks metas \<and> (\<forall>ref c. placed segs ref c \<longrightarrow> placed segs' ref c) \<and>
     length segs' \<le> length segs + length chks \<and> cw_segment_size w' = cw_segment_size w"
proof (induction chks arbitrary: w t d segs metas)
  case (Cons c chks)
  obtain ref metas' w1 d1 where st: "cw_write Encoding_XOR (cin_bytes c) w d = (Inr ref, w1, d1)"
      "write_chunks chks w1 (count_chunk c t) d1 = (Inr metas', w', t', d')"
      "metas = \<lparr>cm_ref = to_u64 ref, cm_min_time = cin_min_time c, cm_max_time = cin_max_time c\<rparr> # metas'"
    using Cons.prems(4) by (auto split: prod.splits sum.splits)
  obtain segs1 where s1: "cw_holds w1 d1 segs1" "seg_next segs (input_payload c) segs1" "placed segs1 ref (input_payload c)"
      "cw_segment_size w1 = cw_segment_size w"
    using cw_write_ok [OF Cons.prems(1) _ Cons.prems(3) st(1)] Cons.prems(2) by auto
  note next1 = seg_next_concat [OF s1(2)]
  obtain segs' where s': "cw_holds w' d' segs'" "concat segs' = concat segs1 @ map input_payload chks"
      "list_all2 (stored_chunk segs') chks metas'" "\<forall>ref c. placed segs1 ref c \<longrightarrow> placed segs' ref c"
      "length segs' \<le> length segs1 + length chks" "cw_segment_size w' = cw_segment_size w1"
    using Cons.IH [OF s1(1) _ _ st(2)] Cons.prems(2,3) s1(4) next1 by auto
  have "stored_chunk segs' c (hd metas)"
    using s1(3) s'(4) st(3) by (simp add: stored_chunk_def from_to_u64)
  then show ?case
    using s' s1(4) st(3) next1 placed_next [OF s1(2)] by (intro exI [of _ segs']) auto
qed auto

abbreviation all_chunks :: "SeriesInput list \<Rightarrow> ChunkInput list" where
  "all_chunks series \<equiv> concat (map si_chunks series)"

lemma prepare_series_ok:
  "cw_holds w d segs \<Longrightarrow> length segs + length (all_chunks series) < 10 ^ 6 \<Longrightarrow> cw_segment_size w < 2 ^ 32 \<Longrightarrow>
   prepare_series series w t d = (Inr ps, w', t', d') \<Longrightarrow>
   \<exists>segs'. cw_holds w' d' segs' \<and> concat segs' = concat segs @ map input_payload (all_chunks series) \<and>
     list_all2 (stored_series segs') (with_chunks series) ps \<and> (\<forall>ref c. placed segs ref c \<longrightarrow> placed segs' ref c)"
proof (induction series arbitrary: w t d segs ps)
  case (Cons s series)
  show ?case
  proof (cases "si_chunks s = []")
    case True
    then show ?thesis using Cons.IH [OF Cons.prems(1) _ Cons.prems(3)] Cons.prems(2,4) by simp
  next
    case False
    then obtain metas w1 t1 d1 ps' where st: "write_chunks (si_chunks s) w t d = (Inr metas, w1, t1, d1)"
        "prepare_series series w1 t1 d1 = (Inr ps', w', t', d')" "ps = (si_labels s, metas) # ps'"
      using Cons.prems(4) by (auto split: prod.splits sum.splits)
    obtain segs1 where s1: "cw_holds w1 d1 segs1" "concat segs1 = concat segs @ map input_payload (si_chunks s)"
        "list_all2 (stored_chunk segs1) (si_chunks s) metas" "\<forall>ref c. placed segs ref c \<longrightarrow> placed segs1 ref c"
        "length segs1 \<le> length segs + length (si_chunks s)" "cw_segment_size w1 = cw_segment_size w"
      using write_chunks_ok [OF Cons.prems(1) _ Cons.prems(3) st(1)] Cons.prems(2) by auto
    obtain segs' where s': "cw_holds w' d' segs'" "concat segs' = concat segs1 @ map input_payload (all_chunks series)"
        "list_all2 (stored_series segs') (with_chunks series) ps'" "\<forall>ref c. placed segs1 ref c \<longrightarrow> placed segs' ref c"
      using Cons.IH [OF s1(1) _ _ st(2)] Cons.prems(2,3) s1(5,6) by auto
    have "stored_series segs1 s (si_labels s, metas)" using s1(3) by (simp add: stored_series_def)
    from stored_mono(2) [OF s'(4) this] show ?thesis
      using s' s1(2,4) st(3) False by (intro exI [of _ segs']) simp
  qed
qed auto

lemma write_chunks_totals: "write_chunks chks w t d = (Inr metas, w', t', d') \<Longrightarrow> t' = fold count_chunk chks t"
  by (induction chks arbitrary: w t d metas) (fastforce split: prod.splits sum.splits)+

lemma prepare_series_totals: "prepare_series series w t d = (Inr ps, w', t', d') \<Longrightarrow> t' = fold count_chunk (all_chunks series) t"
proof (induction series arbitrary: w t d ps)
  case (Cons s series)
  then show ?case
    by (fastforce split: if_splits prod.splits sum.splits dest: write_chunks_totals)
qed simp

lemma write_block_chunks_ok:
  assumes run: "write_block_chunks series d = (Inr (ps, totals), d')" and limit: "length (all_chunks series) + 1 < 10 ^ 6"
  shows "\<exists>segs. chunk_files (dk_files d') segs \<and> dk_dir d' \<and> concat segs = map input_payload (all_chunks series) \<and>
    list_all2 (stored_series segs) (with_chunks series) ps" "totals = fold count_chunk (all_chunks series) BlockTotals_init"
proof -
  obtain w d1 w1 d2 u w2 d3 where st: "ChunkWriter_open k_default_chunks_segment_size d = (Inr w, d1)"
      "prepare_series series w BlockTotals_init d1 = (Inr ps, w1, totals, d2)" "cw_close w1 d2 = (Inr u, w2, d3)"
      "d' = ChunkWriter_destroy w2 d3"
    using run by (auto simp: write_block_chunks_def split: prod.splits sum.splits)
  have "\<forall>(name, c) \<in> set (dk_files d). parse_chunk_name name = None"
  proof -
    obtain e1 u1 e2 u2 where e: "sys_simple d = (Inr u1, e1)" "sys_simple (e1\<lparr>dk_dir := True\<rparr>) = (Inr u2, e2)"
        "\<not> list_ex (\<lambda>(name, _). parse_chunk_name name \<noteq> None) (dk_files e2)"
      using st(1) by (auto simp: ChunkWriter_open_def Let_def split: prod.splits sum.splits if_splits)
    have "dk_files e2 = dk_files d" using sys_simple_files e(1,2) by fastforce
    then show ?thesis using e(3) by (auto simp: list_ex_iff)
  qed
  from ChunkWriter_open_ok [OF this st(1)]
  have w: "cw_holds w d1 [[]]" "cw_segment_size w < 2 ^ 32" by (simp_all add: k_default_chunks_segment_size_def)
  obtain segs where segs: "cw_holds w1 d2 segs" "concat segs = map input_payload (all_chunks series)"
      "list_all2 (stored_series segs) (with_chunks series) ps"
    using prepare_series_ok [OF w(1) _ w(2) st(2)] limit by auto
  have "chunk_files (dk_files d3) segs" "dk_dir d3" "cw_closed w2"
    using cw_close_ok [OF segs(1)] st(3) by auto
  then show "\<exists>segs. chunk_files (dk_files d') segs \<and> dk_dir d' \<and> concat segs = map input_payload (all_chunks series) \<and>
    list_all2 (stored_series segs) (with_chunks series) ps"
    using segs(2,3) st(4) by (auto simp: ChunkWriter_destroy_def)
  show "totals = fold count_chunk (all_chunks series) BlockTotals_init" by (rule prepare_series_totals [OF st(2)])
qed

section \<open>The directory of a block\<close>

text \<open>The directory with the planned failures taken away, as a later reader finds it.\<close>

definition calm_dir :: "BlockDir \<Rightarrow> BlockDir" where
  "calm_dir b = \<lparr>bk_top = (bk_top b)\<lparr>dk_faults := []\<rparr>, bk_chunks = (bk_chunks b)\<lparr>dk_faults := []\<rparr>\<rparr>"

lemma calm_dir_simps [simp]:
  "dk_faults (bk_top (calm_dir b)) = []" "dk_faults (bk_chunks (calm_dir b)) = []"
  "dk_files (bk_top (calm_dir b)) = dk_files (bk_top b)" "dk_files (bk_chunks (calm_dir b)) = dk_files (bk_chunks b)"
  "dk_dir (bk_top (calm_dir b)) = dk_dir (bk_top b)" "dk_dir (bk_chunks (calm_dir b)) = dk_dir (bk_chunks b)"
  by (simp_all add: calm_dir_def)

text \<open>What the files of a block hold: the series at their ids, the chunks at their references.\<close>

definition block_files :: "BlockDir \<Rightarrow> SeriesInput list \<Rightarrow> IndexReader \<Rightarrow> u32 list \<Rightarrow> prepared list \<Rightarrow> (Encoding \<times> bytes) list list \<Rightarrow> bool" where
  "block_files b series idx sids ps segs \<longleftrightarrow>
     dk_dir (bk_top b) \<and> dk_dir (bk_chunks b) \<and>
     chunk_files (dk_files (bk_chunks b)) segs \<and> concat segs = map input_payload (all_chunks series) \<and>
     list_all2 (stored_series segs) (with_chunks series) ps \<and>
     (\<exists>bs. map_of (dk_files (bk_top b)) ''index'' = Some bs \<and> parse_index bs = Inr idx) \<and>
     index_serves idx (zip sids (map fst ps)) \<and> list_all2 (reads_back idx) sids ps"

lemma make_block_dir_ok:
  assumes "make_block_dir b = (Inr (), b')"
  shows "dk_dir (bk_top b')" "dk_files (bk_top b') = dk_files (bk_top b)" "bk_chunks b' = bk_chunks b"
    "dk_faults (bk_top b) = [] \<Longrightarrow> dk_faults (bk_top b') = []"
proof -
  obtain t1 t2 t3 u1 u2 u3 where t: "sys_simple (bk_top b) = (Inr u1, t1)" "sys_simple t1 = (Inr u2, t2)" "sys_simple t2 = (Inr u3, t3)"
      "b' = b\<lparr>bk_top := t3\<lparr>dk_dir := True\<rparr>\<rparr>"
    using assms by (auto simp: make_block_dir_def split: prod.splits sum.splits if_splits)
  note disk = sys_simple_disk [OF t(1)] sys_simple_disk [OF t(2)] sys_simple_disk [OF t(3)]
  show "dk_dir (bk_top b')" "dk_files (bk_top b') = dk_files (bk_top b)" "bk_chunks b' = bk_chunks b"
    using t(4) disk by simp_all
  show "dk_faults (bk_top b') = []" if "dk_faults (bk_top b) = []"
    using that t by (simp add: sys_simple_ok)
qed

lemma fill_block_steps:
  assumes "fill_block J ulid series b = (Inr u, b')"
  obtains ps totals c1 len t1 t2 t3 where
    "write_block_chunks series (bk_chunks b) = (Inr (ps, totals), c1)" "write_block_index ps (bk_top b) = (Inr len, t1)"
    "write_meta J (block_meta ulid ps totals) t1 = (Inr (), t2)" "write_tombstones t2 = (Inr (), t3)"
    "b' = \<lparr>bk_top = t3, bk_chunks = c1\<rparr>"
  using assms by (auto simp: fill_block_def split: prod.splits sum.splits)

lemma prepared_labels: "list_all2 (stored_series segs) series ps \<Longrightarrow> map fst ps = map si_labels series"
  by (induction series ps rule: list_all2_induct) (simp_all add: stored_series_def)

lemma create_from_series_ok:
  assumes laws: "json_laws J" and run: "create_from_series J env series st = (Inr ulid, st')"
    and limit: "length (all_chunks series) + 1 < 10 ^ 6"
    and size: "\<forall>bs. map_of (dk_files (bk_top (st' ulid))) ''index'' = Some bs \<longrightarrow> length bs < 2 ^ 32"
    and plain: "\<forall>s \<in> set (with_chunks series). labels_plain (si_labels s)"
  shows "\<exists>idx sids ps segs. block_files (calm_dir (st' ulid)) series idx sids ps segs \<and>
    (dk_faults (bk_top (st ulid)) = [] \<longrightarrow> read_meta J (bk_top (calm_dir (st' ulid)))
       = (Inr (block_meta ulid ps (fold count_chunk (all_chunks series) BlockTotals_init)), bk_top (calm_dir (st' ulid))))"
proof -
  obtain b1 b2 where b: "make_block_dir (st ulid) = (Inr (), b1)" "fill_block J ulid series b1 = (Inr (), b2)" "st' ulid = b2"
    using run by (auto simp: create_from_series_def Let_def split: prod.splits sum.splits)
  note fresh = make_block_dir_ok [OF b(1)]
  from b(2) obtain ps totals c1 len t1 t2 t3 where
    st: "write_block_chunks series (bk_chunks b1) = (Inr (ps, totals), c1)" "write_block_index ps (bk_top b1) = (Inr len, t1)"
      "write_meta J (block_meta ulid ps totals) t1 = (Inr (), t2)" "write_tombstones t2 = (Inr (), t3)"
      "b2 = \<lparr>bk_top = t3, bk_chunks = c1\<rparr>"
    by (rule fill_block_steps)
  obtain segs where segs: "chunk_files (dk_files c1) segs" "dk_dir c1" "concat segs = map input_payload (all_chunks series)"
      "list_all2 (stored_series segs) (with_chunks series) ps"
    using write_block_chunks_ok(1) [OF st(1) limit] by blast
  note index = write_block_index_disk [OF st(2)] and meta = write_meta_disk [OF st(3)] and tomb = write_tombstones_disk [OF st(4)]
  have top: "map_of (dk_files t3) ''index'' = map_of (dk_files t1) ''index''" "dk_dir t3" "dk_dir t1"
    using tomb(1) [of "''index''"] tomb(2) [of "''index''"] meta(1,2) index(2) fresh(1) by simp_all
  then have len: "len < 2 ^ 32" using index(1) size b(3) st(5) by auto
  have "\<forall>p \<in> set ps. labels_plain (fst p)"
  proof
    fix p assume "p \<in> set ps"
    then have "fst p \<in> set (map si_labels (with_chunks series))" unfolding prepared_labels [OF segs(4), symmetric] by simp
    then show "labels_plain (fst p)" using plain by auto
  qed
  from write_block_index_ok [OF st(2) len this] obtain bs idx sids where
    idx: "map_of (dk_files t1) ''index'' = Some bs" "parse_index bs = Inr idx" "index_serves idx (zip sids (map fst ps))"
      "list_all2 (reads_back idx) sids ps"
    by auto
  have files: "block_files (calm_dir (st' ulid)) series idx sids ps segs"
    using b(3) st(5) segs top idx by (simp add: block_files_def)
  have "read_meta J (bk_top (calm_dir (st' ulid))) = (Inr (block_meta ulid ps totals), bk_top (calm_dir (st' ulid)))"
    if calm: "dk_faults (bk_top (st ulid)) = []"
  proof -
    obtain t where t: "encode_meta_json J (block_meta ulid ps totals) = Some t" "map_of (dk_files t2) k_meta_filename = Some (string_bytes t)"
      using meta(3) index(3) [OF fresh(4) [OF calm]] by blast
    have "bm_version (block_meta ulid ps totals) = k_meta_version_1" by (simp add: block_meta_def k_meta_version_1_def)
    moreover have "map_of (dk_files t3) k_meta_filename = Some (string_bytes t)"
      using tomb(1) [of k_meta_filename] t(2) by (simp add: k_meta_filename_def)
    ultimately show ?thesis
      using decode_encode_meta [OF laws _ t(1)] b(3) st(5) by (simp add: read_meta_def sys_simple_ok syscall_def)
  qed
  then show ?thesis using files unfolding write_block_chunks_ok(2) [OF st(1) limit] by blast
qed

section \<open>Loading series\<close>

text \<open>A series of the block: its id, what was put in, and what was prepared of it.\<close>

type_synonym block_row = "u32 \<times> SeriesInput \<times> prepared"

definition row_chunks :: "(ChunkMeta \<Rightarrow> bool) \<Rightarrow> block_row \<Rightarrow> (ChunkInput \<times> ChunkMeta) list" where
  "row_chunks wanted row = (case row of (sid, s, p) \<Rightarrow> filter (wanted \<circ> snd) (zip (si_chunks s) (snd p)))"

definition row_result :: "(ChunkMeta \<Rightarrow> bool) \<Rightarrow> block_row \<Rightarrow> QueryResult" where
  "row_result wanted row =
     \<lparr>qr_labels = si_labels (fst (snd row)), qr_chunks = map (from_bytes \<circ> cin_bytes \<circ> fst) (row_chunks wanted row),
      qr_chunk_metas = map snd (row_chunks wanted row)\<rparr>"

text \<open>A chunk reader on calm disk whose segments are small enough for a vector.\<close>

definition reader_holds :: "ChunkReader \<Rightarrow> Disk \<Rightarrow> (Encoding \<times> bytes) list list \<Rightarrow> bool" where
  "reader_holds r d segs \<longleftrightarrow> cr_holds r d segs \<and> (\<forall>cs \<in> set segs. length (seg_bytes cs) < 2 ^ 63)"

lemma load_chunk_ok:
  assumes "reader_holds r d segs" "stored_chunk segs c m"
  shows "\<exists>r'. load_chunk m r d = (Inr (from_bytes (cin_bytes c)), r', d) \<and> reader_holds r' d segs"
  using chunk_read_ok [of r d segs "from_u64 (cm_ref m)" "input_payload c"] assms
  by (auto simp: reader_holds_def stored_chunk_def load_chunk_def)

lemma load_chunks_ok:
  "list_all2 (stored_chunk segs) cs ms \<Longrightarrow> reader_holds r d segs \<Longrightarrow>
   \<exists>r'. load_chunks wanted ms r d = (Inr (map (\<lambda>(c, m). (from_bytes (cin_bytes c), m)) (filter (wanted \<circ> snd) (zip cs ms))), r', d)
     \<and> reader_holds r' d segs"
proof (induction cs ms arbitrary: r rule: list_all2_induct)
  case (Cons c cs m ms)
  show ?case
  proof (cases "wanted m")
    case True
    obtain r1 where r1: "load_chunk m r d = (Inr (from_bytes (cin_bytes c)), r1, d)" "reader_holds r1 d segs"
      using load_chunk_ok [OF Cons.prems Cons.hyps(1)] by blast
    then show ?thesis using Cons.IH [OF r1(2)] True by auto
  next
    case False
    then show ?thesis using Cons.IH [OF Cons.prems] by simp
  qed
qed simp

lemma load_series_ok:
  "\<forall>(sid, s, p) \<in> set rows. reads_back idx sid p \<and> stored_series segs s p \<Longrightarrow> reader_holds r d segs \<Longrightarrow>
   \<exists>r'. load_series keep_empty wanted idx (map fst rows) r d =
       (Inr (map (row_result wanted) (filter (\<lambda>row. keep_empty \<or> row_chunks wanted row \<noteq> []) rows)), r', d) \<and> reader_holds r' d segs"
proof (induction rows arbitrary: r)
  case (Cons row rows)
  obtain sid s p where row: "row = (sid, s, p)" by (cases row) auto
  then have here: "reads_back idx sid p" "fst p = si_labels s" "list_all2 (stored_chunk segs) (si_chunks s) (snd p)"
    using Cons.prems(1) by (simp_all add: stored_series_def)
  obtain r1 where r1: "load_chunks wanted (snd p) r d =
      (Inr (map (\<lambda>(c, m). (from_bytes (cin_bytes c), m)) (row_chunks wanted row)), r1, d)" "reader_holds r1 d segs"
    using load_chunks_ok [OF here(3) Cons.prems(2), of wanted] by (auto simp: row_chunks_def row)
  have result: "\<lparr>qr_labels = si_labels s, qr_chunks = map (fst \<circ> (\<lambda>(c, m). (from_bytes (cin_bytes c), m))) (row_chunks wanted row),
      qr_chunk_metas = map (snd \<circ> (\<lambda>(c, m). (from_bytes (cin_bytes c), m))) (row_chunks wanted row)\<rparr> = row_result wanted row"
    by (simp add: row_result_def row case_prod_beta)
  obtain r2 where "load_series keep_empty wanted idx (map fst rows) r1 d =
      (Inr (map (row_result wanted) (filter (\<lambda>row. keep_empty \<or> row_chunks wanted row \<noteq> []) rows)), r2, d)" "reader_holds r2 d segs"
    using Cons.IH [OF _ r1(2)] Cons.prems(1) by auto
  then show ?case using here(1,2) r1(1) result by (simp add: row)
qed simp

lemma ids_where_rows:
  assumes "list_all2 (stored_series segs) series ps" "length sids = length ps"
  shows "ids_where (zip sids (map fst ps)) P = map fst (filter (\<lambda>row. P (si_labels (fst (snd row)))) (zip sids (zip series ps)))"
  using assms(2,1)
proof (induction sids ps arbitrary: series rule: list_induct2)
  case (Cons sid sids p ps)
  then obtain s series' where "series = s # series'" "stored_series segs s p" "list_all2 (stored_series segs) series' ps"
    by (auto simp: list_all2_Cons2)
  then show ?case using Cons.IH [of series'] by (simp add: ids_where_def) (simp add: stored_series_def)
qed (simp add: ids_where_def)

section \<open>Opening and querying\<close>

text \<open>An opened block over its directory, whatever its chunk reader has cached.\<close>

definition block_serves :: "Block \<Rightarrow> BlockDir \<Rightarrow> SeriesInput list \<Rightarrow> bool" where
  "block_serves blk b series \<longleftrightarrow>
     (\<exists>sids ps segs. block_files b series (blk_index blk) sids ps segs \<and> reader_holds (blk_chunks blk) (bk_chunks b) segs)"

text \<open>The limits of the format, and labels the index can find: see \<open>BlockMatch\<close>.\<close>

definition block_limits :: "SeriesInput list \<Rightarrow> bool" where
  "block_limits series \<longleftrightarrow> length (all_chunks series) + 1 < 10 ^ 6 \<and>
     (\<Sum>c\<leftarrow>all_chunks series. length (cin_bytes c) + 15) + 8 < 2 ^ 63 \<and>
     (\<forall>s \<in> set (with_chunks series). labels_plain (si_labels s) \<and> labels_findable (si_labels s))"

lemma block_segments_small:
  assumes "concat segs = map input_payload (all_chunks series)" "block_limits series"
  shows "\<forall>cs \<in> set segs. length (seg_bytes cs) < 2 ^ 63"
proof
  fix cs assume "cs \<in> set segs"
  moreover have "payload_size (concat segs) = (\<Sum>c\<leftarrow>all_chunks series. length (cin_bytes c) + 15)"
    unfolding assms(1) by (simp add: comp_def)
  ultimately show "length (seg_bytes cs) < 2 ^ 63"
    using seg_bytes_total [of cs segs] assms(2) unfolding block_limits_def by linarith
qed

lemma Block_open_serves:
  assumes files: "block_files (calm_dir b) series idx sids ps segs" and limits: "block_limits series"
    and meta: "read_meta J (bk_top (calm_dir b)) = (mr, t)"
  shows "t = bk_top (calm_dir b)"
    "Block_open J (calm_dir b) = (Inr blk, b') \<Longrightarrow> b' = calm_dir b \<and> mr = Inr (blk_meta blk) \<and> block_serves blk (calm_dir b) series"
    "mr = Inr m \<Longrightarrow> \<exists>blk. Block_open J (calm_dir b) = (Inr blk, calm_dir b) \<and> blk_meta blk = m"
proof -
  let ?b = "calm_dir b"
  show t: "t = bk_top ?b"
    using meta by (auto simp: read_meta_def sys_simple_ok syscall_def split: option.splits)
  obtain bs where bs: "map_of (dk_files (bk_top ?b)) ''index'' = Some bs" "parse_index bs = Inr idx"
    using files by (auto simp: block_files_def)
  have idx: "IndexReader_open ''index'' (bk_top ?b) = (Inr idx, bk_top ?b)"
    using bs by (simp add: IndexReader_open_def sys_simple_ok syscall_def)
  obtain r where r: "ChunkReader_open (bk_chunks ?b) = (Inr r, bk_chunks ?b)" "cr_holds r (bk_chunks ?b) segs"
    using ChunkReader_open_ok [of "bk_chunks ?b" segs] files by (auto simp: block_files_def)
  have dir: "dk_dir (bk_top ?b)" using files by (simp add: block_files_def)
  have same: "\<lparr>bk_top = bk_top ?b, bk_chunks = bk_chunks ?b\<rparr> = ?b" by simp
  have opened: "Block_open J ?b = (case mr of Inl e \<Rightarrow> (Inl e, ?b)
      | Inr m \<Rightarrow> (Inr \<lparr>blk_meta = m, blk_index = idx, blk_chunks = r\<rparr>, ?b))"
    using dir meta t idx r(1) same by (simp add: Block_open_def split: sum.splits)
  have "reader_holds r (bk_chunks ?b) segs"
    using r(2) block_segments_small [OF _ limits, of segs] files by (simp add: reader_holds_def block_files_def)
  then have serves: "block_serves \<lparr>blk_meta = m, blk_index = idx, blk_chunks = r\<rparr> ?b series" for m
    using files by (auto simp: block_serves_def)
  show "b' = ?b \<and> mr = Inr (blk_meta blk) \<and> block_serves blk ?b series" if "Block_open J ?b = (Inr blk, b')"
    using that serves unfolding opened by (auto split: sum.splits)
  show "\<exists>blk. Block_open J ?b = (Inr blk, ?b) \<and> blk_meta blk = m" if "mr = Inr m"
    unfolding opened using that by simp
qed

text \<open>What a series contributes to the result of a query.\<close>

definition input_overlaps :: "i64 \<Rightarrow> i64 \<Rightarrow> ChunkInput \<Rightarrow> bool" where
  "input_overlaps mint maxt c \<longleftrightarrow> sint (cin_min_time c) \<le> sint maxt \<and> sint mint \<le> sint (cin_max_time c)"

definition block_answer :: "(ChunkInput \<Rightarrow> bool) \<Rightarrow> SeriesInput \<Rightarrow> QueryResult \<Rightarrow> bool" where
  "block_answer wanted s q \<longleftrightarrow> qr_labels q = si_labels s \<and>
     qr_chunks q = map (from_bytes \<circ> cin_bytes) (filter wanted (si_chunks s)) \<and>
     map (\<lambda>m. (cm_min_time m, cm_max_time m)) (qr_chunk_metas q)
       = map (\<lambda>c. (cin_min_time c, cin_max_time c)) (filter wanted (si_chunks s))"

lemma row_chunks_wanted:
  assumes "\<And>c m. stored_chunk segs c m \<Longrightarrow> wanted' c = wanted m"
  shows "list_all2 (stored_chunk segs) cs ms \<Longrightarrow>
    map fst (filter (wanted \<circ> snd) (zip cs ms)) = filter wanted' cs \<and>
    map ((\<lambda>m. (cm_min_time m, cm_max_time m)) \<circ> snd) (filter (wanted \<circ> snd) (zip cs ms))
      = map (\<lambda>c. (cin_min_time c, cin_max_time c)) (filter wanted' cs)"
proof (induction cs ms rule: list_all2_induct)
  case (Cons c cs m ms)
  then show ?case using assms [OF Cons.hyps(1)] by (simp add: stored_chunk_def)
qed simp

lemma row_result_answer:
  assumes "\<And>c m. stored_chunk segs c m \<Longrightarrow> wanted' c = wanted m" "stored_series segs s p"
  shows "block_answer wanted' s (row_result wanted (sid, s, p))"
    "row_chunks wanted (sid, s, p) = [] \<longleftrightarrow> filter wanted' (si_chunks s) = []"
proof -
  have cs: "list_all2 (stored_chunk segs) (si_chunks s) (snd p)" using assms(2) by (simp add: stored_series_def)
  let ?zs = "filter (wanted \<circ> snd) (zip (si_chunks s) (snd p))" and ?cs = "filter wanted' (si_chunks s)"
  have row: "map fst ?zs = ?cs" "map ((\<lambda>m. (cm_min_time m, cm_max_time m)) \<circ> snd) ?zs = map (\<lambda>c. (cin_min_time c, cin_max_time c)) ?cs"
    using row_chunks_wanted [of segs wanted' wanted, OF assms(1) cs] by simp_all
  have "map (from_bytes \<circ> cin_bytes \<circ> fst) ?zs = map (from_bytes \<circ> cin_bytes) ?cs"
    unfolding row(1) [symmetric] by (rule map_map [symmetric])
  then show "block_answer wanted' s (row_result wanted (sid, s, p))"
    using row(2) unfolding block_answer_def row_result_def row_chunks_def by (simp add: comp_def)
  show "row_chunks wanted (sid, s, p) = [] \<longleftrightarrow> ?cs = []"
    unfolding row(1) [symmetric] row_chunks_def by simp
qed

lemma rows_answer:
  assumes eq: "\<And>c m. stored_chunk segs c m \<Longrightarrow> wanted' c = wanted m"
  shows "list_all2 (stored_series segs) series ps \<Longrightarrow> length sids = length ps \<Longrightarrow>
    list_all2 (block_answer wanted')
      (filter (\<lambda>s. P (si_labels s) \<and> (keep_empty \<or> filter wanted' (si_chunks s) \<noteq> [])) series)
      (map (row_result wanted) (filter (\<lambda>row. keep_empty \<or> row_chunks wanted row \<noteq> [])
        (filter (\<lambda>row. P (si_labels (fst (snd row)))) (zip sids (zip series ps)))))"
proof (induction series ps arbitrary: sids rule: list_all2_induct)
  case (Cons s series p ps)
  then obtain sid sids' where "sids = sid # sids'" "length sids' = length ps" by (cases sids) auto
  then show ?case
    using Cons.IH [of sids'] row_result_answer [of segs wanted' wanted s p, OF eq Cons.hyps(1)] by auto
qed simp

text \<open>Loading the ids a predicate selects gives the answers of these series and keeps the block.\<close>

definition loads_answers ::
  "Block \<Rightarrow> BlockDir \<Rightarrow> SeriesInput list \<Rightarrow> (ChunkMeta \<Rightarrow> bool) \<Rightarrow> (ChunkInput \<Rightarrow> bool) \<Rightarrow> indexed_labels \<Rightarrow> bool" where
  "loads_answers blk b series wanted wanted' sls \<longleftrightarrow> (\<forall>P keep_empty. \<exists>out r'.
     load_series keep_empty wanted (blk_index blk) (ids_where sls P) (blk_chunks blk) (bk_chunks b) = (Inr out, r', bk_chunks b) \<and>
     block_serves (blk\<lparr>blk_chunks := r'\<rparr>) b series \<and>
     list_all2 (block_answer wanted') (filter (\<lambda>s. P (si_labels s) \<and> (keep_empty \<or> filter wanted' (si_chunks s) \<noteq> []))
       (with_chunks series)) out)"

lemma rows_stored:
  assumes "list_all2 R sids ps" "list_all2 S series ps" "(sid, s, p) \<in> set (zip sids (zip series ps))"
  shows "R sid p \<and> S s p"
proof -
  obtain i where "i < length ps" "sid = sids ! i" "s = series ! i" "p = ps ! i" "length sids = length ps" "length series = length ps"
    using assms(3) list_all2_lengthD [OF assms(1)] list_all2_lengthD [OF assms(2)] by (auto simp: set_zip)
  then show ?thesis using assms(1,2) by (simp add: list_all2_nthD)
qed

lemma load_rows:
  assumes serves: "block_serves blk b series"
    and eq: "\<And>segs c m. stored_chunk segs c m \<Longrightarrow> wanted' c = wanted m"
  shows "\<exists>sls. index_serves (blk_index blk) sls \<and> map snd sls = map si_labels (with_chunks series) \<and>
    loads_answers blk b series wanted wanted' sls"
proof -
  obtain sids ps segs where files: "block_files b series (blk_index blk) sids ps segs" "reader_holds (blk_chunks blk) (bk_chunks b) segs"
    using serves by (auto simp: block_serves_def)
  let ?sls = "zip sids (map fst ps)" and ?rows = "zip sids (zip (with_chunks series) ps)"
  have st: "list_all2 (stored_series segs) (with_chunks series) ps" "list_all2 (reads_back (blk_index blk)) sids ps"
      "index_serves (blk_index blk) ?sls" using files(1) by (simp_all add: block_files_def)
  have len: "length sids = length ps" using st(2) by (rule list_all2_lengthD)
  have "map snd ?sls = map si_labels (with_chunks series)"
    unfolding prepared_labels [OF st(1), symmetric] using len by simp
  moreover have "\<exists>out r'. load_series keep_empty wanted (blk_index blk) (ids_where ?sls P) (blk_chunks blk) (bk_chunks b)
        = (Inr out, r', bk_chunks b) \<and> block_serves (blk\<lparr>blk_chunks := r'\<rparr>) b series \<and>
      list_all2 (block_answer wanted') (filter (\<lambda>s. P (si_labels s) \<and> (keep_empty \<or> filter wanted' (si_chunks s) \<noteq> []))
        (with_chunks series)) out" for P keep_empty
  proof -
    let ?sel = "filter (\<lambda>row. P (si_labels (fst (snd row)))) ?rows"
    have "\<forall>(sid, s, p) \<in> set ?sel. reads_back (blk_index blk) sid p \<and> stored_series segs s p"
      using rows_stored [OF st(2,1)] by auto
    from load_series_ok [OF this files(2), of keep_empty wanted] obtain r' where
      r': "load_series keep_empty wanted (blk_index blk) (map fst ?sel) (blk_chunks blk) (bk_chunks b) =
         (Inr (map (row_result wanted) (filter (\<lambda>row. keep_empty \<or> row_chunks wanted row \<noteq> []) ?sel)), r', bk_chunks b)"
        "reader_holds r' (bk_chunks b) segs" by blast
    have "block_serves (blk\<lparr>blk_chunks := r'\<rparr>) b series"
      using files(1) r'(2) by (auto simp: block_serves_def)
    moreover have "list_all2 (block_answer wanted')
        (filter (\<lambda>s. P (si_labels s) \<and> (keep_empty \<or> filter wanted' (si_chunks s) \<noteq> [])) (with_chunks series))
        (map (row_result wanted) (filter (\<lambda>row. keep_empty \<or> row_chunks wanted row \<noteq> []) ?sel))"
      by (rule rows_answer [OF _ st(1) len]) (rule eq)
    ultimately show ?thesis
      using r'(1) unfolding ids_where_rows [OF st(1) len] by blast
  qed
  ultimately have "map snd ?sls = map si_labels (with_chunks series)" "loads_answers blk b series wanted wanted' ?sls"
    unfolding loads_answers_def by simp_all
  then show ?thesis using st(3) by blast
qed

lemma Block_select_serves:
  assumes serves: "block_serves blk b series" and limits: "block_limits series"
    and ms: "ms \<noteq> []" "\<forall>m \<in> set ms. matcher_ok m"
  shows "\<exists>out blk'. Block_select rm ms mint maxt blk (bk_chunks b) = (Inr out, blk', bk_chunks b) \<and>
    block_serves blk' b series \<and> list_all2 (block_answer (input_overlaps mint maxt))
      (filter (\<lambda>s. labels_match_all rm (si_labels s) ms \<and> filter (input_overlaps mint maxt) (si_chunks s) \<noteq> []) series) out"
proof -
  have "\<exists>sls. index_serves (blk_index blk) sls \<and> map snd sls = map si_labels (with_chunks series) \<and>
      loads_answers blk b series (overlaps mint maxt) (input_overlaps mint maxt) sls"
    by (rule load_rows [OF serves]) (auto simp: input_overlaps_def overlaps_def stored_chunk_def)
  then obtain sls where sls: "index_serves (blk_index blk) sls" "map snd sls = map si_labels (with_chunks series)"
    and load: "loads_answers blk b series (overlaps mint maxt) (input_overlaps mint maxt) sls" by blast
  have find: "\<forall>(sid, ls) \<in> set sls. labels_findable ls"
  proof safe
    fix sid ls assume "(sid, ls) \<in> set sls"
    then have "ls \<in> set (map si_labels (with_chunks series))" unfolding sls(2) [symmetric] by force
    then show "labels_findable ls" using limits by (auto simp: block_limits_def)
  qed
  obtain m rest where m: "ms = m # rest" using ms(1) by (cases ms) auto
  let ?P = "\<lambda>ls. labels_match_all rm ls ms"
  have first: "postings_for_matcher rm (blk_index blk) m = Inr (ids_where sls (\<lambda>ls. matches rm m (value_or_empty (get ls (m_name m)))))"
    using postings_for_matcher_ok [OF sls(1) find, of m rm] ms(2) m by simp
  have ids: "intersect_matchers rm (blk_index blk) rest (ids_where sls (\<lambda>ls. matches rm m (value_or_empty (get ls (m_name m)))))
      = Inr (ids_where sls ?P)"
    using intersect_matchers_ok [OF sls(1) find, of rest rm] ms(2) m by simp
  obtain out r' where out: "load_series False (overlaps mint maxt) (blk_index blk) (ids_where sls ?P) (blk_chunks blk) (bk_chunks b)
        = (Inr out, r', bk_chunks b)" "block_serves (blk\<lparr>blk_chunks := r'\<rparr>) b series"
      "list_all2 (block_answer (input_overlaps mint maxt))
        (filter (\<lambda>s. ?P (si_labels s) \<and> filter (input_overlaps mint maxt) (si_chunks s) \<noteq> []) (with_chunks series)) out"
    using load [unfolded loads_answers_def, rule_format, of False ?P] by auto
  have "filter (\<lambda>s. ?P (si_labels s) \<and> filter (input_overlaps mint maxt) (si_chunks s) \<noteq> []) (with_chunks series)
      = filter (\<lambda>s. ?P (si_labels s) \<and> filter (input_overlaps mint maxt) (si_chunks s) \<noteq> []) series"
    unfolding filter_filter by (intro filter_cong) auto
  moreover have "Block_select rm ms mint maxt blk (bk_chunks b) = (Inr out, blk\<lparr>blk_chunks := r'\<rparr>, bk_chunks b)"
    using first ids out(1) unfolding m by (simp add: Block_select_def)
  ultimately show ?thesis using out(2,3) by auto
qed

lemma Block_query_serves:
  assumes serves: "block_serves blk b series" and limits: "block_limits series" and name: "plain_name name"
  shows "\<exists>out blk'. Block_query name val blk (bk_chunks b) = (Inr out, blk', bk_chunks b) \<and> block_serves blk' b series \<and>
    list_all2 (block_answer (\<lambda>_. True)) (filter (\<lambda>s. get (si_labels s) name = Some val) (with_chunks series)) out"
proof -
  obtain sls where sls: "index_serves (blk_index blk) sls" and load: "loads_answers blk b series (\<lambda>_. True) (\<lambda>_. True) sls"
    using load_rows [OF serves, of "\<lambda>_. True" "\<lambda>_. True"] by blast
  obtain out r' where out: "load_series True (\<lambda>_. True) (blk_index blk) (ids_where sls (\<lambda>ls. has_pair ls name val)) (blk_chunks blk)
        (bk_chunks b) = (Inr out, r', bk_chunks b)" "block_serves (blk\<lparr>blk_chunks := r'\<rparr>) b series"
      "list_all2 (block_answer (\<lambda>_. True)) (filter (\<lambda>s. has_pair (si_labels s) name val) (with_chunks series)) out"
    using load [unfolded loads_answers_def, rule_format, of True "\<lambda>ls. has_pair ls name val"] by auto
  have "filter (\<lambda>s. has_pair (si_labels s) name val) (with_chunks series)
      = filter (\<lambda>s. get (si_labels s) name = Some val) (with_chunks series)"
    using limits by (intro filter_cong) (auto simp: has_pair_def get_set block_limits_def labels_plain_def)
  moreover have "Block_query name val blk (bk_chunks b) = (Inr out, blk\<lparr>blk_chunks := r'\<rparr>, bk_chunks b)"
    using index.pairs [OF sls name] out(1) by (simp add: Block_query_def)
  ultimately show ?thesis using out(2,3) by auto
qed

text \<open>Creation within the limits, on a disk without failures.\<close>

lemma create_in_limits:
  assumes "json_dumps J" and "st ulid = fresh_dir" and "ulid = new_ulid now r0 r1 r2" and "block_limits series"
    and room: "index_room series < 2 ^ 32"
  shows "\<exists>st'. create_from_series J (now, r0, r1, r2) series st = (Inr ulid, st') \<and>
    (\<exists>bs. map_of (dk_files (bk_top (st' ulid))) ''index'' = Some bs \<and> length bs \<le> index_room series) \<and> calm_dir (st' ulid) = st' ulid"
proof -
  have "\<forall>s \<in> set (with_chunks series). labels_wf (si_labels s)"
    using assms(4) by (simp add: block_limits_def labels_plain_def)
  then obtain st' bs where st': "create_from_series J (now, r0, r1, r2) series st = (Inr ulid, st')"
      "dk_faults (bk_top (st' ulid)) = []" "dk_faults (bk_chunks (st' ulid)) = []"
      "map_of (dk_files (bk_top (st' ulid))) ''index'' = Some bs" "length bs \<le> index_room series"
    using create_done [of J st ulid now r0 r1 r2 series] assms(1-3) room by blast
  then have "calm_dir (st' ulid) = st' ulid" by (simp add: calm_dir_def)
  then show ?thesis using st' by blast
qed

lemma create_small:
  assumes "json_dumps J" and "st ulid = fresh_dir" and "ulid = new_ulid now r0 r1 r2" and "block_limits series"
    and "index_room series < 2 ^ 32"
  shows "\<exists>st'. create_from_series J (now, r0, r1, r2) series st = (Inr ulid, st') \<and>
    (\<forall>bs. map_of (dk_files (bk_top (st' ulid))) ''index'' = Some bs \<longrightarrow> length bs < 2 ^ 32)"
  using create_in_limits [of J st ulid now r0 r1 r2 series] assms by fastforce

section \<open>The descriptor\<close>

abbreviation chunk_count :: "ChunkInput \<Rightarrow> u64" where
  "chunk_count c \<equiv> (if length (cin_bytes c) \<ge> 2 then ucast (read_be16 (cin_bytes c)) else 0)"

lemma count_chunks:
  "bt_chunks (fold count_chunk cs t) = bt_chunks t + of_nat (length cs) \<and>
   bt_samples (fold count_chunk cs t) = bt_samples t + sum_list (map chunk_count cs) \<and>
   sint (bt_min_time (fold count_chunk cs t)) \<le> sint (bt_min_time t) \<and>
   sint (bt_max_time t) \<le> sint (bt_max_time (fold count_chunk cs t)) \<and>
   (\<forall>c \<in> set cs. sint (bt_min_time (fold count_chunk cs t)) \<le> sint (cin_min_time c) \<and>
      sint (cin_max_time c) \<le> sint (bt_max_time (fold count_chunk cs t)))"
proof (induction cs arbitrary: t)
  case (Cons c cs)
  have "sint (bt_min_time (count_chunk c t)) \<le> sint (bt_min_time t)" "sint (bt_min_time (count_chunk c t)) \<le> sint (cin_min_time c)"
    "sint (bt_max_time t) \<le> sint (bt_max_time (count_chunk c t))" "sint (cin_max_time c) \<le> sint (bt_max_time (count_chunk c t))"
    "bt_chunks (count_chunk c t) = bt_chunks t + 1" "bt_samples (count_chunk c t) = bt_samples t + chunk_count c"
    by (auto simp: count_chunk_def)
  then show ?case using Cons.IH [of "count_chunk c t"] by auto
qed simp

lemma block_meta_totals:
  assumes m_def: "m = block_meta ulid ps (fold count_chunk (all_chunks series) BlockTotals_init)" and "length ps = length (with_chunks series)"
  shows "bm_ulid m = ulid" "bs_num_series (bm_stats m) = of_nat (length (with_chunks series))"
    "bs_num_chunks (bm_stats m) = of_nat (length (all_chunks series))"
    "bs_num_samples (bm_stats m) = sum_list (map chunk_count (all_chunks series))"
    "c \<in> set (all_chunks series) \<Longrightarrow> sint (bm_min_time m) \<le> sint (cin_min_time c) \<and> sint (cin_max_time c) \<le> sint (bm_max_time m)"
proof -
  note totals = count_chunks [of "all_chunks series" BlockTotals_init]
  show "bm_ulid m = ulid" "bs_num_series (bm_stats m) = of_nat (length (with_chunks series))"
    "bs_num_chunks (bm_stats m) = of_nat (length (all_chunks series))"
    "bs_num_samples (bm_stats m) = sum_list (map chunk_count (all_chunks series))"
    using totals assms(2) by (simp_all add: m_def block_meta_def BlockTotals_init_def)
  assume c: "c \<in> set (all_chunks series)"
  then have "with_chunks series \<noteq> []" by (force simp: filter_empty_conv)
  then have "ps \<noteq> []" using assms(2) by auto
  then show "sint (bm_min_time m) \<le> sint (cin_min_time c) \<and> sint (cin_max_time c) \<le> sint (bm_max_time m)"
    using bspec [OF conjunct2 [OF conjunct2 [OF conjunct2 [OF conjunct2 [OF totals]]]] c] by (simp add: m_def block_meta_def)
qed

section \<open>Properties\<close>

text \<open>
  C10. A block answers queries exactly. If creating a block from series succeeded, over short, empty
  and interrupted writes on the way, then whenever it is opened a query returns, in the order the
  series were given, precisely the series whose labels satisfy all matchers and that have a chunk
  overlapping the time range, each with precisely these chunks, bit for bit, with their time
  ranges; a lookup by a label pair returns precisely the series with this pair and all their
  chunks. If no call on the top directory failed, it can be opened. The hypotheses are the limits
  of the format (segment numbers of six digits, an index below 4 GiB, label names without NUL) and
  what the index can tell apart: every series has a label and no label has the empty value.
\<close>

theorem block_roundtrip:
  assumes "json_laws J" and "create_from_series J env series st = (Inr ulid, st')" and "block_limits series"
    and "\<forall>bs. map_of (dk_files (bk_top (st' ulid))) ''index'' = Some bs \<longrightarrow> length bs < 2 ^ 32"
    and "ms \<noteq> []" and "\<forall>m \<in> set ms. matcher_ok m" and "plain_name name"
  shows "(dk_faults (bk_top (st ulid)) = [] \<longrightarrow> (\<exists>blk. Block_open J (calm_dir (st' ulid)) = (Inr blk, calm_dir (st' ulid)))) \<and>
    (\<forall>blk b. Block_open J (calm_dir (st' ulid)) = (Inr blk, b) \<longrightarrow>
      (\<exists>out blk'. Block_select rm ms mint maxt blk (bk_chunks b) = (Inr out, blk', bk_chunks b) \<and>
        list_all2 (block_answer (input_overlaps mint maxt))
          (filter (\<lambda>s. labels_match_all rm (si_labels s) ms \<and> filter (input_overlaps mint maxt) (si_chunks s) \<noteq> []) series) out) \<and>
      (\<exists>out blk'. Block_query name val blk (bk_chunks b) = (Inr out, blk', bk_chunks b) \<and>
        list_all2 (block_answer (\<lambda>_. True)) (filter (\<lambda>s. get (si_labels s) name = Some val) (with_chunks series)) out))"
proof -
  let ?b = "calm_dir (st' ulid)"
  have limit: "length (all_chunks series) + 1 < 10 ^ 6" and plain: "\<forall>s \<in> set (with_chunks series). labels_plain (si_labels s)"
    using assms(3) by (simp_all add: block_limits_def)
  obtain idx sids ps segs where files: "block_files ?b series idx sids ps segs"
    and meta: "dk_faults (bk_top (st ulid)) = [] \<longrightarrow> read_meta J (bk_top ?b)
       = (Inr (block_meta ulid ps (fold count_chunk (all_chunks series) BlockTotals_init)), bk_top ?b)"
    using create_from_series_ok [OF assms(1,2) limit assms(4) plain] by blast
  obtain mr t where read: "read_meta J (bk_top ?b) = (mr, t)" by fastforce
  note opened = Block_open_serves [OF files assms(3) read]
  have "\<exists>blk. Block_open J ?b = (Inr blk, ?b)" if "dk_faults (bk_top (st ulid)) = []"
    using opened(3) meta that read by auto
  moreover have "(\<exists>out blk'. Block_select rm ms mint maxt blk (bk_chunks b) = (Inr out, blk', bk_chunks b) \<and>
        list_all2 (block_answer (input_overlaps mint maxt))
          (filter (\<lambda>s. labels_match_all rm (si_labels s) ms \<and> filter (input_overlaps mint maxt) (si_chunks s) \<noteq> []) series) out) \<and>
      (\<exists>out blk'. Block_query name val blk (bk_chunks b) = (Inr out, blk', bk_chunks b) \<and>
        list_all2 (block_answer (\<lambda>_. True)) (filter (\<lambda>s. get (si_labels s) name = Some val) (with_chunks series)) out)"
    if "Block_open J ?b = (Inr blk, b)" for blk b
  proof -
    have b: "b = ?b" "block_serves blk ?b series" using opened(2) [OF that] by blast+
    show ?thesis
      using Block_select_serves [OF b(2) assms(3,5,6), of rm mint maxt] Block_query_serves [OF b(2) assms(3,7), of val]
      unfolding b(1) by blast
  qed
  ultimately show ?thesis by blast
qed

text \<open>A small block, to see that the hypotheses can hold.\<close>

definition ex_series :: "SeriesInput list" where
  "ex_series = [\<lparr>si_labels = mk_labels [Label ''a'' ''b''], si_chunks = [\<lparr>cin_min_time = 1, cin_max_time = 2, cin_bytes = [0, 0]\<rparr>]\<rparr>]"

lemma ex_name: "plain_name ''a''"
  by (simp add: plain_name_def char_of_def)

lemma ex_limits: "block_limits ex_series"
proof -
  have "mk_labels [Label ''a'' ''b''] = \<lparr>entries = [Label ''a'' ''b'']\<rparr>" by (simp add: mk_labels_def canonicalize_def)
  then show ?thesis
    using ex_name by (simp add: block_limits_def ex_series_def labels_plain_def labels_findable_def labels_wf_def)
qed

lemma ex_room: "index_room ex_series < 2 ^ 32"
  by (simp add: index_room_def ex_series_def series_room_def label_room_def mk_labels_def canonicalize_def)

lemma ex_create:
  "\<exists>(J :: jv json_ops) ulid st'. json_laws J \<and> create_from_series J (0, 0, 0, 0) ex_series (\<lambda>_. fresh_dir) = (Inr ulid, st') \<and>
     (\<forall>bs. map_of (dk_files (bk_top (st' ulid))) ''index'' = Some bs \<longrightarrow> length bs < 2 ^ 32)"
  using create_small [of jv_ops "\<lambda>_. fresh_dir" _ 0 0 0 0, OF jv_dumps refl refl ex_limits ex_room] jv_laws by blast

theorem block_roundtrip_witness:
  "\<exists>(J :: jv json_ops) ulid st' blk b out blk'.
     create_from_series J (0, 0, 0, 0) ex_series (\<lambda>_. fresh_dir) = (Inr ulid, st') \<and>
     Block_open J (calm_dir (st' ulid)) = (Inr blk, b) \<and>
     Block_select (\<lambda>(_ :: unit) _. True) [equal ''a'' ''b''] 0 5 blk (bk_chunks b) = (Inr out, blk', bk_chunks b) \<and>
     map qr_labels out = [mk_labels [Label ''a'' ''b'']]"
proof -
  obtain J :: "jv json_ops" and ulid st' where run: "json_laws J"
      "create_from_series J (0, 0, 0, 0) ex_series (\<lambda>_. fresh_dir) = (Inr ulid, st')"
      "\<forall>bs. map_of (dk_files (bk_top (st' ulid))) ''index'' = Some bs \<longrightarrow> length bs < 2 ^ 32"
    using ex_create by blast
  have ms: "\<forall>m \<in> set [equal ''a'' ''b'' :: unit Matcher]. matcher_ok m"
    using ex_name by (simp add: matcher_ok_def Matcher.equal_def)
  have "get (mk_labels [Label ''a'' ''b'']) ''a'' = Some ''b''" by (simp add: get_mk_labels last_value_def)
  then have sel: "filter (\<lambda>s. labels_match_all (\<lambda>(_ :: unit) _. True) (si_labels s) [equal ''a'' ''b''] \<and>
      filter (input_overlaps 0 5) (si_chunks s) \<noteq> []) ex_series = ex_series"
    by (simp add: ex_series_def value_or_empty_def input_overlaps_def)
  have "dk_faults (bk_top ((\<lambda>_. fresh_dir) ulid)) = []" by (simp add: fresh_dir_def)
  with block_roundtrip [OF run(1,2) ex_limits run(3) _ ms ex_name, of "\<lambda>_ _. True" 0 5 "''b''"] obtain blk b out blk' where
    "Block_open J (calm_dir (st' ulid)) = (Inr blk, b)"
    "Block_select (\<lambda>(_ :: unit) _. True) [equal ''a'' ''b''] 0 5 blk (bk_chunks b) = (Inr out, blk', bk_chunks b)"
    "list_all2 (block_answer (input_overlaps 0 5)) ex_series out"
    unfolding sel by blast
  moreover from this(3) have "map qr_labels out = [mk_labels [Label ''a'' ''b'']]"
    by (auto simp: ex_series_def list_all2_Cons1 block_answer_def)
  ultimately show ?thesis using run(2) by (intro exI conjI)
qed

text \<open>
  C14. The descriptor of a created block is true: it names the block, counts its series, chunks and
  samples, and its time range contains that of every chunk, which is what lets a query skip the
  block. The sample counter adds up the headers of the chunks.
\<close>

theorem block_descriptor:
  assumes "json_laws J" and "create_from_series J env series st = (Inr ulid, st')" and "block_limits series"
    and "\<forall>bs. map_of (dk_files (bk_top (st' ulid))) ''index'' = Some bs \<longrightarrow> length bs < 2 ^ 32"
    and "dk_faults (bk_top (st ulid)) = []"
  shows "\<exists>blk m. Block_open J (calm_dir (st' ulid)) = (Inr blk, calm_dir (st' ulid)) \<and> m = blk_meta blk \<and> bm_ulid m = ulid \<and>
    bs_num_series (bm_stats m) = of_nat (length (with_chunks series)) \<and>
    bs_num_chunks (bm_stats m) = of_nat (length (all_chunks series)) \<and>
    bs_num_samples (bm_stats m) = (\<Sum>c\<leftarrow>all_chunks series. if length (cin_bytes c) \<ge> 2 then ucast (read_be16 (cin_bytes c)) else 0) \<and>
    (\<forall>c \<in> set (all_chunks series). sint (bm_min_time m) \<le> sint (cin_min_time c) \<and> sint (cin_max_time c) \<le> sint (bm_max_time m))"
proof -
  let ?b = "calm_dir (st' ulid)"
  have limit: "length (all_chunks series) + 1 < 10 ^ 6" and plain: "\<forall>s \<in> set (with_chunks series). labels_plain (si_labels s)"
    using assms(3) by (simp_all add: block_limits_def)
  obtain idx sids ps segs where files: "block_files ?b series idx sids ps segs"
    and meta: "read_meta J (bk_top ?b) = (Inr (block_meta ulid ps (fold count_chunk (all_chunks series) BlockTotals_init)), bk_top ?b)"
    using create_from_series_ok [OF assms(1,2) limit assms(4) plain] assms(5) by blast
  have len: "length ps = length (with_chunks series)"
    using files list_all2_lengthD unfolding block_files_def by metis
  obtain blk where blk: "Block_open J ?b = (Inr blk, ?b)"
      "blk_meta blk = block_meta ulid ps (fold count_chunk (all_chunks series) BlockTotals_init)"
    using Block_open_serves(3) [OF files assms(3) meta refl] by blast
  show ?thesis
    using blk(1) block_meta_totals [OF blk(2) len] by (intro exI [of _ blk] exI [of _ "blk_meta blk"]) blast
qed

theorem block_descriptor_witness:
  "\<exists>(J :: jv json_ops) ulid st' blk b. create_from_series J (0, 0, 0, 0) ex_series (\<lambda>_. fresh_dir) = (Inr ulid, st') \<and>
     Block_open J (calm_dir (st' ulid)) = (Inr blk, b) \<and> bm_ulid (blk_meta blk) = ulid \<and> bs_num_chunks (bm_stats (blk_meta blk)) = 1 \<and>
     sint (bm_min_time (blk_meta blk)) \<le> 1 \<and> 2 \<le> sint (bm_max_time (blk_meta blk))"
proof -
  obtain J :: "jv json_ops" and ulid st' where run: "json_laws J"
      "create_from_series J (0, 0, 0, 0) ex_series (\<lambda>_. fresh_dir) = (Inr ulid, st')"
      "\<forall>bs. map_of (dk_files (bk_top (st' ulid))) ''index'' = Some bs \<longrightarrow> length bs < 2 ^ 32"
    using ex_create by blast
  have calm: "dk_faults (bk_top ((\<lambda>_. fresh_dir) ulid)) = []" by (simp add: fresh_dir_def)
  obtain blk where "Block_open J (calm_dir (st' ulid)) = (Inr blk, calm_dir (st' ulid))" "bm_ulid (blk_meta blk) = ulid"
      "bs_num_chunks (bm_stats (blk_meta blk)) = of_nat (length (all_chunks ex_series))"
      "\<forall>c \<in> set (all_chunks ex_series). sint (bm_min_time (blk_meta blk)) \<le> sint (cin_min_time c) \<and> sint (cin_max_time c) \<le> sint (bm_max_time (blk_meta blk))"
    using block_descriptor [OF run(1,2) ex_limits run(3) calm] by blast
  then show ?thesis
    using run(2)
    by (intro exI [of _ J] exI [of _ ulid] exI [of _ st'] exI [of _ blk] exI [of _ "calm_dir (st' ulid)"]) (simp add: ex_series_def)
qed

end
