(* ===== verification/BlockStored.thy ===== *)
theory BlockStored
  imports BlockQuery
begin

text \<open>
  What a block on the disk is, for those who use it: files that hold the series and a readable
  descriptor whose time range contains that of every chunk. Creating a block leaves one, and so
  does compaction (theory \<open>BlockCompact\<close>); opening one and querying it is proved in \<open>BlockQuery\<close>.
\<close>

definition covers :: "BlockMeta \<Rightarrow> SeriesInput list \<Rightarrow> bool" where
  "covers m series \<longleftrightarrow>
     (\<forall>c \<in> set (all_chunks series). sint (bm_min_time m) \<le> sint (cin_min_time c) \<and> sint (cin_max_time c) \<le> sint (bm_max_time m))"

text \<open>
  The directory of a block with nothing failing: its files hold the series, its descriptor is
  readable and its time range contains that of every chunk.
\<close>

definition stored_block :: "'j json_ops \<Rightarrow> BlockDir \<Rightarrow> SeriesInput list \<Rightarrow> BlockMeta \<Rightarrow> bool" where
  "stored_block J b series m \<longleftrightarrow> calm_dir b = b \<and> block_limits series \<and> covers m series \<and>
     (\<exists>idx sids ps segs. block_files b series idx sids ps segs) \<and> read_meta J (bk_top b) = (Inr m, bk_top b)"

lemma stored_block_open:
  assumes "stored_block J b series m"
  obtains blk where "Block_open J b = (Inr blk, b)" "blk_meta blk = m" "block_serves blk b series"
proof -
  obtain idx sids ps segs where files: "block_files (calm_dir b) series idx sids ps segs" and limits: "block_limits series"
    and meta: "read_meta J (bk_top (calm_dir b)) = (Inr m, bk_top b)" and calm: "calm_dir b = b"
    using assms by (auto simp: stored_block_def)
  obtain blk where "Block_open J (calm_dir b) = (Inr blk, calm_dir b)" "blk_meta blk = m"
    using Block_open_serves(3) [OF files limits meta refl] by blast
  moreover from this(1) have "block_serves blk (calm_dir b) series"
    using Block_open_serves(2) [OF files limits meta] by blast
  ultimately show thesis using that unfolding calm by blast
qed

lemma create_from_series_frame:
  assumes run: "create_from_series J env series st = (Inr ulid, st')"
  shows "\<not> dk_dir (bk_top (st ulid))" "dir \<noteq> ulid \<Longrightarrow> st' dir = st dir"
    "dk_faults (bk_top (st ulid)) = [] \<Longrightarrow> dk_faults (bk_top (st' ulid)) = []"
proof -
  obtain b1 b2 where b: "make_block_dir (st ulid) = (Inr (), b1)" "fill_block J ulid series b1 = (Inr (), b2)" "st' = st(ulid := b2)"
    using run by (auto simp: create_from_series_def Let_def split: prod.splits sum.splits)
  then show "dir \<noteq> ulid \<Longrightarrow> st' dir = st dir" by simp
  show "\<not> dk_dir (bk_top (st ulid))"
    using b(1) by (auto simp: make_block_dir_def split: prod.splits sum.splits if_splits dest: sys_simple_disk)
  from b(2) obtain ps totals c1 len t1 t2 t3 where
    t: "write_block_index ps (bk_top b1) = (Inr len, t1)" "write_meta J (block_meta ulid ps totals) t1 = (Inr (), t2)"
      "write_tombstones t2 = (Inr (), t3)" "b2 = \<lparr>bk_top = t3, bk_chunks = c1\<rparr>"
    by (rule fill_block_steps)
  assume "dk_faults (bk_top (st ulid)) = []"
  then have "dk_faults t2 = []"
    using make_block_dir_ok(4) [OF b(1)] write_block_index_disk(3) [OF t(1)] write_meta_disk(3) [OF t(2)] by blast
  then have "dk_faults t3 = []" using t(3) by (simp add: write_tombstones_def sys_simple_ok file_create_def) auto
  then show "dk_faults (bk_top (st' ulid)) = []" using b(3) t(4) by simp
qed

lemma created_block_stored:
  assumes laws: "json_laws J" and run: "create_from_series J env series st = (Inr ulid, st')" and limits: "block_limits series"
    and size: "\<forall>bs. map_of (dk_files (bk_top (st' ulid))) ''index'' = Some bs \<longrightarrow> length bs < 2 ^ 32"
    and calm: "dk_faults (bk_top (st ulid)) = []"
  shows "\<exists>m. stored_block J (calm_dir (st' ulid)) series m \<and> bm_version m = k_meta_version_1 \<and> bm_ulid m = ulid \<and>
    meta_ascii m"
proof -
  have limit: "length (all_chunks series) + 1 < 10 ^ 6" and plain: "\<forall>s \<in> set (with_chunks series). labels_plain (si_labels s)"
    using limits by (simp_all add: block_limits_def)
  obtain idx sids ps segs where files: "block_files (calm_dir (st' ulid)) series idx sids ps segs"
    and meta: "read_meta J (bk_top (calm_dir (st' ulid)))
       = (Inr (block_meta ulid ps (fold count_chunk (all_chunks series) BlockTotals_init)), bk_top (calm_dir (st' ulid)))"
    using create_from_series_ok [OF laws run limit size plain] calm by blast
  have len: "length ps = length (with_chunks series)"
    using files list_all2_lengthD unfolding block_files_def by metis
  let ?m = "block_meta ulid ps (fold count_chunk (all_chunks series) BlockTotals_init)"
  have "covers ?m series" using block_meta_totals(5) [OF refl len] unfolding covers_def by blast
  moreover have "calm_dir (calm_dir b) = calm_dir b" for b by (simp add: calm_dir_def)
  moreover have "bm_version ?m = k_meta_version_1" "bm_ulid ?m = ulid" by (simp_all add: block_meta_def k_meta_version_1_def)
  moreover have "ascii ulid" using run new_ulid_ascii by (auto simp: create_from_series_def Let_def split: prod.splits sum.splits)
  then have "meta_ascii ?m" by (rule block_meta_ascii)
  ultimately show ?thesis using files meta limits unfolding stored_block_def by blast
qed

text \<open>Without failures a block within the limits is created and stored.\<close>

lemma create_stored:
  assumes laws: "json_laws J" and "json_dumps J" and new: "st ulid = fresh_dir" and "ulid = new_ulid now r0 r1 r2"
    and limits: "block_limits series" and room: "index_room series < 2 ^ 32"
  shows "\<exists>st' m bs. create_from_series J (now, r0, r1, r2) series st = (Inr ulid, st') \<and> stored_block J (st' ulid) series m \<and>
    bm_version m = k_meta_version_1 \<and> bm_ulid m = ulid \<and> meta_ascii m \<and>
    map_of (dk_files (bk_top (st' ulid))) ''index'' = Some bs \<and> length bs \<le> index_room series"
proof -
  obtain st' bs where run: "create_from_series J (now, r0, r1, r2) series st = (Inr ulid, st')"
      "map_of (dk_files (bk_top (st' ulid))) ''index'' = Some bs" "length bs \<le> index_room series" "calm_dir (st' ulid) = st' ulid"
    using create_in_limits [of J st ulid now r0 r1 r2 series] assms(2-6) by blast
  have size: "\<forall>bs. map_of (dk_files (bk_top (st' ulid))) ''index'' = Some bs \<longrightarrow> length bs < 2 ^ 32"
    using run(2,3) room by simp
  have calm: "dk_faults (bk_top (st ulid)) = []" using new by (simp add: fresh_dir_def)
  show ?thesis
    using created_block_stored [OF laws run(1) limits size calm] run(1-3) unfolding run(4) by blast
qed

text \<open>The small block.\<close>

lemma ex_stored: "\<exists>(J :: jv json_ops) b m. stored_block J b ex_series m"
proof -
  obtain J :: "jv json_ops" and ulid st' where run: "json_laws J"
      "create_from_series J (0, 0, 0, 0) ex_series (\<lambda>_. fresh_dir) = (Inr ulid, st')"
      "\<forall>bs. map_of (dk_files (bk_top (st' ulid))) ''index'' = Some bs \<longrightarrow> length bs < 2 ^ 32"
    using ex_create by blast
  have calm: "dk_faults (bk_top ((\<lambda>_. fresh_dir) ulid)) = []" by (simp add: fresh_dir_def)
  show ?thesis using created_block_stored [OF run(1,2) ex_limits run(3) calm] by blast
qed

section \<open>Properties\<close>

text \<open>
  C11. Creating a block succeeds and the block can be used. On a disk without failures, in a
  directory that does not exist yet, for every input within the limits of the format whose index
  has room below 4 GiB, \<open>create_from_series\<close> returns the fresh name without an error; the
  index file has at most the computed size; the block opens, with a descriptor that carries the
  name; and a query with any matchers then succeeds and returns exactly the series and chunks
  asked for. No other directory is touched. No hypothesis is on the outcome of a step.
\<close>

theorem create_succeeds:
  assumes "json_laws J" and "json_dumps J" and "st ulid = fresh_dir" and "ulid = new_ulid now r0 r1 r2"
    and "block_limits series" and "index_room series < 2 ^ 32" and "ms \<noteq> []" and "\<forall>m \<in> set ms. matcher_ok m"
  shows "\<exists>st' blk bs out blk'. create_from_series J (now, r0, r1, r2) series st = (Inr ulid, st') \<and>
    map_of (dk_files (bk_top (st' ulid))) ''index'' = Some bs \<and> length bs \<le> index_room series \<and>
    Block_open J (st' ulid) = (Inr blk, st' ulid) \<and> bm_ulid (blk_meta blk) = ulid \<and>
    Block_select rm ms mint maxt blk (bk_chunks (st' ulid)) = (Inr out, blk', bk_chunks (st' ulid)) \<and>
    list_all2 (block_answer (input_overlaps mint maxt))
      (filter (\<lambda>s. labels_match_all rm (si_labels s) ms \<and> filter (input_overlaps mint maxt) (si_chunks s) \<noteq> []) series) out \<and>
    (\<forall>dir. dir \<noteq> ulid \<longrightarrow> st' dir = st dir)"
proof -
  obtain st' m bs where run: "create_from_series J (now, r0, r1, r2) series st = (Inr ulid, st')"
    and m: "stored_block J (st' ulid) series m" "bm_ulid m = ulid"
    and index: "map_of (dk_files (bk_top (st' ulid))) ''index'' = Some bs" "length bs \<le> index_room series"
    using create_stored [where st = st and ulid = ulid, OF assms(1-6)] by blast
  obtain blk where blk: "Block_open J (st' ulid) = (Inr blk, st' ulid)" "blk_meta blk = m" "block_serves blk (st' ulid) series"
    by (rule stored_block_open [OF m(1)])
  obtain out blk' where "Block_select rm ms mint maxt blk (bk_chunks (st' ulid)) = (Inr out, blk', bk_chunks (st' ulid))"
      "list_all2 (block_answer (input_overlaps mint maxt))
        (filter (\<lambda>s. labels_match_all rm (si_labels s) ms \<and> filter (input_overlaps mint maxt) (si_chunks s) \<noteq> []) series) out"
    using Block_select_serves [OF blk(3) assms(5,7,8)] by blast
  then show ?thesis
    using run index blk(1,2) m(2) create_from_series_frame(2) [OF run]
    by (intro exI [of _ st'] exI [of _ blk] exI [of _ bs] exI [of _ out] exI [of _ blk']) simp
qed

theorem create_succeeds_witness:
  "\<exists>st' blk out blk'. create_from_series jv_ops (0, 0, 0, 0) ex_series (\<lambda>_. fresh_dir) = (Inr (new_ulid 0 0 0 0), st') \<and>
     Block_open jv_ops (st' (new_ulid 0 0 0 0)) = (Inr blk, st' (new_ulid 0 0 0 0)) \<and>
     Block_select (\<lambda>(_ :: unit) _. True) [equal ''a'' ''b''] 0 5 blk (bk_chunks (st' (new_ulid 0 0 0 0)))
       = (Inr out, blk', bk_chunks (st' (new_ulid 0 0 0 0)))"
proof -
  have ms: "[equal ''a'' ''b'' :: unit Matcher] \<noteq> []" "\<forall>m \<in> set [equal ''a'' ''b'' :: unit Matcher]. matcher_ok m"
    using ex_name by (simp_all add: matcher_ok_def Matcher.equal_def)
  show ?thesis
    using create_succeeds [of jv_ops "\<lambda>_. fresh_dir", OF jv_laws jv_dumps refl refl ex_limits ex_room ms, of 0 0 0 0 "\<lambda>_ _. True" 0 5] by blast
qed

end
