(* ===== verification/Querier.thy ===== *)
theory Querier
  imports BlockStored "HOL-Library.Multiset"
begin

text \<open>
  Queries over several blocks and heads (src/querier/querier.cpp, querier/querier.hpp): the results
  of all sources are merged by label set, and the chunks of a series are sorted by their minimum
  time. The order in which the hash map is walked and the order \<open>std::sort\<close> gives chunks with equal
  minimum times are parameters. Shown: every series of any source appears exactly once, with
  exactly the chunks the sources returned for it, in order of their minimum times; and the answer
  to a query on created blocks.
\<close>

section \<open>Model\<close>

record MergedSeries =
  mg_labels :: Labels
  mg_chunks :: "XORChunk list"
  mg_chunk_metas :: "ChunkMeta list"

datatype querier_error = No_matchers | From_block block_error | From_head head_error

text \<open>
  The pointers, which may be null. A block has its chunk directory beside it, and reading fills
  its cache.
\<close>

record Querier =
  qy_blocks :: "(Block \<times> Disk) option list"
  qy_heads :: "Head option list"

definition block_count :: "Querier \<Rightarrow> nat" where
  "block_count q = length (qy_blocks q)"

definition head_count :: "Querier \<Rightarrow> nat" where
  "head_count q = length (qy_heads q)"

definition Querier_blocks :: "(Block \<times> Disk) option list \<Rightarrow> Querier" where
  "Querier_blocks blocks = \<lparr>qy_blocks = blocks, qy_heads = []\<rparr>"

definition Querier_init :: "(Block \<times> Disk) option list \<Rightarrow> Head option list \<Rightarrow> Querier" where
  "Querier_init blocks heads = \<lparr>qy_blocks = blocks, qy_heads = heads\<rparr>"

text \<open>The hash map, as a list in the order of first insertion.\<close>

fun bucket_add :: "QueryResult \<Rightarrow> MergedSeries list \<Rightarrow> MergedSeries list" where
  "bucket_add q [] = [\<lparr>mg_labels = qr_labels q, mg_chunks = qr_chunks q,
     mg_chunk_metas = take (length (qr_chunks q)) (qr_chunk_metas q)\<rparr>]"
| "bucket_add q (s # ss) =
     (if mg_labels s = qr_labels q
      then s\<lparr>mg_chunks := mg_chunks s @ qr_chunks q,
             mg_chunk_metas := mg_chunk_metas s @ take (length (qr_chunks q)) (qr_chunk_metas q)\<rparr> # ss
      else s # bucket_add q ss)"

definition bucket_results :: "QueryResult list \<Rightarrow> MergedSeries list \<Rightarrow> MergedSeries list" where
  "bucket_results qs bucket = fold bucket_add qs bucket"

fun select_blocks ::
  "('re \<Rightarrow> string \<Rightarrow> bool) \<Rightarrow> 're Matcher list \<Rightarrow> i64 \<Rightarrow> i64 \<Rightarrow> (Block \<times> Disk) option list \<Rightarrow> MergedSeries list \<Rightarrow>
   (querier_error + MergedSeries list) \<times> (Block \<times> Disk) option list" where
  "select_blocks rmatch matchers mint maxt [] bucket = (Inr bucket, [])"
| "select_blocks rmatch matchers mint maxt (None # blocks) bucket =
     (case select_blocks rmatch matchers mint maxt blocks bucket of (r, blocks') \<Rightarrow> (r, None # blocks'))"
| "select_blocks rmatch matchers mint maxt (Some (blk, d) # blocks) bucket =
     (if sint (bm_min_time (blk_meta blk)) > sint maxt \<or> sint (bm_max_time (blk_meta blk)) < sint mint then
        (case select_blocks rmatch matchers mint maxt blocks bucket of (r, blocks') \<Rightarrow> (r, Some (blk, d) # blocks'))
      else case Block_select rmatch matchers mint maxt blk d of
        (Inl e, blk', d') \<Rightarrow> (Inl (From_block e), Some (blk', d') # blocks)
      | (Inr per_block, blk', d') \<Rightarrow>
          (case select_blocks rmatch matchers mint maxt blocks (bucket_results per_block bucket) of
             (r, blocks') \<Rightarrow> (r, Some (blk', d') # blocks')))"

fun select_heads ::
  "('re \<Rightarrow> string \<Rightarrow> bool) \<Rightarrow> 're Matcher list \<Rightarrow> i64 \<Rightarrow> i64 \<Rightarrow> Head option list \<Rightarrow> MergedSeries list \<Rightarrow>
   querier_error + MergedSeries list" where
  "select_heads rmatch matchers mint maxt [] bucket = Inr bucket"
| "select_heads rmatch matchers mint maxt (None # heads) bucket = select_heads rmatch matchers mint maxt heads bucket"
| "select_heads rmatch matchers mint maxt (Some h # heads) bucket =
     (case head_select rmatch matchers mint maxt h of
        Inl e \<Rightarrow> Inl (From_head e)
      | Inr per_head \<Rightarrow> select_heads rmatch matchers mint maxt heads (bucket_results per_head bucket))"

text \<open>The sorted index vector applied to both parallel vectors.\<close>

definition sort_series :: "(i64 list \<Rightarrow> nat list) \<Rightarrow> MergedSeries \<Rightarrow> MergedSeries" where
  "sort_series order s =
     (let ixs = order (map cm_min_time (mg_chunk_metas s))
      in s\<lparr>mg_chunks := map (\<lambda>i. mg_chunks s ! i) ixs, mg_chunk_metas := map (\<lambda>i. mg_chunk_metas s ! i) ixs\<rparr>)"

definition Querier_select ::
  "('re \<Rightarrow> string \<Rightarrow> bool) \<Rightarrow> (MergedSeries list \<Rightarrow> MergedSeries list) \<Rightarrow> (i64 list \<Rightarrow> nat list) \<Rightarrow>
   're Matcher list \<Rightarrow> i64 \<Rightarrow> i64 \<Rightarrow> Querier \<Rightarrow> (querier_error + MergedSeries list) \<times> Querier" where
  "Querier_select rmatch walk order matchers mint maxt q =
     (if matchers = [] then (Inl No_matchers, q)
      else case select_blocks rmatch matchers mint maxt (qy_blocks q) [] of
        (Inl e, blocks) \<Rightarrow> (Inl e, q\<lparr>qy_blocks := blocks\<rparr>)
      | (Inr bucket, blocks) \<Rightarrow>
          (case select_heads rmatch matchers mint maxt (qy_heads q) bucket of
             Inl e \<Rightarrow> (Inl e, q\<lparr>qy_blocks := blocks\<rparr>)
           | Inr bucket1 \<Rightarrow> (Inr (map (sort_series order) (walk bucket1)), q\<lparr>qy_blocks := blocks\<rparr>)))"

section \<open>The parameters\<close>

text \<open>A walk visits every entry once; a sort gives a permutation of the positions in order of the keys.\<close>

definition walk_ok :: "('a list \<Rightarrow> 'a list) \<Rightarrow> bool" where
  "walk_ok walk \<longleftrightarrow> (\<forall>xs. mset (walk xs) = mset xs)"

definition order_ok :: "(i64 list \<Rightarrow> nat list) \<Rightarrow> bool" where
  "order_ok order \<longleftrightarrow> (\<forall>ts. mset (order ts) = mset [0..<length ts] \<and> sorted (map (\<lambda>i. sint (ts ! i)) (order ts)))"

section \<open>Merging\<close>

abbreviation result_pairs :: "QueryResult \<Rightarrow> (XORChunk \<times> ChunkMeta) list" where
  "result_pairs r \<equiv> zip (qr_chunks r) (qr_chunk_metas r)"

abbreviation merged_pairs :: "MergedSeries \<Rightarrow> (XORChunk \<times> ChunkMeta) list" where
  "merged_pairs s \<equiv> zip (mg_chunks s) (mg_chunk_metas s)"

abbreviation paired :: "QueryResult \<Rightarrow> bool" where
  "paired r \<equiv> length (qr_chunk_metas r) = length (qr_chunks r)"

text \<open>The bucket after a list of results: one entry per label set, with all its chunks in order.\<close>

definition bucket_holds :: "MergedSeries list \<Rightarrow> QueryResult list \<Rightarrow> bool" where
  "bucket_holds bucket rs \<longleftrightarrow> distinct (map mg_labels bucket) \<and> mg_labels ` set bucket = qr_labels ` set rs \<and>
     (\<forall>s \<in> set bucket. length (mg_chunk_metas s) = length (mg_chunks s) \<and>
        merged_pairs s = concat (map result_pairs (filter (\<lambda>r. qr_labels r = mg_labels s) rs)))"

lemma bucket_add_labels:
  "map mg_labels (bucket_add q b) =
     (if qr_labels q \<in> mg_labels ` set b then map mg_labels b else map mg_labels b @ [qr_labels q])"
  by (induction q b rule: bucket_add.induct) auto

lemma bucket_add_entries:
  "s \<in> set (bucket_add q b) \<Longrightarrow> distinct (map mg_labels b) \<Longrightarrow> paired q \<Longrightarrow>
   s \<in> set b \<and> mg_labels s \<noteq> qr_labels q \<or>
   (\<exists>s0 \<in> set b. mg_labels s0 = qr_labels q \<and> s = s0\<lparr>mg_chunks := mg_chunks s0 @ qr_chunks q,
      mg_chunk_metas := mg_chunk_metas s0 @ qr_chunk_metas q\<rparr>) \<or>
   qr_labels q \<notin> mg_labels ` set b \<and> s = \<lparr>mg_labels = qr_labels q, mg_chunks = qr_chunks q, mg_chunk_metas = qr_chunk_metas q\<rparr>"
proof (induction q b rule: bucket_add.induct)
  case (2 q s0 b)
  show ?case
  proof (cases "mg_labels s0 = qr_labels q")
    case True
    then consider "s = s0\<lparr>mg_chunks := mg_chunks s0 @ qr_chunks q, mg_chunk_metas := mg_chunk_metas s0 @ qr_chunk_metas q\<rparr>" | "s \<in> set b"
      using "2.prems"(1,3) by auto
    then show ?thesis
    proof cases
      case 2
      then have "mg_labels s \<in> mg_labels ` set b" by simp
      then have "mg_labels s \<noteq> qr_labels q" using "2.prems"(2) True by auto
      then show ?thesis using 2 by simp
    qed (use True in auto)
  next
    case False
    then show ?thesis using "2.prems" "2.IH" by auto
  qed
qed simp

lemma bucket_add_holds:
  assumes holds: "bucket_holds b rs" and q: "paired q"
  shows "bucket_holds (bucket_add q b) (rs @ [q])"
proof -
  have dist: "distinct (map mg_labels b)" and labels: "mg_labels ` set b = qr_labels ` set rs"
    and each: "\<And>s. s \<in> set b \<Longrightarrow> length (mg_chunk_metas s) = length (mg_chunks s) \<and>
        merged_pairs s = concat (map result_pairs (filter (\<lambda>r. qr_labels r = mg_labels s) rs))"
    using holds by (auto simp: bucket_holds_def)
  have set_map: "mg_labels ` set (bucket_add q b) = set (map mg_labels (bucket_add q b))" by simp
  have "length (mg_chunk_metas s) = length (mg_chunks s) \<and>
      merged_pairs s = concat (map result_pairs (filter (\<lambda>r. qr_labels r = mg_labels s) (rs @ [q])))"
    if s: "s \<in> set (bucket_add q b)" for s
  proof -
    consider "s \<in> set b" "mg_labels s \<noteq> qr_labels q"
      | s0 where "s0 \<in> set b" "mg_labels s0 = qr_labels q" "s = s0\<lparr>mg_chunks := mg_chunks s0 @ qr_chunks q,
          mg_chunk_metas := mg_chunk_metas s0 @ qr_chunk_metas q\<rparr>"
      | "qr_labels q \<notin> qr_labels ` set rs" "s = \<lparr>mg_labels = qr_labels q, mg_chunks = qr_chunks q, mg_chunk_metas = qr_chunk_metas q\<rparr>"
      using bucket_add_entries [OF s dist q] labels by auto
    then show ?thesis
    proof cases
      case 1
      then show ?thesis using each [of s] by auto
    next
      case 2
      then show ?thesis using each [of s0] q by simp
    next
      case 3
      then have "filter (\<lambda>r. qr_labels r = qr_labels q) rs = []" unfolding filter_empty_conv by (metis image_eqI)
      then show ?thesis using 3(2) q by simp
    qed
  qed
  then show ?thesis
    unfolding bucket_holds_def set_map bucket_add_labels using dist labels by auto
qed

lemma bucket_results_holds:
  "bucket_holds b rs \<Longrightarrow> \<forall>q \<in> set qs. paired q \<Longrightarrow> bucket_holds (bucket_results qs b) (rs @ qs)"
proof (induction qs arbitrary: b rs)
  case (Cons q qs)
  then show ?case using Cons.IH [OF bucket_add_holds [OF Cons.prems(1), of q]] by (simp add: bucket_results_def)
qed (simp add: bucket_results_def)

section \<open>The sources\<close>

text \<open>Results of blocks and heads carry a descriptor for every chunk.\<close>

lemma load_series_paired:
  "load_series keep_empty wanted idx sids r d = (Inr out, r', d') \<Longrightarrow> \<forall>q \<in> set out. paired q"
proof (induction sids arbitrary: r d out)
  case (Cons sid sids)
  then show ?case by (fastforce split: sum.splits prod.splits if_splits)
qed simp

lemma Block_select_paired: "Block_select rm ms mint maxt blk d = (Inr out, blk', d') \<Longrightarrow> \<forall>q \<in> set out. paired q"
  by (auto simp: Block_select_def split: list.splits sum.splits prod.splits dest: load_series_paired)

lemma select_series_paired: "select_series rm ms mint maxt ss = Inr out \<Longrightarrow> \<forall>q \<in> set out. paired q"
proof (induction ss arbitrary: out)
  case (Cons s ss)
  then show ?case by (fastforce split: sum.splits if_splits)
qed simp

definition block_source :: "('re \<Rightarrow> string \<Rightarrow> bool) \<Rightarrow> 're Matcher list \<Rightarrow> i64 \<Rightarrow> i64 \<Rightarrow> (Block \<times> Disk) option \<Rightarrow> QueryResult list \<Rightarrow> bool" where
  "block_source rm ms mint maxt src rs \<longleftrightarrow>
     (case src of
        None \<Rightarrow> rs = []
      | Some (blk, d) \<Rightarrow>
          if sint (bm_min_time (blk_meta blk)) \<le> sint maxt \<and> sint mint \<le> sint (bm_max_time (blk_meta blk))
          then fst (Block_select rm ms mint maxt blk d) = Inr rs else rs = [])"

definition head_source :: "('re \<Rightarrow> string \<Rightarrow> bool) \<Rightarrow> 're Matcher list \<Rightarrow> i64 \<Rightarrow> i64 \<Rightarrow> Head option \<Rightarrow> QueryResult list \<Rightarrow> bool" where
  "head_source rm ms mint maxt src rs \<longleftrightarrow>
     (case src of None \<Rightarrow> rs = [] | Some h \<Rightarrow> head_select rm ms mint maxt h = Inr rs)"

lemma source_simps:
  "block_source rm ms mint maxt None rs \<longleftrightarrow> rs = []" "head_source rm ms mint maxt None rs \<longleftrightarrow> rs = []"
  "head_source rm ms mint maxt (Some h) rs \<longleftrightarrow> head_select rm ms mint maxt h = Inr rs"
  "block_source rm ms mint maxt (Some (blk, d)) rs \<longleftrightarrow>
     (if sint (bm_min_time (blk_meta blk)) \<le> sint maxt \<and> sint mint \<le> sint (bm_max_time (blk_meta blk))
      then fst (Block_select rm ms mint maxt blk d) = Inr rs else rs = [])"
  by (simp_all add: block_source_def head_source_def)

lemma select_blocks_ok:
  "select_blocks rm ms mint maxt blocks b = (Inr b', blocks') \<Longrightarrow> bucket_holds b rs \<Longrightarrow>
   \<exists>rss. list_all2 (block_source rm ms mint maxt) blocks rss \<and> bucket_holds b' (rs @ concat rss)"
proof (induction rm ms mint maxt blocks b arbitrary: rs blocks' rule: select_blocks.induct)
  case (2 rm ms mint maxt blocks b)
  then obtain rss where "list_all2 (block_source rm ms mint maxt) blocks rss" "bucket_holds b' (rs @ concat rss)"
    by (fastforce split: prod.splits)
  then show ?case by (intro exI [of _ "[] # rss"]) (simp add: source_simps)
next
  case (3 rm ms mint maxt blk d blocks b)
  define skip where "skip \<longleftrightarrow> sint (bm_min_time (blk_meta blk)) > sint maxt \<or> sint (bm_max_time (blk_meta blk)) < sint mint"
  show ?case
  proof (cases skip)
    case True
    then obtain rss where "list_all2 (block_source rm ms mint maxt) blocks rss" "bucket_holds b' (rs @ concat rss)"
      using "3.IH"(1) "3.prems" by (fastforce simp: skip_def split: prod.splits)
    then show ?thesis using True by (intro exI [of _ "[] # rss"]) (auto simp: source_simps skip_def)
  next
    case False
    obtain out blk' d' blocks'' where sel: "Block_select rm ms mint maxt blk d = (Inr out, blk', d')"
        "select_blocks rm ms mint maxt blocks (bucket_results out b) = (Inr b', blocks'')"
      using "3.prems"(1) False by (auto simp: skip_def split: sum.splits prod.splits)
    have holds: "bucket_holds (bucket_results out b) (rs @ out)"
      using bucket_results_holds [OF "3.prems"(2)] Block_select_paired [OF sel(1)] .
    obtain rss where "list_all2 (block_source rm ms mint maxt) blocks rss" "bucket_holds b' ((rs @ out) @ concat rss)"
      using "3.IH"(2) [OF _ sel(1) [symmetric] refl refl sel(2) holds] False by (auto simp: skip_def)
    then show ?thesis using False sel(1) by (intro exI [of _ "out # rss"]) (simp add: source_simps skip_def)
  qed
qed auto

lemma select_heads_ok:
  "select_heads rm ms mint maxt heads b = Inr b' \<Longrightarrow> ms \<noteq> [] \<Longrightarrow> bucket_holds b rs \<Longrightarrow>
   \<exists>rss. list_all2 (head_source rm ms mint maxt) heads rss \<and> bucket_holds b' (rs @ concat rss)"
proof (induction rm ms mint maxt heads b arbitrary: rs rule: select_heads.induct)
  case (2 rm ms mint maxt heads b)
  then obtain rss where "list_all2 (head_source rm ms mint maxt) heads rss" "bucket_holds b' (rs @ concat rss)" by auto
  then show ?case by (intro exI [of _ "[] # rss"]) (simp add: source_simps)
next
  case (3 rm ms mint maxt h heads b)
  obtain out where sel: "head_select rm ms mint maxt h = Inr out" "select_heads rm ms mint maxt heads (bucket_results out b) = Inr b'"
    using "3.prems"(1) by (auto split: sum.splits)
  have "\<forall>q \<in> set out. paired q"
    using sel(1) select_series_paired [of rm ms mint maxt "all_series (h_series h)" out] by (simp add: head_select_def split: if_splits)
  from bucket_results_holds [OF "3.prems"(3) this]
  obtain rss where "list_all2 (head_source rm ms mint maxt) heads rss" "bucket_holds b' ((rs @ out) @ concat rss)"
    using "3.IH" [OF sel(1) sel(2) "3.prems"(2)] by blast
  then show ?case using sel(1) by (intro exI [of _ "out # rss"]) (simp add: source_simps)
qed auto

lemma select_blocks_total:
  "\<forall>src \<in> set blocks. \<exists>rs. block_source rm ms mint maxt src rs \<Longrightarrow>
   \<exists>b' blocks'. select_blocks rm ms mint maxt blocks b = (Inr b', blocks')"
proof (induction rm ms mint maxt blocks b rule: select_blocks.induct)
  case (2 rm ms mint maxt blocks b)
  then obtain b' blocks' where "select_blocks rm ms mint maxt blocks b = (Inr b', blocks')" by auto
  then show ?case by simp
next
  case (3 rm ms mint maxt blk d blocks b)
  define skip where "skip \<longleftrightarrow> sint (bm_min_time (blk_meta blk)) > sint maxt \<or> sint (bm_max_time (blk_meta blk)) < sint mint"
  show ?case
  proof (cases skip)
    case True
    then obtain b' blocks' where "select_blocks rm ms mint maxt blocks b = (Inr b', blocks')"
      using "3.IH"(1) "3.prems" by (auto simp: skip_def)
    then show ?thesis using True by (simp add: skip_def)
  next
    case False
    then have "\<exists>rs. fst (Block_select rm ms mint maxt blk d) = Inr rs"
      using "3.prems" by (auto simp: source_simps skip_def not_less split: if_splits)
    then obtain rs blk' d' where sel: "Block_select rm ms mint maxt blk d = (Inr rs, blk', d')"
      by (cases "Block_select rm ms mint maxt blk d") auto
    obtain b' blocks' where "select_blocks rm ms mint maxt blocks (bucket_results rs b) = (Inr b', blocks')"
      using "3.IH"(2) [OF _ sel [symmetric] refl refl] False "3.prems" by (auto simp: skip_def)
    then show ?thesis using sel False by (simp add: skip_def)
  qed
qed simp

lemma select_heads_total:
  "\<forall>src \<in> set heads. \<exists>rs. head_source rm ms mint maxt src rs \<Longrightarrow> \<exists>b'. select_heads rm ms mint maxt heads b = Inr b'"
proof (induction rm ms mint maxt heads b rule: select_heads.induct)
  case (3 rm ms mint maxt h heads b)
  then show ?case by (auto simp: source_simps)
qed auto

section \<open>Sorting\<close>

lemma map_order:
  assumes "order_ok order" "length xs = n" "length ts = n"
  shows "mset (map (\<lambda>i. xs ! i) (order ts)) = mset xs" "length (order ts) = n" "i \<in> set (order ts) \<Longrightarrow> i < n"
proof -
  have perm: "mset (order ts) = mset [0..<n]" using assms(1,3) by (auto simp: order_ok_def)
  have "mset (map (\<lambda>i. xs ! i) (order ts)) = mset (map (\<lambda>i. xs ! i) [0..<n])"
    using perm by (simp add: mset_map del: mset_upt)
  also have "map (\<lambda>i. xs ! i) [0..<n] = xs" using assms(2) map_nth by auto
  finally show "mset (map (\<lambda>i. xs ! i) (order ts)) = mset xs" .
  show "length (order ts) = n" using mset_eq_length [OF perm] by simp
  have "set (order ts) = {0..<n}" using mset_eq_setD [OF perm] by simp
  then show "i \<in> set (order ts) \<Longrightarrow> i < n" by auto
qed

lemma sort_series_ok:
  assumes order: "order_ok order" and len: "length (mg_chunk_metas s) = length (mg_chunks s)"
  defines "t \<equiv> sort_series order s"
  shows "mg_labels t = mg_labels s" "length (mg_chunk_metas t) = length (mg_chunks t)"
    "sorted (map (sint \<circ> cm_min_time) (mg_chunk_metas t))" "mset (merged_pairs t) = mset (merged_pairs s)"
proof -
  let ?ts = "map cm_min_time (mg_chunk_metas s)"
  show "mg_labels t = mg_labels s" "length (mg_chunk_metas t) = length (mg_chunks t)"
    by (simp_all add: t_def sort_series_def Let_def)
  have below: "i < length (mg_chunks s)" if "i \<in> set (order ?ts)" for i
    using map_order(3) [OF order refl, of ?ts "mg_chunks s" i] len that by simp
  have "map (sint \<circ> cm_min_time) (mg_chunk_metas t) = map (\<lambda>i. sint (?ts ! i)) (order ?ts)"
    using below len by (simp add: t_def sort_series_def Let_def)
  then show "sorted (map (sint \<circ> cm_min_time) (mg_chunk_metas t))" using order by (simp only: order_ok_def)
  have "merged_pairs t = map (\<lambda>i. merged_pairs s ! i) (order ?ts)"
    using below len by (simp add: t_def sort_series_def Let_def zip_map_map zip_same_conv_map)
  then show "mset (merged_pairs t) = mset (merged_pairs s)"
    using map_order(1) [OF order, of "merged_pairs s" "length (mg_chunks s)" ?ts] len by simp
qed

section \<open>The whole query\<close>

text \<open>What the result of a query is, given the results of the sources.\<close>

definition merges :: "MergedSeries list \<Rightarrow> QueryResult list \<Rightarrow> bool" where
  "merges out rs \<longleftrightarrow> distinct (map mg_labels out) \<and> mg_labels ` set out = qr_labels ` set rs \<and>
     (\<forall>s \<in> set out. length (mg_chunk_metas s) = length (mg_chunks s) \<and>
        sorted (map (sint \<circ> cm_min_time) (mg_chunk_metas s)) \<and>
        mset (merged_pairs s) = mset (concat (map result_pairs (filter (\<lambda>r. qr_labels r = mg_labels s) rs))))"

lemma sorted_bucket_merges:
  assumes walk: "walk_ok walk" and order: "order_ok order" and holds: "bucket_holds b rs"
  shows "merges (map (sort_series order) (walk b)) rs"
proof -
  have perm: "mset (walk b) = mset b" using walk by (simp add: walk_ok_def)
  have set: "set (walk b) = set b" using perm by (rule mset_eq_setD)
  have "mset (map mg_labels (walk b)) = mset (map mg_labels b)" using perm by simp
  then have dist: "distinct (map mg_labels (walk b))"
    using holds by (metis bucket_holds_def mset_eq_imp_distinct_iff)
  have same: "map mg_labels (map (sort_series order) xs) = map mg_labels xs" for xs
    by (simp add: sort_series_def Let_def)
  have labels: "mg_labels ` set (map (sort_series order) (walk b)) = mg_labels ` set b"
    using set same [of "walk b"] by (metis list.set_map)
  show ?thesis
    unfolding merges_def same labels using dist holds set
    by (auto simp: bucket_holds_def sort_series_ok [OF order] simp del: mset_concat)
qed

lemma Querier_select_merges:
  assumes walk: "walk_ok walk" and order: "order_ok order" and run: "Querier_select rm walk order ms mint maxt q = (Inr out, q')"
  shows "\<exists>bss hss. list_all2 (block_source rm ms mint maxt) (qy_blocks q) bss \<and>
    list_all2 (head_source rm ms mint maxt) (qy_heads q) hss \<and> merges out (concat bss @ concat hss)"
proof -
  obtain b blocks b1 where st: "ms \<noteq> []" "select_blocks rm ms mint maxt (qy_blocks q) [] = (Inr b, blocks)"
      "select_heads rm ms mint maxt (qy_heads q) b = Inr b1" "out = map (sort_series order) (walk b1)"
    using run by (auto simp: Querier_select_def split: if_splits prod.splits sum.splits)
  obtain bss where bss: "list_all2 (block_source rm ms mint maxt) (qy_blocks q) bss" "bucket_holds b ([] @ concat bss)"
    using select_blocks_ok [OF st(2), of "[]"] by (auto simp: bucket_holds_def)
  obtain hss where hss: "list_all2 (head_source rm ms mint maxt) (qy_heads q) hss" "bucket_holds b1 (concat bss @ concat hss)"
    using select_heads_ok [OF st(3,1)] bss(2) by auto
  show ?thesis
    unfolding st(4) using bss(1) hss(1) sorted_bucket_merges [OF walk order hss(2)] by blast
qed

lemma Querier_select_total:
  assumes "ms \<noteq> []" and "\<forall>src \<in> set (qy_blocks q). \<exists>rs. block_source rm ms mint maxt src rs"
    and "\<forall>src \<in> set (qy_heads q). \<exists>rs. head_source rm ms mint maxt src rs"
  shows "\<exists>out q'. Querier_select rm walk order ms mint maxt q = (Inr out, q')"
proof -
  obtain b bl where "select_blocks rm ms mint maxt (qy_blocks q) [] = (Inr b, bl)"
    using select_blocks_total [OF assms(2)] by blast
  moreover obtain b1 where "select_heads rm ms mint maxt (qy_heads q) b = Inr b1"
    using select_heads_total [OF assms(3)] by blast
  ultimately show ?thesis using assms(1) by (simp add: Querier_select_def)
qed

section \<open>Opened blocks and reachable heads\<close>

text \<open>A stored block that was opened, with its chunk directory.\<close>

definition opened_block :: "'j json_ops \<Rightarrow> Block \<Rightarrow> Disk \<Rightarrow> SeriesInput list \<Rightarrow> bool" where
  "opened_block J blk d series \<longleftrightarrow> (\<exists>b m. stored_block J b series m \<and> Block_open J b = (Inr blk, b) \<and> d = bk_chunks b)"

lemma opened_block_serves:
  assumes "opened_block J blk d series"
  shows "block_limits series" "\<exists>b. d = bk_chunks b \<and> block_serves blk b series \<and> covers (blk_meta blk) series"
proof -
  obtain b m where o: "stored_block J b series m" "Block_open J b = (Inr blk, b)" "d = bk_chunks b"
    using assms by (auto simp: opened_block_def)
  show "block_limits series" using o(1) by (simp add: stored_block_def)
  show "\<exists>b. d = bk_chunks b \<and> block_serves blk b series \<and> covers (blk_meta blk) series"
    by (rule stored_block_open [OF o(1)]) (use o in \<open>auto simp: stored_block_def\<close>)
qed

lemma list_all2_member: "list_all2 P xs ys \<Longrightarrow> y \<in> set ys \<Longrightarrow> \<exists>x \<in> set xs. P x y"
  by (induction xs ys rule: list_all2_induct) auto

lemma list_all2_partner: "list_all2 P xs ys \<Longrightarrow> x \<in> set xs \<Longrightarrow> \<exists>y \<in> set ys. P x y"
  by (induction xs ys rule: list_all2_induct) auto

lemma opened_block_source:
  assumes opened: "opened_block J blk d series" and ms: "ms \<noteq> []" "\<forall>m \<in> set ms. matcher_ok m"
  shows "\<exists>rs. block_source rm ms mint maxt (Some (blk, d)) rs"
    "block_source rm ms mint maxt (Some (blk, d)) rs \<Longrightarrow> \<forall>r \<in> set rs. labels_match_all rm (qr_labels r) ms"
    "block_source rm ms mint maxt (Some (blk, d)) rs \<Longrightarrow> s \<in> set series \<Longrightarrow> labels_match_all rm (si_labels s) ms \<Longrightarrow>
      c \<in> set (si_chunks s) \<Longrightarrow> input_overlaps mint maxt c \<Longrightarrow>
      \<exists>r \<in> set rs. qr_labels r = si_labels s \<and> from_bytes (cin_bytes c) \<in> set (qr_chunks r)"
proof -
  obtain b where b: "d = bk_chunks b" "block_serves blk b series" "covers (blk_meta blk) series"
    using opened_block_serves(2) [OF opened] by blast
  have limits: "block_limits series" using opened_block_serves(1) [OF opened] .
  let ?hit = "\<lambda>s. labels_match_all rm (si_labels s) ms \<and> filter (input_overlaps mint maxt) (si_chunks s) \<noteq> []"
  obtain out blk' where out: "Block_select rm ms mint maxt blk d = (Inr out, blk', d)"
      "list_all2 (block_answer (input_overlaps mint maxt)) (filter ?hit series) out"
    using Block_select_serves [OF b(2) limits ms] b(1) by blast
  then show "\<exists>rs. block_source rm ms mint maxt (Some (blk, d)) rs" by (auto simp: source_simps)
  show "\<forall>r \<in> set rs. labels_match_all rm (qr_labels r) ms" if src: "block_source rm ms mint maxt (Some (blk, d)) rs"
  proof
    fix r assume "r \<in> set rs"
    then have "r \<in> set out" using src out(1) by (auto simp: source_simps split: if_splits)
    then obtain s where "s \<in> set (filter ?hit series)" "block_answer (input_overlaps mint maxt) s r"
      using list_all2_member [OF out(2)] by blast
    then show "labels_match_all rm (qr_labels r) ms" by (auto simp: block_answer_def)
  qed
  assume src: "block_source rm ms mint maxt (Some (blk, d)) rs" and s: "s \<in> set series" "labels_match_all rm (si_labels s) ms"
    and c: "c \<in> set (si_chunks s)" "input_overlaps mint maxt c"
  have "sint (bm_min_time (blk_meta blk)) \<le> sint (cin_min_time c) \<and> sint (cin_max_time c) \<le> sint (bm_max_time (blk_meta blk))"
    using b(3) s(1) c(1) by (auto simp: covers_def)
  then have "rs = out" using src out(1) c(2) by (auto simp: source_simps input_overlaps_def split: if_splits)
  have "s \<in> set (filter ?hit series)" using s c by (auto simp: filter_empty_conv)
  then obtain r where "r \<in> set out" "block_answer (input_overlaps mint maxt) s r"
    using list_all2_partner [OF out(2)] by blast
  then show "\<exists>r \<in> set rs. qr_labels r = si_labels s \<and> from_bytes (cin_bytes c) \<in> set (qr_chunks r)"
    using c \<open>rs = out\<close> by (auto simp: block_answer_def)
qed

text \<open>The same for a head in a reachable state.\<close>

definition live_head :: "Head \<Rightarrow> bool" where
  "live_head h \<longleftrightarrow> (\<exists>d g. head_run h d g) \<and>
     (\<forall>r l xs. store_content (h_series h) r = Some (l, Inr xs) \<longrightarrow> length xs < 2 ^ 64)"

lemma chunks_samples_mem:
  "chunks_samples cs = Inr ys \<Longrightarrow> x \<in> set ys \<Longrightarrow> \<exists>c \<in> set cs. \<exists>zs. chunk_samples c = Inr zs \<and> x \<in> set zs"
  by (induction cs arbitrary: ys) (auto split: sum.splits)

lemma live_head_source:
  assumes live: "live_head h" and ms: "ms \<noteq> []"
  shows "\<exists>rs. head_source rm ms mint maxt (Some h) rs"
    "head_source rm ms mint maxt (Some h) rs \<Longrightarrow> \<forall>r \<in> set rs. labels_match_all rm (qr_labels r) ms"
    "head_source rm ms mint maxt (Some h) rs \<Longrightarrow> store_content (h_series h) ref = Some (l, Inr xs) \<Longrightarrow>
      labels_match_all rm l ms \<Longrightarrow> x \<in> set xs \<Longrightarrow> in_range mint maxt x \<Longrightarrow>
      \<exists>r \<in> set rs. qr_labels r = l \<and> (\<exists>c \<in> set (qr_chunks r). \<exists>zs. chunk_samples c = Inr zs \<and> x \<in> set zs)"
proof -
  obtain d g where run: "head_run h d g" using live by (auto simp: live_head_def)
  obtain out where out: "head_select rm ms mint maxt h = Inr out"
     "\<forall>q \<in> set out. labels_match_all rm (qr_labels q) ms \<and>
        (\<exists>r xs ys. store_content (h_series h) r = Some (qr_labels q, Inr xs) \<and>
           chunks_samples (qr_chunks q) = Inr ys \<and> set ys \<subseteq> set xs \<and>
           filter (in_range mint maxt) ys = filter (in_range mint maxt) xs)"
     "\<forall>r l xs. store_content (h_series h) r = Some (l, Inr xs) \<longrightarrow> labels_match_all rm l ms \<longrightarrow>
        (\<exists>x \<in> set xs. in_range mint maxt x) \<longrightarrow> l \<in> qr_labels ` set out"
    using head_select_spec [OF run ms, of rm mint maxt] live unfolding live_head_def by blast
  then show "\<exists>rs. head_source rm ms mint maxt (Some h) rs" by (simp add: source_simps)
  show "\<forall>r \<in> set rs. labels_match_all rm (qr_labels r) ms" if "head_source rm ms mint maxt (Some h) rs"
    using that out(1,2) by (auto simp: source_simps)
  assume src: "head_source rm ms mint maxt (Some h) rs" and ref: "store_content (h_series h) ref = Some (l, Inr xs)"
    and hit: "labels_match_all rm l ms" "x \<in> set xs" "in_range mint maxt x"
  have rs: "rs = out" using src out(1) by (simp add: source_simps)
  obtain q where q: "q \<in> set out" "qr_labels q = l" using out(3) ref hit by blast
  then obtain r' xs' ys where ys: "store_content (h_series h) r' = Some (l, Inr xs')" "chunks_samples (qr_chunks q) = Inr ys"
      "filter (in_range mint maxt) ys = filter (in_range mint maxt) xs'" using out(2) by blast
  have "r' = ref" using head_content_unique [OF run ys(1) ref] .
  then have "xs' = xs" using ys(1) ref by simp
  then have "x \<in> set (filter (in_range mint maxt) ys)" using ys(3) hit by simp
  then show "\<exists>r \<in> set rs. qr_labels r = l \<and> (\<exists>c \<in> set (qr_chunks r). \<exists>zs. chunk_samples c = Inr zs \<and> x \<in> set zs)"
    using q chunks_samples_mem [OF ys(2), of x] rs by auto
qed

lemma block_source_paired: "block_source rm ms mint maxt src rs \<Longrightarrow> \<forall>r \<in> set rs. paired r"
proof (cases src)
  case (Some p)
  assume "block_source rm ms mint maxt src rs"
  then show ?thesis
    using Some Block_select_paired [of rm ms mint maxt "fst p" "snd p" rs]
    by (cases p; cases "Block_select rm ms mint maxt (fst p) (snd p)") (auto simp: source_simps split: if_splits)
qed (simp add: source_simps)

lemma head_source_paired: "head_source rm ms mint maxt src rs \<Longrightarrow> \<forall>r \<in> set rs. paired r"
  using select_series_paired [of rm ms mint maxt _ rs] by (cases src) (auto simp: source_simps head_select_def split: if_splits)

text \<open>Where a result of a source ends up.\<close>

lemma merges_labels: "merges out rs \<Longrightarrow> mg_labels ` set out = qr_labels ` set rs"
  by (simp add: merges_def)

lemma merges_found:
  assumes merges: "merges out rs" and r: "r \<in> set rs" "paired r"
  shows "\<exists>m \<in> set out. mg_labels m = qr_labels r \<and> set (qr_chunks r) \<subseteq> set (mg_chunks m)"
proof -
  obtain m where m: "m \<in> set out" "mg_labels m = qr_labels r"
    using merges_labels [OF merges] r(1) by (metis imageE imageI)
  then have "mset (merged_pairs m) = mset (concat (map result_pairs (filter (\<lambda>x. qr_labels x = qr_labels r) rs)))"
    using merges by (simp add: merges_def)
  then have "set (merged_pairs m) = set (concat (map result_pairs (filter (\<lambda>x. qr_labels x = qr_labels r) rs)))"
    by (rule mset_eq_setD)
  then have pairs: "set (result_pairs r) \<subseteq> set (merged_pairs m)" using r(1) by auto
  have "c \<in> set (mg_chunks m)" if "c \<in> set (qr_chunks r)" for c
  proof -
    have "c \<in> set (map fst (result_pairs r))" using that r(2) by simp
    then obtain x where "(c, x) \<in> set (result_pairs r)" by auto
    then show ?thesis using pairs set_zip_leftD by fastforce
  qed
  then show ?thesis using m by blast
qed

text \<open>The sources of a query and what they were made from.\<close>

abbreviation input_of :: "'j json_ops \<Rightarrow> (Block \<times> Disk) option \<Rightarrow> SeriesInput list \<Rightarrow> bool" where
  "input_of J src series \<equiv> (case src of None \<Rightarrow> series = [] | Some (blk, d) \<Rightarrow> opened_block J blk d series)"

lemma sources_match:
  assumes ms: "ms \<noteq> []" "\<forall>m \<in> set ms. matcher_ok m"
    and blocks: "list_all2 (input_of J) blocks inputs" "list_all2 (block_source rm ms mint maxt) blocks bss"
    and heads: "\<forall>h. Some h \<in> set hs \<longrightarrow> live_head h" "list_all2 (head_source rm ms mint maxt) hs hss"
  shows "r \<in> set (concat bss @ concat hss) \<Longrightarrow> labels_match_all rm (qr_labels r) ms"
proof -
  have "labels_match_all rm (qr_labels r) ms" if r: "r \<in> set rs" and rs: "rs \<in> set bss" for rs
  proof -
    obtain src series where "block_source rm ms mint maxt src rs" "input_of J src series"
      using list_all2_member [OF blocks(2) rs] list_all2_partner [OF blocks(1)] by blast
    then show ?thesis using r opened_block_source(2) [OF _ ms, of J _ _ series rm mint maxt rs] by (cases src) (auto simp: source_simps(1))
  qed
  moreover have "labels_match_all rm (qr_labels r) ms" if r: "r \<in> set rs" and rs: "rs \<in> set hss" for rs
  proof -
    obtain src where "head_source rm ms mint maxt src rs" "src \<in> set hs" using list_all2_member [OF heads(2) rs] by blast
    then show ?thesis using r heads(1) live_head_source(2) [OF _ ms(1), of _ rm mint maxt rs] by (cases src) (auto simp: source_simps(2))
  qed
  ultimately show "r \<in> set (concat bss @ concat hss) \<Longrightarrow> labels_match_all rm (qr_labels r) ms" by auto
qed

lemma block_chunk_found:
  assumes ms: "ms \<noteq> []" "\<forall>m \<in> set ms. matcher_ok m" and merges: "merges out (concat bss @ concat hss)"
    and blocks: "list_all2 (input_of J) blocks inputs" "list_all2 (block_source rm ms mint maxt) blocks bss"
    and s: "series \<in> set inputs" "s \<in> set series" "labels_match_all rm (si_labels s) ms"
    and c: "c \<in> set (si_chunks s)" "input_overlaps mint maxt c"
  shows "\<exists>m \<in> set out. mg_labels m = si_labels s \<and> from_bytes (cin_bytes c) \<in> set (mg_chunks m)"
proof -
  obtain i where i: "i < length inputs" "series = inputs ! i" using s(1) by (metis in_set_conv_nth)
  have o: "input_of J (blocks ! i) series" "block_source rm ms mint maxt (blocks ! i) (bss ! i)" "bss ! i \<in> set bss"
    using blocks i by (auto simp: list_all2_conv_all_nth)
  obtain blk d where blk: "blocks ! i = Some (blk, d)" "opened_block J blk d series"
    using o(1) s(2) by (auto split: option.splits)
  obtain r where r: "r \<in> set (bss ! i)" "qr_labels r = si_labels s" "from_bytes (cin_bytes c) \<in> set (qr_chunks r)"
    using opened_block_source(3) [OF blk(2) ms _ s(2,3) c] o(2) blk(1) by auto
  have "paired r" using block_source_paired [OF o(2)] r(1) by blast
  moreover have "r \<in> set (concat bss @ concat hss)" using r(1) o(3) by auto
  ultimately show ?thesis using merges_found [OF merges, of r] r(2,3) by auto
qed

lemma head_sample_found:
  assumes ms: "ms \<noteq> []" and merges: "merges out (concat bss @ concat hss)"
    and heads: "\<forall>h. Some h \<in> set hs \<longrightarrow> live_head h" "list_all2 (head_source rm ms mint maxt) hs hss"
    and h: "Some h \<in> set hs" "store_content (h_series h) r = Some (l, Inr xs)" "labels_match_all rm l ms"
    and x: "x \<in> set xs" "in_range mint maxt x"
  shows "\<exists>m \<in> set out. mg_labels m = l \<and> (\<exists>c \<in> set (mg_chunks m). \<exists>zs. chunk_samples c = Inr zs \<and> x \<in> set zs)"
proof -
  obtain rs where rs: "head_source rm ms mint maxt (Some h) rs" "rs \<in> set hss"
    using list_all2_partner [OF heads(2) h(1)] by blast
  have "live_head h" using h(1) heads(1) by blast
  from live_head_source(3) [OF this ms rs(1) h(2,3) x] obtain q c zs where
    q: "q \<in> set rs" "qr_labels q = l" "c \<in> set (qr_chunks q)" "chunk_samples c = Inr zs" "x \<in> set zs" by blast
  have "paired q" using head_source_paired [OF rs(1)] q(1) by blast
  moreover have "q \<in> set (concat bss @ concat hss)" using q(1) rs(2) by auto
  ultimately obtain m where "m \<in> set out" "mg_labels m = l" "set (qr_chunks q) \<subseteq> set (mg_chunks m)"
    using merges_found [OF merges, of q] q(2) by auto
  then show ?thesis using q(3-5) by blast
qed

text \<open>Sources, a walk and an order with which the statements below are met.\<close>

lemma ex_walk: "walk_ok rev"
  by (simp add: walk_ok_def)

lemma ex_order: "order_ok (\<lambda>ts. sort_key (\<lambda>i. sint (ts ! i)) [0..<length ts])"
  unfolding order_ok_def by simp

lemma ex_opened: "\<exists>(J :: jv json_ops) blk d. opened_block J blk d ex_series"
proof -
  obtain J :: "jv json_ops" and b m where stored: "stored_block J b ex_series m" using ex_stored by blast
  obtain blk where "Block_open J b = (Inr blk, b)" by (rule stored_block_open [OF stored])
  then show ?thesis using stored unfolding opened_block_def by blast
qed

abbreviation ex_matcher :: "unit Matcher" where
  "ex_matcher \<equiv> not_equal ''zone'' ''x''"

lemma ex_live:
  "\<exists>h rs. live_head h \<and> store_content (h_series h) = [1 \<mapsto> (demo_labels, Inr [(5, 7)])] \<and>
     head_select (\<lambda>_ _. False) [ex_matcher] 0 9 h = Inr rs \<and> qr_labels ` set rs = {demo_labels}"
proof -
  obtain h d where run: "head_run h d [1 \<mapsto> (demo_labels, Inr [(5, 7)])]" and holds: "store.holds (h_series h) [1 \<mapsto> (demo_labels, [(5, 7)])]"
    using demo_run by blast
  have content: "store_content (h_series h) = [1 \<mapsto> (demo_labels, Inr [(5, 7)])]"
    using holds_content [OF holds] by (simp add: as_stored_def fun_eq_iff)
  then have live: "live_head h" using run by (auto simp: live_head_def split: if_splits)
  have hit: "labels_match_all (\<lambda>_ _. False) demo_labels [ex_matcher]" "in_range 0 9 (5, 7)"
    by (simp_all add: get_mk_labels last_value_def value_or_empty_def in_range_def)
  have ne: "[ex_matcher] \<noteq> []" by simp
  have bound: "\<forall>r l xs. store_content (h_series h) r = Some (l, Inr xs) \<longrightarrow> length xs < 2 ^ 64"
    using live by (simp add: live_head_def)
  obtain rs where rs: "head_select (\<lambda>_ _. False) [ex_matcher] 0 9 h = Inr rs"
      "\<forall>q \<in> set rs. \<exists>r xs. store_content (h_series h) r = Some (qr_labels q, Inr xs)"
      "\<forall>r l xs. store_content (h_series h) r = Some (l, Inr xs) \<longrightarrow> labels_match_all (\<lambda>_ _. False) l [ex_matcher] \<longrightarrow>
        (\<exists>x \<in> set xs. in_range 0 9 x) \<longrightarrow> l \<in> qr_labels ` set rs"
    using head_select_spec [OF run ne bound, of "\<lambda>_ _. False" 0 9] by (elim exE conjE) blast
  have "demo_labels \<in> qr_labels ` set rs"
    using rs(3) [rule_format, of 1 demo_labels "[(5, 7)]"] hit by (simp add: content)
  moreover have "qr_labels q = demo_labels" if "q \<in> set rs" for q
    using rs(2) that by (auto simp: content split: if_splits)
  ultimately show ?thesis using live content rs(1) by blast
qed

section \<open>Properties\<close>

text \<open>
  C13. A query over several sources merges their results by label set: every label set that any
  source returned appears exactly once, with exactly the chunks the sources returned for it, each
  with its own descriptor, sorted by the minimum times; nothing else appears. This holds for every
  order in which the hash map is walked and every choice \<open>std::sort\<close> makes among equal times.
\<close>

theorem querier_merges:
  assumes "walk_ok walk" and "order_ok order" and "Querier_select rm walk order ms mint maxt q = (Inr out, q')"
  shows "\<exists>bss hss. list_all2 (block_source rm ms mint maxt) (qy_blocks q) bss \<and>
    list_all2 (head_source rm ms mint maxt) (qy_heads q) hss \<and>
    distinct (map mg_labels out) \<and> mg_labels ` set out = qr_labels ` set (concat bss @ concat hss) \<and>
    (\<forall>s \<in> set out. length (mg_chunk_metas s) = length (mg_chunks s) \<and>
       sorted (map (sint \<circ> cm_min_time) (mg_chunk_metas s)) \<and>
       mset (merged_pairs s) = mset (concat (map result_pairs (filter (\<lambda>r. qr_labels r = mg_labels s) (concat bss @ concat hss)))))"
  using Querier_select_merges [OF assms] unfolding merges_def by blast

theorem querier_merges_witness:
  "\<exists>h out q' m. Querier_select (\<lambda>_ _. False) rev (\<lambda>ts. sort_key (\<lambda>i. sint (ts ! i)) [0..<length ts]) [ex_matcher] 0 9
       (Querier_init [None] [Some h, None, Some h]) = (Inr out, q') \<and> out = [m] \<and> mg_labels m = demo_labels \<and>
     length (mg_chunk_metas m) = length (mg_chunks m)"
proof -
  obtain h rs where h: "head_select (\<lambda>_ _. False) [ex_matcher] 0 9 h = Inr rs" "qr_labels ` set rs = {demo_labels}"
    using ex_live by blast
  let ?q = "Querier_init [None] [Some h, None, Some h]" and ?rm = "\<lambda>_ _. False :: bool"
  let ?order = "\<lambda>ts :: i64 list. sort_key (\<lambda>i. sint (ts ! i)) [0..<length ts]"
  have "\<forall>src \<in> set (qy_blocks ?q). \<exists>rs. block_source ?rm [ex_matcher] 0 9 src rs"
    "\<forall>src \<in> set (qy_heads ?q). \<exists>rs. head_source ?rm [ex_matcher] 0 9 src rs"
    using h(1) by (auto simp: Querier_init_def source_simps)
  then obtain out q' where run: "Querier_select ?rm rev ?order [ex_matcher] 0 9 ?q = (Inr out, q')"
    using Querier_select_total [of "[ex_matcher]" ?q ?rm 0 9 rev ?order] by auto
  obtain bss hss where src: "list_all2 (block_source ?rm [ex_matcher] 0 9) [None] bss"
      "list_all2 (head_source ?rm [ex_matcher] 0 9) [Some h, None, Some h] hss"
    and out: "distinct (map mg_labels out)" "mg_labels ` set out = qr_labels ` set (concat bss @ concat hss)"
      "\<forall>s \<in> set out. length (mg_chunk_metas s) = length (mg_chunks s)"
    using querier_merges [OF ex_walk ex_order run] by (auto simp: Querier_init_def)
  have "bss = [[]]" "hss = [rs, [], rs]"
    using src h(1) by (auto simp: list_all2_Cons1 source_simps)
  then have "mg_labels ` set out = {demo_labels}" using out(2) h(2) by auto
  then obtain m where "out = [m]" "mg_labels m = demo_labels"
    using out(1) by (cases out; cases "tl out") auto
  then show ?thesis using run out(3) by (intro exI [of _ h] exI [of _ out] exI [of _ q'] exI [of _ m]) simp
qed

text \<open>
  C12. No data is lost between the sources and the answer: over freshly opened blocks and reachable
  heads a query succeeds; every chunk of a matching series of any block that overlaps the time
  range is in the answer, although blocks are skipped by their descriptors; every sample in range
  of a matching series of any head is in a returned chunk; and every returned series matches.
\<close>

theorem querier_complete:
  assumes "walk_ok walk" and "order_ok order" and "ms \<noteq> []" and "\<forall>m \<in> set ms. matcher_ok m"
    and "list_all2 (input_of J) (qy_blocks q) inputs"
    and "\<forall>h. Some h \<in> set (qy_heads q) \<longrightarrow> live_head h"
  shows "\<exists>out q'. Querier_select rm walk order ms mint maxt q = (Inr out, q') \<and>
    (\<forall>series \<in> set inputs. \<forall>s \<in> set series. \<forall>c \<in> set (si_chunks s).
       labels_match_all rm (si_labels s) ms \<and> input_overlaps mint maxt c \<longrightarrow>
       (\<exists>m \<in> set out. mg_labels m = si_labels s \<and> from_bytes (cin_bytes c) \<in> set (mg_chunks m))) \<and>
    (\<forall>h r l xs x. Some h \<in> set (qy_heads q) \<and> store_content (h_series h) r = Some (l, Inr xs) \<and> x \<in> set xs \<and>
       labels_match_all rm l ms \<and> in_range mint maxt x \<longrightarrow>
       (\<exists>m \<in> set out. mg_labels m = l \<and> (\<exists>c \<in> set (mg_chunks m). \<exists>zs. chunk_samples c = Inr zs \<and> x \<in> set zs))) \<and>
    (\<forall>m \<in> set out. labels_match_all rm (mg_labels m) ms)"
proof -
  have blocks: "\<exists>rs. block_source rm ms mint maxt src rs" if src: "src \<in> set (qy_blocks q)" for src
  proof -
    obtain series where "input_of J src series" using list_all2_partner [OF assms(5) src] by blast
    then show ?thesis
      using opened_block_source(1) [OF _ assms(3,4), of J _ _ series rm mint maxt] by (cases src) (auto simp: source_simps(1))
  qed
  have heads: "\<exists>rs. head_source rm ms mint maxt src rs" if src: "src \<in> set (qy_heads q)" for src
  proof (cases src)
    case (Some h)
    then have "live_head h" using src assms(6) by simp
    from live_head_source(1) [OF this assms(3), of rm mint maxt] show ?thesis using Some by simp
  qed (simp add: source_simps(2))
  obtain out q' where run: "Querier_select rm walk order ms mint maxt q = (Inr out, q')"
    using Querier_select_total [OF assms(3)] blocks heads by blast
  obtain bss hss where src: "list_all2 (block_source rm ms mint maxt) (qy_blocks q) bss"
      "list_all2 (head_source rm ms mint maxt) (qy_heads q) hss" "merges out (concat bss @ concat hss)"
    using Querier_select_merges [OF assms(1,2) run] by blast
  have "labels_match_all rm (mg_labels m) ms" if "m \<in> set out" for m
  proof -
    have "mg_labels m \<in> qr_labels ` set (concat bss @ concat hss)"
      unfolding merges_labels [OF src(3), symmetric] using that by (rule imageI)
    then obtain r where r: "r \<in> set (concat bss @ concat hss)" "mg_labels m = qr_labels r" by (rule imageE)
    show ?thesis unfolding r(2) using sources_match [OF assms(3-5) src(1) assms(6) src(2) r(1)] .
  qed
  moreover have "\<forall>series \<in> set inputs. \<forall>s \<in> set series. \<forall>c \<in> set (si_chunks s).
       labels_match_all rm (si_labels s) ms \<and> input_overlaps mint maxt c \<longrightarrow>
       (\<exists>m \<in> set out. mg_labels m = si_labels s \<and> from_bytes (cin_bytes c) \<in> set (mg_chunks m))"
    by (intro ballI impI, elim conjE) (rule block_chunk_found [OF assms(3,4) src(3) assms(5) src(1)])
  moreover have "\<forall>h r l xs x. Some h \<in> set (qy_heads q) \<and> store_content (h_series h) r = Some (l, Inr xs) \<and> x \<in> set xs \<and>
       labels_match_all rm l ms \<and> in_range mint maxt x \<longrightarrow>
       (\<exists>m \<in> set out. mg_labels m = l \<and> (\<exists>c \<in> set (mg_chunks m). \<exists>zs. chunk_samples c = Inr zs \<and> x \<in> set zs))"
    by (intro allI impI, elim conjE) (rule head_sample_found [OF assms(3) src(3) assms(6) src(2)])
  ultimately show ?thesis using run by (intro exI [of _ out] exI [of _ q'] conjI ballI) simp_all
qed

theorem querier_complete_witness:
  "\<exists>(J :: jv json_ops) blk d h out q' m1 m2. opened_block J blk d ex_series \<and>
     Querier_select (\<lambda>_ _. False) rev (\<lambda>ts. sort_key (\<lambda>i. sint (ts ! i)) [0..<length ts]) [ex_matcher] 0 9
       (Querier_init [None, Some (blk, d)] [Some h]) = (Inr out, q') \<and>
     m1 \<in> set out \<and> mg_labels m1 = mk_labels [Label ''a'' ''b''] \<and> from_bytes [0, 0] \<in> set (mg_chunks m1) \<and>
     m2 \<in> set out \<and> mg_labels m2 = demo_labels"
proof -
  obtain J :: "jv json_ops" and blk d where blk: "opened_block J blk d ex_series" using ex_opened by blast
  obtain h where h: "live_head h" "store_content (h_series h) = [1 \<mapsto> (demo_labels, Inr [(5, 7)])]" using ex_live by blast
  let ?q = "Querier_init [None, Some (blk, d)] [Some h]" and ?rm = "\<lambda>_ _. False :: bool"
  let ?order = "\<lambda>ts :: i64 list. sort_key (\<lambda>i. sint (ts ! i)) [0..<length ts]"
  let ?s = "\<lparr>si_labels = mk_labels [Label ''a'' ''b''], si_chunks = [\<lparr>cin_min_time = 1, cin_max_time = 2, cin_bytes = [0, 0]\<rparr>]\<rparr>"
  have ms: "[ex_matcher] \<noteq> []" "\<forall>m \<in> set [ex_matcher]. matcher_ok m"
    by (simp_all add: matcher_ok_def not_equal_def plain_name_def char_of_def)
  have inputs: "list_all2 (input_of J) (qy_blocks ?q) [[], ex_series]" using blk by (simp add: Querier_init_def)
  have heads: "\<forall>h'. Some h' \<in> set (qy_heads ?q) \<longrightarrow> live_head h'" using h(1) by (simp add: Querier_init_def)
  obtain out q' where run: "Querier_select ?rm rev ?order [ex_matcher] 0 9 ?q = (Inr out, q')"
    and blocks: "\<forall>series \<in> set [[], ex_series]. \<forall>s \<in> set series. \<forall>c \<in> set (si_chunks s).
       labels_match_all ?rm (si_labels s) [ex_matcher] \<and> input_overlaps 0 9 c \<longrightarrow>
       (\<exists>m \<in> set out. mg_labels m = si_labels s \<and> from_bytes (cin_bytes c) \<in> set (mg_chunks m))"
    and found: "\<forall>h' r l xs x. Some h' \<in> set (qy_heads ?q) \<and> store_content (h_series h') r = Some (l, Inr xs) \<and> x \<in> set xs \<and>
       labels_match_all ?rm l [ex_matcher] \<and> in_range 0 9 x \<longrightarrow> (\<exists>m \<in> set out. mg_labels m = l)"
    using querier_complete [OF ex_walk ex_order ms inputs heads, of ?rm 0 9] by (elim exE conjE) blast
  have hits: "labels_match_all ?rm (mk_labels [Label ''a'' ''b'']) [ex_matcher]" "labels_match_all ?rm demo_labels [ex_matcher]"
    by (simp_all add: get_mk_labels last_value_def value_or_empty_def)
  obtain m1 where m1: "m1 \<in> set out" "mg_labels m1 = mk_labels [Label ''a'' ''b'']" "from_bytes [0, 0] \<in> set (mg_chunks m1)"
    using blocks hits(1) by (auto simp: ex_series_def input_overlaps_def)
  have "Some h \<in> set (qy_heads ?q)" "store_content (h_series h) 1 = Some (demo_labels, Inr [(5, 7)])" "in_range 0 9 (5, 7)"
    using h(2) by (simp_all add: Querier_init_def in_range_def)
  then obtain m2 where "m2 \<in> set out" "mg_labels m2 = demo_labels"
    using found hits(2) by (metis list.set_intros(1))
  then show ?thesis using blk run m1
    by (intro exI [of _ J] exI [of _ blk] exI [of _ d] exI [of _ h] exI [of _ out] exI [of _ q'] exI [of _ m1] exI [of _ m2]) simp
qed

end
