(* ===== verification/BlockFlush.thy ===== *)
theory BlockFlush
  imports Querier
begin

text \<open>
  A block written from a head (\<open>Block::create_from_head\<close> in src/block/block.cpp). The chunks of the
  head become the chunks of the block, with the time ranges found by decoding them. Shown: every
  query gives the same answer on the block as on the head, chunk for chunk.
\<close>

section \<open>The inputs\<close>

lemma chunk_range_ok: "chunk_ok c xs \<Longrightarrow> chunk_range c = Some (fst (hd xs), fst (last xs), None)"
  by (rule chunk_ok_walk, assumption, simp add: chunk_range_def Let_def)

abbreviation flush_chunk :: "XORChunk \<times> sample list \<Rightarrow> ChunkInput" where
  "flush_chunk p \<equiv> chunk_input (fst (hd (snd p))) (fst (last (snd p))) (fst p)"

abbreviation input_meta :: "ChunkInput \<Rightarrow> ChunkMeta" where
  "input_meta c \<equiv> \<lparr>cm_ref = 0, cm_min_time = cin_min_time c, cm_max_time = cin_max_time c\<rparr>"

lemma head_chunks_ok: "list_all2 chunk_ok cs parts \<Longrightarrow> head_chunks cs = Inr (map flush_chunk (zip cs parts))"
proof (induction cs parts rule: list_all2_induct)
  case (Cons c cs xs parts)
  have "num_samples c \<noteq> 0" by (rule chunk_ok_walk [OF Cons.hyps(1)])
  then show ?case using chunk_range_ok [OF Cons.hyps(1)] Cons.IH by simp
qed simp

lemma select_chunks_flush:
  "list_all2 chunk_ok cs parts \<Longrightarrow> select_chunks mint maxt cs =
     Inr (map (\<lambda>ci. (from_bytes (cin_bytes ci), input_meta ci)) (filter (input_overlaps mint maxt) (map flush_chunk (zip cs parts))))"
proof (induction cs parts rule: list_all2_induct)
  case (Cons c cs xs parts)
  then show ?case
    using select_chunk_ok(2) [OF Cons.hyps(1), of mint maxt] by (auto simp: input_overlaps_def chunk_input_def not_less)
qed simp

text \<open>What the head answers, read off the inputs.\<close>

definition head_answer :: "i64 \<Rightarrow> i64 \<Rightarrow> SeriesInput \<Rightarrow> QueryResult" where
  "head_answer mint maxt s =
     \<lparr>qr_labels = si_labels s, qr_chunks = map (from_bytes \<circ> cin_bytes) (filter (input_overlaps mint maxt) (si_chunks s)),
      qr_chunk_metas = map input_meta (filter (input_overlaps mint maxt) (si_chunks s))\<rparr>"

definition live_series :: "MemSeries \<Rightarrow> bool" where
  "live_series s \<longleftrightarrow> (\<exists>xs. ms_inv s xs \<and> length xs < 2 ^ 64)"

lemma live_series_chunks:
  assumes "live_series s"
  obtains parts where "list_all2 chunk_ok (ms_chunks s) parts" "ms_num_samples s = 0 \<longleftrightarrow> ms_chunks s = []"
proof -
  obtain xs parts where s: "ms_inv s xs" "length xs < 2 ^ 64" "concat parts = xs" "list_all2 chunk_ok (ms_chunks s) parts"
    using assms by (auto simp: live_series_def ms_inv_def ms_parts_def)
  have "(of_nat (length xs) = (0 :: u64)) = (xs = [])"
    using s(2) by (simp add: word_unat_eq_iff unat_of_nat)
  then have "ms_num_samples s = 0 \<longleftrightarrow> xs = []" using s(1) by (simp add: ms_inv_def)
  moreover have "xs = [] \<longleftrightarrow> ms_chunks s = []"
    using s(3,4) by (cases parts) (auto simp: chunk_ok_def list_all2_Cons2)
  ultimately show thesis using that [OF s(4)] by simp
qed

lemma head_inputs_ok: "\<forall>s \<in> set ss. live_series s \<Longrightarrow> \<exists>inputs. head_inputs ss = Inr inputs"
proof (induction ss)
  case (Cons s ss)
  obtain parts where "list_all2 chunk_ok (ms_chunks s) parts"
    using live_series_chunks [of s] Cons.prems by auto
  then show ?case using Cons head_chunks_ok by auto
qed simp

lemma select_series_flush:
  "\<forall>s \<in> set ss. live_series s \<Longrightarrow> head_inputs ss = Inr inputs \<Longrightarrow>
   select_series rm ms mint maxt ss = Inr (map (head_answer mint maxt)
     (filter (\<lambda>s. labels_match_all rm (si_labels s) ms \<and> filter (input_overlaps mint maxt) (si_chunks s) \<noteq> []) inputs))"
proof (induction ss arbitrary: inputs)
  case (Cons s ss)
  obtain parts where s: "list_all2 chunk_ok (ms_chunks s) parts" "ms_num_samples s = 0 \<longleftrightarrow> ms_chunks s = []"
    using live_series_chunks [of s] Cons.prems(1) by auto
  note cs = head_chunks_ok [OF s(1)] select_chunks_flush [OF s(1), of mint maxt]
  obtain rest where rest: "head_inputs ss = Inr rest"
    using head_inputs_ok [of ss] Cons.prems(1) by auto
  note IH = Cons.IH [OF _ rest]
  show ?case
  proof (cases "ms_chunks s = []")
    case True
    then show ?thesis using s(2) Cons.prems rest IH by simp
  next
    case False
    then have "zip (ms_chunks s) parts \<noteq> []" using list_all2_lengthD [OF s(1)] by (cases parts) auto
    then have "inputs = \<lparr>si_labels = ms_labels s, si_chunks = map flush_chunk (zip (ms_chunks s) parts)\<rparr> # rest"
      using Cons.prems(2) s(2) False cs(1) rest by simp
    then show ?thesis using s(2) False cs(2) IH Cons.prems(1) by (auto simp: head_answer_def comp_def)
  qed
qed simp

section \<open>The block\<close>

definition forget_refs :: "QueryResult \<Rightarrow> QueryResult" where
  "forget_refs q = q\<lparr>qr_chunk_metas := map (\<lambda>m. m\<lparr>cm_ref := 0\<rparr>) (qr_chunk_metas q)\<rparr>"

lemma block_answer_head:
  assumes "block_answer (input_overlaps mint maxt) s q"
  shows "forget_refs q = head_answer mint maxt s"
proof -
  let ?cs = "filter (input_overlaps mint maxt) (si_chunks s)" and ?meta = "\<lambda>(a, b). \<lparr>cm_ref = 0, cm_min_time = a, cm_max_time = b\<rparr>"
  have "map (\<lambda>m. m\<lparr>cm_ref := 0\<rparr>) (qr_chunk_metas q) = map ?meta (map (\<lambda>m. (cm_min_time m, cm_max_time m)) (qr_chunk_metas q))"
    by (simp add: comp_def)
  also have "\<dots> = map input_meta ?cs"
    using assms by (simp add: block_answer_def comp_def)
  finally show ?thesis
    using assms by (cases q) (simp add: forget_refs_def head_answer_def block_answer_def)
qed

lemma block_answers_head:
  "list_all2 (block_answer (input_overlaps mint maxt)) xs out \<Longrightarrow> map forget_refs out = map (head_answer mint maxt) xs"
  by (induction xs out rule: list_all2_induct) (simp_all add: block_answer_head)

lemma live_head_series:
  assumes "live_head h"
  shows "\<forall>s \<in> set (all_series (h_series h)). live_series s"
proof -
  obtain d g where run: "head_run h d g" and len: "\<forall>r l xs. store_content (h_series h) r = Some (l, Inr xs) \<longrightarrow> length xs < 2 ^ 64"
    using assms by (auto simp: live_head_def)
  obtain f where f: "store.holds (h_series h) f"
    using head_run_inv [OF run] by (auto simp: head_inv_def)
  obtain xss where xss: "list_all2 (\<lambda>s xs. ms_inv s xs \<and> length xs < 2 ^ 64) (all_series (h_series h)) xss"
    using all_series_samples [OF f] len by (auto simp: holds_content [OF f])
  show ?thesis using list_all2_partner [OF xss] unfolding live_series_def by blast
qed

text \<open>The limits of the block format in terms of what is written.\<close>

definition flush_limits :: "Head \<Rightarrow> bool" where
  "flush_limits h \<longleftrightarrow> (\<forall>inputs. head_inputs (all_series (h_series h)) = Inr inputs \<longrightarrow> block_limits inputs)"

definition flush_room :: "Head \<Rightarrow> bool" where
  "flush_room h \<longleftrightarrow> (\<forall>inputs. head_inputs (all_series (h_series h)) = Inr inputs \<longrightarrow> index_room inputs < 2 ^ 32)"

lemma flush_inputs:
  assumes "live_head h" and "create_from_head J env h st = (Inr ulid, st')" and "flush_limits h"
  shows "\<exists>inputs. head_inputs (all_series (h_series h)) = Inr inputs \<and> block_limits inputs \<and>
    create_from_series J env inputs st = (Inr ulid, st')"
  using head_inputs_ok [OF live_head_series [OF assms(1)]] assms(2,3) by (auto simp: flush_limits_def create_from_head_def)

lemma flush_answers:
  assumes live: "live_head h" and inputs: "head_inputs (all_series (h_series h)) = Inr inputs" and limits: "block_limits inputs"
    and serves: "block_serves blk b inputs" and ms: "ms \<noteq> []" "\<forall>m \<in> set ms. matcher_ok m"
  shows "\<exists>out blk'. Block_select rm ms mint maxt blk (bk_chunks b) = (Inr out, blk', bk_chunks b) \<and>
    head_select rm ms mint maxt h = Inr (map forget_refs out)"
proof -
  let ?hit = "\<lambda>s. labels_match_all rm (si_labels s) ms \<and> filter (input_overlaps mint maxt) (si_chunks s) \<noteq> []"
  obtain out blk' where out: "Block_select rm ms mint maxt blk (bk_chunks b) = (Inr out, blk', bk_chunks b)"
      "list_all2 (block_answer (input_overlaps mint maxt)) (filter ?hit inputs) out"
    using Block_select_serves [OF serves limits ms] by blast
  have "head_select rm ms mint maxt h = Inr (map (head_answer mint maxt) (filter ?hit inputs))"
    using select_series_flush [OF live_head_series [OF live] inputs] ms(1) by (simp add: head_select_def)
  then show ?thesis using out(1) block_answers_head [OF out(2)] by simp
qed

text \<open>Every sample of the head is in an input whose time range is met.\<close>

lemma flush_sample_input:
  assumes live: "live_head h" and inputs: "head_inputs (all_series (h_series h)) = Inr inputs" and ms: "ms \<noteq> []"
    and x: "store_content (h_series h) ref = Some (l, Inr xs)" "labels_match_all rm l ms" "x \<in> set xs" "in_range mint maxt x"
  obtains s c zs where "s \<in> set inputs" "si_labels s = l" "c \<in> set (si_chunks s)" "input_overlaps mint maxt c"
    "chunk_samples (from_bytes (cin_bytes c)) = Inr zs" "x \<in> set zs"
proof -
  have sel: "head_source rm ms mint maxt (Some h) (map (head_answer mint maxt)
      (filter (\<lambda>s. labels_match_all rm (si_labels s) ms \<and> filter (input_overlaps mint maxt) (si_chunks s) \<noteq> []) inputs))"
    using select_series_flush [OF live_head_series [OF live] inputs] ms by (simp add: head_select_def source_simps)
  show thesis
    using live_head_source(3) [OF live ms sel x] that by (auto simp: head_answer_def)
qed

text \<open>A head with one sample, to see that the hypotheses can hold.\<close>
definition demo_input :: SeriesInput where
  "demo_input = \<lparr>si_labels = demo_labels,
     si_chunks = [\<lparr>cin_min_time = 5, cin_max_time = 5, cin_bytes = [0, 1, 10, 0, 0, 0, 0, 0, 0, 0, 7]\<rparr>]\<rparr>"

lemma demo_flush: "head_inputs [snd (ms_append 5 7 (MemSeries_init 1 demo_labels))] = Inr [demo_input]"
  by code_simp

lemma demo_limits: "block_limits [demo_input]"
proof -
  have "demo_labels = \<lparr>entries = [Label ''job'' ''api'']\<rparr>" by (simp add: mk_labels_def canonicalize_def)
  then show ?thesis
    by (simp add: block_limits_def demo_input_def labels_plain_def labels_findable_def labels_wf_def plain_name_def char_of_def)
qed

lemma demo_room: "index_room [demo_input] < 2 ^ 32"
  by (simp add: index_room_def demo_input_def series_room_def label_room_def mk_labels_def canonicalize_def)

lemma demo_create:
  "\<exists>ulid st'. create_from_series jv_ops (0, 0, 0, 0) [demo_input] (\<lambda>_. fresh_dir) = (Inr ulid, st') \<and>
     (\<forall>bs. map_of (dk_files (bk_top (st' ulid))) ''index'' = Some bs \<longrightarrow> length bs < 2 ^ 32)"
  using create_small [of jv_ops "\<lambda>_. fresh_dir" _ 0 0 0 0, OF jv_dumps refl refl demo_limits demo_room] by blast

lemma demo_head: "\<exists>h. live_head h \<and> all_series (h_series h) = [snd (ms_append 5 7 (MemSeries_init 1 demo_labels))]"
proof -
  obtain h0 d where h0: "head_run h0 d (store_content (h_series h0))" "h_series h0 = SeriesStore_init"
    "h_pending_series h0 = []" "h_pending_samples h0 = []" "\<not> h_closed h0"
    using demo_open by blast
  obtain h where h: "head_append demo_labels 5 7 h0 = (Inr 1, h)" "store.holds (h_series h) [1 \<mapsto> (demo_labels, [(5, 7)])]"
      "all_series (h_series h) = [snd (ms_append 5 7 (MemSeries_init 1 demo_labels))]"
    using demo_append [OF h0(2,5,3,4)] by blast
  have "head_run h d (store_content (h_series h0))"
    using run_append [OF h0(1) mk_labels_wf h(1)] by simp
  moreover have "store_content (h_series h) = [1 \<mapsto> (demo_labels, Inr [(5, 7)])]"
    using holds_content [OF h(2)] by (simp add: as_stored_def fun_eq_iff)
  ultimately have "live_head h" by (auto simp: live_head_def split: if_splits)
  then show ?thesis using h(3) by blast
qed

section \<open>Properties\<close>

text \<open>
  C15. Flushing keeps every answer. If a block was created from a reachable head (\<open>live_head\<close>: a
  state of \<open>head_run\<close>) whose content satisfies \<open>flush_limits\<close>, then for all
  matchers and time ranges the opened block gives exactly the answer of the head: the same series
  in the same order with the same chunks and time ranges; only the chunk references, which a head
  leaves zero, differ.
\<close>

theorem flush_preserves_queries:
  assumes "json_laws J" and "live_head h" and "create_from_head J env h st = (Inr ulid, st')" and "flush_limits h"
    and "\<forall>bs. map_of (dk_files (bk_top (st' ulid))) ''index'' = Some bs \<longrightarrow> length bs < 2 ^ 32"
    and "Block_open J (calm_dir (st' ulid)) = (Inr blk, b)" and "ms \<noteq> []" and "\<forall>m \<in> set ms. matcher_ok m"
  shows "\<exists>out blk'. Block_select rm ms mint maxt blk (bk_chunks b) = (Inr out, blk', bk_chunks b) \<and>
    head_select rm ms mint maxt h = Inr (map forget_refs out)"
proof -
  obtain inputs where inputs: "head_inputs (all_series (h_series h)) = Inr inputs" "block_limits inputs"
    and run: "create_from_series J env inputs st = (Inr ulid, st')"
    using flush_inputs [OF assms(2-4)] by blast
  have limit: "length (all_chunks inputs) + 1 < 10 ^ 6" and plain: "\<forall>s \<in> set (with_chunks inputs). labels_plain (si_labels s)"
    using inputs(2) by (simp_all add: block_limits_def)
  obtain idx sids ps segs where files: "block_files (calm_dir (st' ulid)) inputs idx sids ps segs"
    using create_from_series_ok [OF assms(1) run limit assms(5) plain] by blast
  obtain mr t where read: "read_meta J (bk_top (calm_dir (st' ulid))) = (mr, t)" by fastforce
  have b: "b = calm_dir (st' ulid)" "block_serves blk (calm_dir (st' ulid)) inputs"
    using Block_open_serves(2) [OF files inputs(2) read assms(6)] by blast+
  show ?thesis
    using flush_answers [OF assms(2) inputs b(2) assms(7,8)] unfolding b(1) by blast
qed

theorem flush_preserves_queries_witness:
  "\<exists>h ulid st' blk b out blk' rs. create_from_head jv_ops (0, 0, 0, 0) h (\<lambda>_. fresh_dir) = (Inr ulid, st') \<and>
     Block_open jv_ops (calm_dir (st' ulid)) = (Inr blk, b) \<and>
     Block_select (\<lambda>_ _. False) [ex_matcher] 0 9 blk (bk_chunks b) = (Inr out, blk', bk_chunks b) \<and>
     head_select (\<lambda>_ _. False) [ex_matcher] 0 9 h = Inr rs \<and> map qr_labels rs = [demo_labels] \<and> rs = map forget_refs out"
proof -
  note J = jv_laws
  obtain ulid st' where run: "create_from_series jv_ops (0, 0, 0, 0) [demo_input] (\<lambda>_. fresh_dir) = (Inr ulid, st')"
    and len: "\<forall>bs. map_of (dk_files (bk_top (st' ulid))) ''index'' = Some bs \<longrightarrow> length bs < 2 ^ 32"
    using demo_create by blast
  obtain h where h: "live_head h" "all_series (h_series h) = [snd (ms_append 5 7 (MemSeries_init 1 demo_labels))]"
    using demo_head by blast
  have create: "create_from_head jv_ops (0, 0, 0, 0) h (\<lambda>_. fresh_dir) = (Inr ulid, st')"
    using run h(2) demo_flush by (simp add: create_from_head_def)
  have limits: "flush_limits h" using h(2) demo_flush demo_limits by (simp add: flush_limits_def)
  let ?b = "calm_dir (st' ulid)"
  have calm: "dk_faults (bk_top ((\<lambda>_. fresh_dir) ulid)) = []" by (simp add: fresh_dir_def)
  obtain m where "stored_block jv_ops ?b [demo_input] m" using created_block_stored [OF J run demo_limits len calm] by blast
  then obtain blk where blk: "Block_open jv_ops ?b = (Inr blk, ?b)" by (rule stored_block_open)
  have ms: "[ex_matcher] \<noteq> []" "\<forall>m \<in> set [ex_matcher]. matcher_ok m"
    by (simp_all add: matcher_ok_def not_equal_def plain_name_def char_of_def)
  obtain out blk' where out: "Block_select (\<lambda>_ _. False) [ex_matcher] 0 9 blk (bk_chunks ?b) = (Inr out, blk', bk_chunks ?b)"
      "head_select (\<lambda>_ _. False) [ex_matcher] 0 9 h = Inr (map forget_refs out)"
    using flush_preserves_queries [OF J h(1) create limits len blk ms, of "\<lambda>_ _. False" 0 9] by blast
  have "head_select (\<lambda>_ _. False) [ex_matcher] 0 9 h = Inr [head_answer 0 9 demo_input]"
    using select_series_flush [OF live_head_series [OF h(1)], of "[demo_input]" "\<lambda>_ _. False" "[ex_matcher]" 0 9] demo_flush h(2)
    by (simp add: head_select_def demo_input_def input_overlaps_def get_mk_labels last_value_def value_or_empty_def)
  then have "map qr_labels (map forget_refs out) = [demo_labels]"
    using out(2) by (simp add: head_answer_def demo_input_def)
  then show ?thesis
    using create blk out
    by (intro exI [of _ h] exI [of _ ulid] exI [of _ st'] exI [of _ blk] exI [of _ ?b] exI [of _ out]
        exI [of _ blk'] exI [of _ "map forget_refs out"]) simp
qed

text \<open>
  Flushing a head succeeds. For a reachable head whose series are within the limits of the
  format, on a disk without failures, writing the block into a fresh directory returns its name
  without an error, the block opens, and its answer to any query is the answer of the head.
\<close>

lemma flush_succeeds:
  assumes "json_laws J" and "json_dumps J" and "live_head h" and "flush_limits h" and "flush_room h"
    and "st ulid = fresh_dir" and "ulid = new_ulid now r0 r1 r2" and "ms \<noteq> []" and "\<forall>m \<in> set ms. matcher_ok m"
  shows "\<exists>st' blk out blk'. create_from_head J (now, r0, r1, r2) h st = (Inr ulid, st') \<and>
    Block_open J (st' ulid) = (Inr blk, st' ulid) \<and>
    Block_select rm ms mint maxt blk (bk_chunks (st' ulid)) = (Inr out, blk', bk_chunks (st' ulid)) \<and>
    head_select rm ms mint maxt h = Inr (map forget_refs out)"
proof -
  obtain inputs where inputs: "head_inputs (all_series (h_series h)) = Inr inputs"
    using head_inputs_ok [OF live_head_series [OF assms(3)]] by blast
  have limits: "block_limits inputs" "index_room inputs < 2 ^ 32"
    using assms(4,5) inputs by (simp_all add: flush_limits_def flush_room_def)
  obtain st' m where st': "create_from_series J (now, r0, r1, r2) inputs st = (Inr ulid, st')" "stored_block J (st' ulid) inputs m"
    using create_stored [where st = st and ulid = ulid, OF assms(1,2,6,7) limits] by blast
  obtain blk where blk: "Block_open J (st' ulid) = (Inr blk, st' ulid)" "block_serves blk (st' ulid) inputs"
    by (rule stored_block_open [OF st'(2)])
  show ?thesis
    using st'(1) blk(1) flush_answers [OF assms(3) inputs limits(1) blk(2) assms(8,9), of rm mint maxt] inputs
    by (auto simp: create_from_head_def)
qed

end
