(* ===== verification/BlockCompact.thy ===== *)
theory BlockCompact
  imports BlockFlush
begin

text \<open>
  Compaction (\<open>Block::compact\<close> in src/block/block.cpp). The samples of all chunks of a series are
  merged: sorted by time, one sample per timestamp, written as new chunks. Shown: the new block
  holds every series of the inputs once, with exactly the timestamps of the inputs and for each
  the value of the latest input; its chunks name their true time ranges; its descriptor has the
  level and the sources; the inputs are left as they are.
\<close>

section \<open>One sample per timestamp\<close>

lemma map_of_filter: "map_of (filter (\<lambda>p. fst p = k) xs) k = map_of xs k"
  by (induction xs) auto

lemma keep_last_ok:
  "sorted (map (sint \<circ> fst) xs) \<Longrightarrow>
   sorted_wrt (<) (map (sint \<circ> fst) (keep_last xs)) \<and> map_of (keep_last xs) = map_of (rev xs) \<and> set (keep_last xs) \<subseteq> set xs"
proof (induction xs rule: keep_last.induct)
  case (3 x y zs)
  have rev: "map_of (rev (x # y # zs)) = map_of [x] ++ map_of (rev (y # zs))" by simp
  show ?case
  proof (cases "fst y = fst x")
    case True
    then have "fst x \<in> dom (map_of (rev (y # zs)))" by (simp add: dom_map_of_conv_image_fst)
    then have "map_of [x] ++ map_of (rev (y # zs)) = map_of (rev (y # zs))"
      by (auto simp: map_add_def fun_eq_iff split: option.splits)
    then show ?thesis using 3 True unfolding rev by auto
  next
    case False
    have less: "sint (fst x) < sint (fst p)" if "p \<in> set (y # zs)" for p
    proof -
      have "sint (fst x) \<le> sint (fst y)" "sint (fst y) \<le> sint (fst p)" using "3.prems" that by auto
      moreover have "sint (fst x) \<noteq> sint (fst y)" using False by (metis signed_word_eqI)
      ultimately show ?thesis by simp
    qed
    have "fst x \<notin> fst ` set (y # zs)" using less by fastforce
    then have "fst x \<notin> dom (map_of (rev (y # zs)))" unfolding dom_map_of_conv_image_fst set_rev .
    then have "map_of [x] ++ map_of (rev (y # zs)) = (map_of (rev (y # zs)))(fst x \<mapsto> snd x)"
      by (auto simp: map_add_def fun_eq_iff domIff split: option.splits)
    then show ?thesis using 3 False less unfolding rev by (cases x) (auto simp: subset_iff)
  qed
qed simp_all

lemma dedupe_samples_ok:
  "sorted_wrt (<) (map (sint \<circ> fst) (dedupe_samples xs))" "map_of (dedupe_samples xs) = map_of (rev xs)"
proof -
  let ?ys = "sort_key (sint \<circ> fst) xs"
  note keep = keep_last_ok [of ?ys]
  show "sorted_wrt (<) (map (sint \<circ> fst) (dedupe_samples xs))"
    using keep by (simp add: dedupe_samples_def)
  have "map_of (rev ?ys) k = map_of (rev xs) k" for k
  proof -
    have eq: "(\<lambda>p :: sample. fst p = k) = (\<lambda>p. (sint \<circ> fst) p = sint k)" by (simp add: fun_eq_iff word_eq_iff_signed)
    have "filter (\<lambda>p. fst p = k) (rev ?ys) = rev (filter (\<lambda>p. fst p = k) ?ys)" by (simp add: rev_filter)
    also have "\<dots> = filter (\<lambda>p. fst p = k) (rev xs)"
      unfolding eq sort_key_stable by (simp add: rev_filter)
    finally show ?thesis using map_of_filter [of k "rev ?ys"] map_of_filter [of k "rev xs"] by simp
  qed
  then show "map_of (dedupe_samples xs) = map_of (rev xs)"
    using keep by (simp add: dedupe_samples_def fun_eq_iff)
qed

section \<open>New chunks\<close>

lemma append_samples_ok:
  "ms_inv ms xs \<Longrightarrow> sorted (map (sint \<circ> fst) (xs @ ys)) \<Longrightarrow>
   \<exists>ms'. append_samples ys ms = Inr ms' \<and> ms_inv ms' (xs @ ys) \<and> ms_labels ms' = ms_labels ms"
proof (induction ys arbitrary: ms xs)
  case (Cons y ys)
  obtain t v where y: "y = (t, v)" by fastforce
  have "xs \<noteq> [] \<longrightarrow> sint (fst (last xs)) \<le> sint t"
    using Cons.prems(2) last_in_set [of xs] by (auto simp: sorted_append y)
  then obtain ms1 where ms1: "ms_append t v ms = (Appended, ms1)" "ms_inv ms1 (xs @ [(t, v)])" "ms_labels ms1 = ms_labels ms"
    using ms_append_ok [OF Cons.prems(1), of t v] by blast
  then show ?case using Cons.IH [OF ms1(2)] Cons.prems(2) by (simp add: y)
qed simp

text \<open>A chunk whose range is that of its samples, of which it has at least one.\<close>

definition input_true :: "ChunkInput \<Rightarrow> bool" where
  "input_true c \<longleftrightarrow> (\<exists>zs. chunk_samples (from_bytes (cin_bytes c)) = Inr zs \<and> zs \<noteq> [] \<and>
     cin_min_time c = fst (hd zs) \<and> cin_max_time c = fst (last zs))"

lemma rechunk_ok:
  "list_all2 chunk_ok cs parts \<Longrightarrow> decode_inputs (rechunk cs) = Inr (concat parts) \<and> (\<forall>c \<in> set (rechunk cs). input_true c)"
proof (induction cs parts rule: list_all2_induct)
  case (Cons c cs xs parts)
  have c: "num_samples c \<noteq> 0" "chunk_samples c = Inr xs" "xs \<noteq> []"
    using Cons.hyps(1) by (auto intro: chunk_ok_walk [OF Cons.hyps(1)] simp: chunk_ok_def)
  then show ?case
    using Cons.IH chunk_range_ok [OF Cons.hyps(1)] by (auto simp: chunk_input_def chunk_samples_copy input_true_def)
qed simp

text \<open>What merging makes of the chunks of a series.\<close>

definition merged_from :: "ChunkInput list \<Rightarrow> ChunkInput list \<Rightarrow> bool" where
  "merged_from old new \<longleftrightarrow> (\<exists>xs ys. decode_inputs old = Inr xs \<and> decode_inputs new = Inr ys \<and>
       sorted_wrt (<) (map (sint \<circ> fst) ys) \<and> map_of ys = map_of (rev xs)) \<and> (\<forall>c \<in> set new. input_true c)"

lemma merge_series_ok:
  assumes "merge_series p = Inr s"
  shows "si_labels s = fst p" "merged_from (snd p) (si_chunks s)"
proof -
  obtain xs where xs: "decode_inputs (snd p) = Inr xs" using assms by (auto simp: merge_series_def split: sum.splits)
  note dedupe = dedupe_samples_ok [of xs]
  have "sorted (map (sint \<circ> fst) ([] @ dedupe_samples xs))"
    using strict_sorted_imp_sorted [OF dedupe(1)] by simp
  from append_samples_ok [OF ms_inv_init this] obtain ms where
    ms: "append_samples (dedupe_samples xs) (MemSeries_init 0 (fst p)) = Inr ms" "ms_inv ms (dedupe_samples xs)" by auto
  then obtain parts where "list_all2 chunk_ok (ms_chunks ms) parts" "concat parts = dedupe_samples xs"
    by (auto simp: ms_inv_def ms_parts_def)
  then have "decode_inputs (rechunk (ms_chunks ms)) = Inr (dedupe_samples xs)" "\<forall>c \<in> set (rechunk (ms_chunks ms)). input_true c"
    using rechunk_ok by auto
  moreover have "s = \<lparr>si_labels = fst p, si_chunks = rechunk (ms_chunks ms)\<rparr>"
    using assms xs ms(1) by (simp add: merge_series_def)
  ultimately show "si_labels s = fst p" "merged_from (snd p) (si_chunks s)"
    using xs dedupe by (auto simp: merged_from_def)
qed

lemma merge_all_ok:
  "merge_all ps = Inr ss \<Longrightarrow> list_all2 (\<lambda>p s. si_labels s = fst p \<and> merged_from (snd p) (si_chunks s)) ps ss"
proof (induction ps arbitrary: ss)
  case (Cons p ps)
  then obtain s rest where "merge_series p = Inr s" "merge_all ps = Inr rest" "ss = s # rest" by (auto split: sum.splits)
  then show ?case using Cons.IH merge_series_ok by simp
qed simp

section \<open>Collecting the chunks\<close>

definition chunks_of :: "Labels \<Rightarrow> SeriesInput list \<Rightarrow> ChunkInput list" where
  "chunks_of ls ss = concat (map si_chunks (filter (\<lambda>s. si_labels s = ls) ss))"

definition merged_holds :: "merged_map \<Rightarrow> SeriesInput list \<Rightarrow> bool" where
  "merged_holds m ss \<longleftrightarrow> distinct (map fst m) \<and> fst ` set m = si_labels ` set ss \<and> (\<forall>(ls, cis) \<in> set m. cis = chunks_of ls ss)"

lemma merge_push_labels: "map fst (merge_push ls cis m) = (if ls \<in> fst ` set m then map fst m else map fst m @ [ls])"
  by (induction ls cis m rule: merge_push.induct) auto

lemma merge_push_entries:
  "(k, cs) \<in> set (merge_push ls cis m) \<Longrightarrow> distinct (map fst m) \<Longrightarrow>
   k \<noteq> ls \<and> (k, cs) \<in> set m \<or> k = ls \<and> (\<exists>old. (ls, old) \<in> set m \<and> cs = old @ cis) \<or> k = ls \<and> ls \<notin> fst ` set m \<and> cs = cis"
proof (induction ls cis m rule: merge_push.induct)
  case (2 ls cis k0 old rest)
  show ?case
  proof (cases "k0 = ls")
    case True
    then have "(k, cs) = (ls, old @ cis) \<or> (k, cs) \<in> set rest" using "2.prems"(1) by simp
    moreover have "k \<noteq> ls" if "(k, cs) \<in> set rest" using that "2.prems"(2) True by force
    ultimately show ?thesis using True by auto
  next
    case False
    then show ?thesis using "2.prems" "2.IH" by auto
  qed
qed simp

lemma merge_push_holds:
  assumes holds: "merged_holds m ss" and s: "si_labels s = ls" "si_chunks s = cis"
  shows "merged_holds (merge_push ls cis m) (ss @ [s])"
proof -
  have dist: "distinct (map fst m)" and labels: "fst ` set m = si_labels ` set ss"
    and each: "\<And>k cs. (k, cs) \<in> set m \<Longrightarrow> cs = chunks_of k ss"
    using holds by (auto simp: merged_holds_def)
  have none: "chunks_of ls ss = []" if "ls \<notin> fst ` set m"
    using that labels by (auto simp: chunks_of_def filter_empty_conv)
  have "cs = chunks_of k (ss @ [s])" if "(k, cs) \<in> set (merge_push ls cis m)" for k cs
    using merge_push_entries [OF that dist] each none s by (fastforce simp: chunks_of_def)
  moreover have "fst ` set (merge_push ls cis m) = set (map fst (merge_push ls cis m))" by simp
  ultimately show ?thesis
    unfolding merged_holds_def merge_push_labels using dist labels s(1) by (auto simp: merge_push_labels)
qed

abbreviation merge_input :: "SeriesInput \<Rightarrow> merged_map \<Rightarrow> merged_map" where
  "merge_input s \<equiv> merge_push (si_labels s) (si_chunks s)"

lemma merge_inputs_holds: "merged_holds m ss \<Longrightarrow> merged_holds (fold merge_input ts m) (ss @ ts)"
proof (induction ts arbitrary: m ss)
  case (Cons t ts)
  then show ?case using Cons.IH [OF merge_push_holds [OF Cons.prems refl refl, of t]] by simp
qed simp

text \<open>Reading a chunk gives the bytes that were put in.\<close>

lemma collect_input:
  "list_all2 (stored_chunk segs) cs ms \<Longrightarrow>
   map (\<lambda>(c, cm). chunk_input (cm_min_time cm) (cm_max_time cm) c) (map (\<lambda>(c, m). (from_bytes (cin_bytes c), m)) (zip cs ms)) = cs"
proof (induction cs ms rule: list_all2_induct)
  case (Cons c cs m ms)
  have "chunk_bytes (from_bytes bs) = bs" for bs by (simp add: chunk_bytes_def from_bytes_def BitWriter_init_def)
  then have "chunk_input (cm_min_time m) (cm_max_time m) (from_bytes (cin_bytes c)) = c"
    using Cons.hyps(1) by (cases c) (simp add: stored_chunk_def chunk_input_def)
  then show ?case using Cons.IH by simp
qed simp

lemma collect_series_ok:
  "\<forall>(sid, s, p) \<in> set rows. reads_back idx sid p \<and> stored_series segs s p \<Longrightarrow> reader_holds r d segs \<Longrightarrow>
   \<exists>r'. collect_series idx (map fst rows) r d m = (Inr (fold merge_input (map (\<lambda>row. fst (snd row)) rows) m), r', d)"
proof (induction rows arbitrary: r m)
  case (Cons row rows)
  obtain sid s p where row: "row = (sid, s, p)" by (cases row) auto
  then have here: "reads_back idx sid p" "fst p = si_labels s" "list_all2 (stored_chunk segs) (si_chunks s) (snd p)"
    using Cons.prems(1) by (simp_all add: stored_series_def)
  obtain r1 where r1: "load_chunks (\<lambda>_. True) (snd p) r d =
      (Inr (map (\<lambda>(c, m). (from_bytes (cin_bytes c), m)) (zip (si_chunks s) (snd p))), r1, d)" "reader_holds r1 d segs"
    using load_chunks_ok [OF here(3) Cons.prems(2), of "\<lambda>_. True"] by (auto simp: comp_def)
  obtain r2 where "collect_series idx (map fst rows) r1 d (merge_input s m)
      = (Inr (fold merge_input (map (\<lambda>row. fst (snd row)) rows) (merge_input s m)), r2, d)"
    using Cons.IH [OF _ r1(2), of "merge_input s m"] Cons.prems(1) unfolding list.set ball_simps by blast
  then show ?case using here(1,2) r1(1) collect_input [OF here(3)] by (simp add: row)
qed simp

lemma collect_block_ok:
  assumes serves: "block_serves blk b series" and limits: "block_limits series"
  shows "\<exists>ids r'. all_postings (blk_index blk) = Inr ids \<and>
    collect_series (blk_index blk) ids (blk_chunks blk) (bk_chunks b) m = (Inr (fold merge_input (with_chunks series) m), r', bk_chunks b)"
proof -
  obtain sids ps segs where files: "block_files b series (blk_index blk) sids ps segs" and r: "reader_holds (blk_chunks blk) (bk_chunks b) segs"
    using serves by (auto simp: block_serves_def)
  let ?sls = "zip sids (map fst ps)" and ?rows = "zip sids (zip (with_chunks series) ps)"
  have st: "list_all2 (stored_series segs) (with_chunks series) ps" "list_all2 (reads_back (blk_index blk)) sids ps"
      "index_serves (blk_index blk) ?sls" using files by (simp_all add: block_files_def)
  have len: "length sids = length ps" "length (with_chunks series) = length ps"
    using list_all2_lengthD [OF st(2)] list_all2_lengthD [OF st(1)] by simp_all
  have "entries ls \<noteq> []" if "(sid, ls) \<in> set ?sls" for sid ls
  proof -
    have "ls \<in> set (map si_labels (with_chunks series))"
      using set_zip_rightD [OF that] unfolding prepared_labels [OF st(1)] .
    then show ?thesis using limits by (auto simp: block_limits_def labels_findable_def)
  qed
  then have "ids_where ?sls (\<lambda>ls. entries ls \<noteq> []) = map fst ?sls"
    unfolding ids_where_def by (subst filter_True) auto
  then have "all_postings (blk_index blk) = Inr (map fst ?rows)"
    using index.every [OF st(3)] len by simp
  moreover have "\<forall>(sid, s, p) \<in> set ?rows. reads_back (blk_index blk) sid p \<and> stored_series segs s p"
    using rows_stored [OF st(2,1)] by auto
  from collect_series_ok [OF this r, of m] obtain r' where
    "collect_series (blk_index blk) (map fst ?rows) (blk_chunks blk) (bk_chunks b) m
       = (Inr (fold merge_input (map (\<lambda>row. fst (snd row)) ?rows) m), r', bk_chunks b)" by blast
  moreover have "map (\<lambda>row. fst (snd row)) ?rows = with_chunks series"
    using len map_snd_zip [of sids "zip (with_chunks series) ps"] map_fst_zip [of "with_chunks series" ps]
    by (metis (no_types, lifting) comp_def length_zip list.map_comp list.map_cong min.idem)
  ultimately show ?thesis by simp
qed

section \<open>Opening the inputs\<close>

lemma collect_blocks_ok:
  "list_all2 (\<lambda>(dir, blk) series. block_serves blk (st dir) series \<and> block_limits series) bs inputs \<Longrightarrow>
   collect_blocks bs st m = (Inr (fold merge_input (concat (map with_chunks inputs)) m), st)"
proof (induction bs inputs arbitrary: m rule: list_all2_induct)
  case (Cons p bs series inputs)
  obtain dir blk where p: "p = (dir, blk)" by fastforce
  obtain ids r' where "all_postings (blk_index blk) = Inr ids"
    "collect_series (blk_index blk) ids (blk_chunks blk) (bk_chunks (st dir)) m
       = (Inr (fold merge_input (with_chunks series) m), r', bk_chunks (st dir))"
    using collect_block_ok [of blk "st dir" series m] Cons.hyps(1) by (auto simp: p)
  then show ?case using Cons.IH by (simp add: p)
qed simp

text \<open>The level and the sources gathered from the descriptors.\<close>

definition gather :: "BlockMeta \<Rightarrow> CompactInfo \<Rightarrow> CompactInfo" where
  "gather m info =
     \<lparr>ci_max_level = (if sint (ci_max_level info) < sint (bc_level (bm_compaction m)) then bc_level (bm_compaction m) else ci_max_level info),
      ci_sources = sort_unique (ci_sources info @ bc_sources (bm_compaction m))\<rparr>"

lemma open_blocks_gather:
  "Block_open J (st dir) = (Inr blk, st dir) \<Longrightarrow> open_blocks J (dir # dirs) st info =
     (case open_blocks J dirs st (gather (blk_meta blk) info) of
        (Inl e, st2) \<Rightarrow> (Inl e, st2)
      | (Inr (blks, info2), st2) \<Rightarrow> (Inr ((dir, blk) # blks, info2), st2))"
  by (simp add: gather_def Let_def)

abbreviation stored_at :: "'j json_ops \<Rightarrow> block_store \<Rightarrow> string \<Rightarrow> SeriesInput list \<times> BlockMeta \<Rightarrow> bool" where
  "stored_at J st dir input \<equiv> stored_block J (st dir) (fst input) (snd input)"

lemma open_blocks_ok:
  "list_all2 (stored_at J st) dirs inputs \<Longrightarrow>
   \<exists>blks. open_blocks J dirs st info = (Inr (blks, fold (\<lambda>p. gather (snd p)) inputs info), st) \<and>
     list_all2 (\<lambda>(dir, blk) series. block_serves blk (st dir) series \<and> block_limits series) blks (map fst inputs)"
proof (induction dirs inputs arbitrary: info rule: list_all2_induct)
  case (Cons dir dirs input inputs)
  obtain series m where input: "input = (series, m)" by fastforce
  then have stored: "stored_block J (st dir) series m" using Cons.hyps(1) by simp
  obtain blk where blk: "Block_open J (st dir) = (Inr blk, st dir)" "blk_meta blk = m" "block_serves blk (st dir) series"
    using stored_block_open [OF stored] by blast
  obtain blks where "open_blocks J dirs st (gather m info) = (Inr (blks, fold (\<lambda>p. gather (snd p)) inputs (gather m info)), st)"
    "list_all2 (\<lambda>(dir, blk) series. block_serves blk (st dir) series \<and> block_limits series) blks (map fst inputs)"
    using Cons.IH by blast
  then show ?case
    using open_blocks_gather [of J st dir blk dirs info] blk stored
    by (intro exI [of _ "(dir, blk) # blks"]) (simp add: input stored_block_def del: open_blocks.simps)
qed simp

lemma gather_all:
  "sint (ci_max_level info) \<le> sint (ci_max_level (fold gather ms info))"
  "\<forall>m \<in> set ms. sint (bc_level (bm_compaction m)) \<le> sint (ci_max_level (fold gather ms info))"
  "ci_max_level (fold gather ms info) \<in> insert (ci_max_level info) ((\<lambda>m. bc_level (bm_compaction m)) ` set ms)"
  "set (ci_sources (fold gather ms info)) = set (ci_sources info) \<union> (\<Union>m \<in> set ms. set (bc_sources (bm_compaction m)))"
  "ms \<noteq> [] \<Longrightarrow> sorted_wrt (<) (ci_sources (fold gather ms info))"
proof (induction ms arbitrary: info)
  case (Cons m ms)
  have here: "sint (ci_max_level info) \<le> sint (ci_max_level (gather m info))"
    "sint (bc_level (bm_compaction m)) \<le> sint (ci_max_level (gather m info))"
    "ci_max_level (gather m info) \<in> {ci_max_level info, bc_level (bm_compaction m)}"
    "set (ci_sources (gather m info)) = set (ci_sources info) \<union> set (bc_sources (bm_compaction m))"
    "sorted_wrt (<) (ci_sources (gather m info))" for info
    by (auto simp: gather_def sort_unique_sorted)
  {
    case 1
    show ?case unfolding fold_simps by (rule order_trans [OF here(1) Cons.IH(1)])
  next
    case 2
    show ?case using order_trans [OF here(2) Cons.IH(1)] Cons.IH(2) [of "gather m info"] by simp
  next
    case 3
    show ?case using Cons.IH(3) [of "gather m info"] here(3) [of info] by auto
  next
    case 4
    show ?case using Cons.IH(4) [of "gather m info"] here(4) by auto
  next
    case 5
    show ?case using Cons.IH(5) [of "gather m info"] here(5) by (cases ms) simp_all
  }
qed simp_all

section \<open>The new block\<close>

text \<open>Replacing the descriptor of a stored block.\<close>

lemma patch_meta_stored:
  assumes laws: "json_laws J" and stored: "stored_block J (calm_dir b) series m" and version: "bm_version m = k_meta_version_1"
    and calm: "dk_faults (bk_top b) = []" and run: "patch_meta J info (bk_top b) = (Inr (), t)"
  shows "stored_block J (calm_dir (b\<lparr>bk_top := t\<rparr>)) series
    (m\<lparr>bm_compaction := (bm_compaction m)\<lparr>bc_level := ci_max_level info + 1, bc_sources := ci_sources info\<rparr>\<rparr>)"
    (is "stored_block J ?b series ?m")
proof -
  have top: "bk_top (calm_dir b) = bk_top b" using calm by (simp add: calm_dir_def)
  then have read: "read_meta J (bk_top b) = (Inr m, bk_top b)" using stored by (simp add: stored_block_def)
  then have wr: "write_meta J ?m (bk_top b) = (Inr (), t)" using run by (simp add: patch_meta_def)
  note disk = write_meta_disk [OF wr]
  obtain x where x: "encode_meta_json J ?m = Some x" "map_of (dk_files t) k_meta_filename = Some (string_bytes x)"
    using disk(3) calm by blast
  have "read_meta J (bk_top ?b) = (Inr ?m, bk_top ?b)"
    using decode_encode_meta [OF laws _ x(1)] version x(2) by (simp add: read_meta_def sys_simple_ok syscall_def)
  moreover have "block_files ?b series idx sids ps segs" if "block_files (calm_dir b) series idx sids ps segs" for idx sids ps segs
    using that disk(1,2) by (simp add: block_files_def calm_dir_def)
  moreover have "calm_dir (calm_dir b) = calm_dir b" for b by (simp add: calm_dir_def)
  moreover have "covers ?m series" using stored by (simp add: stored_block_def covers_def)
  ultimately show ?thesis using stored unfolding stored_block_def by blast
qed

lemma patch_meta_index:
  assumes "patch_meta J info d = (Inr (), t)"
  shows "map_of (dk_files t) ''index'' = map_of (dk_files d) ''index''"
proof -
  obtain m d1 m' where run: "read_meta J d = (Inr m, d1)" "write_meta J m' d1 = (Inr (), t)"
    using assms by (auto simp: patch_meta_def split: sum.splits prod.splits)
  have "dk_files d1 = dk_files d"
    using run(1) by (auto simp: read_meta_def split: prod.splits sum.splits option.splits io_result.splits dest!: sys_simple_disk syscall_disk)
  then show ?thesis using write_meta_disk(1) [OF run(2)] by simp
qed

lemma patch_meta_done:
  assumes "json_dumps J" and "stored_block J (calm_dir b) series m" and "meta_ascii m" and "dk_faults (bk_top b) = []"
    and "list_all ascii (ci_sources info)"
  shows "\<exists>t. patch_meta J info (bk_top b) = (Inr (), t) \<and> dk_faults t = []"
proof -
  have "bk_top (calm_dir b) = bk_top b" using assms(4) by (simp add: calm_dir_def)
  then have read: "read_meta J (bk_top b) = (Inr m, bk_top b)" using assms(2) by (simp add: stored_block_def)
  let ?m = "m\<lparr>bm_compaction := (bm_compaction m)\<lparr>bc_level := ci_max_level info + 1, bc_sources := ci_sources info\<rparr>\<rparr>"
  have "meta_ascii ?m" using assms(3,5) by (simp add: meta_ascii_def)
  from write_meta_done [OF assms(1) this assms(4)] show ?thesis using read by (simp add: patch_meta_def)
qed

lemma gather_ascii:
  "\<forall>p \<in> set inputs. meta_ascii (snd p) \<Longrightarrow> list_all ascii (ci_sources info) \<Longrightarrow>
   list_all ascii (ci_sources (fold (\<lambda>p. gather (snd p)) inputs info))"
proof (induction inputs arbitrary: info)
  case (Cons p inputs)
  have "list_all ascii (ci_sources (gather (snd p) info))"
    using Cons.prems by (auto simp: gather_def list_all_iff meta_ascii_def)
  then show ?case using Cons.IH Cons.prems(1) by simp
qed simp

text \<open>Merging succeeds if every chunk can be decoded.\<close>

abbreviation input_decodes :: "ChunkInput \<Rightarrow> bool" where
  "input_decodes c \<equiv> \<exists>zs. chunk_samples (from_bytes (cin_bytes c)) = Inr zs"

lemma decode_inputs_done: "\<forall>c \<in> set cs. input_decodes c \<Longrightarrow> \<exists>xs. decode_inputs cs = Inr xs"
  by (induction cs) auto

lemma merge_series_done:
  assumes "\<forall>c \<in> set (snd p). input_decodes c"
  shows "\<exists>s. merge_series p = Inr s"
proof -
  obtain xs where xs: "decode_inputs (snd p) = Inr xs" using decode_inputs_done [OF assms] by blast
  have "sorted (map (sint \<circ> fst) ([] @ dedupe_samples xs))"
    using strict_sorted_imp_sorted [OF dedupe_samples_ok(1) [of xs]] by simp
  from append_samples_ok [OF ms_inv_init this, of 0 "fst p"] obtain ms where
    "append_samples (dedupe_samples xs) (MemSeries_init 0 (fst p)) = Inr ms" by auto
  then show ?thesis using xs by (simp add: merge_series_def)
qed

lemma merge_all_done: "\<forall>p \<in> set ps. \<forall>c \<in> set (snd p). input_decodes c \<Longrightarrow> \<exists>ss. merge_all ps = Inr ss"
proof (induction ps)
  case (Cons p ps)
  then obtain s ss where "merge_series p = Inr s" "merge_all ps = Inr ss" using merge_series_done [of p] by auto
  then show ?case by simp
qed simp

lemma chunks_of_mem: "c \<in> set (chunks_of ls ss) \<Longrightarrow> \<exists>s \<in> set ss. c \<in> set (si_chunks s)"
  by (auto simp: chunks_of_def)

section \<open>Properties\<close>

text \<open>The series that a compaction writes.\<close>

definition compact_inputs :: "'j json_ops \<Rightarrow> (merged_map \<Rightarrow> merged_map) \<Rightarrow> string list \<Rightarrow> block_store \<Rightarrow> block_error + SeriesInput list" where
  "compact_inputs J walk dirs st =
     (case open_blocks J dirs st \<lparr>ci_max_level = 0, ci_sources = []\<rparr> of
        (Inl e, st1) \<Rightarrow> Inl e
      | (Inr (blks, info), st1) \<Rightarrow>
          (case collect_blocks blks st1 [] of
             (Inl e, st2) \<Rightarrow> Inl e
           | (Inr merged, st2) \<Rightarrow> merge_all (walk merged)))"

lemma chunks_of_with_chunks: "chunks_of ls (concat (map (\<lambda>p. with_chunks (fst p)) inputs)) = chunks_of ls (concat (map fst inputs))"
proof -
  have "chunks_of ls (with_chunks ss) = chunks_of ls ss" for ss
    by (induction ss) (auto simp: chunks_of_def)
  moreover have "chunks_of ls (xs @ ys) = chunks_of ls xs @ chunks_of ls ys" for xs ys by (simp add: chunks_of_def)
  moreover have "chunks_of ls [] = []" by (simp add: chunks_of_def)
  ultimately show ?thesis by (induction inputs) simp_all
qed

lemma merged_walk:
  assumes walk: "walk_ok walk" and holds: "merged_holds merged ss" and run: "merge_all (walk merged) = Inr out"
  shows "distinct (map si_labels out)" "si_labels ` set out = si_labels ` set ss"
    "s \<in> set out \<Longrightarrow> merged_from (chunks_of (si_labels s) ss) (si_chunks s)"
proof -
  have perm: "mset (walk merged) = mset merged" using walk by (simp add: walk_ok_def)
  have set: "set (walk merged) = set merged" using perm by (rule mset_eq_setD)
  note each = merge_all_ok [OF run]
  have "map si_labels ys = map fst xs"
    if "list_all2 (\<lambda>p s. si_labels s = fst p \<and> merged_from (snd p) (si_chunks s)) xs ys" for xs ys
    using that by (induction xs ys rule: list_all2_induct) simp_all
  from this [OF each] have "map si_labels out = map fst (walk merged)" .
  moreover have "distinct (map fst (walk merged))"
    using holds mset_eq_imp_distinct_iff [of "map fst (walk merged)" "map fst merged"] perm by (simp add: merged_holds_def)
  ultimately show "distinct (map si_labels out)" by simp
  have "si_labels ` set out = set (map si_labels out)" by simp
  also have "\<dots> = fst ` set merged" unfolding \<open>map si_labels out = map fst (walk merged)\<close> using set by simp
  also have "\<dots> = si_labels ` set ss" using holds by (simp add: merged_holds_def)
  finally show "si_labels ` set out = si_labels ` set ss" .
  assume "s \<in> set out"
  then obtain p where p: "p \<in> set (walk merged)" "si_labels s = fst p" "merged_from (snd p) (si_chunks s)"
    using list_all2_member [OF each] by blast
  then have "snd p = chunks_of (fst p) ss" using holds set by (auto simp: merged_holds_def)
  then show "merged_from (chunks_of (si_labels s) ss) (si_chunks s)" using p(2,3) by simp
qed

text \<open>The steps of a successful compaction of stored blocks.\<close>

lemma compact_inputs_ok:
  fixes inputs :: "(SeriesInput list \<times> BlockMeta) list"
  assumes "list_all2 (stored_at J st) dirs inputs"
  defines "ss \<equiv> concat (map (\<lambda>p. with_chunks (fst p)) inputs)"
    and "info \<equiv> fold (\<lambda>p. gather (snd p)) inputs \<lparr>ci_max_level = 0, ci_sources = []\<rparr>"
  shows "\<exists>blks. open_blocks J dirs st \<lparr>ci_max_level = 0, ci_sources = []\<rparr> = (Inr (blks, info), st) \<and>
      collect_blocks blks st [] = (Inr (fold merge_input ss []), st)"
    "merged_holds (fold merge_input ss []) ss" "compact_inputs J walk dirs st = merge_all (walk (fold merge_input ss []))"
proof -
  obtain blks where blks: "open_blocks J dirs st \<lparr>ci_max_level = 0, ci_sources = []\<rparr> = (Inr (blks, info), st)"
      "list_all2 (\<lambda>(dir, blk) series. block_serves blk (st dir) series \<and> block_limits series) blks (map fst inputs)"
    using open_blocks_ok [OF assms(1)] unfolding info_def by blast
  moreover have collect: "collect_blocks blks st [] = (Inr (fold merge_input ss []), st)"
    using collect_blocks_ok [OF blks(2)] by (simp add: comp_def ss_def)
  ultimately show "\<exists>blks. open_blocks J dirs st \<lparr>ci_max_level = 0, ci_sources = []\<rparr> = (Inr (blks, info), st) \<and>
      collect_blocks blks st [] = (Inr (fold merge_input ss []), st)" by blast
  show "merged_holds (fold merge_input ss []) ss"
    using merge_inputs_holds [of "[]" "[]" ss] by (simp add: merged_holds_def)
  show "compact_inputs J walk dirs st = merge_all (walk (fold merge_input ss []))"
    using blks(1) collect by (simp add: compact_inputs_def)
qed

lemma compact_steps:
  assumes "list_all2 (stored_at J st) dirs inputs" and "Block_compact J env walk dirs st = (Inr ulid, st')"
  defines "ss \<equiv> concat (map (\<lambda>p. with_chunks (fst p)) inputs)"
    and "info \<equiv> fold (\<lambda>p. gather (snd p)) inputs \<lparr>ci_max_level = 0, ci_sources = []\<rparr>"
  obtains merged st3 t where "merged_holds (fold merge_input ss []) ss" "dirs \<noteq> []"
    "compact_inputs J walk dirs st = Inr merged" "merge_all (walk (fold merge_input ss [])) = Inr merged"
    "create_from_series J env merged st = (Inr ulid, st3)" "patch_meta J info (bk_top (st3 ulid)) = (Inr (), t)"
    "st' = st3(ulid := (st3 ulid)\<lparr>bk_top := t\<rparr>)"
proof -
  note ok = compact_inputs_ok [OF assms(1), folded ss_def info_def]
  from ok(1) show thesis
    using assms(2) that [OF ok(2)] ok(3) by (auto simp: Block_compact_def split: if_splits sum.splits prod.splits)
qed

text \<open>
  C16. Compaction merges blocks without losing or inventing a sample. If compacting stored blocks
  succeeds, the result is a stored block again (so opening and querying it are covered); it has
  every series of the inputs exactly once; the decoded samples of a series are strictly sorted by
  time, have exactly the timestamps found in the inputs, and carry for each the value of the last
  input that has it; every new chunk names the time range of its samples. The descriptor has the
  next level and the sorted union of the sources; all other directories are left as they are.
  This holds for every order in which the hash map is walked. The hypotheses are the limits of the
  format, and that no call on the top directory of the new block fails.
\<close>

theorem compact_merges:
  assumes "json_laws J" and "walk_ok walk" and "list_all2 (stored_at J st) dirs inputs"
    and "Block_compact J env walk dirs st = (Inr ulid, st')" and "dk_faults (bk_top (st ulid)) = []"
    and "\<forall>ss. compact_inputs J walk dirs st = Inr ss \<longrightarrow> block_limits ss"
    and "\<forall>bs. map_of (dk_files (bk_top (st' ulid))) ''index'' = Some bs \<longrightarrow> length bs < 2 ^ 32"
  shows "\<exists>merged m level. stored_block J (calm_dir (st' ulid)) merged m \<and> distinct (map si_labels merged) \<and>
    si_labels ` set merged = si_labels ` set (concat (map (\<lambda>p. with_chunks (fst p)) inputs)) \<and>
    (\<forall>s \<in> set merged. \<exists>xs ys. decode_inputs (chunks_of (si_labels s) (concat (map fst inputs))) = Inr xs \<and>
       decode_inputs (si_chunks s) = Inr ys \<and> sorted_wrt (<) (map (sint \<circ> fst) ys) \<and> map_of ys = map_of (rev xs) \<and>
       (\<forall>c \<in> set (si_chunks s). input_true c)) \<and>
    bc_level (bm_compaction m) = level + 1 \<and> level \<in> insert 0 ((\<lambda>p. bc_level (bm_compaction (snd p))) ` set inputs) \<and>
    (\<forall>p \<in> set inputs. sint (bc_level (bm_compaction (snd p))) \<le> sint level) \<and>
    sorted_wrt (<) (bc_sources (bm_compaction m)) \<and>
    set (bc_sources (bm_compaction m)) = (\<Union>p \<in> set inputs. set (bc_sources (bm_compaction (snd p)))) \<and>
    ulid \<notin> set dirs \<and> (\<forall>dir. dir \<noteq> ulid \<longrightarrow> st' dir = st dir)"
proof -
  let ?ss = "concat (map (\<lambda>p. with_chunks (fst p)) inputs)" and ?info = "fold (\<lambda>p. gather (snd p)) inputs \<lparr>ci_max_level = 0, ci_sources = []\<rparr>"
  obtain merged st3 t where holds: "merged_holds (fold merge_input ?ss []) ?ss" and dirs: "dirs \<noteq> []"
    and inputs: "compact_inputs J walk dirs st = Inr merged" "merge_all (walk (fold merge_input ?ss [])) = Inr merged"
    and run: "create_from_series J env merged st = (Inr ulid, st3)" "patch_meta J ?info (bk_top (st3 ulid)) = (Inr (), t)"
      "st' = st3(ulid := (st3 ulid)\<lparr>bk_top := t\<rparr>)"
    by (rule compact_steps [OF assms(3,4)])
  have limits: "block_limits merged" using assms(6) inputs(1) by simp
  note frame = create_from_series_frame [OF run(1)]
  have size: "\<forall>bs. map_of (dk_files (bk_top (st3 ulid))) ''index'' = Some bs \<longrightarrow> length bs < 2 ^ 32"
    using assms(7) patch_meta_index [OF run(2)] run(3) by simp
  obtain m where m: "stored_block J (calm_dir (st3 ulid)) merged m" "bm_version m = k_meta_version_1"
    using created_block_stored [OF assms(1) run(1) limits size assms(5)] by blast
  let ?m = "m\<lparr>bm_compaction := (bm_compaction m)\<lparr>bc_level := ci_max_level ?info + 1, bc_sources := ci_sources ?info\<rparr>\<rparr>"
  have stored: "stored_block J (calm_dir (st' ulid)) merged ?m"
    using patch_meta_stored [OF assms(1) m frame(3) [OF assms(5)] run(2)] run(3) by simp
  have fresh: "ulid \<notin> set dirs"
  proof
    assume "ulid \<in> set dirs"
    then obtain input where "stored_at J st ulid input" using list_all2_partner [OF assms(3)] by blast
    then show False using frame(1) by (auto simp: stored_block_def block_files_def)
  qed
  have same: "st' dir = st dir" if "dir \<noteq> ulid" for dir using frame(2) [OF that] run(3) that by simp
  have info: "?info = fold gather (map snd inputs) \<lparr>ci_max_level = 0, ci_sources = []\<rparr>" by (simp add: fold_map comp_def)
  have "map snd inputs \<noteq> []" using dirs assms(3) by (cases inputs) auto
  note gathered = gather_all(1-4) [where info = "\<lparr>ci_max_level = 0, ci_sources = []\<rparr>" and ms = "map snd inputs", folded info]
    gather_all(5) [OF this, of "\<lparr>ci_max_level = 0, ci_sources = []\<rparr>", folded info]
  show ?thesis
    using stored merged_walk [OF assms(2) holds inputs(2)] fresh same gathered
    unfolding chunks_of_with_chunks merged_from_def
    by (intro exI [of _ merged] exI [of _ ?m] exI [of _ "ci_max_level ?info"]) (auto simp: image_image)
qed

text \<open>Two blocks that both have the sample time 5, to see that the hypotheses can hold.\<close>

definition demo_second :: SeriesInput where
  "demo_second = \<lparr>si_labels = demo_labels,
     si_chunks = [\<lparr>cin_min_time = 5, cin_max_time = 5, cin_bytes = [0, 1, 10, 0, 0, 0, 0, 0, 0, 0, 9]\<rparr>]\<rparr>"

lemma demo_second_limits: "block_limits [demo_second]"
  using demo_limits by (simp add: block_limits_def demo_input_def demo_second_def)

lemma demo_second_room: "index_room [demo_second] < 2 ^ 32"
  using demo_room by (simp add: index_room_def demo_input_def demo_second_def)

lemma demo_merge: "merge_all (rev (fold merge_input [demo_input, demo_second] [])) = Inr [demo_second]"
  by code_simp

lemma demo_ulid: "new_ulid 0 0 0 0 \<notin> {''A'', ''B''}"
  by code_simp

lemma demo_samples: "decode_inputs (si_chunks demo_second) = Inr [(5, 9)]"
  by code_simp

lemma demo_stored:
  assumes "block_limits [s]" "index_room [s] < 2 ^ 32"
  shows "\<exists>b m. stored_block jv_ops b [s] m \<and> meta_ascii m"
  using create_stored [of jv_ops "\<lambda>_. fresh_dir" _ 0 0 0 0, OF jv_laws jv_dumps refl refl assms] by blast

lemma demo_blocks:
  obtains ba ma bb mb where "stored_block jv_ops ba [demo_input] ma" "meta_ascii ma"
    "stored_block jv_ops bb [demo_second] mb" "meta_ascii mb"
  using demo_stored [OF demo_limits demo_room] demo_stored [OF demo_second_limits demo_second_room] by blast

theorem compact_merges_witness:
  "\<exists>st ma mb ulid st' s m ys. stored_block jv_ops (st ''A'') [demo_input] ma \<and> stored_block jv_ops (st ''B'') [demo_second] mb \<and>
     Block_compact jv_ops (0, 0, 0, 0) rev [''A'', ''B''] st = (Inr ulid, st') \<and> stored_block jv_ops (calm_dir (st' ulid)) [s] m \<and>
     si_labels s = demo_labels \<and> decode_inputs (si_chunks s) = Inr ys \<and> map_of ys 5 = Some 9"
proof -
  obtain ba ma bb mb where a: "stored_block jv_ops ba [demo_input] ma" and b: "stored_block jv_ops bb [demo_second] mb"
    and names: "meta_ascii ma" "meta_ascii mb"
    by (rule demo_blocks)
  define st where "st = (\<lambda>_. fresh_dir)(''A'' := ba, ''B'' := bb)"
  let ?ulid = "new_ulid 0 0 0 0" and ?inputs = "[([demo_input], ma), ([demo_second], mb)]" and ?dirs = "[''A'', ''B'']"
  let ?info = "fold (\<lambda>p. gather (snd p)) ?inputs \<lparr>ci_max_level = 0, ci_sources = []\<rparr>"
  have fresh: "st ?ulid = fresh_dir" using demo_ulid by (simp add: st_def)
  then have calm: "dk_faults (bk_top (st ?ulid)) = []" by (simp add: fresh_dir_def)
  have inputs: "list_all2 (stored_at jv_ops st) ?dirs ?inputs" using a b by (simp add: st_def)
  have ss: "concat (map (\<lambda>p. with_chunks (fst p)) ?inputs) = [demo_input, demo_second]"
    by (simp add: demo_input_def demo_second_def)
  obtain st3 where create: "create_from_series jv_ops (0, 0, 0, 0) [demo_second] st = (Inr ?ulid, st3)"
    and len3: "\<forall>bs. map_of (dk_files (bk_top (st3 ?ulid))) ''index'' = Some bs \<longrightarrow> length bs < 2 ^ 32"
    using create_small [where st = st and ulid = ?ulid, OF jv_dumps fresh refl demo_second_limits demo_second_room] by blast
  obtain m where m: "stored_block jv_ops (calm_dir (st3 ?ulid)) [demo_second] m" "meta_ascii m"
    using created_block_stored [OF jv_laws create demo_second_limits len3 calm] by blast
  obtain t where patch: "patch_meta jv_ops ?info (bk_top (st3 ?ulid)) = (Inr (), t)"
    using patch_meta_done [OF jv_dumps m create_from_series_frame(3) [OF create calm] gather_ascii,
        of ?inputs "\<lparr>ci_max_level = 0, ci_sources = []\<rparr>"] names by auto
  let ?st' = "st3(?ulid := (st3 ?ulid)\<lparr>bk_top := t\<rparr>)"
  note ok = compact_inputs_ok(1) [OF inputs, unfolded ss] and merge = compact_inputs_ok(3) [OF inputs, of rev, unfolded ss]
  have run: "Block_compact jv_ops (0, 0, 0, 0) rev ?dirs st = (Inr ?ulid, ?st')"
    using ok demo_merge create patch by (auto simp: Block_compact_def)
  have "compact_inputs jv_ops rev ?dirs st = Inr [demo_second]" using merge demo_merge by simp
  then have limits: "\<forall>ss. compact_inputs jv_ops rev ?dirs st = Inr ss \<longrightarrow> block_limits ss" using demo_second_limits by simp
  have len: "\<forall>bs. map_of (dk_files (bk_top (?st' ?ulid))) ''index'' = Some bs \<longrightarrow> length bs < 2 ^ 32"
    using len3 patch_meta_index [OF patch] by simp
  obtain merged m' where out: "stored_block jv_ops (calm_dir (?st' ?ulid)) merged m'" "distinct (map si_labels merged)"
      "si_labels ` set merged = si_labels ` set (concat (map (\<lambda>p. with_chunks (fst p)) ?inputs))"
      "\<forall>s \<in> set merged. \<exists>xs ys. decode_inputs (chunks_of (si_labels s) (concat (map fst ?inputs))) = Inr xs \<and>
         decode_inputs (si_chunks s) = Inr ys \<and> sorted_wrt (<) (map (sint \<circ> fst) ys) \<and> map_of ys = map_of (rev xs) \<and>
         (\<forall>c \<in> set (si_chunks s). input_true c)"
    using compact_merges [OF jv_laws ex_walk inputs run calm limits len] by (elim exE conjE) (rule that)
  have "si_labels ` set merged = {demo_labels}" using out(3) unfolding ss by (simp add: demo_input_def demo_second_def)
  then obtain s where s: "merged = [s]" "si_labels s = demo_labels" using out(2) by (cases merged; cases "tl merged") auto
  obtain ys where ys: "decode_inputs (si_chunks s) = Inr ys" "map_of ys = map_of (rev [(5, 7), (5, 9)])"
  proof -
    have "decode_inputs (chunks_of demo_labels [demo_input, demo_second]) = Inr [(5, 7), (5, 9)]" by code_simp
    then show thesis using out(4) s that by auto
  qed
  have "stored_block jv_ops (st ''A'') [demo_input] ma" "stored_block jv_ops (st ''B'') [demo_second] mb"
    using a b by (simp_all add: st_def)
  then show ?thesis using run out(1) s ys by (intro exI [of _ st] exI [of _ ma] exI [of _ mb] exI [of _ ?ulid] exI [of _ ?st'] exI [of _ s] exI [of _ m'] exI [of _ ys] conjI) simp_all
qed

text \<open>
  Compaction succeeds. Given stored blocks whose chunks all decode, on a disk without failures
  and with a fresh name, if what is to be written is within the limits of the format then
  compacting returns no error, whatever the order in which the hash map is walked; the new block
  opens and holds the merged series, and the inputs are as they were.
\<close>

lemma compact_succeeds:
  assumes "json_laws J" and "json_dumps J" and "walk_ok walk" and "list_all2 (stored_at J st) dirs inputs" and "dirs \<noteq> []"
    and "\<forall>p \<in> set inputs. meta_ascii (snd p) \<and> (\<forall>s \<in> set (fst p). \<forall>c \<in> set (si_chunks s). input_decodes c)"
    and "st ulid = fresh_dir" and "ulid = new_ulid now r0 r1 r2"
    and "\<forall>ss. compact_inputs J walk dirs st = Inr ss \<longrightarrow> block_limits ss \<and> index_room ss < 2 ^ 32"
  shows "\<exists>st' merged m blk. Block_compact J (now, r0, r1, r2) walk dirs st = (Inr ulid, st') \<and>
    compact_inputs J walk dirs st = Inr merged \<and> stored_block J (st' ulid) merged m \<and>
    Block_open J (st' ulid) = (Inr blk, st' ulid) \<and> (\<forall>dir. dir \<noteq> ulid \<longrightarrow> st' dir = st dir)"
proof -
  let ?ss = "concat (map (\<lambda>p. with_chunks (fst p)) inputs)" and ?info = "fold (\<lambda>p. gather (snd p)) inputs \<lparr>ci_max_level = 0, ci_sources = []\<rparr>"
  note ok = compact_inputs_ok [OF assms(4)]
  have set: "set (walk m) = set m" for m
    using assms(3) by (intro mset_eq_setD) (simp add: walk_ok_def)
  have "input_decodes c" if "p \<in> set (walk (fold merge_input ?ss []))" "c \<in> set (snd p)" for p c
  proof -
    have "snd p = chunks_of (fst p) ?ss" using that(1) ok(2) unfolding set by (auto simp: merged_holds_def)
    from chunks_of_mem [OF that(2) [unfolded this]] obtain s where "s \<in> set ?ss" "c \<in> set (si_chunks s)" by blast
    then show ?thesis using assms(6) by auto
  qed
  then obtain merged where merged: "merge_all (walk (fold merge_input ?ss [])) = Inr merged" using merge_all_done by blast
  then have inputs: "compact_inputs J walk dirs st = Inr merged" using ok(3) by simp
  have limits: "block_limits merged" "index_room merged < 2 ^ 32" using assms(9) inputs by simp_all
  obtain st3 m where st3: "create_from_series J (now, r0, r1, r2) merged st = (Inr ulid, st3)" "stored_block J (st3 ulid) merged m"
      "bm_version m = k_meta_version_1" "meta_ascii m"
    using create_stored [where st = st and ulid = ulid, OF assms(1,2,7,8) limits] by blast
  have calm: "calm_dir (st3 ulid) = st3 ulid" "dk_faults (bk_top (st3 ulid)) = []" "dk_faults (bk_chunks (st3 ulid)) = []"
  proof -
    show *: "calm_dir (st3 ulid) = st3 ulid" using st3(2) by (simp add: stored_block_def)
    show "dk_faults (bk_top (st3 ulid)) = []" by (subst * [symmetric]) (simp only: calm_dir_simps)
    show "dk_faults (bk_chunks (st3 ulid)) = []" by (subst * [symmetric]) (simp only: calm_dir_simps)
  qed
  have "list_all ascii (ci_sources ?info)" using gather_ascii [of inputs] assms(6) by simp
  from patch_meta_done [OF assms(2) _ st3(4) calm(2) this] obtain t where
    t: "patch_meta J ?info (bk_top (st3 ulid)) = (Inr (), t)" "dk_faults t = []" using st3(2) calm(1) by auto
  define st' where "st' = st3(ulid := (st3 ulid)\<lparr>bk_top := t\<rparr>)"
  have "calm_dir ((st3 ulid)\<lparr>bk_top := t\<rparr>) = (st3 ulid)\<lparr>bk_top := t\<rparr>" using calm(3) t(2) by (simp add: calm_dir_def)
  moreover note patch_meta_stored [OF assms(1) _ st3(3) calm(2) t(1), unfolded calm(1), OF st3(2)]
  ultimately obtain m' where m': "stored_block J (st' ulid) merged m'" unfolding st'_def by auto
  obtain blk where blk: "Block_open J (st' ulid) = (Inr blk, st' ulid)" by (rule stored_block_open [OF m'])
  have "Block_compact J (now, r0, r1, r2) walk dirs st = (Inr ulid, st')"
    using ok(1) merged st3(1) t(1) assms(5) by (auto simp: Block_compact_def st'_def)
  moreover have "st' dir = st dir" if "dir \<noteq> ulid" for dir
    using create_from_series_frame(2) [OF st3(1) that] that by (simp add: st'_def)
  ultimately show ?thesis using inputs m' blk by blast
qed

end
