(* ===== verification/CompactQuery.thy ===== *)
theory CompactQuery
  imports BlockCompact
begin

text \<open>
  What compaction does to the answers of queries. The blocks before and the block after it are
  compared by what can be observed: for a label set and a timestamp, the value of the latest
  sample among the results. Shown: compacting succeeds, and after it every query has the same
  answer for every label set and every timestamp in its range, now with one sample for each.
\<close>

section \<open>What is observed of results\<close>

definition chunk_values :: "XORChunk \<Rightarrow> sample list" where
  "chunk_values xc = (case chunk_samples xc of Inl _ \<Rightarrow> [] | Inr zs \<Rightarrow> zs)"

definition answer_chunks :: "QueryResult list \<Rightarrow> Labels \<Rightarrow> XORChunk list" where
  "answer_chunks rs l = concat (map qr_chunks (filter (\<lambda>q. qr_labels q = l) rs))"

definition answer_samples :: "QueryResult list \<Rightarrow> Labels \<Rightarrow> sample list" where
  "answer_samples rs l = concat (map chunk_values (answer_chunks rs l))"

text \<open>Later results count over earlier ones, as for the samples that compaction merges.\<close>

definition latest :: "QueryResult list \<Rightarrow> Labels \<Rightarrow> i64 \<Rightarrow> double option" where
  "latest rs l = map_of (rev (answer_samples rs l))"

text \<open>A chunk that decodes and names a time range with all its samples.\<close>

definition input_covers :: "ChunkInput \<Rightarrow> bool" where
  "input_covers c \<longleftrightarrow> (\<exists>zs. chunk_samples (from_bytes (cin_bytes c)) = Inr zs \<and>
     (\<forall>x \<in> set zs. sint (cin_min_time c) \<le> sint (fst x) \<and> sint (fst x) \<le> sint (cin_max_time c)))"

abbreviation input_values :: "ChunkInput \<Rightarrow> sample list" where
  "input_values c \<equiv> chunk_values (from_bytes (cin_bytes c))"

section \<open>Answers in terms of the stored chunks\<close>

lemma chunks_of_simps [simp]:
  "chunks_of l [] = []" "chunks_of l (s # ss) = (if si_labels s = l then si_chunks s else []) @ chunks_of l ss"
  "chunks_of l (ss @ ts) = chunks_of l ss @ chunks_of l ts"
  by (simp_all add: chunks_of_def)

lemma answer_chunks_of:
  "list_all2 (block_answer wanted) ss out \<Longrightarrow>
   answer_chunks out l = map (from_bytes \<circ> cin_bytes) (filter wanted (chunks_of l ss))"
proof (induction ss out rule: list_all2_induct)
  case (Cons s ss q out)
  then show ?case by (simp add: answer_chunks_def block_answer_def)
qed (simp add: answer_chunks_def)

lemma chunks_of_selected:
  "filter wanted (chunks_of l (filter (\<lambda>s. P (si_labels s) \<and> filter wanted (si_chunks s) \<noteq> []) ss))
   = (if P l then filter wanted (chunks_of l ss) else [])"
  by (induction ss) auto

lemma answer_samples_of:
  assumes "list_all2 (block_answer wanted) (filter (\<lambda>s. P (si_labels s) \<and> filter wanted (si_chunks s) \<noteq> []) ss) out"
  shows "answer_samples out l = (if P l then concat (map input_values (filter wanted (chunks_of l ss))) else [])"
  unfolding answer_samples_def answer_chunks_of [OF assms] chunks_of_selected by (simp add: comp_def)

lemma decode_inputs_values:
  "decode_inputs cs = Inr xs \<Longrightarrow> xs = concat (map input_values cs)"
  by (induction cs arbitrary: xs) (auto simp: chunk_values_def split: sum.splits)

text \<open>Chunks outside the range have no sample in it.\<close>

lemma values_at:
  "\<forall>c \<in> set cs. input_covers c \<Longrightarrow> sint mint \<le> sint t \<Longrightarrow> sint t \<le> sint maxt \<Longrightarrow>
   filter (\<lambda>p. fst p = t) (concat (map input_values (filter (input_overlaps mint maxt) cs)))
   = filter (\<lambda>p. fst p = t) (concat (map input_values cs))"
proof (induction cs)
  case (Cons c cs)
  obtain zs where zs: "chunk_samples (from_bytes (cin_bytes c)) = Inr zs"
      "\<forall>x \<in> set zs. sint (cin_min_time c) \<le> sint (fst x) \<and> sint (fst x) \<le> sint (cin_max_time c)"
    using Cons.prems(1) by (auto simp: input_covers_def)
  have "filter (\<lambda>p. fst p = t) (input_values c) = []" if "\<not> input_overlaps mint maxt c"
    using that zs Cons.prems(2,3) by (fastforce simp: filter_empty_conv chunk_values_def input_overlaps_def)
  then show ?case using Cons.IH Cons.prems by auto
qed simp

lemma latest_of:
  assumes out: "list_all2 (block_answer (input_overlaps mint maxt))
      (filter (\<lambda>s. P (si_labels s) \<and> filter (input_overlaps mint maxt) (si_chunks s) \<noteq> []) ss) out"
    and covers: "\<forall>c \<in> set (chunks_of l ss). input_covers c" and t: "sint mint \<le> sint t" "sint t \<le> sint maxt"
  shows "latest out l t = (if P l then map_of (rev (concat (map input_values (chunks_of l ss)))) t else None)"
proof -
  have "map_of (rev (concat (map input_values (filter (input_overlaps mint maxt) (chunks_of l ss))))) t
      = map_of (filter (\<lambda>p. fst p = t) (rev (concat (map input_values (filter (input_overlaps mint maxt) (chunks_of l ss)))))) t"
    by (rule map_of_filter [symmetric])
  also have "\<dots> = map_of (filter (\<lambda>p. fst p = t) (rev (concat (map input_values (chunks_of l ss))))) t"
    unfolding rev_filter [symmetric] values_at [OF covers t] ..
  also have "\<dots> = map_of (rev (concat (map input_values (chunks_of l ss)))) t" by (rule map_of_filter)
  finally show ?thesis by (simp add: latest_def answer_samples_of [OF out])
qed

section \<open>The new block\<close>

lemma filter_distinct: "distinct (map f xs) \<Longrightarrow> distinct (map f (filter P xs))"
  by (induction xs) auto

lemma values_sorted:
  "sorted_wrt R (concat (map f cs)) \<Longrightarrow> sorted_wrt R (concat (map f (filter P cs)))"
  by (induction cs) (auto simp: sorted_wrt_append)

lemma sorted_chunk:
  "sorted_wrt R (concat (map f cs)) \<Longrightarrow> c \<in> set cs \<Longrightarrow> sorted_wrt R (f c)"
  by (induction cs) (auto simp: sorted_wrt_append)

lemma sorted_ends:
  fixes f :: "'a \<Rightarrow> int"
  assumes "sorted_wrt (\<lambda>x y. f x < f y) xs" "x \<in> set xs"
  shows "f (hd xs) \<le> f x" "f x \<le> f (last xs)"
proof -
  have "xs \<noteq> []" using assms(2) by auto
  show "f (hd xs) \<le> f x" using assms by (cases xs) auto
  show "f x \<le> f (last xs)" using assms by (cases xs rule: rev_cases) (auto simp: sorted_wrt_append)
qed

abbreviation later :: "sample \<Rightarrow> sample \<Rightarrow> bool" where
  "later x y \<equiv> sint (fst x) < sint (fst y)"

text \<open>What merging made of the chunks of a series: decoded in order of time, each chunk in its range.\<close>

lemma merged_from_values:
  assumes "merged_from old new"
  shows "sorted_wrt later (concat (map input_values new))" "\<forall>c \<in> set new. input_covers c"
    "map_of (rev (concat (map input_values new))) = map_of (rev (concat (map input_values old)))"
proof -
  obtain xs ys where xy: "decode_inputs old = Inr xs" "decode_inputs new = Inr ys"
      "sorted_wrt (<) (map (sint \<circ> fst) ys)" "map_of ys = map_of (rev xs)" and true: "\<forall>c \<in> set new. input_true c"
    using assms by (auto simp: merged_from_def)
  note vals = decode_inputs_values [OF xy(1)] decode_inputs_values [OF xy(2)]
  show sorted: "sorted_wrt later (concat (map input_values new))"
    using xy(3) unfolding vals(2) [symmetric] by (simp add: sorted_wrt_map)
  have "distinct (map (sint \<circ> fst) ys)" using xy(3) by (simp add: strict_sorted_iff)
  then have "distinct (map fst ys)" by (metis distinct_map list.map_comp)
  then have "map_of (rev ys) = map_of ys"
    by (subst map_of_inject_set) (simp_all add: rev_map [symmetric])
  then show "map_of (rev (concat (map input_values new))) = map_of (rev (concat (map input_values old)))"
    using xy(4) unfolding vals by simp
  show "\<forall>c \<in> set new. input_covers c"
  proof
    fix c assume c: "c \<in> set new"
    then obtain zs where zs: "chunk_samples (from_bytes (cin_bytes c)) = Inr zs" "zs \<noteq> []"
        "cin_min_time c = fst (hd zs)" "cin_max_time c = fst (last zs)"
      using true by (auto simp: input_true_def)
    then have "sorted_wrt later zs" using sorted_chunk [OF sorted c] by (simp add: chunk_values_def)
    from sorted_ends [OF this] show "input_covers c" using zs by (simp add: input_covers_def)
  qed
qed

lemma chunks_of_distinct:
  "distinct (map si_labels ss) \<Longrightarrow> s \<in> set ss \<Longrightarrow> chunks_of (si_labels s) ss = si_chunks s"
proof (induction ss)
  case (Cons s' ss)
  have "chunks_of l ss = []" if "l \<notin> si_labels ` set ss" for l
    using that by (auto simp: chunks_of_def filter_empty_conv)
  then show ?case using Cons by auto
qed simp

text \<open>The merged series against those of the inputs.\<close>

lemma merged_observed:
  assumes dist: "distinct (map si_labels merged)" and labels: "si_labels ` set merged = si_labels ` set ss"
    and from_ss: "\<And>s. s \<in> set merged \<Longrightarrow> merged_from (chunks_of (si_labels s) ss) (si_chunks s)"
  shows "sorted_wrt later (concat (map input_values (chunks_of l merged)))" "\<forall>c \<in> set (chunks_of l merged). input_covers c"
    "map_of (rev (concat (map input_values (chunks_of l merged)))) = map_of (rev (concat (map input_values (chunks_of l ss))))"
proof -
  consider s where "s \<in> set merged" "l = si_labels s" | "l \<notin> si_labels ` set ss" using labels by (metis imageE)
  then have "sorted_wrt later (concat (map input_values (chunks_of l merged))) \<and> (\<forall>c \<in> set (chunks_of l merged). input_covers c) \<and>
    map_of (rev (concat (map input_values (chunks_of l merged)))) = map_of (rev (concat (map input_values (chunks_of l ss))))"
  proof cases
    case 1
    then show ?thesis using merged_from_values [OF from_ss] chunks_of_distinct [OF dist] by simp
  next
    case 2
    then have "chunks_of l ss = []" "chunks_of l merged = []" using labels by (auto simp: chunks_of_def filter_empty_conv)
    then show ?thesis by simp
  qed
  then show "sorted_wrt later (concat (map input_values (chunks_of l merged)))" "\<forall>c \<in> set (chunks_of l merged). input_covers c"
    "map_of (rev (concat (map input_values (chunks_of l merged)))) = map_of (rev (concat (map input_values (chunks_of l ss))))"
    by blast+
qed

section \<open>The old blocks\<close>

text \<open>A query on a stored block.\<close>

abbreviation selects ::
  "'j json_ops \<Rightarrow> ('re \<Rightarrow> string \<Rightarrow> bool) \<Rightarrow> 're Matcher list \<Rightarrow> i64 \<Rightarrow> i64 \<Rightarrow> BlockDir \<Rightarrow> QueryResult list \<Rightarrow> bool" where
  "selects J rm ms mint maxt b out \<equiv> (\<exists>blk blk'. Block_open J b = (Inr blk, b) \<and>
     Block_select rm ms mint maxt blk (bk_chunks b) = (Inr out, blk', bk_chunks b))"

abbreviation selected :: "('re \<Rightarrow> string \<Rightarrow> bool) \<Rightarrow> 're Matcher list \<Rightarrow> i64 \<Rightarrow> i64 \<Rightarrow> SeriesInput list \<Rightarrow> SeriesInput list" where
  "selected rm ms mint maxt \<equiv>
     filter (\<lambda>s. labels_match_all rm (si_labels s) ms \<and> filter (input_overlaps mint maxt) (si_chunks s) \<noteq> [])"

lemma stored_block_selects:
  assumes "stored_block J b series m" "ms \<noteq> []" "\<forall>m \<in> set ms. matcher_ok m"
  shows "\<exists>out. selects J rm ms mint maxt b out \<and> list_all2 (block_answer (input_overlaps mint maxt)) (selected rm ms mint maxt series) out"
proof -
  obtain blk where "Block_open J b = (Inr blk, b)" "block_serves blk b series" by (rule stored_block_open [OF assms(1)])
  moreover have "block_limits series" using assms(1) by (simp add: stored_block_def)
  ultimately show ?thesis using Block_select_serves [of blk b series ms rm mint maxt] assms(2,3) by blast
qed

lemma stored_blocks_select:
  assumes "list_all2 (stored_at J st) dirs inputs" "ms \<noteq> []" "\<forall>m \<in> set ms. matcher_ok m"
  shows "\<exists>outs. list_all2 (\<lambda>dir. selects J rm ms mint maxt (st dir)) dirs outs \<and>
    list_all2 (block_answer (input_overlaps mint maxt)) (selected rm ms mint maxt (concat (map fst inputs))) (concat outs)"
  using assms(1)
proof (induction dirs inputs rule: list_all2_induct)
  case (Cons dir dirs input inputs)
  obtain outs where outs: "list_all2 (\<lambda>dir. selects J rm ms mint maxt (st dir)) dirs outs"
      "list_all2 (block_answer (input_overlaps mint maxt)) (selected rm ms mint maxt (concat (map fst inputs))) (concat outs)"
    using Cons.IH by blast
  obtain out where out: "selects J rm ms mint maxt (st dir) out"
      "list_all2 (block_answer (input_overlaps mint maxt)) (selected rm ms mint maxt (fst input)) out"
    using stored_block_selects [OF Cons.hyps(1) assms(2,3)] by blast
  show ?case
    using outs(1) out(1) list_all2_appendI [OF out(2) outs(2)] by (intro exI [of _ "out # outs"]) simp
qed simp

lemma selects_unique: "selects J rm ms mint maxt b o1 \<Longrightarrow> selects J rm ms mint maxt b o2 \<Longrightarrow> o1 = o2"
  by auto

lemma selects_all_unique:
  "list_all2 (\<lambda>dir. selects J rm ms mint maxt (st dir)) dirs outs \<Longrightarrow>
   list_all2 (\<lambda>dir. selects J rm ms mint maxt (st dir)) dirs outs' \<Longrightarrow> outs = outs'"
proof (induction dirs outs arbitrary: outs' rule: list_all2_induct)
  case (Cons dir dirs out outs)
  obtain o' os where o': "outs' = o' # os" using Cons.prems by (cases outs') simp_all
  then have os: "selects J rm ms mint maxt (st dir) o'" "list_all2 (\<lambda>dir. selects J rm ms mint maxt (st dir)) dirs os"
    using Cons.prems by simp_all
  have "out = o'" by (rule selects_unique [OF Cons.hyps(1) os(1)])
  then show ?case using Cons.IH [OF os(2)] o' by simp
qed simp

section \<open>Properties\<close>

text \<open>
  C17. Compaction succeeds and keeps the answer to every query. Given stored blocks whose chunks
  decode and name ranges with all their samples, on a disk without failures and with a fresh name,
  compacting returns no error in whatever order the hash map is walked, within the limits of the
  format. Any query then succeeds on the new block as on the old ones, and for every label set and
  every timestamp in the range of the query the latest value is the same. The new answer has each
  label set once, with its samples in strict order of time, so the latest value is the only one.
\<close>

theorem compact_preserves_queries:
  assumes "json_laws J" and "json_dumps J" and "walk_ok walk" and "list_all2 (stored_at J st) dirs inputs" and "dirs \<noteq> []"
    and "\<forall>p \<in> set inputs. meta_ascii (snd p) \<and> (\<forall>s \<in> set (fst p). \<forall>c \<in> set (si_chunks s). input_covers c)"
    and "st ulid = fresh_dir" and "ulid = new_ulid now r0 r1 r2"
    and "\<forall>ss. compact_inputs J walk dirs st = Inr ss \<longrightarrow> block_limits ss \<and> index_room ss < 2 ^ 32"
    and "ms \<noteq> []" and "\<forall>m \<in> set ms. matcher_ok m"
  shows "\<exists>st' outs out. Block_compact J (now, r0, r1, r2) walk dirs st = (Inr ulid, st') \<and>
    list_all2 (\<lambda>dir. selects J rm ms mint maxt (st dir)) dirs outs \<and> selects J rm ms mint maxt (st' ulid) out \<and>
    (\<forall>l t. sint mint \<le> sint t \<and> sint t \<le> sint maxt \<longrightarrow> latest out l t = latest (concat outs) l t) \<and>
    distinct (map qr_labels out) \<and> (\<forall>l. sorted_wrt (<) (map (sint \<circ> fst) (answer_samples out l))) \<and>
    (\<forall>dir. dir \<noteq> ulid \<longrightarrow> st' dir = st dir)"
proof -
  let ?ss = "concat (map (\<lambda>p. with_chunks (fst p)) inputs)" and ?all = "concat (map fst inputs)"
  have "\<forall>p \<in> set inputs. meta_ascii (snd p) \<and> (\<forall>s \<in> set (fst p). \<forall>c \<in> set (si_chunks s). input_decodes c)"
    using assms(6) unfolding input_covers_def by blast
  from compact_succeeds [where st = st and ulid = ulid, OF assms(1-5) this assms(7-9)] obtain st' merged m where
    run: "Block_compact J (now, r0, r1, r2) walk dirs st = (Inr ulid, st')" "compact_inputs J walk dirs st = Inr merged"
    and stored: "stored_block J (st' ulid) merged m" and same: "\<forall>dir. dir \<noteq> ulid \<longrightarrow> st' dir = st dir"
    by (elim exE conjE) (rule that)
  note ok = compact_inputs_ok(2,3) [OF assms(4)]
  have "merge_all (walk (fold merge_input ?ss [])) = Inr merged" using ok(2) run(2) by simp
  note walk = merged_walk [OF assms(3) ok(1) this]
  note obs = merged_observed [OF walk, unfolded chunks_of_with_chunks]
  obtain outs where outs: "list_all2 (\<lambda>dir. selects J rm ms mint maxt (st dir)) dirs outs"
      "list_all2 (block_answer (input_overlaps mint maxt)) (selected rm ms mint maxt ?all) (concat outs)"
    using stored_blocks_select [OF assms(4,10,11)] by blast
  obtain out where out: "selects J rm ms mint maxt (st' ulid) out"
      "list_all2 (block_answer (input_overlaps mint maxt)) (selected rm ms mint maxt merged) out"
    using stored_block_selects [OF stored assms(10,11)] by blast
  have covers: "\<forall>c \<in> set (chunks_of l ?all). input_covers c" for l
    using assms(6) by (fastforce simp: chunks_of_def)
  have "latest out l t = latest (concat outs) l t" if "sint mint \<le> sint t" "sint t \<le> sint maxt" for l t
    using latest_of [OF out(2) obs(2) that] latest_of [OF outs(2) covers that] obs(3) by simp
  moreover have "map qr_labels out = map si_labels (selected rm ms mint maxt merged)"
    using out(2) by (induction rule: list_all2_induct) (simp_all add: block_answer_def)
  then have "distinct (map qr_labels out)" using filter_distinct [OF walk(1)] by simp
  moreover have "sorted_wrt (<) (map (sint \<circ> fst) (answer_samples out l))" for l
    unfolding answer_samples_of [OF out(2)] using values_sorted [OF obs(1)] by (simp add: sorted_wrt_map)
  ultimately show ?thesis using run(1) outs(1) out(1) same by blast
qed

text \<open>Two blocks with different values for the time 5: before and after, the query sees the later one.\<close>

lemma demo_covers: "\<forall>c \<in> set (si_chunks demo_input @ si_chunks demo_second). input_covers c"
proof -
  have "list_all (\<lambda>c. case chunk_samples (from_bytes (cin_bytes c)) of Inl _ \<Rightarrow> False | Inr zs \<Rightarrow>
      list_all (\<lambda>x. sint (cin_min_time c) \<le> sint (fst x) \<and> sint (fst x) \<le> sint (cin_max_time c)) zs)
    (si_chunks demo_input @ si_chunks demo_second)" by code_simp
  then show ?thesis unfolding input_covers_def list_all_iff by (fastforce split: sum.splits)
qed

theorem compact_preserves_queries_witness:
  "\<exists>st st' outs out. Block_compact jv_ops (0, 0, 0, 0) rev [''A'', ''B''] st = (Inr (new_ulid 0 0 0 0), st') \<and>
     list_all2 (\<lambda>dir. selects jv_ops (\<lambda>_ _. False) [ex_matcher] 0 9 (st dir)) [''A'', ''B''] outs \<and>
     selects jv_ops (\<lambda>_ _. False) [ex_matcher] 0 9 (st' (new_ulid 0 0 0 0)) out \<and>
     latest (concat outs) demo_labels 5 = Some 9 \<and> latest out demo_labels 5 = Some 9"
proof -
  obtain ba ma bb mb where a: "stored_block jv_ops ba [demo_input] ma" "meta_ascii ma"
    and b: "stored_block jv_ops bb [demo_second] mb" "meta_ascii mb" by (rule demo_blocks)
  define st where "st = (\<lambda>_. fresh_dir)(''A'' := ba, ''B'' := bb)"
  let ?inputs = "[([demo_input], ma), ([demo_second], mb)]" and ?dirs = "[''A'', ''B'']" and ?rm = "\<lambda>_ _. False :: bool"
  have fresh: "st (new_ulid 0 0 0 0) = fresh_dir" using demo_ulid by (simp add: st_def)
  have inputs: "list_all2 (stored_at jv_ops st) ?dirs ?inputs" using a(1) b(1) by (simp add: st_def)
  have ss: "concat (map (\<lambda>p. with_chunks (fst p)) ?inputs) = [demo_input, demo_second]"
    by (simp add: demo_input_def demo_second_def)
  have "compact_inputs jv_ops rev ?dirs st = Inr [demo_second]"
    using compact_inputs_ok(3) [OF inputs, of rev, unfolded ss] demo_merge by simp
  then have limits: "\<forall>ss. compact_inputs jv_ops rev ?dirs st = Inr ss \<longrightarrow> block_limits ss \<and> index_room ss < 2 ^ 32"
    using demo_second_limits demo_second_room by simp
  have good: "\<forall>p \<in> set ?inputs. meta_ascii (snd p) \<and> (\<forall>s \<in> set (fst p). \<forall>c \<in> set (si_chunks s). input_covers c)"
    using demo_covers a(2) b(2) by (simp add: ball_Un)
  have ms: "[ex_matcher] \<noteq> []" "\<forall>m \<in> set [ex_matcher]. matcher_ok m"
    by (simp_all add: matcher_ok_def not_equal_def plain_name_def char_of_def)
  obtain st' outs out where run: "Block_compact jv_ops (0, 0, 0, 0) rev ?dirs st = (Inr (new_ulid 0 0 0 0), st')"
      "list_all2 (\<lambda>dir. selects jv_ops ?rm [ex_matcher] 0 9 (st dir)) ?dirs outs"
      "selects jv_ops ?rm [ex_matcher] 0 9 (st' (new_ulid 0 0 0 0)) out"
    and same: "\<forall>l t. sint (0 :: i64) \<le> sint t \<and> sint t \<le> sint (9 :: i64) \<longrightarrow> latest out l t = latest (concat outs) l t"
    using compact_preserves_queries [OF jv_laws jv_dumps ex_walk inputs _ good fresh refl limits ms, of ?rm 0 9]
    by blast
  obtain outs' where outs': "list_all2 (\<lambda>dir. selects jv_ops ?rm [ex_matcher] 0 9 (st dir)) ?dirs outs'"
      "list_all2 (block_answer (input_overlaps 0 9)) (selected ?rm [ex_matcher] 0 9 (concat (map fst ?inputs))) (concat outs')"
    using stored_blocks_select [OF inputs ms] by blast
  have eq: "outs' = outs" by (rule selects_all_unique [OF outs'(1) run(2)])
  have all: "chunks_of demo_labels (concat (map fst ?inputs)) = si_chunks demo_input @ si_chunks demo_second"
    by (simp add: demo_input_def demo_second_def)
  have "map_of (rev (concat (map input_values (si_chunks demo_input @ si_chunks demo_second)))) 5 = Some 9" by code_simp
  moreover have "labels_match_all ?rm demo_labels [ex_matcher]"
    by (simp add: get_mk_labels last_value_def value_or_empty_def)
  ultimately have "latest (concat outs) demo_labels 5 = Some 9"
    using latest_of [OF outs'(2), of demo_labels 5, unfolded all eq] demo_covers by simp
  then show ?thesis using run same by (intro exI [of _ st] exI [of _ st'] exI [of _ outs] exI [of _ out]) simp
qed

end
