(* ===== verification/Spec2Isabelle.thy ===== *)
theory Spec2Isabelle
  imports XorRoundtrip WalPage WalRecord HeadSelect HeadLog IndexRoundtrip Ulid CompactQuery
begin

text \<open>
  A verification development for merlion-tsdb, a time-series database in C++ (paths below are
  relative to src/src and src/include/merlion_tsdb).

  The program. A sample is a timestamp and a double (here its 64 bits) that belongs to the series
  of a label set. The head (head/head.cpp) keeps recent samples in memory: a store of series
  (head/series_store.cpp), each a list of compressed chunks (head/mem_series.cpp,
  chunkenc/xor.cpp). An append goes to the store and to pending records; a commit encodes these
  (wal/record.cpp), frames them into pages with checksums (wal/page.cpp) and writes them to
  numbered segment files (wal/segment_writer.cpp). Opening a head replays the segments
  (wal/segment_reader.cpp). A persistent block (block/block.cpp) is a directory with a descriptor
  (block/meta.cpp), an index of series and postings (block/index_writer.cpp, block/index.cpp) and
  chunk segment files (block/chunks.cpp), named by a ULID (block/ulid.cpp); it is created from
  series, from a head or from other blocks. A querier (querier/querier.cpp) merges the results of
  blocks and heads. Below these are integer codecs, a checksum and bit streams (encoding), label
  sets and matchers (model).

  The theories, from the bottom up. \<open>Prelude\<close>: machine types, bits and bytes of words, the codec
  interfaces. \<open>Varint\<close>, \<open>Crc32c\<close>, \<open>Bstream\<close>: encoding. \<open>XorChunk\<close> and \<open>XorRoundtrip\<close>: the chunk codec
  and its correctness. \<open>WalPage\<close>, \<open>WalRecord\<close>, \<open>Segment\<close>: the write-ahead log; \<open>Segment\<close> also has the
  disk all file code runs on. \<open>Labels\<close>, \<open>Matcher\<close>: model. \<open>MemSeries\<close>, \<open>SeriesStore\<close>, \<open>Head\<close>: the
  head, with \<open>HeadRecovery\<close> (what a restart recovers), \<open>HeadLog\<close> (the log only grows) and
  \<open>HeadSelect\<close> (what a query returns).
  \<open>BlockChunks\<close>, \<open>IndexWriter\<close>, \<open>IndexReader\<close>, \<open>IndexRoundtrip\<close>, \<open>Ulid\<close>, \<open>Meta\<close>: the files of a block.
  \<open>Block\<close>: the operations of blocks; \<open>BlockMatch\<close>, \<open>BlockIndex\<close>, \<open>BlockQuery\<close>: matchers, the index and
  the chunks of a created block, and its queries; \<open>BlockCreate\<close>: that creation succeeds, and how
  much room an index takes; \<open>BlockStored\<close>: what a block on the disk is;
  \<open>BlockFlush\<close>: creation from a head; \<open>BlockCompact\<close>: compaction; \<open>CompactQuery\<close>: queries before and
  after it. \<open>Querier\<close>: merging sources. This theory joins the log, the head, the block and the querier.

  How the code is read. Classes are records, enums and error codes datatypes; an operation is a
  function from its arguments and the state to a result and the new state, where a result is
  \<open>Inl\<close> an error or \<open>Inr\<close> a value, so that every early return is a branch. An exception and an
  access that C++ leaves undefined are error values of their own (\<open>Thrown\<close>, \<open>Throws\<close>,
  \<open>Undefined_access\<close>, \<open>UndefinedBehaviour\<close>); that they do not occur is part of the theorems.
  Timestamps, counters and file positions are words of their width, so wrap-around is visible;
  sizes of vectors are natural numbers where the code does not compute with malformed input.
  Pointers into containers are references or positions. A disk is a directory of files and the
  outcomes of the next system calls (done, short, interrupted, failed), after which every call is
  done; the theorems hold for every such plan unless they name one. Spans and moved-from objects
  are values; iteration orders of hash maps are parameters where they reach a result.

  Parameters and what is required of them. \<open>json_laws\<close>: a value read from a JSON document is the
  one that was set, and parsing a dump gives the document back (nlohmann::json); \<open>json_dumps\<close>: dumping a
  document whose strings are ASCII does not throw. \<open>compile\<close> and
  \<open>rmatch\<close>: std::regex, with no law. \<open>walk_ok\<close>: walking a hash map visits each entry once.
  \<open>order_ok\<close>: std::sort gives a permutation in order of the keys. The clock and the random device
  of a block name are arguments. Each hypothesis is discharged on an instance in the witnesses.

  The interfaces between components are locales, interpreted where the provider is defined:
  \<open>prefix_codec\<close> (decoders that take a prefix: varints), \<open>record_codec\<close> (record bodies), \<open>bit_sink\<close>
  and \<open>bit_source\<close> (bit streams, used by the chunk codec), \<open>label_map\<close> (label sets), \<open>series_index\<close>
  (the series store, used by the head), \<open>label_index\<close> (postings of an index, used by matchers).

  What is shown, by group. Codecs: round trips on all inputs in the domain of the encoder,
  injectivity, sizes; the checksum equals the bit-wise definition and detects short bursts. Chunks:
  every life of a chunk decodes to the accepted samples; a chunk never overflows its counters. The
  log: what is logged is read back, over any number of segments, short and interrupted writes; a log
  cut at any byte gives the complete records, then an error if the cut is inside a fragment and the
  end otherwise; damage is detected; no run
  of a head, failed calls and crashes included, changes a byte that is in a log file.
  The head: invariants by rule induction over \<open>head_run\<close> (opening, appending, committing, crashing
  and reopening, with any plan of failures, where every commit succeeded and its records avoid the
  page position at which the framing breaks), recovery of exactly the last commit, the result of every
  append, progress of a commit, durability of closing, queries sound and complete. Blocks: index
  and chunk files are read back; queries on a created block are exact; the descriptor is true and
  its replacement atomic; a flush keeps every answer of the head; compaction keeps exactly the
  timestamps of its inputs with the latest values, and with them the answer to every query.
  Creating, flushing and compacting also succeed when no call fails and the limits are kept, so
  none of this holds for want of a result. The querier: the results of all sources, each series
  once, nothing lost. The theorem of this theory composes them: what was committed before a crash
  is found by a query on the block written after the restart. Theorems of kind error are
  behaviours of the code that its comments or callers do not expect; the manifest lists them.

  Bounds. Loops are structural recursions or have a measure; a retried system call shortens the plan
  of failures, so it ends. Only \<open>iterate_segment\<close> of the chunk reader runs on fuel: on files of the
  writer one unit more than the number of chunks is enough, and on a malformed file no fuel is. The
  limits that theorems assume are those of the formats: segment numbers of eight digits in the
  log and of six in a block, an index file below 4 GiB (\<open>index_room\<close> bounds its size by 49 bytes a
  series, 30 a chunk, 99 a label and twice the label's text), chunk files below 2 ^ 63 bytes, label names
  without NUL in a block, series of less than 2 ^ 64 samples. Series with the empty label set and
  labels with an empty value are excluded from the block theorems (\<open>labels_findable\<close>): the index cannot
  tell them apart, which the findings describe.

  Not modelled. The smoke test (smoke.cpp) only prints. Allocation failure, apart from lengths that
  exceed what a vector can hold; threads (the code has none); changes of the directory by other
  processes; loss of data that the operating system has accepted without fsync; signed overflow, which
  is taken to wrap; failure of the status calls behind \<open>is_directory\<close>. Trivial accessors and the
  constructors that only store their arguments are the selectors and literals of the records.
\<close>

section \<open>From the log to a query\<close>

text \<open>A head opened on what a run left on the disk has the committed content.\<close>

lemma reopened_head:
  assumes run: "head_run h d g" and index: "next_index (dk_files d) < 10 ^ 8"
    and len: "\<forall>r l xs. g r = Some (l, Inr xs) \<longrightarrow> length xs < 2 ^ 64"
  shows "\<exists>h' d'. Head_open (d\<lparr>dk_faults := []\<rparr>) = (Inr h', d') \<and> store_content (h_series h') = g \<and> live_head h'"
proof -
  obtain f fg where inv: "head_inv h d f fg" and g: "g = as_stored fg" using head_run_inv [OF run] by blast
  obtain h' d' where opened: "Head_open (d\<lparr>dk_faults := []\<rparr>) = (Inr h', d')" and "store.holds (h_series h') fg"
    using head_inv_reopen [OF inv index] by (auto simp: head_inv_def)
  then have content: "store_content (h_series h') = g" using holds_content g by simp
  have "head_run h' d' (store_content (h_series h'))" by (rule run_reopen [OF run index opened])
  then have "live_head h'" using len unfolding live_head_def content by blast
  then show ?thesis using opened content by blast
qed

text \<open>Everything in the chunks a head returns is content of the head.\<close>

lemma head_chunks_sound:
  assumes live: "live_head h" and ms: "ms \<noteq> []" and sel: "head_select rm ms mint maxt h = Inr rs"
    and c: "r \<in> set rs" "c \<in> set (qr_chunks r)"
  shows "\<exists>zs ref xs. chunk_samples c = Inr zs \<and> store_content (h_series h) ref = Some (qr_labels r, Inr xs) \<and> set zs \<subseteq> set xs"
proof -
  obtain d g where run: "head_run h d g" and len: "\<forall>r l xs. store_content (h_series h) r = Some (l, Inr xs) \<longrightarrow> length xs < 2 ^ 64"
    using live by (auto simp: live_head_def)
  obtain out where out: "head_select rm ms mint maxt h = Inr out" "\<forall>q \<in> set out. \<exists>r xs ys. store_content (h_series h) r = Some (qr_labels q, Inr xs) \<and>
      chunks_samples (qr_chunks q) = Inr ys \<and> set ys \<subseteq> set xs"
    using head_select_spec [OF run ms len, of rm mint maxt] by (elim exE conjE) blast
  then have "r \<in> set out" using sel c(1) by simp
  then obtain ref xs ys where "store_content (h_series h) ref = Some (qr_labels r, Inr xs)" "chunks_samples (qr_chunks r) = Inr ys"
      "set ys \<subseteq> set xs" using out(2) by blast
  moreover have "\<exists>zs. chunk_samples c = Inr zs \<and> set zs \<subseteq> set ys" if "chunks_samples cs = Inr ys" "c \<in> set cs" for cs ys
    using that by (induction cs arbitrary: ys) (fastforce split: sum.splits)+
  ultimately show ?thesis using c(2) by blast
qed

text \<open>A chunk of an answer comes from one of the results.\<close>

lemma merges_chunk:
  assumes merges: "merges out rs" and m: "m \<in> set out" "c \<in> set (mg_chunks m)"
  shows "\<exists>r \<in> set rs. qr_labels r = mg_labels m \<and> c \<in> set (qr_chunks r)"
proof -
  have len: "length (mg_chunk_metas m) = length (mg_chunks m)"
    and pairs: "mset (merged_pairs m) = mset (concat (map result_pairs (filter (\<lambda>r. qr_labels r = mg_labels m) rs)))"
    using merges m(1) by (auto simp: merges_def)
  have "c \<in> set (map fst (merged_pairs m))" using m(2) len by simp
  then obtain x where "(c, x) \<in> set (merged_pairs m)" by auto
  then have "(c, x) \<in> set (concat (map result_pairs (filter (\<lambda>r. qr_labels r = mg_labels m) rs)))"
    unfolding mset_eq_setD [OF pairs] .
  then show ?thesis using set_zip_leftD by fastforce
qed

text \<open>A query on the block written from a head.\<close>

lemma flushed_query:
  assumes live: "live_head h" and inputs: "head_inputs (all_series (h_series h)) = Inr inputs" and limits: "block_limits inputs"
    and opened: "opened_block J blk d inputs" and walk: "walk_ok walk" and order: "order_ok order"
    and ms: "ms \<noteq> []" "\<forall>m \<in> set ms. matcher_ok m"
  shows "\<exists>out q'. Querier_select rm walk order ms mint maxt (Querier_blocks [Some (blk, d)]) = (Inr out, q') \<and>
    distinct (map mg_labels out) \<and>
    (\<forall>r l xs x. store_content (h_series h) r = Some (l, Inr xs) \<and> x \<in> set xs \<and> labels_match_all rm l ms \<and> in_range mint maxt x \<longrightarrow>
       (\<exists>m \<in> set out. mg_labels m = l \<and> (\<exists>c \<in> set (mg_chunks m). \<exists>zs. chunk_samples c = Inr zs \<and> x \<in> set zs))) \<and>
    (\<forall>m \<in> set out. labels_match_all rm (mg_labels m) ms \<and> (\<forall>c \<in> set (mg_chunks m). \<exists>zs r xs.
       chunk_samples c = Inr zs \<and> store_content (h_series h) r = Some (mg_labels m, Inr xs) \<and> set zs \<subseteq> set xs))"
proof -
  let ?q = "Querier_blocks [Some (blk, d)]"
  have total: "\<forall>src \<in> set (qy_blocks ?q). \<exists>rs. block_source rm ms mint maxt src rs" "\<forall>src \<in> set (qy_heads ?q). \<exists>rs. head_source rm ms mint maxt src rs"
    using opened_block_source(1) [OF opened ms] by (simp_all add: Querier_blocks_def)
  obtain out q' where q: "Querier_select rm walk order ms mint maxt ?q = (Inr out, q')"
    using Querier_select_total [OF ms(1) total] by blast
  obtain rs where rs: "block_source rm ms mint maxt (Some (blk, d)) rs" "merges out (concat [rs] @ concat [])"
    using Querier_select_merges [OF walk order q] by (auto simp: Querier_blocks_def list_all2_Cons1)
  have src: "list_all2 (input_of J) [Some (blk, d)] [inputs]" "list_all2 (block_source rm ms mint maxt) [Some (blk, d)] [rs]"
    using opened rs(1) by simp_all
  obtain b where b: "d = bk_chunks b" "block_serves blk b inputs" using opened_block_serves(2) [OF opened] by blast
  obtain ans blk' where ans: "Block_select rm ms mint maxt blk d = (Inr ans, blk', d)" "head_select rm ms mint maxt h = Inr (map forget_refs ans)"
    using flush_answers [OF live inputs limits b(2) ms] unfolding b(1) by blast
  have from_ans: "r \<in> set ans" if "r \<in> set rs" for r using rs(1) ans(1) that by (auto simp: source_simps split: if_splits)
  have found: "\<exists>m \<in> set out. mg_labels m = l \<and> (\<exists>c \<in> set (mg_chunks m). \<exists>zs. chunk_samples c = Inr zs \<and> x \<in> set zs)"
    if x: "store_content (h_series h) r = Some (l, Inr xs)" "x \<in> set xs" "labels_match_all rm l ms" "in_range mint maxt x" for r l xs x
  proof -
    obtain s c zs where s: "s \<in> set inputs" "si_labels s = l" "c \<in> set (si_chunks s)" "input_overlaps mint maxt c"
      "chunk_samples (from_bytes (cin_bytes c)) = Inr zs" "x \<in> set zs"
      by (rule flush_sample_input [OF live inputs ms(1) x(1,3,2,4)])
    have "\<exists>m \<in> set out. mg_labels m = si_labels s \<and> from_bytes (cin_bytes c) \<in> set (mg_chunks m)"
      using block_chunk_found [OF ms rs(2) src _ s(1) _ s(3,4)] x(3) s(2) by simp
    then show ?thesis using s(2,5,6) by blast
  qed
  have labels: "labels_match_all rm (mg_labels m) ms" if "m \<in> set out" for m
  proof -
    have "mg_labels m \<in> qr_labels ` set rs" using merges_labels [OF rs(2)] that by auto
    then show ?thesis using opened_block_source(2) [OF opened ms rs(1)] by auto
  qed
  have sound: "\<exists>zs r xs. chunk_samples c = Inr zs \<and> store_content (h_series h) r = Some (mg_labels m, Inr xs) \<and> set zs \<subseteq> set xs"
    if m: "m \<in> set out" "c \<in> set (mg_chunks m)" for m c
  proof -
    obtain r where r: "r \<in> set rs" "qr_labels r = mg_labels m" "c \<in> set (qr_chunks r)"
      using merges_chunk [OF rs(2) m] by auto
    have "forget_refs r \<in> set (map forget_refs ans)" "c \<in> set (qr_chunks (forget_refs r))"
      using from_ans [OF r(1)] r(3) by (simp_all add: forget_refs_def)
    from head_chunks_sound [OF live ms(1) ans(2) this] show ?thesis using r(2) by (auto simp: forget_refs_def)
  qed
  have "distinct (map mg_labels out)" using rs(2) by (simp add: merges_def)
  then show ?thesis using q found labels sound by (intro exI [of _ out] exI [of _ q'] conjI) blast+
qed

text \<open>The chunk with the one sample of the example, and a head recovered with it.\<close>

lemma demo_chunk:
  "chunk_run xs c a \<Longrightarrow> (xs = [] \<longrightarrow> c = XORChunk_init \<and> a = XORAppender_init) \<and>
     (xs = [(5, 7)] \<longrightarrow> chunk_bytes c = [0, 1, 10, 0, 0, 0, 0, 0, 0, 0, 7])"
proof (induction rule: chunk_run.induct)
  case (run_start a)
  then show ?case using chunk_run_start(2) by simp
next
  case (run_append xs c a t v w' a')
  have "chunk_bytes \<lparr>c_writer = w'\<rparr> = [0, 1, 10, 0, 0, 0, 0, 0, 0, 0, 7]" if "xs @ [(t, v)] = [(5, 7)]"
  proof -
    have "XorChunk.append 5 7 (c_writer XORChunk_init, XORAppender_init) = (True, w', a')" using that run_append by simp
    moreover have "(case XorChunk.append 5 7 (c_writer XORChunk_init, XORAppender_init) of (ok, w, a) \<Rightarrow> chunk_bytes \<lparr>c_writer = w\<rparr>)
        = [0, 1, 10, 0, 0, 0, 0, 0, 0, 0, 7]" by code_simp
    ultimately show ?thesis by simp
  qed
  then show ?case by simp
next
  case (run_reopen xs c a a')
  then show ?case using chunk_run_start(2) by auto
qed

lemma demo_inputs:
  assumes holds: "store.holds s [1 \<mapsto> (demo_labels, [(5, 7)])]"
  shows "head_inputs (all_series s) = Inr [demo_input]"
proof -
  let ?f = "[1 \<mapsto> (demo_labels, [(5, 7)])] :: content"
  have len: "length xs < 2 ^ 64" if "?f r = Some (l, xs)" for r l xs using that by (auto split: if_splits)
  obtain xss where xss: "list_all2 (\<lambda>s xs. ms_inv s xs \<and> length xs < 2 ^ 64) (all_series s) xss"
    and all: "\<forall>r l xs. ?f r = Some (l, xs) \<longrightarrow> (\<exists>ms. (ms, xs) \<in> set (zip (all_series s) xss) \<and> ms_labels ms = l)"
    and each: "\<forall>(ms, xs) \<in> set (zip (all_series s) xss). \<exists>r. ?f r = Some (ms_labels ms, xs)"
    using all_series_samples [OF holds] len by blast
  have each: "ms_labels ms = demo_labels \<and> xs = [(5, 7)]" if "(ms, xs) \<in> set (zip (all_series s) xss)" for ms xs
    using each that by (fastforce split: if_splits)
  have "distinct (map ms_labels (all_series s))" using all_series_distinct holds by (simp add: store.holds_def)
  moreover have "ms_labels ms = demo_labels" if ms: "ms \<in> set (all_series s)" for ms
  proof -
    obtain xs where "(ms, xs) \<in> set (zip (all_series s) xss)"
      using in_set_impl_in_set_zip1 [OF list_all2_lengthD [OF xss] ms] by blast
    then show ?thesis using each by blast
  qed
  moreover have "all_series s \<noteq> []" using all [rule_format, of 1 demo_labels "[(5, 7)]"] by auto
  ultimately obtain ms where ms: "all_series s = [ms]" "ms_labels ms = demo_labels"
    by (cases "all_series s"; cases "tl (all_series s)") auto
  then obtain xs where "xss = [xs]" using xss by (auto simp: list_all2_Cons1)
  then have inv: "ms_inv ms [(5, 7)]" using xss each [of ms xs] ms(1) by simp
  then obtain parts where parts: "concat parts = [(5, 7)]" "list_all2 chunk_ok (ms_chunks ms) parts" by (auto simp: ms_inv_def ms_parts_def)
  have "parts = [[(5, 7)]]"
  proof -
    have "\<forall>p \<in> set parts. p \<noteq> []" using list_all2_member [OF parts(2)] by (fastforce simp: chunk_ok_def)
    then show ?thesis using parts(1) by (cases parts) (auto simp: append_eq_Cons_conv)
  qed
  then obtain c where c: "ms_chunks ms = [c]" "chunk_ok c [(5, 7)]" using parts(2) by (auto simp: list_all2_Cons2)
  then have "chunk_bytes c = [0, 1, 10, 0, 0, 0, 0, 0, 0, 0, 7]" using demo_chunk by (auto simp: chunk_ok_def)
  then have "head_chunks (ms_chunks ms) = Inr (si_chunks demo_input)"
    using head_chunks_ok [of "ms_chunks ms" "[[(5, 7)]]"] c by (simp add: chunk_input_def demo_input_def)
  moreover have "ms_num_samples ms \<noteq> 0" using inv by (simp add: ms_inv_def)
  ultimately show ?thesis using ms by (simp add: demo_input_def)
qed

section \<open>Properties\<close>

text \<open>
  C1. From the log to a query. Take a run of a head (\<open>head_run\<close>) that ends in a crash, with \<open>g\<close> the
  content of its last commit. In such a run every commit returned success and satisfied
  \<open>commit_fits\<close>: its records can be decoded by their sizes, no segment number has nine digits, and no
  record starts where exactly seven bytes are left in a page. The code does not check the last
  point; a log with such a record cannot be read back, as an error theorem of \<open>WalPage\<close> shows.
  Restart, write a block from the recovered head into a fresh directory, open the block and query
  it, on a disk without failures from the restart on. Each of these four steps is shown to succeed,
  and the query finds every committed sample: each sample in range of each series that satisfies the
  matchers is in a returned chunk of its series. Every series appears once, and nothing is
  invented: all samples of all returned chunks were committed for that series. The other hypotheses
  are the limits of the block formats and the laws of the parameters.
\<close>

theorem committed_samples_queryable:
  assumes "head_run h d g" and "next_index (dk_files d) < 10 ^ 8" and "\<forall>r l xs. g r = Some (l, Inr xs) \<longrightarrow> length xs < 2 ^ 64"
    and "json_laws J" and "json_dumps J" and "st ulid = fresh_dir" and "ulid = new_ulid now r0 r1 r2"
    and "\<forall>h' d'. Head_open (d\<lparr>dk_faults := []\<rparr>) = (Inr h', d') \<longrightarrow> flush_limits h' \<and> flush_room h'"
    and "walk_ok walk" and "order_ok order" and "ms \<noteq> []" and "\<forall>m \<in> set ms. matcher_ok m"
  shows "\<exists>h' d' st' blk out q'. Head_open (d\<lparr>dk_faults := []\<rparr>) = (Inr h', d') \<and>
    create_from_head J (now, r0, r1, r2) h' st = (Inr ulid, st') \<and> Block_open J (st' ulid) = (Inr blk, st' ulid) \<and>
    Querier_select rm walk order ms mint maxt (Querier_blocks [Some (blk, bk_chunks (st' ulid))]) = (Inr out, q') \<and>
    distinct (map mg_labels out) \<and>
    (\<forall>r l xs x. g r = Some (l, Inr xs) \<and> x \<in> set xs \<and> labels_match_all rm l ms \<and> in_range mint maxt x \<longrightarrow>
       (\<exists>m \<in> set out. mg_labels m = l \<and> (\<exists>c \<in> set (mg_chunks m). \<exists>zs. chunk_samples c = Inr zs \<and> x \<in> set zs))) \<and>
    (\<forall>m \<in> set out. labels_match_all rm (mg_labels m) ms \<and> (\<forall>c \<in> set (mg_chunks m). \<exists>zs r xs.
       chunk_samples c = Inr zs \<and> g r = Some (mg_labels m, Inr xs) \<and> set zs \<subseteq> set xs))"
proof -
  obtain h' d' where opened: "Head_open (d\<lparr>dk_faults := []\<rparr>) = (Inr h', d')"
    and head: "store_content (h_series h') = g" "live_head h'"
    using reopened_head [OF assms(1-3)] by blast
  obtain inputs where inputs: "head_inputs (all_series (h_series h')) = Inr inputs"
    using head_inputs_ok [OF live_head_series [OF head(2)]] by blast
  then have limits: "block_limits inputs" "index_room inputs < 2 ^ 32"
    using assms(8) opened by (simp_all add: flush_limits_def flush_room_def)
  obtain st' m where run: "create_from_series J (now, r0, r1, r2) inputs st = (Inr ulid, st')"
    and stored: "stored_block J (st' ulid) inputs m"
    using create_stored [where st = st and ulid = ulid, OF assms(4-7) limits] by blast
  obtain blk where blk: "Block_open J (st' ulid) = (Inr blk, st' ulid)"
    by (rule stored_block_open [OF stored])
  have block: "opened_block J blk (bk_chunks (st' ulid)) inputs" unfolding opened_block_def using stored blk by blast
  have "create_from_head J (now, r0, r1, r2) h' st = (Inr ulid, st')" using run inputs by (simp add: create_from_head_def)
  then show ?thesis
    using opened blk flushed_query [where rm = rm and mint = mint and maxt = maxt, OF head(2) inputs limits(1) block assms(9-12), unfolded head(1)]
    by (intro exI [of _ h'] exI [of _ d'] exI [of _ st'] exI [of _ blk]) simp
qed

theorem committed_samples_queryable_witness:
  "\<exists>h d h' d' st' blk out q' m c zs. head_run h d [1 \<mapsto> (demo_labels, Inr [(5, 7)])] \<and>
     Head_open (d\<lparr>dk_faults := []\<rparr>) = (Inr h', d') \<and>
     create_from_head jv_ops (0, 0, 0, 0) h' (\<lambda>_. fresh_dir) = (Inr (new_ulid 0 0 0 0), st') \<and>
     Block_open jv_ops (st' (new_ulid 0 0 0 0)) = (Inr blk, st' (new_ulid 0 0 0 0)) \<and>
     Querier_select (\<lambda>_ _. False) rev (\<lambda>ts. sort_key (\<lambda>i. sint (ts ! i)) [0..<length ts]) [ex_matcher] 0 9
       (Querier_blocks [Some (blk, bk_chunks (st' (new_ulid 0 0 0 0)))]) = (Inr out, q') \<and>
     m \<in> set out \<and> mg_labels m = demo_labels \<and> c \<in> set (mg_chunks m) \<and> chunk_samples c = Inr zs \<and> (5, 7) \<in> set zs"
proof -
  obtain h d where run: "head_run h d [1 \<mapsto> (demo_labels, Inr [(5, 7)])]" "next_index (dk_files d) < 10 ^ 8"
    using demo_run by blast
  obtain f fg where inv: "head_inv h d f fg" and fg: "[1 \<mapsto> (demo_labels, Inr [(5, 7)])] = as_stored fg"
    using head_run_inv [OF run(1)] by blast
  have "fg = [1 \<mapsto> (demo_labels, [(5, 7)])]"
  proof
    fix r show "fg r = [1 \<mapsto> (demo_labels, [(5, 7)])] r"
      using fun_cong [OF fg, of r] by (cases "fg r") (auto simp: as_stored_def split: if_splits)
  qed
  then have "head_inputs (all_series (h_series h')) = Inr [demo_input]"
    if "Head_open (d\<lparr>dk_faults := []\<rparr>) = (Inr h', d')" for h' d'
    using head_inv_reopen [OF inv run(2)] that demo_inputs by (auto simp: head_inv_def)
  then have limits: "\<forall>h' d'. Head_open (d\<lparr>dk_faults := []\<rparr>) = (Inr h', d') \<longrightarrow> flush_limits h' \<and> flush_room h'"
    using demo_limits demo_room by (simp add: flush_limits_def flush_room_def)
  have ms: "[ex_matcher] \<noteq> []" "\<forall>m \<in> set [ex_matcher]. matcher_ok m"
    by (simp_all add: matcher_ok_def not_equal_def plain_name_def char_of_def)
  let ?g = "[1 \<mapsto> (demo_labels, Inr [(5, 7)])] :: stored" and ?rm = "\<lambda>_ _. False :: bool" and ?ulid = "new_ulid 0 0 0 0"
  have small: "\<forall>r l xs. ?g r = Some (l, Inr xs) \<longrightarrow> length xs < 2 ^ 64" by (auto split: if_splits)
  obtain h' d' st' blk out q' where q: "Head_open (d\<lparr>dk_faults := []\<rparr>) = (Inr h', d')"
      "create_from_head jv_ops (0, 0, 0, 0) h' (\<lambda>_. fresh_dir) = (Inr ?ulid, st')" "Block_open jv_ops (st' ?ulid) = (Inr blk, st' ?ulid)"
      "Querier_select ?rm rev (\<lambda>ts. sort_key (\<lambda>i. sint (ts ! i)) [0..<length ts]) [ex_matcher] 0 9
         (Querier_blocks [Some (blk, bk_chunks (st' ?ulid))]) = (Inr out, q')"
    and found: "\<forall>r l xs x. ?g r = Some (l, Inr xs) \<and> x \<in> set xs \<and> labels_match_all ?rm l [ex_matcher] \<and> in_range 0 9 x \<longrightarrow>
       (\<exists>m \<in> set out. mg_labels m = l \<and> (\<exists>c \<in> set (mg_chunks m). \<exists>zs. chunk_samples c = Inr zs \<and> x \<in> set zs))"
    using committed_samples_queryable [of h d ?g jv_ops "\<lambda>_. fresh_dir" ?ulid 0 0 0 0, OF run small jv_laws jv_dumps refl refl
        limits ex_walk ex_order ms, of ?rm 0 9]
    by (elim exE conjE) (rule that)
  have "labels_match_all ?rm demo_labels [ex_matcher]" "in_range 0 9 (5, 7)"
    by (simp_all add: get_mk_labels last_value_def value_or_empty_def in_range_def)
  then obtain m c zs where "m \<in> set out" "mg_labels m = demo_labels" "c \<in> set (mg_chunks m)" "chunk_samples c = Inr zs" "(5, 7) \<in> set zs"
    using found [rule_format, of 1 demo_labels "[(5, 7)]" "(5, 7)"] by auto
  then show ?thesis using run(1) q
    by (intro exI [of _ h] exI [of _ d] exI [of _ h'] exI [of _ d'] exI [of _ st'] exI [of _ blk]
        exI [of _ out] exI [of _ q'] exI [of _ m] exI [of _ c] exI [of _ zs]) simp
qed

end
